(* ===== verification/Prelude.thy ===== *)
theory Prelude
  imports Complex_Main "HOL-Library.Char_ord" "HOL-Library.List_Lexorder" "HOL-Library.Multiset"
begin

text \<open>
  Shared vocabulary of the development: time, identifiers, JSON blobs, the exceptions the
  services raise, and the few relational operations (\<open>QuerySet.filter/update/count\<close>,
  ordered slices) through which every component reads and writes its tables.
  A table is a list of rows in insertion order; \<open>update\<close> rewrites the matching rows in
  place and \<open>bulk_create\<close> appends.
\<close>

subsection \<open>Types shared by every component\<close>

text \<open>An aware datetime is a count of microseconds since the epoch (UTC), the resolution of
  Python's \<open>datetime\<close>; a \<open>timedelta(seconds=n)\<close> is \<open>seconds n\<close>.\<close>

type_synonym datetime = int
type_synonym ulid = string

definition seconds :: "int \<Rightarrow> int" where
  "seconds n = n * 1000000"

definition days :: "int \<Rightarrow> int" where
  "days n = seconds (n * 86400)"

text \<open>The opaque JSON blobs carried by rows.\<close>

datatype json =
    JNull
  | JBool bool
  | JInt int
  | JFloat rat
  | JStr string
  | JArr "json list"
  | JObj "(string \<times> json) list"

text \<open>Exceptions that cross a function boundary of the modelled code.\<close>

datatype exn =
    DoesNotExist
  | ValueError
  | KeyError
  | ValidationError
  | PolicyError
  | SourceWatermarkError
  | ConcurrentChainError
  | ConcurrentSetSourcesError
  | IntegrityError
  | DatabaseError
  | RuntimeError
  | AssertionError
  | AttributeError
  | HTTPError
  | ConnectionError
  | ConnectorParseError
  | UnexpectedError

type_synonym 'a result = "exn + 'a"

definition res_bind :: "'a result \<Rightarrow> ('a \<Rightarrow> 'b result) \<Rightarrow> 'b result" where
  "res_bind r f = (case r of Inl e \<Rightarrow> Inl e | Inr x \<Rightarrow> f x)"

lemma res_bind_simps [simp]:
  "res_bind (Inl e) f = Inl e"
  "res_bind (Inr x) f = f x"
  by (simp_all add: res_bind_def)

lemma res_bind_Inr_iff: "res_bind r f = Inr y \<longleftrightarrow> (\<exists>x. r = Inr x \<and> f x = Inr y)"
  by (cases r) auto

text \<open>Proof collections: what an operation does to the rows of a table (\<open>table_simps\<close>),
  and the frame facts "this operation leaves that table alone" (\<open>frame_simps\<close>).\<close>

named_theorems table_simps
named_theorems frame_simps

subsection \<open>Relational operations\<close>

definition qupdate :: "('r \<Rightarrow> bool) \<Rightarrow> ('r \<Rightarrow> 'r) \<Rightarrow> 'r list \<Rightarrow> 'r list" where
  "qupdate P f t = map (\<lambda>x. if P x then f x else x) t"

definition qcount :: "('r \<Rightarrow> bool) \<Rightarrow> 'r list \<Rightarrow> nat" where
  "qcount P t = length (filter P t)"

definition qdelete :: "('r \<Rightarrow> bool) \<Rightarrow> 'r list \<Rightarrow> 'r list" where
  "qdelete P t = filter (\<lambda>x. \<not> P x) t"

definition qfirst :: "('r \<Rightarrow> bool) \<Rightarrow> 'r list \<Rightarrow> 'r option" where
  "qfirst P t = List.find P t"

definition qget :: "('r \<Rightarrow> bool) \<Rightarrow> 'r list \<Rightarrow> 'r result" where
  "qget P t = (case qfirst P t of None \<Rightarrow> Inl DoesNotExist | Some x \<Rightarrow> Inr x)"

definition first_row :: "'r list \<Rightarrow> 'r option" where
  "first_row t = (case t of [] \<Rightarrow> None | x # _ \<Rightarrow> Some x)"

text \<open>\<open>save(update_fields=[...])\<close> of a row that is gone raises.\<close>

definition save_row :: "('r \<Rightarrow> bool) \<Rightarrow> ('r \<Rightarrow> 'r) \<Rightarrow> 'r list \<Rightarrow> 'r list result" where
  "save_row P f t = (if qcount P t = 0 then Inl DatabaseError else Inr (qupdate P f t))"

lemma qupdate_Nil [simp]: "qupdate P f [] = []"
  by (simp add: qupdate_def)

lemma qupdate_Cons [simp]:
  "qupdate P f (x # t) = (if P x then f x else x) # qupdate P f t"
  by (simp add: qupdate_def)

lemma qupdate_append [simp]: "qupdate P f (s @ t) = qupdate P f s @ qupdate P f t"
  by (simp add: qupdate_def)

lemma length_qupdate [simp]: "length (qupdate P f t) = length t"
  by (simp add: qupdate_def)

lemma set_qupdate: "set (qupdate P f t) = (\<lambda>x. if P x then f x else x) ` set t"
  by (simp add: qupdate_def)

lemma map_qupdate: "(\<And>x. P x \<Longrightarrow> g (f x) = g x) \<Longrightarrow> map g (qupdate P f t) = map g t"
  by (simp add: qupdate_def)

lemma qupdate_id: "(\<And>x. x \<in> set t \<Longrightarrow> \<not> P x) \<Longrightarrow> qupdate P f t = t"
  by (induction t) (auto simp: qupdate_def)

lemma qupdate_cong:
  "(\<And>x. x \<in> set t \<Longrightarrow> P x = Q x) \<Longrightarrow> (\<And>x. x \<in> set t \<Longrightarrow> P x \<Longrightarrow> f x = g x) \<Longrightarrow>
   qupdate P f t = qupdate Q g t"
  by (induction t) (auto simp: qupdate_def)

lemma list_all_qupdate:
  "list_all Q t \<Longrightarrow> (\<And>x. Q x \<Longrightarrow> P x \<Longrightarrow> Q (f x)) \<Longrightarrow> list_all Q (qupdate P f t)"
  by (auto simp: list_all_iff set_qupdate)

lemma qcount_0_iff: "qcount P t = 0 \<longleftrightarrow> (\<forall>x\<in>set t. \<not> P x)"
  by (auto simp: qcount_def filter_empty_conv)

lemma qcount_Nil [simp]: "qcount P [] = 0"
  by (simp add: qcount_def)

lemma qcount_Cons [simp]: "qcount P (x # t) = (if P x then Suc (qcount P t) else qcount P t)"
  by (simp add: qcount_def)

lemma qcount_append [simp]: "qcount P (s @ t) = qcount P s + qcount P t"
  by (simp add: qcount_def)

lemma qcount_cong: "(\<And>x. x \<in> set t \<Longrightarrow> P x = Q x) \<Longrightarrow> qcount P t = qcount Q t"
  by (induction t) auto

lemma qcount_split: "qcount P t = qcount (\<lambda>x. P x \<and> Q x) t + qcount (\<lambda>x. P x \<and> \<not> Q x) t"
  by (induction t) auto

lemma qcount_qupdate: "qcount Q (qupdate P f t) = qcount (\<lambda>x. if P x then Q (f x) else Q x) t"
  by (induction t) auto

lemma qcount_qdelete: "qcount Q (qdelete P t) = qcount (\<lambda>x. Q x \<and> \<not> P x) t"
  by (induction t) (auto simp: qdelete_def)

lemma qfirst_Some: "qfirst P t = Some x \<Longrightarrow> x \<in> set t \<and> P x"
  by (auto simp: qfirst_def find_Some_iff)

lemma qfirst_None: "qfirst P t = None \<longleftrightarrow> (\<forall>x\<in>set t. \<not> P x)"
  by (auto simp: qfirst_def find_None_iff)

lemma qfirst_Nil [simp]: "qfirst P [] = None"
  by (simp add: qfirst_def)

lemma qfirst_Cons [simp]: "qfirst P (x # t) = (if P x then Some x else qfirst P t)"
  by (simp add: qfirst_def)

lemma qget_Inr: "qget P t = Inr x \<Longrightarrow> x \<in> set t \<and> P x"
  by (auto simp: qget_def split: option.splits dest: qfirst_Some)

lemma qget_Inl: "qget P t = Inl e \<longleftrightarrow> e = DoesNotExist \<and> (\<forall>x\<in>set t. \<not> P x)"
  by (auto simp: qget_def qfirst_None split: option.splits dest: qfirst_Some)

lemma set_qdelete [simp]: "set (qdelete P t) = {x \<in> set t. \<not> P x}"
  by (auto simp: qdelete_def)

lemma qdelete_cong: "(\<And>x. x \<in> set t \<Longrightarrow> P x = Q x) \<Longrightarrow> qdelete P t = qdelete Q t"
  unfolding qdelete_def by (intro filter_cong) auto

lemma qdelete_none: "(\<And>x. x \<in> set t \<Longrightarrow> \<not> P x) \<Longrightarrow> qdelete P t = t"
  by (simp add: qdelete_def filter_id_conv)

text \<open>A row identified by its key: with distinct keys, a keyed update touches one row.\<close>

lemma distinct_key_unique:
  assumes "distinct (map k t)" "x \<in> set t" "y \<in> set t" "k x = k y"
  shows "x = y"
  using assms by (simp add: distinct_map inj_on_def)

lemma qcount_distinct_key:
  assumes "distinct (map k t)"
  shows "qcount (\<lambda>x. k x = i \<and> P x) t = (if \<exists>x\<in>set t. k x = i \<and> P x then 1 else 0)"
  using assms
proof (induction t)
  case (Cons a t)
  show ?case
  proof (cases "k a = i \<and> P a")
    case True
    with Cons.prems have "\<forall>x\<in>set t. \<not> (k x = i \<and> P x)" by (auto simp: image_iff)
    then have "qcount (\<lambda>x. k x = i \<and> P x) t = 0" by (simp add: qcount_0_iff)
    with True show ?thesis by simp
  next
    case False
    with Cons show ?thesis by auto
  qed
qed simp

lemma qfirst_distinct_key:
  assumes "distinct (map k t)" "x \<in> set t" "P x" "\<And>y. y \<in> set t \<Longrightarrow> P y \<Longrightarrow> k y = k x"
  shows "qfirst P t = Some x"
proof (cases "qfirst P t")
  case None
  with assms(2,3) show ?thesis by (simp add: qfirst_None)
next
  case (Some y)
  then have y: "y \<in> set t" "P y" by (auto dest: qfirst_Some)
  then have "k y = k x" by (rule assms(4))
  with assms(1,2) y(1) have "y = x" by (metis distinct_key_unique)
  with Some show ?thesis by simp
qed

subsection \<open>Ordered slices\<close>

text \<open>\<open>order_by(k)[:n]\<close>; rows with equal keys keep their stored order.\<close>

definition order_by :: "('r \<Rightarrow> 'k::linorder) \<Rightarrow> 'r list \<Rightarrow> 'r list" where
  "order_by k t = sort_key k t"

lemma set_order_by [simp]: "set (order_by k t) = set t"
  by (simp add: order_by_def)

lemma length_order_by [simp]: "length (order_by k t) = length t"
  by (simp add: order_by_def)

lemma sorted_order_by: "sorted (map k (order_by k t))"
  by (simp add: order_by_def)

lemma distinct_order_by [simp]: "distinct (map g (order_by k t)) = distinct (map g t)"
proof -
  have "mset (map g (order_by k t)) = mset (map g t)"
    by (simp add: order_by_def mset_map)
  then show ?thesis by (metis mset_eq_imp_distinct_iff)
qed

lemma order_by_Nil_iff [simp]: "order_by k t = [] \<longleftrightarrow> t = []"
  by (metis length_0_conv length_order_by)

lemma order_by_unique:
  "mset xs = mset ys \<Longrightarrow> inj_on k (set xs) \<Longrightarrow> sorted (map k ys) \<Longrightarrow> order_by k xs = ys"
  unfolding order_by_def by (rule sort_key_inj_key_eq)

lemma sorted_take_le_drop:
  "sorted xs \<Longrightarrow> x \<in> set (take n xs) \<Longrightarrow> y \<in> set (drop n xs) \<Longrightarrow> x \<le> y"
  by (metis append_take_drop_id sorted_append)

subsection \<open>itertools.batched, dict.fromkeys\<close>

text \<open>\<open>itertools.batched(xs, n, strict=False)\<close>; \<open>n\<close> is one of the chunk constants,
  so \<open>batched 0\<close> never runs (Python raises there; here the whole list is one batch).\<close>

function batched :: "nat \<Rightarrow> 'a list \<Rightarrow> 'a list list" where
  "batched n xs =
     (if xs = [] then [] else if n = 0 then [xs] else take n xs # batched n (drop n xs))"
  by pat_completeness auto
termination
  by (relation "measure (\<lambda>(n, xs). length xs)") auto

declare batched.simps [simp del]

lemma batched_Nil [simp]: "batched n [] = []"
  by (simp add: batched.simps)

lemma concat_batched [simp]: "concat (batched n xs) = xs"
proof (induction n xs rule: batched.induct)
  case (1 n xs)
  then show ?case by (subst batched.simps) auto
qed

lemma batched_length: "0 < n \<Longrightarrow> c \<in> set (batched n xs) \<Longrightarrow> 0 < length c \<and> length c \<le> n"
proof (induction n xs rule: batched.induct)
  case (1 n xs)
  show ?case
  proof (cases "xs = []")
    case True
    with "1.prems" show ?thesis by simp
  next
    case False
    with "1.prems" have "c = take n xs \<or> c \<in> set (batched n (drop n xs))"
      by (subst (asm) batched.simps) auto
    with "1.IH" "1.prems"(1) False show ?thesis by auto
  qed
qed

text \<open>\<open>list(dict.fromkeys(xs))\<close>: first occurrences, in order.\<close>

fun dedupe :: "'a list \<Rightarrow> 'a list" where
  "dedupe [] = []"
| "dedupe (x # xs) = x # filter (\<lambda>y. y \<noteq> x) (dedupe xs)"

lemma set_dedupe [simp]: "set (dedupe xs) = set xs"
  by (induction xs) auto

lemma distinct_dedupe [simp]: "distinct (dedupe xs)"
  by (induction xs) auto

lemma dedupe_distinct: "distinct xs \<Longrightarrow> dedupe xs = xs"
proof (induction xs)
  case (Cons x xs)
  then show ?case by (simp add: filter_id_conv) metis
qed simp

end
