(* ===== verification/Watch_Enums.thy ===== *)
theory Watch_Enums
  imports Prelude
begin

text \<open>
  The discriminator enums of \<open>openmagpie_schema/watch_enums.py\<close> with their state
  classification, the operator-facing messages of \<open>watches/run_messages.py\<close>, the
  tunables of \<open>conf/settings/base.py\<close>, and the \<open>completed_at\<close> rule of
  \<open>services/runs/_common.py\<close>.
\<close>

subsection \<open>Enums\<close>

datatype run_state =
    PENDING | RUNNING | SUCCEEDED | GATED | FAILED | ERRORED | SKIPPED

datatype delivery_state =
    DELIVERY_PENDING | DELIVERY_SUCCEEDED | DELIVERY_ERRORED | DELIVERY_FAILED

datatype backfill_state =
    BACKFILL_PENDING | BACKFILL_RUNNING | BACKFILL_DONE | BACKFILL_FAILED

datatype cadence = INSTANT | DIGEST

datatype webhook_method = POST | PUT | PATCH

definition KIND_SEMANTIC_FILTER :: string where "KIND_SEMANTIC_FILTER = ''semantic_filter''"
definition KIND_EXTRACT :: string where "KIND_EXTRACT = ''extract''"
definition KIND_WEBHOOK :: string where "KIND_WEBHOOK = ''webhook''"
definition KIND_LOG :: string where "KIND_LOG = ''log''"

definition BUILTIN_ACTION_KINDS :: "string list" where
  "BUILTIN_ACTION_KINDS = [KIND_SEMANTIC_FILTER, KIND_EXTRACT, KIND_WEBHOOK, KIND_LOG]"

lemmas kind_defs = KIND_SEMANTIC_FILTER_def KIND_EXTRACT_def KIND_WEBHOOK_def KIND_LOG_def

text \<open>The state classification.\<close>

definition BACKLOG_STATES :: "run_state list" where
  "BACKLOG_STATES = [PENDING, RUNNING]"

definition CLAIMABLE_STATES :: "run_state list" where
  "CLAIMABLE_STATES = [PENDING, FAILED]"

definition TERMINAL_STATES :: "run_state list" where
  "TERMINAL_STATES = [SUCCEEDED, GATED, ERRORED, SKIPPED]"

definition BACKFILL_CLAIMABLE_STATES :: "backfill_state list" where
  "BACKFILL_CLAIMABLE_STATES = [BACKFILL_PENDING, BACKFILL_FAILED]"

lemma claimable_iff [simp]: "s \<in> set CLAIMABLE_STATES \<longleftrightarrow> s = PENDING \<or> s = FAILED"
  by (auto simp: CLAIMABLE_STATES_def)

lemma terminal_iff [simp]:
  "s \<in> set TERMINAL_STATES \<longleftrightarrow> s = SUCCEEDED \<or> s = GATED \<or> s = ERRORED \<or> s = SKIPPED"
  by (auto simp: TERMINAL_STATES_def)

lemma backlog_iff [simp]: "s \<in> set BACKLOG_STATES \<longleftrightarrow> s = PENDING \<or> s = RUNNING"
  by (auto simp: BACKLOG_STATES_def)

lemma backfill_claimable_iff [simp]:
  "s \<in> set BACKFILL_CLAIMABLE_STATES \<longleftrightarrow> s = BACKFILL_PENDING \<or> s = BACKFILL_FAILED"
  by (auto simp: BACKFILL_CLAIMABLE_STATES_def)

text \<open>The lifecycle order of the run states, the key by which the drain's breakdown sorts
  (\<open>_STATE_ORDER\<close> of \<open>process_due_runs.py\<close>).\<close>

fun state_order :: "run_state \<Rightarrow> nat" where
  "state_order PENDING = 0"
| "state_order RUNNING = 1"
| "state_order SUCCEEDED = 2"
| "state_order GATED = 3"
| "state_order FAILED = 4"
| "state_order ERRORED = 5"
| "state_order SKIPPED = 6"

lemma state_order_inj: "state_order s = state_order t \<Longrightarrow> s = t"
  by (cases s; cases t) simp_all

instantiation run_state :: linorder
begin

definition less_eq_run_state :: "run_state \<Rightarrow> run_state \<Rightarrow> bool" where
  "less_eq_run_state s t \<longleftrightarrow> state_order s \<le> state_order t"

definition less_run_state :: "run_state \<Rightarrow> run_state \<Rightarrow> bool" where
  "less_run_state s t \<longleftrightarrow> state_order s < state_order t"

instance
  by standard (auto simp: less_eq_run_state_def less_run_state_def intro: state_order_inj)

end

subsection \<open>Messages\<close>

text \<open>Operator-facing error texts; the model keeps them as constants of the same names.\<close>

definition ACTION_GONE :: string where
  "ACTION_GONE = ''This action was removed before the item could be processed.''"
definition ITEM_GONE :: string where
  "ITEM_GONE = ''The source item is no longer available (it may have aged out of retention).''"
definition NO_EXECUTOR :: string where
  "NO_EXECUTOR = ''This action type can't be run by the current server.''"
definition ITEM_UNREADABLE :: string where
  "ITEM_UNREADABLE = ''The source item couldn't be read (its stored format is no longer recognized).''"
definition CONFIG_INVALID :: string where
  "CONFIG_INVALID = ''This action's configuration is invalid and can't be run.''"
definition RESULT_INVALID :: string where
  "RESULT_INVALID = ''The action produced a result that doesn't match its registered result schema.''"
definition ENGINE_UNAVAILABLE :: string where
  "ENGINE_UNAVAILABLE = ''The configured engine isn't available on this server.''"
definition ENGINE_REJECTED :: string where
  "ENGINE_REJECTED = ''The LLM rejected the request as misconfigured (verify ENGINE_BASE_URL, ENGINE_MODEL, and ENGINE_API_KEY on the server).''"
definition WEBHOOK_BLOCKED :: string where
  "WEBHOOK_BLOCKED = ''The webhook destination is not allowed by server policy.''"
definition WEBHOOK_REJECTED :: string where
  "WEBHOOK_REJECTED = ''The webhook endpoint rejected the request (check the URL and credentials).''"
definition WEBHOOK_REDIRECT :: string where
  "WEBHOOK_REDIRECT = ''The webhook endpoint returned a redirect; point the URL at its final destination.''"
definition TRANSIENT :: string where
  "TRANSIENT = ''A temporary problem occurred while running this action; it will be retried.''"
definition TIMED_OUT :: string where
  "TIMED_OUT = ''The run exceeded its time limit and was reset to retry.''"
definition TIMED_OUT_EXHAUSTED :: string where
  "TIMED_OUT_EXHAUSTED = ''The run repeatedly timed out and has exhausted its retry attempts.''"
definition TRANSIENT_EXHAUSTED :: string where
  "TRANSIENT_EXHAUSTED = ''This item repeatedly failed to deliver and has exhausted its retry attempts.''"
definition BACKFILL_TARGET_GONE :: string where
  "BACKFILL_TARGET_GONE = ''The target action was removed before the backfill could run.''"
definition BACKFILL_WATCH_GONE :: string where
  "BACKFILL_WATCH_GONE = ''The watch was removed before the backfill could run.''"
definition BACKFILL_TIMED_OUT :: string where
  "BACKFILL_TIMED_OUT = ''The backfill exceeded its time limit and was reset to retry.''"
definition BACKFILL_TIMED_OUT_EXHAUSTED :: string where
  "BACKFILL_TIMED_OUT_EXHAUSTED = ''The backfill repeatedly timed out and has exhausted its retry attempts.''"

lemma timed_out_messages_differ: "TIMED_OUT \<noteq> TIMED_OUT_EXHAUSTED"
  by (simp add: TIMED_OUT_def TIMED_OUT_EXHAUSTED_def)

subsection \<open>Tunables\<close>

record settings =
  WATCH_RUN_MAX_ATTEMPTS :: nat
  WATCH_RUN_STALE_SECONDS :: int
  WATCH_BACKFILL_MAX_ATTEMPTS :: nat
  WATCH_BACKFILL_STALE_SECONDS :: int
  DIGEST_MIN_INTERVAL_SECONDS :: int
  DIGEST_MAX_INTERVAL_SECONDS :: int
  DIGEST_MAX_BATCH_ITEMS :: nat
  WEBHOOK_REQUIRE_HTTPS :: bool
  WEBHOOK_BLOCK_PRIVATE_IPS :: bool

text \<open>The shipped defaults of the watch tunables (the environment overrides nothing).\<close>

definition default_settings :: settings where
  "default_settings =
     \<lparr>WATCH_RUN_MAX_ATTEMPTS = 3, WATCH_RUN_STALE_SECONDS = 600,
      WATCH_BACKFILL_MAX_ATTEMPTS = 3, WATCH_BACKFILL_STALE_SECONDS = 900,
      DIGEST_MIN_INTERVAL_SECONDS = 60, DIGEST_MAX_INTERVAL_SECONDS = 7 * 86400,
      DIGEST_MAX_BATCH_ITEMS = 500,
      WEBHOOK_REQUIRE_HTTPS = False, WEBHOOK_BLOCK_PRIVATE_IPS = False\<rparr>"

definition ENQUEUE_CHUNK :: nat where "ENQUEUE_CHUNK = 500"
definition ID_IN_CHUNK :: nat where "ID_IN_CHUNK = 500"

subsection \<open>When a run is done\<close>

text \<open>\<open>completion_ts\<close>: a run is stamped iff it rests in a terminal state, where a
  \<open>FAILED\<close> run is terminal only once its attempts are exhausted.\<close>

definition completion_ts :: "settings \<Rightarrow> run_state \<Rightarrow> nat \<Rightarrow> datetime \<Rightarrow> datetime option" where
  "completion_ts cfg state attempts now =
     (if state \<in> set TERMINAL_STATES \<or> (state = FAILED \<and> WATCH_RUN_MAX_ATTEMPTS cfg \<le> attempts)
      then Some now else None)"

end
