(* ===== verification/Tables.thy ===== *)
theory Tables
  imports Watch_Enums
begin

text \<open>
  The rows of the tables (\<open>watches/models/*.py\<close>, \<open>feeds/models/*.py\<close>) and the database
  record that holds them. A nullable column is an option; a blank string stays a blank
  string. \<open>created_at\<close>/\<open>updated_at\<close> stamps, which no modelled branch reads, are left out.
  Identifiers come from a generator \<open>gen\<close> (the ULID library) applied to a counter; lemmas
  that need fresh identifiers assume \<open>inj gen\<close>.
\<close>

subsection \<open>Rows\<close>

record run =
  run_id :: ulid
  run_account :: ulid
  run_watch :: ulid
  run_action :: ulid
  run_kind :: string
  run_item :: ulid
  run_state :: run_state
  run_scheduled :: "datetime option"
  run_started :: "datetime option"
  run_completed :: "datetime option"
  run_result :: json
  run_error :: string
  run_attempts :: nat
  run_prior :: ulid
  run_delivery :: ulid

record window =
  win_account :: ulid
  win_action :: ulid
  win_close :: "datetime option"

record delivery =
  dl_id :: ulid
  dl_account :: ulid
  dl_watch :: ulid
  dl_action :: ulid
  dl_cadence :: cadence
  dl_method :: string
  dl_host :: string
  dl_state :: delivery_state
  dl_http_status :: "int option"
  dl_item_count :: nat
  dl_attempt :: nat
  dl_payload :: json
  dl_error :: string
  dl_started :: "datetime option"
  dl_completed :: "datetime option"

record watch =
  w_id :: ulid
  w_account :: ulid
  w_user :: ulid
  w_name :: string
  w_active :: bool
  w_path :: ulid

record path =
  path_id :: ulid
  path_account :: ulid
  path_watch :: ulid

record action =
  act_id :: ulid
  act_account :: ulid
  act_path :: ulid
  act_kind :: string
  act_config :: json
  act_rank :: nat

record watch_feed =
  wf_id :: ulid
  wf_account :: ulid
  wf_watch :: ulid
  wf_feed :: ulid
  wf_last_item :: ulid

record backfill =
  bf_id :: ulid
  bf_account :: ulid
  bf_watch :: ulid
  bf_target :: ulid
  bf_source :: ulid
  bf_source_is_head :: bool
  bf_kind :: string
  bf_replace :: bool
  bf_occurred_since :: "datetime option"
  bf_occurred_until :: "datetime option"
  bf_completed_since :: "datetime option"
  bf_completed_until :: "datetime option"
  bf_state :: backfill_state
  bf_matched :: int
  bf_present :: int
  bf_pruned :: int
  bf_deleted :: int
  bf_enqueued :: int
  bf_replace_deleted :: "datetime option"
  bf_scheduled :: "datetime option"
  bf_started :: "datetime option"
  bf_completed :: "datetime option"
  bf_error :: string
  bf_attempts :: nat

record feed =
  feed_id :: ulid
  feed_account :: ulid
  feed_user :: ulid
  feed_kind :: string
  feed_name :: string
  feed_active :: bool
  feed_interval :: nat
  feed_last_polled :: "datetime option"
  feed_next_poll :: "datetime option"
  feed_data :: json

record item =
  item_id :: ulid
  item_account :: ulid
  item_feed :: ulid
  item_source_kind :: string
  item_external :: string
  item_label :: string
  item_meta :: json
  item_occurred :: "datetime option"
  item_data :: json

text \<open>A dict of strings (\<open>meta\<close>, \<open>field_map\<close>) is an association list with distinct keys.\<close>

type_synonym str_dict = "(string \<times> string) list"

record source =
  src_id :: ulid
  src_account :: ulid
  src_feed :: ulid
  src_kind :: string
  src_spec :: json
  src_hash :: string
  src_last_event :: "datetime option"
  src_meta :: str_dict
  src_field_map :: str_dict

subsection \<open>The database\<close>

record db =
  t_runs :: "run list"
  t_windows :: "window list"
  t_deliveries :: "delivery list"
  t_watches :: "watch list"
  t_paths :: "path list"
  t_actions :: "action list"
  t_watch_feeds :: "watch_feed list"
  t_backfills :: "backfill list"
  t_feeds :: "feed list"
  t_sources :: "source list"
  t_items :: "item list"
  next_id :: nat

definition empty_db :: db where
  "empty_db = \<lparr>t_runs = [], t_windows = [], t_deliveries = [], t_watches = [], t_paths = [],
     t_actions = [], t_watch_feeds = [], t_backfills = [], t_feeds = [], t_sources = [], t_items = [],
     next_id = 0\<rparr>"

text \<open>The next \<open>n\<close> identifiers, and the counter past them.\<close>

definition fresh_ids :: "(nat \<Rightarrow> ulid) \<Rightarrow> db \<Rightarrow> nat \<Rightarrow> ulid list" where
  "fresh_ids gen d n = map gen [next_id d..<next_id d + n]"

lemma length_fresh_ids [simp]: "length (fresh_ids gen d n) = n"
  by (simp add: fresh_ids_def)

lemma distinct_fresh_ids: "inj gen \<Longrightarrow> distinct (fresh_ids gen d n)"
  by (simp add: fresh_ids_def distinct_map inj_on_def)

text \<open>Every identifier in use was drawn from the generator before the counter.\<close>

definition id_used :: "(nat \<Rightarrow> ulid) \<Rightarrow> nat \<Rightarrow> ulid \<Rightarrow> bool" where
  "id_used gen n i \<longleftrightarrow> i \<in> gen ` {..<n}"

lemma id_used_mono: "id_used gen n i \<Longrightarrow> n \<le> m \<Longrightarrow> id_used gen m i"
  by (auto simp: id_used_def)

lemma fresh_ids_unused: "inj gen \<Longrightarrow> i \<in> set (fresh_ids gen d n) \<Longrightarrow> \<not> id_used gen (next_id d) i"
  by (auto simp: fresh_ids_def id_used_def) (metis injD not_less)

lemma fresh_ids_used: "i \<in> set (fresh_ids gen d n) \<Longrightarrow> id_used gen (next_id d + n) i"
  by (auto simp: fresh_ids_def id_used_def)

text \<open>The conditions \<open>col__gte\<close>, \<open>col__lt\<close>, \<open>col__lte\<close> on a nullable column: NULL fails.\<close>

definition ge_col :: "datetime option \<Rightarrow> datetime \<Rightarrow> bool" where
  "ge_col c t = (case c of None \<Rightarrow> False | Some x \<Rightarrow> t \<le> x)"
definition lt_col :: "datetime option \<Rightarrow> datetime \<Rightarrow> bool" where
  "lt_col c t = (case c of None \<Rightarrow> False | Some x \<Rightarrow> x < t)"
definition le_col :: "datetime option \<Rightarrow> datetime \<Rightarrow> bool" where
  "le_col c t = (case c of None \<Rightarrow> False | Some x \<Rightarrow> x \<le> t)"

lemma col_simps [simp]:
  "\<not> ge_col None t" "\<not> lt_col None t" "\<not> le_col None t"
  "ge_col (Some x) t \<longleftrightarrow> t \<le> x" "lt_col (Some x) t \<longleftrightarrow> x < t" "le_col (Some x) t \<longleftrightarrow> x \<le> t"
  by (simp_all add: ge_col_def lt_col_def le_col_def)

text \<open>An optional \<open>[since, until)\<close> bound on a nullable column.\<close>

definition in_window :: "datetime option \<Rightarrow> datetime option \<Rightarrow> datetime option \<Rightarrow> bool" where
  "in_window since until c \<longleftrightarrow>
     (case since of None \<Rightarrow> True | Some s \<Rightarrow> ge_col c s) \<and>
     (case until of None \<Rightarrow> True | Some u \<Rightarrow> lt_col c u)"

lemma in_window_None [simp]: "in_window None None c"
  by (simp add: in_window_def)

end
