(* ===== verification/Cas_Queue.thy ===== *)
theory Cas_Queue
  imports Prelude
begin

text \<open>
  The contract of a compare-and-swap work queue, which three tables of the program follow:
  the watch-action runs, the backfill jobs and the outbound emails. A worker claims a row by
  a conditional UPDATE that burns an attempt, works outside any transaction on its in-memory
  copy, and writes the outcome by a second conditional UPDATE keyed on (running, attempts).
  A reaper resets rows whose worker is presumed dead (\<open>reap\<close> stands for every write that
  touches busy rows only and keeps their attempts). \<open>cas_step\<close> interleaves any number of
  such workers, crashes, deletions and reaps; the locale \<open>cas_queue\<close> states what the
  operations of a table must satisfy, and its lemmas what then holds in every reachable
  state. The interpretations are in the theories of the three tables.
\<close>

subsection \<open>Interleavings of workers on one table\<close>

text \<open>\<open>cq_held\<close> are the claimed rows in the memory of workers that have not written yet;
  \<open>cq_won\<close>, \<open>cq_taken\<close> and \<open>cq_used\<close> are ghost logs: keys whose successful outcome was
  committed, keys claimed, keys ever inserted (a ULID is never reused).\<close>

record 'r cas_state =
  cq_tbl :: "'r list"
  cq_held :: "'r list"
  cq_won :: "string list"
  cq_taken :: "string list"
  cq_used :: "string list"

definition cas_init :: "'r cas_state" where
  "cas_init = \<lparr>cq_tbl = [], cq_held = [], cq_won = [], cq_taken = [], cq_used = []\<rparr>"

inductive cas_step ::
  "('r \<Rightarrow> string) \<Rightarrow> ('r \<Rightarrow> bool) \<Rightarrow> (datetime \<Rightarrow> 'r \<Rightarrow> 'r list \<Rightarrow> 'r list \<times> 'r option) \<Rightarrow>
   ('o \<Rightarrow> 'r \<Rightarrow> 'r list \<Rightarrow> 'r list \<times> bool) \<Rightarrow> ('o \<Rightarrow> bool) \<Rightarrow> ('m \<Rightarrow> 'r list \<Rightarrow> 'r list) \<Rightarrow>
   'r cas_state \<Rightarrow> 'r cas_state \<Rightarrow> bool"
  for key cand claim finish good reap
where
  enqueue: "key r \<notin> set (cq_used s) \<Longrightarrow>
    cas_step key cand claim finish good reap s
      (s\<lparr>cq_tbl := cq_tbl s @ [r], cq_used := key r # cq_used s\<rparr>)"
| claim: "cand c \<Longrightarrow> claim t c (cq_tbl s) = (T, Some r) \<Longrightarrow>
    cas_step key cand claim finish good reap s
      (s\<lparr>cq_tbl := T, cq_held := r # cq_held s, cq_taken := key r # cq_taken s\<rparr>)"
| miss: "cand c \<Longrightarrow> claim t c (cq_tbl s) = (T, None) \<Longrightarrow>
    cas_step key cand claim finish good reap s (s\<lparr>cq_tbl := T\<rparr>)"
| commit: "r \<in> set (cq_held s) \<Longrightarrow> finish out r (cq_tbl s) = (T, True) \<Longrightarrow>
    cas_step key cand claim finish good reap s
      (s\<lparr>cq_tbl := T, cq_held := remove1 r (cq_held s),
         cq_won := (if good out then key r # cq_won s else cq_won s)\<rparr>)"
| lost: "r \<in> set (cq_held s) \<Longrightarrow> finish out r (cq_tbl s) = (T, False) \<Longrightarrow>
    cas_step key cand claim finish good reap s (s\<lparr>cq_tbl := T, cq_held := remove1 r (cq_held s)\<rparr>)"
| crash: "r \<in> set (cq_held s) \<Longrightarrow>
    cas_step key cand claim finish good reap s (s\<lparr>cq_held := remove1 r (cq_held s)\<rparr>)"
| reap: "cas_step key cand claim finish good reap s (s\<lparr>cq_tbl := reap t (cq_tbl s)\<rparr>)"
| delete: "cas_step key cand claim finish good reap s (s\<lparr>cq_tbl := qdelete P (cq_tbl s)\<rparr>)"

inductive cas_reach ::
  "('r \<Rightarrow> string) \<Rightarrow> ('r \<Rightarrow> bool) \<Rightarrow> (datetime \<Rightarrow> 'r \<Rightarrow> 'r list \<Rightarrow> 'r list \<times> 'r option) \<Rightarrow>
   ('o \<Rightarrow> 'r \<Rightarrow> 'r list \<Rightarrow> 'r list \<times> bool) \<Rightarrow> ('o \<Rightarrow> bool) \<Rightarrow> ('m \<Rightarrow> 'r list \<Rightarrow> 'r list) \<Rightarrow>
   'r cas_state \<Rightarrow> bool"
  for key cand claim finish good reap
where
  start: "cas_reach key cand claim finish good reap cas_init"
| step: "cas_reach key cand claim finish good reap s \<Longrightarrow>
    cas_step key cand claim finish good reap s t \<Longrightarrow>
    cas_reach key cand claim finish good reap t"

subsection \<open>The contract\<close>

text \<open>One row replaced by another of the same key, as an UPDATE keyed on the id does.\<close>

definition put_row :: "('r \<Rightarrow> string) \<Rightarrow> 'r \<Rightarrow> 'r list \<Rightarrow> 'r list" where
  "put_row key r t = map (\<lambda>y. if key y = key r then r else y) t"

lemma map_key_put_row [simp]: "map key (put_row key r t) = map key t"
  by (simp add: put_row_def)

lemma in_put_row: "y \<in> set (put_row key r t) \<Longrightarrow> y = r \<or> (y \<in> set t \<and> key y \<noteq> key r)"
  by (auto simp: put_row_def split: if_splits)

text \<open>A keyed UPDATE whose match is unique is \<open>put_row\<close>.\<close>

lemma qupdate_put_row:
  assumes "distinct (map key t)" "x \<in> set t" "P x" "\<And>y. y \<in> set t \<Longrightarrow> P y \<Longrightarrow> key y = key x"
    and "key (f x) = key x"
  shows "qupdate P f t = put_row key (f x) t"
  unfolding qupdate_def put_row_def
proof (rule map_cong)
  fix y assume y: "y \<in> set t"
  show "(if P y then f y else y) = (if key y = key (f x) then f x else y)"
  proof (cases "key y = key x")
    case True
    with assms(1,2) y have "y = x" by (metis distinct_key_unique)
    with assms(3,5) show ?thesis by simp
  next
    case False
    with assms(4) y have "\<not> P y" by auto
    with False assms(5) show ?thesis by simp
  qed
qed simp

text \<open>A conditional UPDATE that matched: it rewrote exactly one row, and a re-read by key finds
  that row.\<close>

lemma cas_update:
  assumes "distinct (map key t)" "qcount P t \<noteq> 0" "\<And>x. P x \<Longrightarrow> key x = k" "\<And>x. key (f x) = key x"
  shows "\<exists>x\<in>set t. P x \<and> key x = k \<and> qupdate P f t = put_row key (f x) t \<and>
    qfirst (\<lambda>x. key x = k) (qupdate P f t) = Some (f x)"
proof -
  from assms(2) obtain x where x: "x \<in> set t" "P x" by (auto simp: qcount_0_iff)
  have k: "key x = k" by (rule assms(3)[OF x(2)])
  have put: "qupdate P f t = put_row key (f x) t"
    by (rule qupdate_put_row[where P = P, OF assms(1) x]) (use assms(3,4) k in auto)
  have "f x \<in> set (qupdate P f t)" using x by (auto simp: set_qupdate)
  moreover have "distinct (map key (qupdate P f t))" using assms(1) by (simp add: put)
  ultimately have "qfirst (\<lambda>x. key x = k) (qupdate P f t) = Some (f x)"
    by (intro qfirst_distinct_key[where k = key]) (use k assms(4) in auto)
  with x k put show ?thesis by blast
qed

locale cas_queue =
  fixes key :: "'r \<Rightarrow> string"
    and cand :: "'r \<Rightarrow> bool"
    and claim :: "datetime \<Rightarrow> 'r \<Rightarrow> 'r list \<Rightarrow> 'r list \<times> 'r option"
    and finish :: "'o \<Rightarrow> 'r \<Rightarrow> 'r list \<Rightarrow> 'r list \<times> bool"
    and good :: "'o \<Rightarrow> bool"
    and reap :: "'m \<Rightarrow> 'r list \<Rightarrow> 'r list"
    and att :: "'r \<Rightarrow> nat"
    and cap :: nat
    and live :: "'r \<Rightarrow> bool"
    and spent :: "'r \<Rightarrow> bool"
  assumes claim_some: "distinct (map key T) \<Longrightarrow> cand c \<Longrightarrow> claim t c T = (T', Some r) \<Longrightarrow>
      \<exists>x\<in>set T. key x = key r \<and> \<not> spent x \<and> \<not> live x \<and> att r = Suc (att x) \<and> att r \<le> cap \<and>
        live r \<and> T' = put_row key r T"
    and claim_none: "distinct (map key T) \<Longrightarrow> claim t c T = (T', None) \<Longrightarrow> T' = T"
    and finish_win: "distinct (map key T) \<Longrightarrow> att r \<le> cap \<Longrightarrow> finish out r T = (T', True) \<Longrightarrow>
      \<exists>x\<in>set T. \<exists>x'. key x = key r \<and> live x \<and> att x = att r \<and> key x' = key x \<and>
        att x \<le> att x' \<and> (good out \<longrightarrow> spent x') \<and> T' = put_row key x' T"
    and finish_lose: "finish out r T = (T', False) \<Longrightarrow> T' = T"
    and reap_rows: "\<exists>f. reap m T = map f T \<and>
      (\<forall>x. key (f x) = key x \<and> att (f x) = att x \<and> (\<not> live x \<longrightarrow> f x = x))"
    and spent_rest: "spent x \<Longrightarrow> \<not> live x"
begin

abbreviation reach :: "'r cas_state \<Rightarrow> bool" where
  "reach \<equiv> cas_reach key cand claim finish good reap"

definition inv :: "'r cas_state \<Rightarrow> bool" where
  "inv s \<longleftrightarrow>
     distinct (map key (cq_tbl s)) \<and>
     set (map key (cq_tbl s)) \<union> set (map key (cq_held s)) \<union> set (cq_won s) \<union> set (cq_taken s) \<subseteq> set (cq_used s) \<and>
     (\<forall>x\<in>set (cq_tbl s). key x \<in> set (cq_won s) \<longrightarrow> spent x) \<and>
     (\<forall>x\<in>set (cq_tbl s). \<forall>r\<in>set (cq_held s). key x = key r \<longrightarrow> att r \<le> att x) \<and>
     (\<forall>x\<in>set (cq_tbl s). count_list (cq_taken s) (key x) \<le> att x) \<and>
     (\<forall>k. count_list (cq_taken s) k \<le> cap) \<and>
     (\<forall>r\<in>set (cq_held s). att r \<le> cap) \<and>
     distinct (map (\<lambda>r. (key r, att r)) (cq_held s)) \<and>
     distinct (cq_won s)"

lemma inv_init: "inv cas_init"
  by (simp add: inv_def cas_init_def)

lemma inv_rows:
  assumes "inv s" "cq_tbl s' = T" "cq_held s' = H" "cq_won s' = W" "cq_taken s' = cq_taken s" "cq_used s' = cq_used s"
    and "distinct (map key T)" "set (map key T) \<subseteq> set (map key (cq_tbl s))"
    and "\<And>y. y \<in> set T \<Longrightarrow> \<exists>x\<in>set (cq_tbl s). key x = key y \<and> att x \<le> att y"
    and "\<And>y. y \<in> set T \<Longrightarrow> key y \<in> set W \<Longrightarrow> spent y"
    and "set H \<subseteq> set (cq_held s)" "distinct (map (\<lambda>r. (key r, att r)) H)"
    and "distinct W" "set W \<subseteq> set (cq_used s)"
  shows "inv s'"
proof -
  have i: "inv s" by (rule assms(1))
  have u: "set (map key (cq_tbl s)) \<subseteq> set (cq_used s)" "key ` set (cq_held s) \<subseteq> set (cq_used s)"
    using i by (simp_all add: inv_def)
  have "set (map key H) \<subseteq> set (cq_used s)"
    unfolding set_map by (rule order_trans[OF image_mono[OF assms(11)] u(2)])
  with order_trans[OF assms(8) u(1)]
  have keys: "set (map key T) \<union> set (map key H) \<subseteq> set (cq_used s)" by (rule Un_least)
  have a: "\<forall>y\<in>set T. \<forall>r\<in>set H. key y = key r \<longrightarrow> att r \<le> att y"
  proof (intro ballI impI)
    fix y r assume y: "y \<in> set T" and r: "r \<in> set H" and k: "key y = key r"
    from assms(9)[OF y] obtain x where x: "x \<in> set (cq_tbl s)" "key x = key y" "att x \<le> att y" by blast
    from i x(1) r assms(11) x(2) k have "att r \<le> att x" by (auto simp: inv_def)
    with x(3) show "att r \<le> att y" by simp
  qed
  have c: "\<forall>y\<in>set T. count_list (cq_taken s) (key y) \<le> att y"
  proof
    fix y assume y: "y \<in> set T"
    from assms(9)[OF y] obtain x where x: "x \<in> set (cq_tbl s)" "key x = key y" "att x \<le> att y" by blast
    from i x(1) have "count_list (cq_taken s) (key x) \<le> att x" by (auto simp: inv_def)
    with x show "count_list (cq_taken s) (key y) \<le> att y" by simp
  qed
  have tk: "set (cq_taken s) \<subseteq> set (cq_used s)" "\<forall>k. count_list (cq_taken s) k \<le> cap"
    using i by (simp_all add: inv_def)
  have sub: "set (map key T) \<union> set (map key H) \<union> set W \<union> set (cq_taken s) \<subseteq> set (cq_used s)"
    using keys assms(14) tk(1) by blast
  have sp: "\<forall>x\<in>set T. key x \<in> set W \<longrightarrow> spent x" using assms(10) by blast
  have hc: "\<forall>r\<in>set H. att r \<le> cap" using i assms(11) by (auto simp: inv_def)
  show ?thesis
    unfolding inv_def assms(2-6)
    by (intro conjI assms(7,12,13) sub sp a c tk(2) hc)
qed

lemma remove1_pairs:
  "distinct (map f xs) \<Longrightarrow> distinct (map f (remove1 x xs))"
  by (induction xs) (auto dest: subsetD[OF set_remove1_subset])

lemma inv_claim:
  assumes i: "inv s" and c: "cand c" and cl: "claim t c (cq_tbl s) = (T, Some r)"
  shows "inv (s\<lparr>cq_tbl := T, cq_held := r # cq_held s, cq_taken := key r # cq_taken s\<rparr>)"
proof -
  have d: "distinct (map key (cq_tbl s))" using i by (simp add: inv_def)
  from claim_some[OF d c cl] obtain x where x: "x \<in> set (cq_tbl s)" "key x = key r" "\<not> spent x"
    "att r = Suc (att x)" "att r \<le> cap" and T: "T = put_row key r (cq_tbl s)" by blast
  have notwon: "key r \<notin> set (cq_won s)" using i x by (auto simp: inv_def)
  have old: "count_list (cq_taken s) (key r) \<le> att x" using i x(1,2) by (auto simp: inv_def)
  have fresh: "(key r, att r) \<notin> (\<lambda>r. (key r, att r)) ` set (cq_held s)"
  proof
    assume "(key r, att r) \<in> (\<lambda>r. (key r, att r)) ` set (cq_held s)"
    then obtain h where h: "h \<in> set (cq_held s)" "key h = key r" "att h = att r" by auto
    from i x(1,2) h(1,2) have "att h \<le> att x" by (auto simp: inv_def)
    with h(3) x(4) show False by simp
  qed
  have rows: "\<And>y. y \<in> set T \<Longrightarrow> y = r \<or> (y \<in> set (cq_tbl s) \<and> key y \<noteq> key r)"
    unfolding T by (rule in_put_row)
  have kT: "map key T = map key (cq_tbl s)" by (simp add: T)
  have used: "key r \<in> set (cq_used s)" using i x(1,2) by (auto simp: inv_def)
  have held: "\<forall>y\<in>set T. \<forall>h\<in>set (r # cq_held s). key y = key h \<longrightarrow> att h \<le> att y"
  proof (intro ballI impI)
    fix y h assume y: "y \<in> set T" and h: "h \<in> set (r # cq_held s)" and k: "key y = key h"
    from rows[OF y] show "att h \<le> att y"
    proof
      assume yr: "y = r"
      show ?thesis
      proof (cases "h = r")
        case False
        with h have "h \<in> set (cq_held s)" by simp
        with i x(1,2) k yr have "att h \<le> att x" by (auto simp: inv_def)
        with yr x(4) show ?thesis by simp
      qed (simp add: yr)
    next
      assume o: "y \<in> set (cq_tbl s) \<and> key y \<noteq> key r"
      with h k have "h \<in> set (cq_held s)" by auto
      with i o k show ?thesis by (auto simp: inv_def)
    qed
  qed
  have cnt: "\<forall>y\<in>set T. count_list (key r # cq_taken s) (key y) \<le> att y"
    using rows i old x(4) by (fastforce simp: inv_def)
  have capb: "\<forall>k. count_list (key r # cq_taken s) k \<le> cap"
    using i old x(4,5) by (auto simp: inv_def)
  have sp: "\<forall>y\<in>set T. key y \<in> set (cq_won s) \<longrightarrow> spent y"
    using rows i notwon by (fastforce simp: inv_def)
  have sub: "set (map key T) \<union> set (map key (r # cq_held s)) \<union> set (cq_won s) \<union> set (key r # cq_taken s)
      \<subseteq> set (cq_used s)"
    unfolding kT using i used by (auto simp: inv_def)
  show ?thesis
    unfolding inv_def
    using d kT sub sp held cnt capb fresh i x(5) by (auto simp: inv_def)
qed

lemma inv_commit:
  assumes i: "inv s" and r: "r \<in> set (cq_held s)" and f: "finish out r (cq_tbl s) = (T, True)"
  shows "inv (s\<lparr>cq_tbl := T, cq_held := remove1 r (cq_held s),
                cq_won := (if good out then key r # cq_won s else cq_won s)\<rparr>)" (is "inv ?s'")
proof -
  have d: "distinct (map key (cq_tbl s))" using i by (simp add: inv_def)
  have cr: "att r \<le> cap" using i r by (auto simp: inv_def)
  from finish_win[OF d cr f] obtain x x' where x: "x \<in> set (cq_tbl s)" "key x = key r" "live x"
      "key x' = key x" "att x \<le> att x'" "good out \<longrightarrow> spent x'"
    and T: "T = put_row key x' (cq_tbl s)" by blast
  have notwon: "key r \<notin> set (cq_won s)" using i x(1-3) spent_rest by (fastforce simp: inv_def)
  have rows: "\<And>y. y \<in> set T \<Longrightarrow> y = x' \<or> (y \<in> set (cq_tbl s) \<and> key y \<noteq> key x')"
    unfolding T by (rule in_put_row)
  show ?thesis
  proof (rule inv_rows[OF i refl refl refl])
    show "distinct (map key (cq_tbl ?s'))" using d by (simp add: T)
    have "map key (cq_tbl ?s') = map key (cq_tbl s)" by (simp add: T)
    then show "set (map key (cq_tbl ?s')) \<subseteq> set (map key (cq_tbl s))" by (metis order_refl)
    fix y assume y: "y \<in> set (cq_tbl ?s')"
    then have y': "y = x' \<or> (y \<in> set (cq_tbl s) \<and> key y \<noteq> key x')" using rows by simp
    show "\<exists>z\<in>set (cq_tbl s). key z = key y \<and> att z \<le> att y" using y' x(1,4,5) by auto
    assume "key y \<in> set (cq_won ?s')"
    then show "spent y" using y' i x(2,4,6) notwon by (auto simp: inv_def split: if_splits)
  next
    show "set (cq_held ?s') \<subseteq> set (cq_held s)" by (simp add: set_remove1_subset)
    show "distinct (map (\<lambda>r. (key r, att r)) (cq_held ?s'))"
      using i by (simp add: inv_def remove1_pairs)
    show "distinct (cq_won ?s')" using i notwon by (simp add: inv_def)
    show "set (cq_won ?s') \<subseteq> set (cq_used s)" using i x(1,2) by (auto simp: inv_def)
  qed simp_all
qed

lemma inv_drop_held:
  assumes i: "inv s"
  shows "inv (s\<lparr>cq_held := remove1 r (cq_held s)\<rparr>)"
proof (rule inv_rows[OF i refl refl refl])
  show "set (cq_held (s\<lparr>cq_held := remove1 r (cq_held s)\<rparr>)) \<subseteq> set (cq_held s)"
    by (simp add: set_remove1_subset)
qed (use i in \<open>auto simp: inv_def remove1_pairs\<close>)

lemma inv_reap: assumes i: "inv s" shows "inv (s\<lparr>cq_tbl := reap t (cq_tbl s)\<rparr>)"
proof -
  obtain f where f: "reap t (cq_tbl s) = map f (cq_tbl s)"
    "\<And>x. key (f x) = key x \<and> att (f x) = att x \<and> (\<not> live x \<longrightarrow> f x = x)"
    using reap_rows by metis
  have k: "map key (map f (cq_tbl s)) = map key (cq_tbl s)" using f(2) by simp
  show ?thesis
  proof (rule inv_rows[OF i refl refl refl])
    have kk: "map key (cq_tbl (s\<lparr>cq_tbl := reap t (cq_tbl s)\<rparr>)) = map key (cq_tbl s)"
      using k by (simp add: f(1) del: map_map)
    then show "distinct (map key (cq_tbl (s\<lparr>cq_tbl := reap t (cq_tbl s)\<rparr>)))"
      using i by (simp add: inv_def)
    show "set (map key (cq_tbl (s\<lparr>cq_tbl := reap t (cq_tbl s)\<rparr>))) \<subseteq> set (map key (cq_tbl s))"
      by (simp only: kk order_refl)
    fix y assume "y \<in> set (cq_tbl (s\<lparr>cq_tbl := reap t (cq_tbl s)\<rparr>))"
    then obtain x where x: "x \<in> set (cq_tbl s)" "y = f x" by (auto simp: f(1))
    then show "\<exists>x\<in>set (cq_tbl s). key x = key y \<and> att x \<le> att y" using f(2) by auto
    assume "key y \<in> set (cq_won (s\<lparr>cq_tbl := reap t (cq_tbl s)\<rparr>))"
    then have "spent x" using i x f(2) by (auto simp: inv_def)
    then show "spent y" using x(2) f(2) spent_rest by metis
  qed (use i in \<open>auto simp: inv_def\<close>)
qed

lemma inv_delete: assumes i: "inv s" shows "inv (s\<lparr>cq_tbl := qdelete P (cq_tbl s)\<rparr>)"
proof (rule inv_rows[OF i refl refl refl])
  show "distinct (map key (cq_tbl (s\<lparr>cq_tbl := qdelete P (cq_tbl s)\<rparr>)))"
    using i by (auto simp: inv_def qdelete_def distinct_map inj_on_def)
qed (use i in \<open>auto simp: inv_def\<close>)

lemma inv_enqueue:
  assumes i: "inv s" and "key r \<notin> set (cq_used s)"
  shows "inv (s\<lparr>cq_tbl := cq_tbl s @ [r], cq_used := key r # cq_used s\<rparr>)"
proof -
  have n: "key r \<notin> set (map key (cq_tbl s))" "key r \<notin> set (map key (cq_held s))"
    "key r \<notin> set (cq_won s)" "key r \<notin> set (cq_taken s)"
    using assms by (auto simp: inv_def)
  then have "count_list (cq_taken s) (key r) = 0" by (simp add: count_list_0_iff)
  then show ?thesis using i n by (auto simp: inv_def)
qed

lemma inv_step: "cas_step key cand claim finish good reap s s' \<Longrightarrow> inv s \<Longrightarrow> inv s'"
proof (induction rule: cas_step.induct)
  case (miss c t s T)
  then have "T = cq_tbl s" using claim_none by (auto simp: inv_def)
  with miss show ?case by simp
next
  case (lost r s out T)
  then have "s\<lparr>cq_tbl := T, cq_held := remove1 r (cq_held s)\<rparr> = s\<lparr>cq_held := remove1 r (cq_held s)\<rparr>"
    using finish_lose by (metis cas_state.surjective cas_state.update_convs(1))
  with lost inv_drop_held show ?case by metis
qed (simp_all add: inv_enqueue inv_claim inv_commit inv_drop_held inv_reap inv_delete)

lemma reach_inv: "reach s \<Longrightarrow> inv s"
  by (induction rule: cas_reach.induct) (simp_all add: inv_init inv_step)

text \<open>A successful outcome is committed at most once per row, whatever the interleaving.\<close>

lemma success_at_most_once: "reach s \<Longrightarrow> distinct (cq_won s)"
  using reach_inv by (simp add: inv_def)

text \<open>No row is claimed more often than the attempts cap allows.\<close>

lemma claims_bounded: "reach s \<Longrightarrow> count_list (cq_taken s) k \<le> cap"
  using reach_inv by (simp add: inv_def)

text \<open>Of two workers holding the same row, the one with the older claim cannot commit.\<close>

lemma stale_claim_loses:
  assumes "reach s" "r \<in> set (cq_held s)" "r' \<in> set (cq_held s)" "key r = key r'" "att r < att r'"
  shows "finish out r (cq_tbl s) = (cq_tbl s, False)"
proof (cases "finish out r (cq_tbl s)")
  case (Pair T b)
  have i: "inv s" using assms(1) by (rule reach_inv)
  have "\<not> b"
  proof
    assume b
    with Pair have w: "finish out r (cq_tbl s) = (T, True)" by simp
    have "distinct (map key (cq_tbl s))" "att r \<le> cap" using i assms(2) by (auto simp: inv_def)
    from finish_win[OF this w] obtain x where "x \<in> set (cq_tbl s)" "key x = key r" "att x = att r" by blast
    with i assms(3,4) have "att r' \<le> att r" by (fastforce simp: inv_def)
    with assms(5) show False by simp
  qed
  with Pair finish_lose show ?thesis by fastforce
qed

text \<open>Two workers never hold the same row under the same attempt.\<close>

lemma claims_distinct:
  assumes "reach s" "r \<in> set (cq_held s)" "r' \<in> set (cq_held s)" "key r = key r'" "att r = att r'"
  shows "r = r'"
  using reach_inv[OF assms(1)] assms(2-5) by (auto simp: inv_def distinct_map inj_on_def)

end

end
