(* ===== verification/Runs.thy ===== *)
theory Runs
  imports Tables Cas_Queue
begin

text \<open>
  The watch-action run queue: \<open>watches/services/runs/_service.py\<close>, \<open>_drain.py\<close>,
  \<open>_common.py\<close> and \<open>_backfill_select.py\<close>. Lemmas: the unique key and the \<open>completed_at\<close>
  rule are kept by every operation, enqueueing is idempotent, and the claim, complete and
  reap operations satisfy the contract \<open>cas_queue\<close>.
\<close>

subsection \<open>Rows and their unique key\<close>

definition run_key :: "run \<Rightarrow> ulid \<times> ulid \<times> ulid \<times> ulid" where
  "run_key r = (run_account r, run_watch r, run_action r, run_item r)"

text \<open>A row as the model's constructor fills it (column defaults).\<close>

definition new_run ::
  "ulid \<Rightarrow> ulid \<Rightarrow> ulid \<Rightarrow> ulid \<Rightarrow> string \<Rightarrow> ulid \<Rightarrow> datetime \<Rightarrow> ulid \<Rightarrow> run" where
  "new_run i account watch act kind it scheduled_at prior =
     \<lparr>run_id = i, run_account = account, run_watch = watch, run_action = act, run_kind = kind,
      run_item = it, run_state = PENDING, run_scheduled = Some scheduled_at,
      run_started = None, run_completed = None, run_result = JObj [], run_error = '''',
      run_attempts = 0, run_prior = prior, run_delivery = ''''\<rparr>"

lemma new_run_simps [simp]:
  "run_id (new_run i acc w a k it sc p) = i"
  "run_account (new_run i acc w a k it sc p) = acc"
  "run_watch (new_run i acc w a k it sc p) = w"
  "run_action (new_run i acc w a k it sc p) = a"
  "run_kind (new_run i acc w a k it sc p) = k"
  "run_item (new_run i acc w a k it sc p) = it"
  "run_state (new_run i acc w a k it sc p) = PENDING"
  "run_scheduled (new_run i acc w a k it sc p) = Some sc"
  "run_completed (new_run i acc w a k it sc p) = None"
  "run_attempts (new_run i acc w a k it sc p) = 0"
  "run_prior (new_run i acc w a k it sc p) = p"
  "run_key (new_run i acc w a k it sc p) = (acc, w, a, it)"
  by (simp_all add: new_run_def run_key_def)

text \<open>\<open>bulk_create(rows, ignore_conflicts=True)\<close>: the unique constraint drops, silently,
  each row whose key is already stored (also by an earlier row of the same statement).\<close>

fun bulk_create_ignore :: "run list \<Rightarrow> run list \<Rightarrow> run list" where
  "bulk_create_ignore [] t = t"
| "bulk_create_ignore (r # rs) t =
     bulk_create_ignore rs (if run_key r \<in> run_key ` set t then t else t @ [r])"

subsection \<open>Enqueue\<close>

definition enqueue ::
  "(nat \<Rightarrow> ulid) \<Rightarrow> ulid \<Rightarrow> ulid \<Rightarrow> ulid \<Rightarrow> string \<Rightarrow> ulid \<Rightarrow> datetime \<Rightarrow> ulid \<Rightarrow>
   db \<Rightarrow> db \<times> run option" where
  "enqueue gen account watch act kind it scheduled_at prior d =
     (case qfirst (\<lambda>r. run_key r = (account, watch, act, it)) (t_runs d) of
        Some _ \<Rightarrow> (d, None)
      | None \<Rightarrow>
          let r = new_run (gen (next_id d)) account watch act kind it scheduled_at prior
          in (d\<lparr>t_runs := t_runs d @ [r], next_id := Suc (next_id d)\<rparr>, Some r))"

definition have_items :: "ulid \<Rightarrow> ulid \<Rightarrow> ulid \<Rightarrow> ulid list \<Rightarrow> db \<Rightarrow> ulid set" where
  "have_items account watch act feed_item_ids d =
     set (map run_item (filter (\<lambda>r. run_account r = account \<and> run_watch r = watch \<and>
       run_action r = act \<and> run_item r \<in> set feed_item_ids) (t_runs d)))"

definition enqueue_chunk ::
  "(nat \<Rightarrow> ulid) \<Rightarrow> ulid \<Rightarrow> ulid \<Rightarrow> ulid \<Rightarrow> string \<Rightarrow> datetime \<Rightarrow> ulid list \<Rightarrow>
   db \<Rightarrow> (db \<times> nat) result" where
  "enqueue_chunk gen account watch act kind scheduled_at feed_item_ids d =
     (if ENQUEUE_CHUNK < length feed_item_ids then Inl ValueError
      else
        let have = have_items account watch act feed_item_ids d;
            fids = filter (\<lambda>fid. fid \<notin> have) feed_item_ids;
            rows = map (\<lambda>(i, fid). new_run i account watch act kind fid scheduled_at '''')
                     (zip (fresh_ids gen d (length fids)) fids)
        in if rows = [] then Inr (d, 0)
           else Inr (d\<lparr>t_runs := bulk_create_ignore rows (t_runs d),
                       next_id := next_id d + length rows\<rparr>, length rows))"

fun enqueue_chunks ::
  "(nat \<Rightarrow> ulid) \<Rightarrow> ulid \<Rightarrow> ulid \<Rightarrow> ulid \<Rightarrow> string \<Rightarrow> datetime \<Rightarrow> ulid list list \<Rightarrow>
   db \<Rightarrow> nat \<Rightarrow> (db \<times> nat) result" where
  "enqueue_chunks gen account watch act kind scheduled_at [] d created = Inr (d, created)"
| "enqueue_chunks gen account watch act kind scheduled_at (c # cs) d created =
     res_bind (enqueue_chunk gen account watch act kind scheduled_at c d)
       (\<lambda>(d', n). enqueue_chunks gen account watch act kind scheduled_at cs d' (created + n))"

definition enqueue_many ::
  "(nat \<Rightarrow> ulid) \<Rightarrow> ulid \<Rightarrow> ulid \<Rightarrow> ulid \<Rightarrow> string \<Rightarrow> datetime \<Rightarrow> ulid list \<Rightarrow>
   db \<Rightarrow> (db \<times> nat) result" where
  "enqueue_many gen account watch act kind scheduled_at feed_item_ids d =
     enqueue_chunks gen account watch act kind scheduled_at
       (batched ENQUEUE_CHUNK feed_item_ids) d 0"

subsection \<open>Complete\<close>

definition set_if :: "string \<Rightarrow> (string \<Rightarrow> 'r \<Rightarrow> 'r) \<Rightarrow> 'r \<Rightarrow> 'r" where
  "set_if v upd r = (if v = '''' then r else upd v r)"

text \<open>\<open>result or {}\<close>: None and the empty dict both store \<open>{}\<close>. \<open>kind\<close> is the empty
  string for the source's None.\<close>

definition result_or_empty :: "json \<Rightarrow> json" where
  "result_or_empty j = (case j of JNull \<Rightarrow> JObj [] | _ \<Rightarrow> j)"

record outcome =
  oc_state :: run_state
  oc_result :: json
  oc_error :: string
  oc_delivery :: ulid
  oc_kind :: string

definition stamp_outcome :: "outcome \<Rightarrow> datetime option \<Rightarrow> run \<Rightarrow> run" where
  "stamp_outcome oc ct r =
     set_if (oc_kind oc) (\<lambda>v r. r\<lparr>run_kind := v\<rparr>)
       (set_if (oc_delivery oc) (\<lambda>v r. r\<lparr>run_delivery := v\<rparr>)
         (r\<lparr>run_state := oc_state oc, run_result := result_or_empty (oc_result oc),
            run_error := oc_error oc, run_completed := ct\<rparr>))"

lemma stamp_outcome_simps [simp]:
  "run_id (stamp_outcome oc ct r) = run_id r"
  "run_account (stamp_outcome oc ct r) = run_account r"
  "run_watch (stamp_outcome oc ct r) = run_watch r"
  "run_action (stamp_outcome oc ct r) = run_action r"
  "run_item (stamp_outcome oc ct r) = run_item r"
  "run_attempts (stamp_outcome oc ct r) = run_attempts r"
  "run_state (stamp_outcome oc ct r) = oc_state oc"
  "run_completed (stamp_outcome oc ct r) = ct"
  "run_error (stamp_outcome oc ct r) = oc_error oc"
  "run_result (stamp_outcome oc ct r) = result_or_empty (oc_result oc)"
  "run_scheduled (stamp_outcome oc ct r) = run_scheduled r"
  "run_delivery (stamp_outcome oc ct r) = (if oc_delivery oc = '''' then run_delivery r else oc_delivery oc)"
  "run_kind (stamp_outcome oc ct r) = (if oc_kind oc = '''' then run_kind r else oc_kind oc)"
  "run_key (stamp_outcome oc ct r) = run_key r"
  by (simp_all add: stamp_outcome_def set_if_def run_key_def)

text \<open>The CAS of \<open>complete\<close>, on the run table: matched by id, RUNNING and the attempt this
  claim stamped.\<close>

definition complete_cas ::
  "settings \<Rightarrow> datetime \<Rightarrow> outcome \<Rightarrow> run \<Rightarrow> run list \<Rightarrow> run list \<times> bool" where
  "complete_cas cfg ts oc r t =
     (let ct = completion_ts cfg (oc_state oc) (run_attempts r) ts;
          P = (\<lambda>x. run_id x = run_id r \<and> run_state x = RUNNING \<and> run_attempts x = run_attempts r)
      in if qcount P t = 0 then (t, False) else (qupdate P (stamp_outcome oc ct) t, True))"

definition complete ::
  "settings \<Rightarrow> ulid \<Rightarrow> datetime \<Rightarrow> outcome \<Rightarrow> run \<Rightarrow> db \<Rightarrow> (db \<times> run option) result" where
  "complete cfg account ts oc r d =
     (if run_account r \<noteq> account then Inl ValueError
      else
        let (t, won) = complete_cas cfg ts oc r (t_runs d)
        in if won
           then Inr (d\<lparr>t_runs := t\<rparr>,
                     Some (stamp_outcome oc (completion_ts cfg (oc_state oc) (run_attempts r) ts) r))
           else Inr (d\<lparr>t_runs := t\<rparr>, None))"

subsection \<open>Reads\<close>

definition has_prior_succeeded :: "ulid \<Rightarrow> ulid \<Rightarrow> ulid \<Rightarrow> db \<Rightarrow> bool" where
  "has_prior_succeeded account watch exclude_run_id d \<longleftrightarrow>
     list_ex (\<lambda>r. run_account r = account \<and> run_watch r = watch \<and> run_state r = SUCCEEDED \<and>
                  run_id r \<noteq> exclude_run_id) (t_runs d)"

definition get_run :: "ulid \<Rightarrow> ulid \<Rightarrow> db \<Rightarrow> run result" where
  "get_run account i d = qget (\<lambda>r. run_id r = i \<and> run_account r = account) (t_runs d)"

text \<open>The two windows of a run selection: on the run's \<open>completed_at\<close>, and on the feed
  item's \<open>occurred_at\<close> through the item subquery of \<open>FeedItemService\<close>.\<close>

record run_windows =
  rw_completed_since :: "datetime option"
  rw_completed_until :: "datetime option"
  rw_occurred_since :: "datetime option"
  rw_occurred_until :: "datetime option"

definition no_windows :: run_windows where
  "no_windows = \<lparr>rw_completed_since = None, rw_completed_until = None,
                 rw_occurred_since = None, rw_occurred_until = None\<rparr>"

definition occurred_window_ids ::
  "ulid \<Rightarrow> datetime option \<Rightarrow> datetime option \<Rightarrow> item list \<Rightarrow> ulid set" where
  "occurred_window_ids account since until t =
     set (map item_id (filter (\<lambda>i. item_account i = account \<and>
       in_window since until (item_occurred i)) t))"

definition apply_run_windows :: "ulid \<Rightarrow> run_windows \<Rightarrow> db \<Rightarrow> run \<Rightarrow> bool" where
  "apply_run_windows account w d r \<longleftrightarrow>
     in_window (rw_completed_since w) (rw_completed_until w) (run_completed r) \<and>
     (if rw_occurred_since w \<noteq> None \<or> rw_occurred_until w \<noteq> None
      then run_item r \<in>
        occurred_window_ids account (rw_occurred_since w) (rw_occurred_until w) (t_items d)
      else True)"

text \<open>Newest first, with the \<open>after\<close> cursor; blank optional filters are not applied.\<close>

definition list_for_action ::
  "ulid \<Rightarrow> ulid \<Rightarrow> ulid option \<Rightarrow> ulid option \<Rightarrow> nat \<Rightarrow> run_state option \<Rightarrow> run_windows \<Rightarrow>
   db \<Rightarrow> run list" where
  "list_for_action account act watch after limit state w d =
     take limit (rev (order_by run_id (filter (\<lambda>r.
       run_account r = account \<and> run_action r = act \<and>
       (case watch of None \<Rightarrow> True | Some x \<Rightarrow> x = '''' \<or> run_watch r = x) \<and>
       (case state of None \<Rightarrow> True | Some s \<Rightarrow> run_state r = s) \<and>
       apply_run_windows account w d r \<and>
       (case after of None \<Rightarrow> True | Some a \<Rightarrow> a = '''' \<or> run_id r < a)) (t_runs d))))"

record activity_summary =
  as_evaluated :: "(run_state \<times> nat) list"
  as_pending :: nat
  as_running :: nat
  as_retrying :: nat

text \<open>\<open>values("state").annotate(n=Count("id"))\<close>, one pair per state present.\<close>

definition count_by_state :: "run list \<Rightarrow> (run_state \<times> nat) list" where
  "count_by_state t = map (\<lambda>s. (s, qcount (\<lambda>r. run_state r = s) t)) (sort (dedupe (map run_state t)))"

definition summary_for_action ::
  "ulid \<Rightarrow> ulid \<Rightarrow> datetime \<Rightarrow> datetime option \<Rightarrow> db \<Rightarrow> activity_summary" where
  "summary_for_action account act since until d =
     (let base = filter (\<lambda>r. run_account r = account \<and> run_action r = act) (t_runs d)
      in \<lparr>as_evaluated = count_by_state (filter (\<lambda>r. in_window (Some since) until (run_completed r)) base),
          as_pending = qcount (\<lambda>r. run_state r = PENDING) base,
          as_running = qcount (\<lambda>r. run_state r = RUNNING) base,
          as_retrying = qcount (\<lambda>r. run_state r = FAILED \<and> run_completed r = None) base\<rparr>)"

definition count_by_state_since :: "datetime \<Rightarrow> db \<Rightarrow> (run_state \<times> nat) list" where
  "count_by_state_since since d =
     count_by_state (filter (\<lambda>r. ge_col (run_completed r) since) (t_runs d))"

subsection \<open>Backfill selection\<close>

definition deletable_terminal :: "run \<Rightarrow> bool" where
  "deletable_terminal r \<longleftrightarrow>
     run_state r \<in> set TERMINAL_STATES \<or> (run_state r = FAILED \<and> run_completed r \<noteq> None)"

definition succeeded_in_window :: "ulid \<Rightarrow> ulid \<Rightarrow> run_windows \<Rightarrow> db \<Rightarrow> run list" where
  "succeeded_in_window account source w d =
     filter (\<lambda>r. run_account r = account \<and> run_action r = source \<and> run_state r = SUCCEEDED \<and>
                 apply_run_windows account w d r) (t_runs d)"

definition count_succeeded_feed_items :: "ulid \<Rightarrow> ulid \<Rightarrow> run_windows \<Rightarrow> db \<Rightarrow> nat" where
  "count_succeeded_feed_items account source w d = length (succeeded_in_window account source w d)"

definition succeeded_feed_item_ids :: "ulid \<Rightarrow> ulid \<Rightarrow> run_windows \<Rightarrow> db \<Rightarrow> ulid set" where
  "succeeded_feed_item_ids account source w d =
     run_item ` set (succeeded_in_window account source w d)"

definition run_among :: "ulid \<Rightarrow> ulid \<Rightarrow> ulid \<Rightarrow> ulid set \<Rightarrow> run \<Rightarrow> bool" where
  "run_among account watch act items r \<longleftrightarrow>
     run_account r = account \<and> run_watch r = watch \<and> run_action r = act \<and> run_item r \<in> items"

definition delete_terminal_for_action ::
  "ulid \<Rightarrow> ulid \<Rightarrow> ulid \<Rightarrow> ulid set \<Rightarrow> db \<Rightarrow> db \<times> nat" where
  "delete_terminal_for_action account act watch items d =
     (let P = (\<lambda>r. deletable_terminal r \<and> run_among account watch act items r)
      in (d\<lparr>t_runs := qdelete P (t_runs d)\<rparr>, qcount P (t_runs d)))"

definition count_runs_for_action ::
  "ulid \<Rightarrow> ulid \<Rightarrow> ulid \<Rightarrow> ulid set \<Rightarrow> bool \<Rightarrow> db \<Rightarrow> nat" where
  "count_runs_for_action account act watch items terminal_only d =
     qcount (\<lambda>r. run_among account watch act items r \<and> (terminal_only \<longrightarrow> deletable_terminal r))
       (t_runs d)"

subsection \<open>The drain's queries and transitions\<close>

definition has_window :: "ulid \<Rightarrow> ulid \<Rightarrow> window list \<Rightarrow> bool" where
  "has_window account act t = list_ex (\<lambda>w. win_account w = account \<and> win_action w = act) t"

definition is_due :: "settings \<Rightarrow> datetime \<Rightarrow> window list \<Rightarrow> run \<Rightarrow> bool" where
  "is_due cfg ts ws r \<longleftrightarrow>
     run_state r \<in> set CLAIMABLE_STATES \<and> run_attempts r < WATCH_RUN_MAX_ATTEMPTS cfg \<and>
     le_col (run_scheduled r) ts \<and> \<not> has_window (run_account r) (run_action r) ws"

definition due_runs :: "settings \<Rightarrow> datetime \<Rightarrow> db \<Rightarrow> run list" where
  "due_runs cfg ts d = filter (is_due cfg ts (t_windows d)) (t_runs d)"

definition count_due :: "settings \<Rightarrow> datetime \<Rightarrow> db \<Rightarrow> nat" where
  "count_due cfg ts d = length (due_runs cfg ts d)"

definition is_stale :: "datetime \<Rightarrow> run \<Rightarrow> bool" where
  "is_stale cutoff r \<longleftrightarrow> run_state r = RUNNING \<and> lt_col (run_started r) cutoff"

text \<open>Two UPDATEs in the source's order, the second over the table the first left.\<close>

definition reap_stale_runs :: "settings \<Rightarrow> datetime \<Rightarrow> run list \<Rightarrow> run list \<times> nat" where
  "reap_stale_runs cfg ts t =
     (let cutoff = ts - seconds (WATCH_RUN_STALE_SECONDS cfg);
          max_attempts = WATCH_RUN_MAX_ATTEMPTS cfg;
          E = (\<lambda>r. is_stale cutoff r \<and> max_attempts \<le> run_attempts r);
          R = (\<lambda>r. is_stale cutoff r \<and> run_attempts r < max_attempts);
          t1 = qupdate E (\<lambda>r. r\<lparr>run_state := FAILED, run_error := TIMED_OUT_EXHAUSTED,
                               run_completed := Some ts\<rparr>) t;
          t2 = qupdate R (\<lambda>r. r\<lparr>run_state := FAILED, run_error := TIMED_OUT,
                               run_completed := None\<rparr>) t1
      in (t2, qcount E t + qcount R t1))"

definition reap_stale :: "settings \<Rightarrow> datetime \<Rightarrow> db \<Rightarrow> db \<times> nat" where
  "reap_stale cfg ts d =
     (case reap_stale_runs cfg ts (t_runs d) of (t, n) \<Rightarrow> (d\<lparr>t_runs := t\<rparr>, n))"

text \<open>The CAS of one candidate of \<open>claim_due\<close>; the claimed row is re-read
  (\<open>refresh_from_db\<close>) when the UPDATE matched.\<close>

definition claim_run :: "settings \<Rightarrow> datetime \<Rightarrow> run \<Rightarrow> run list \<Rightarrow> run list \<times> run option" where
  "claim_run cfg ts c t =
     (let P = (\<lambda>x. run_id x = run_id c \<and> run_state x = run_state c \<and>
                   run_attempts x < WATCH_RUN_MAX_ATTEMPTS cfg);
          t' = qupdate P (\<lambda>x. x\<lparr>run_state := RUNNING, run_started := Some ts,
                                run_attempts := run_attempts x + 1\<rparr>) t
      in if qcount P t = 0 then (t, None)
         else (t', qfirst (\<lambda>x. run_id x = run_id c) t'))"

definition sched_key :: "run \<Rightarrow> datetime" where
  "sched_key r = (case run_scheduled r of None \<Rightarrow> 0 | Some t \<Rightarrow> t)"

text \<open>The candidates of a pass, oldest first: a snapshot read up front.\<close>

definition claim_candidates :: "settings \<Rightarrow> datetime \<Rightarrow> db \<Rightarrow> run list" where
  "claim_candidates cfg ts d = order_by sched_key (due_runs cfg ts d)"

subsection \<open>Lemmas: bulk insertion\<close>

lemma insert_diff_insert: "k \<notin> B \<Longrightarrow> insert k (A - insert k B) = insert k A - B"
  by blast

lemma bulk_create_append:
  "\<exists>new. bulk_create_ignore rs t = t @ new \<and> set new \<subseteq> set rs \<and>
     run_key ` set new = run_key ` set rs - run_key ` set t"
proof (induction rs arbitrary: t)
  case (Cons r rs)
  show ?case
  proof (cases "run_key r \<in> run_key ` set t")
    case True
    with Cons.IH[of t] show ?thesis by auto
  next
    case False
    obtain new where n: "bulk_create_ignore rs (t @ [r]) = (t @ [r]) @ new" "set new \<subseteq> set rs"
      "run_key ` set new = run_key ` set rs - run_key ` set (t @ [r])"
      using Cons.IH[of "t @ [r]"] by blast
    with False have "bulk_create_ignore (r # rs) t = t @ (r # new)" by simp
    moreover have "run_key ` set (r # new) = run_key ` set (r # rs) - run_key ` set t"
      using n(3) insert_diff_insert[OF False] by simp
    moreover have "set (r # new) \<subseteq> set (r # rs)" using n(2) by auto
    ultimately show ?thesis by blast
  qed
qed simp

lemma bulk_create_distinct:
  "distinct (map run_key t) \<Longrightarrow> distinct (map run_key (bulk_create_ignore rs t))"
  by (induction rs arbitrary: t) auto

lemma bulk_create_distinct_ids:
  "distinct (map run_id t) \<Longrightarrow> distinct (map run_id rs) \<Longrightarrow> run_id ` set t \<inter> run_id ` set rs = {} \<Longrightarrow>
   distinct (map run_id (bulk_create_ignore rs t))"
proof (induction rs arbitrary: t)
  case (Cons r rs)
  then show ?case by (auto intro!: Cons.IH)
qed simp

lemma bulk_create_fresh:
  "distinct (map run_key rs) \<Longrightarrow> run_key ` set rs \<inter> run_key ` set t = {} \<Longrightarrow>
   bulk_create_ignore rs t = t @ rs"
proof (induction rs arbitrary: t)
  case (Cons r rs)
  then have "bulk_create_ignore rs (t @ [r]) = (t @ [r]) @ rs" by (intro Cons.IH) auto
  with Cons.prems show ?case by auto
qed simp

lemma set_bulk_create: "set (bulk_create_ignore rs t) \<subseteq> set t \<union> set rs"
  using bulk_create_append[of rs t] by fastforce

lemma keys_bulk_create:
  "run_key ` set (bulk_create_ignore rs t) = run_key ` set t \<union> run_key ` set rs"
proof -
  obtain new where n: "bulk_create_ignore rs t = t @ new"
      "run_key ` set new = run_key ` set rs - run_key ` set t"
    using bulk_create_append by blast
  then show ?thesis by (simp add: image_Un Un_Diff_cancel)
qed

subsection \<open>Lemmas: enqueueing a stream\<close>

text \<open>The rows one chunk inserts.\<close>

definition new_rows ::
  "(nat \<Rightarrow> ulid) \<Rightarrow> ulid \<Rightarrow> ulid \<Rightarrow> ulid \<Rightarrow> string \<Rightarrow> datetime \<Rightarrow> nat \<Rightarrow> ulid list \<Rightarrow> run list" where
  "new_rows gen account watch act kind scheduled_at n fids =
     map (\<lambda>(i, fid). new_run i account watch act kind fid scheduled_at '''')
       (zip (map gen [n..<n + length fids]) fids)"

lemma length_new_rows [simp]: "length (new_rows gen acc w a k sc n fids) = length fids"
  by (simp add: new_rows_def)

lemma map_item_new_rows [simp]: "map run_item (new_rows gen acc w a k sc n fids) = fids"
  by (simp add: new_rows_def o_def case_prod_beta)

lemma map_id_new_rows [simp]:
  "map run_id (new_rows gen acc w a k sc n fids) = map gen [n..<n + length fids]"
  by (simp add: new_rows_def o_def case_prod_beta)

lemma map_key_new_rows:
  "map run_key (new_rows gen acc w a k sc n fids) = map (\<lambda>fid. (acc, w, a, fid)) fids"
  by (rule nth_equalityI) (simp_all add: new_rows_def)

lemma new_rows_cases:
  assumes "r \<in> set (new_rows gen acc w a k sc n fids)"
  obtains i fid where "r = new_run i acc w a k fid sc ''''" "fid \<in> set fids"
  using assms by (auto simp: new_rows_def dest: set_zip_rightD)

lemma enqueue_chunk_ok:
  assumes "length ids \<le> ENQUEUE_CHUNK"
  shows "enqueue_chunk gen acc w a k sc ids d =
    (let fids = filter (\<lambda>fid. (acc, w, a, fid) \<notin> run_key ` set (t_runs d)) ids
     in Inr (d\<lparr>t_runs := bulk_create_ignore (new_rows gen acc w a k sc (next_id d) fids) (t_runs d),
               next_id := next_id d + length fids\<rparr>, length fids))"
proof -
  have "filter (\<lambda>fid. fid \<notin> have_items acc w a ids d) ids =
        filter (\<lambda>fid. (acc, w, a, fid) \<notin> run_key ` set (t_runs d)) ids"
    by (rule filter_cong) (auto simp: have_items_def run_key_def)
  then show ?thesis
    using assms by (auto simp: enqueue_chunk_def Let_def new_rows_def fresh_ids_def)
qed

text \<open>What a stream of ids leaves behind: the missing ids, once each, in stream order.\<close>

definition missing :: "ulid \<Rightarrow> ulid \<Rightarrow> ulid \<Rightarrow> run list \<Rightarrow> ulid list \<Rightarrow> ulid list" where
  "missing acc w a t ids = filter (\<lambda>fid. (acc, w, a, fid) \<notin> run_key ` set t) ids"

lemma missing_append [simp]: "missing acc w a t (xs @ ys) = missing acc w a t xs @ missing acc w a t ys"
  by (simp add: missing_def)

lemma new_rows_append:
  "new_rows gen acc w a k sc m (xs @ ys) =
   new_rows gen acc w a k sc m xs @ new_rows gen acc w a k sc (m + length xs) ys"
proof -
  have "[m..<m + length (xs @ ys)] = [m..<m + length xs] @ [m + length xs..<m + length xs + length ys]"
    using upt_add_eq_append[of m "m + length xs" "length ys"] by (simp add: add.assoc)
  then show ?thesis by (simp add: new_rows_def)
qed

lemma enqueue_chunks_spec:
  assumes "\<And>c. c \<in> set cs \<Longrightarrow> length c \<le> ENQUEUE_CHUNK" and "distinct (concat cs)"
  shows "enqueue_chunks gen acc w a k sc cs d n =
    (let fids = missing acc w a (t_runs d) (concat cs)
     in Inr (d\<lparr>t_runs := t_runs d @ new_rows gen acc w a k sc (next_id d) fids,
               next_id := next_id d + length fids\<rparr>, n + length fids))"
  using assms
proof (induction cs arbitrary: d n)
  case Nil
  then show ?case by (simp add: missing_def new_rows_def)
next
  case (Cons c cs)
  let ?f = "missing acc w a (t_runs d) c"
  let ?new = "new_rows gen acc w a k sc (next_id d) ?f"
  let ?d = "d\<lparr>t_runs := t_runs d @ ?new, next_id := next_id d + length ?f\<rparr>"
  have "distinct (map run_key ?new)"
    using Cons.prems(2) by (simp add: map_key_new_rows missing_def distinct_map inj_on_def)
  moreover have "run_key ` set ?new \<inter> run_key ` set (t_runs d) = {}"
    by (fastforce simp: missing_def image_iff elim!: new_rows_cases)
  ultimately have b: "bulk_create_ignore ?new (t_runs d) = t_runs d @ ?new" by (rule bulk_create_fresh)
  have ch: "enqueue_chunk gen acc w a k sc c d = Inr (?d, length ?f)"
    using Cons.prems(1)[of c] b by (simp add: enqueue_chunk_ok missing_def)
  have same: "missing acc w a (t_runs d @ ?new) (concat cs) = missing acc w a (t_runs d) (concat cs)"
    unfolding missing_def[of _ _ _ _ "concat cs"]
  proof (rule filter_cong[OF refl])
    fix fid assume f: "fid \<in> set (concat cs)"
    with Cons.prems(2) have "fid \<notin> set c" by auto
    then have "(acc, w, a, fid) \<notin> run_key ` set ?new" by (auto simp: missing_def elim!: new_rows_cases)
    then show "((acc, w, a, fid) \<notin> run_key ` set (t_runs d @ ?new)) =
               ((acc, w, a, fid) \<notin> run_key ` set (t_runs d))" by auto
  qed
  have "enqueue_chunks gen acc w a k sc cs ?d (n + length ?f) =
     (let fids = missing acc w a (t_runs ?d) (concat cs)
     in Inr (?d\<lparr>t_runs := t_runs ?d @ new_rows gen acc w a k sc (next_id ?d) fids,
               next_id := next_id ?d + length fids\<rparr>, n + length ?f + length fids))"
    by (rule Cons.IH) (use Cons.prems in auto)
  then show ?case by (simp add: ch same new_rows_append Let_def add.assoc)
qed

text \<open>Whatever the stream, no chunk exceeds the bound, so the guard never fires.\<close>

lemma enqueue_chunks_total:
  "(\<And>c. c \<in> set cs \<Longrightarrow> length c \<le> ENQUEUE_CHUNK) \<Longrightarrow>
   \<exists>d' n'. enqueue_chunks gen acc w a k sc cs d n = Inr (d', n')"
proof (induction cs arbitrary: d n)
  case (Cons c cs)
  obtain d1 n1 where "enqueue_chunk gen acc w a k sc c d = Inr (d1, n1)"
    using Cons.prems[of c] by (simp add: enqueue_chunk_ok Let_def)
  with Cons.IH[of d1 "n + n1"] Cons.prems show ?case by auto
qed simp

lemma batched_chunks: "c \<in> set (batched ENQUEUE_CHUNK ids) \<Longrightarrow> length c \<le> ENQUEUE_CHUNK"
  using batched_length[of ENQUEUE_CHUNK c ids] by (simp add: ENQUEUE_CHUNK_def)

lemma enqueue_many_total: "\<exists>d' n. enqueue_many gen acc w a k sc ids d = Inr (d', n)"
  unfolding enqueue_many_def by (rule enqueue_chunks_total) (rule batched_chunks)

lemma enqueue_many_spec:
  assumes "distinct ids"
  shows "enqueue_many gen acc w a k sc ids d =
    (let fids = missing acc w a (t_runs d) ids
     in Inr (d\<lparr>t_runs := t_runs d @ new_rows gen acc w a k sc (next_id d) fids,
               next_id := next_id d + length fids\<rparr>, length fids))"
  unfolding enqueue_many_def
  using enqueue_chunks_spec[of "batched ENQUEUE_CHUNK ids" gen acc w a k sc d 0] assms
  by (simp add: batched_chunks)

text \<open>\<open>enqueue_many\<close> touches the run table and the id counter only, and only appends.\<close>

lemma enqueue_chunk_frame:
  "enqueue_chunk gen acc w a k sc ids d = Inr (d', n) \<Longrightarrow>
   \<exists>new m. d' = d\<lparr>t_runs := t_runs d @ new, next_id := m\<rparr> \<and> next_id d \<le> m"
proof -
  assume e: "enqueue_chunk gen acc w a k sc ids d = Inr (d', n)"
  then have "length ids \<le> ENQUEUE_CHUNK" by (auto simp: enqueue_chunk_def split: if_splits)
  note enqueue_chunk_ok[OF this, of gen acc w a k sc d]
  with e obtain rs m where d': "d' = d\<lparr>t_runs := bulk_create_ignore rs (t_runs d), next_id := next_id d + m\<rparr>"
    by (auto simp: Let_def)
  obtain new where "bulk_create_ignore rs (t_runs d) = t_runs d @ new"
    using bulk_create_append by blast
  with d' show ?thesis by (intro exI[of _ new] exI[of _ "next_id d + m"]) simp
qed

lemma enqueue_many_frame:
  assumes "enqueue_many gen acc w a k sc ids d = Inr (d', n)" "distinct ids"
  shows "\<exists>new m. d' = d\<lparr>t_runs := t_runs d @ new, next_id := m\<rparr> \<and> next_id d \<le> m"
proof -
  have "d' = d\<lparr>t_runs := t_runs d @ new_rows gen acc w a k sc (next_id d) (missing acc w a (t_runs d) ids),
      next_id := next_id d + length (missing acc w a (t_runs d) ids)\<rparr>"
    using assms by (auto simp: enqueue_many_spec Let_def)
  then show ?thesis using le_add1 by blast
qed

subsection \<open>Invariant of the run table\<close>

text \<open>\<open>completed_at\<close> is set exactly on runs that rest in a terminal state; a pending run
  has attempts left, and no run has burned more than the cap.\<close>

definition run_ok :: "settings \<Rightarrow> run \<Rightarrow> bool" where
  "run_ok cfg r \<longleftrightarrow>
     (run_completed r \<noteq> None \<longleftrightarrow>
        run_state r \<in> set TERMINAL_STATES \<or>
        (run_state r = FAILED \<and> WATCH_RUN_MAX_ATTEMPTS cfg \<le> run_attempts r)) \<and>
     run_attempts r \<le> WATCH_RUN_MAX_ATTEMPTS cfg \<and>
     (run_state r = PENDING \<longrightarrow> run_attempts r < WATCH_RUN_MAX_ATTEMPTS cfg)"

definition runs_ok :: "settings \<Rightarrow> run list \<Rightarrow> bool" where
  "runs_ok cfg t \<longleftrightarrow> distinct (map run_id t) \<and> distinct (map run_key t) \<and> list_all (run_ok cfg) t"

lemma runs_okI:
  "distinct (map run_id t) \<Longrightarrow> distinct (map run_key t) \<Longrightarrow> list_all (run_ok cfg) t \<Longrightarrow> runs_ok cfg t"
  by (simp add: runs_ok_def)

lemma new_run_ok: "0 < WATCH_RUN_MAX_ATTEMPTS cfg \<Longrightarrow> run_ok cfg (new_run i acc w a k it sc p)"
  by (simp add: run_ok_def)

text \<open>A keyed or unkeyed UPDATE that keeps ids and keys, and row-wise \<open>run_ok\<close>.\<close>

lemma runs_ok_qupdate:
  assumes "runs_ok cfg t" "\<And>r. run_id (f r) = run_id r" "\<And>r. run_key (f r) = run_key r"
    and "\<And>r. r \<in> set t \<Longrightarrow> run_ok cfg r \<Longrightarrow> P r \<Longrightarrow> run_ok cfg (f r)"
  shows "runs_ok cfg (qupdate P f t)"
proof (rule runs_okI)
  show "distinct (map run_id (qupdate P f t))" "distinct (map run_key (qupdate P f t))"
    using assms(1-3) by (simp_all add: runs_ok_def map_qupdate)
  show "list_all (run_ok cfg) (qupdate P f t)"
    using assms(1,4) by (auto simp: runs_ok_def list_all_iff set_qupdate)
qed

lemma runs_ok_qdelete: "runs_ok cfg t \<Longrightarrow> runs_ok cfg (qdelete P t)"
  by (auto simp: runs_ok_def qdelete_def distinct_map_filter list_all_iff)

lemma runs_ok_bulk_create:
  assumes "runs_ok cfg t" "list_all (run_ok cfg) rs" "distinct (map run_id rs)"
    "run_id ` set t \<inter> run_id ` set rs = {}"
  shows "runs_ok cfg (bulk_create_ignore rs t)"
proof (rule runs_okI)
  show "list_all (run_ok cfg) (bulk_create_ignore rs t)"
    using assms(1,2) set_bulk_create[of rs t] by (auto simp: runs_ok_def list_all_iff)
qed (use assms in \<open>simp_all add: runs_ok_def bulk_create_distinct bulk_create_distinct_ids\<close>)

lemma completion_ts_ok:
  "completion_ts cfg s n ts \<noteq> None \<longleftrightarrow>
   s \<in> set TERMINAL_STATES \<or> (s = FAILED \<and> WATCH_RUN_MAX_ATTEMPTS cfg \<le> n)"
  by (simp add: completion_ts_def)

text \<open>A worker never reports PENDING or RUNNING as an outcome it wants persisted as a
  resting state; RUNNING is harmless to the rule, PENDING needs attempts left.\<close>

lemma runs_ok_complete_cas:
  assumes "runs_ok cfg t" "oc_state oc \<noteq> PENDING"
  shows "runs_ok cfg (fst (complete_cas cfg ts oc r t))"
proof -
  let ?P = "\<lambda>x. run_id x = run_id r \<and> run_state x = RUNNING \<and> run_attempts x = run_attempts r"
  have "runs_ok cfg (qupdate ?P (stamp_outcome oc (completion_ts cfg (oc_state oc) (run_attempts r) ts)) t)"
    using assms by (intro runs_ok_qupdate)
      (auto simp: run_ok_def completion_ts_def)
  with assms show ?thesis by (simp add: complete_cas_def Let_def)
qed

lemma runs_ok_claim_run:
  assumes "runs_ok cfg t" "run_state c \<in> set CLAIMABLE_STATES"
  shows "runs_ok cfg (fst (claim_run cfg ts c t))"
proof -
  let ?P = "\<lambda>x. run_id x = run_id c \<and> run_state x = run_state c \<and>
               run_attempts x < WATCH_RUN_MAX_ATTEMPTS cfg"
  have "runs_ok cfg (qupdate ?P (\<lambda>x. x\<lparr>run_state := RUNNING, run_started := Some ts,
          run_attempts := run_attempts x + 1\<rparr>) t)"
    using assms by (intro runs_ok_qupdate) (auto simp: run_ok_def run_key_def)
  with assms show ?thesis by (simp add: claim_run_def Let_def)
qed

lemma reap_as_map:
  "fst (reap_stale_runs cfg ts t) = map (\<lambda>r.
     if is_stale (ts - seconds (WATCH_RUN_STALE_SECONDS cfg)) r
     then if WATCH_RUN_MAX_ATTEMPTS cfg \<le> run_attempts r
       then r\<lparr>run_state := FAILED, run_error := TIMED_OUT_EXHAUSTED, run_completed := Some ts\<rparr>
       else r\<lparr>run_state := FAILED, run_error := TIMED_OUT, run_completed := None\<rparr>
     else r) t"
  by (auto simp: reap_stale_runs_def Let_def qupdate_def is_stale_def)

lemma runs_ok_reap:
  assumes "runs_ok cfg t"
  shows "runs_ok cfg (fst (reap_stale_runs cfg ts t))"
  unfolding reap_stale_runs_def Let_def fst_conv
  by (intro runs_ok_qupdate assms) (auto simp: run_ok_def run_key_def is_stale_def)

subsection \<open>The run queue satisfies the work-queue contract\<close>

lemma claim_run_Some:
  assumes d: "distinct (map run_id t)" and c: "claim_run cfg ts c t = (t', Some r)"
  shows "\<exists>x\<in>set t. run_id x = run_id c \<and> run_state x = run_state c \<and>
    run_attempts x < WATCH_RUN_MAX_ATTEMPTS cfg \<and>
    r = x\<lparr>run_state := RUNNING, run_started := Some ts, run_attempts := run_attempts x + 1\<rparr> \<and>
    t' = put_row run_id r t"
proof -
  let ?P = "\<lambda>x. run_id x = run_id c \<and> run_state x = run_state c \<and>
               run_attempts x < WATCH_RUN_MAX_ATTEMPTS cfg"
  let ?f = "\<lambda>x. x\<lparr>run_state := RUNNING, run_started := Some ts, run_attempts := run_attempts x + 1\<rparr>"
  from c have n: "qcount ?P t \<noteq> 0" and t': "t' = qupdate ?P ?f t"
    and q: "qfirst (\<lambda>x. run_id x = run_id c) t' = Some r"
    by (auto simp: claim_run_def Let_def split: if_splits)
  obtain x where x: "x \<in> set t" "?P x" "qupdate ?P ?f t = put_row run_id (?f x) t"
    "qfirst (\<lambda>x. run_id x = run_id c) (qupdate ?P ?f t) = Some (?f x)"
    using cas_update[of run_id t ?P "run_id c" ?f, OF d n] by auto
  with t' q have "r = ?f x" by simp
  with x t' show ?thesis by blast
qed

lemma claim_run_None: "claim_run cfg ts c t = (t', None) \<Longrightarrow> distinct (map run_id t) \<Longrightarrow> t' = t"
proof -
  assume c: "claim_run cfg ts c t = (t', None)"
  show "t' = t"
  proof (rule ccontr)
    assume "t' \<noteq> t"
    with c obtain x where x: "x \<in> set t" "run_id x = run_id c"
      and q: "qfirst (\<lambda>x. run_id x = run_id c) t' = None"
      and t': "\<exists>P f. t' = qupdate P f t \<and> (\<forall>r. run_id (f r) = run_id r)"
      by (fastforce simp: claim_run_def Let_def qcount_0_iff split: if_splits)
    from t' have "map run_id t' = map run_id t" by (metis map_qupdate)
    then have "run_id ` set t' = run_id ` set t" by (metis set_map)
    with x have "run_id c \<in> run_id ` set t'" by (metis imageI)
    with q show False by (auto simp: qfirst_None)
  qed
qed

lemma complete_cas_True:
  assumes d: "distinct (map run_id t)" and c: "complete_cas cfg ts oc r t = (t', True)"
  shows "\<exists>x\<in>set t. run_id x = run_id r \<and> run_state x = RUNNING \<and> run_attempts x = run_attempts r \<and>
    t' = put_row run_id (stamp_outcome oc (completion_ts cfg (oc_state oc) (run_attempts r) ts) x) t"
proof -
  let ?P = "\<lambda>x. run_id x = run_id r \<and> run_state x = RUNNING \<and> run_attempts x = run_attempts r"
  from c have n: "qcount ?P t \<noteq> 0"
    and t': "t' = qupdate ?P (stamp_outcome oc (completion_ts cfg (oc_state oc) (run_attempts r) ts)) t"
    by (auto simp: complete_cas_def Let_def split: if_splits)
  obtain x where "x \<in> set t" "?P x" "t' = put_row run_id
      (stamp_outcome oc (completion_ts cfg (oc_state oc) (run_attempts r) ts) x) t"
    using cas_update[of run_id t ?P "run_id r"
        "stamp_outcome oc (completion_ts cfg (oc_state oc) (run_attempts r) ts)", OF d n] unfolding t' by auto
  then show ?thesis by blast
qed

lemma complete_cas_False: "complete_cas cfg ts oc r t = (t', False) \<Longrightarrow> t' = t"
  by (auto simp: complete_cas_def Let_def split: if_splits)

definition finish_run ::
  "settings \<Rightarrow> datetime \<times> outcome \<Rightarrow> run \<Rightarrow> run list \<Rightarrow> run list \<times> bool" where
  "finish_run cfg o' r t = complete_cas cfg (fst o') (snd o') r t"

definition reap_runs :: "settings \<Rightarrow> datetime \<Rightarrow> run list \<Rightarrow> run list" where
  "reap_runs cfg ts t = fst (reap_stale_runs cfg ts t)"

definition claimable_run :: "run \<Rightarrow> bool" where
  "claimable_run c \<longleftrightarrow> run_state c \<in> set CLAIMABLE_STATES"

definition succeeds :: "datetime \<times> outcome \<Rightarrow> bool" where
  "succeeds o' \<longleftrightarrow> oc_state (snd o') = SUCCEEDED"

interpretation rq: cas_queue run_id claimable_run "claim_run cfg" "finish_run cfg" succeeds
    "reap_runs cfg" run_attempts "WATCH_RUN_MAX_ATTEMPTS cfg" "\<lambda>r. run_state r = RUNNING"
    "\<lambda>r. run_state r = SUCCEEDED"
  for cfg
proof unfold_locales
  fix T c t T' r
  assume "distinct (map run_id T)" "claimable_run c" "claim_run cfg t c T = (T', Some r)"
  from claim_run_Some[OF this(1,3)] this(2)
  show "\<exists>x\<in>set T. run_id x = run_id r \<and> run_state x \<noteq> SUCCEEDED \<and> run_state x \<noteq> RUNNING \<and>
      run_attempts r = Suc (run_attempts x) \<and> run_attempts r \<le> WATCH_RUN_MAX_ATTEMPTS cfg \<and>
      run_state r = RUNNING \<and> T' = put_row run_id r T"
    by (fastforce simp: claimable_run_def)
next
  fix c t T T' assume "distinct (map run_id T)" "claim_run cfg t c T = (T', None)"
  then show "T' = T" by (rule claim_run_None[rotated])
next
  fix T r out T' assume "distinct (map run_id T)" "run_attempts r \<le> WATCH_RUN_MAX_ATTEMPTS cfg"
    "finish_run cfg out r T = (T', True)"
  from complete_cas_True[OF this(1) this(3)[unfolded finish_run_def]]
  obtain x where x: "x \<in> set T" "run_id x = run_id r" "run_state x = RUNNING"
      "run_attempts x = run_attempts r"
    and T': "T' = put_row run_id (stamp_outcome (snd out)
      (completion_ts cfg (oc_state (snd out)) (run_attempts r) (fst out)) x) T" by blast
  show "\<exists>x\<in>set T. \<exists>x'. run_id x = run_id r \<and> run_state x = RUNNING \<and> run_attempts x = run_attempts r \<and>
      run_id x' = run_id x \<and> run_attempts x \<le> run_attempts x' \<and>
      (succeeds out \<longrightarrow> run_state x' = SUCCEEDED) \<and> T' = put_row run_id x' T"
    by (rule bexI[OF _ x(1)], rule exI, intro conjI, rule x(2), rule x(3), rule x(4),
        rule stamp_outcome_simps(1)) (simp_all add: T' succeeds_def)
next
  fix out r T T' assume "finish_run cfg out r T = (T', False)"
  then show "T' = T" unfolding finish_run_def by (rule complete_cas_False)
next
  fix t T
  show "\<exists>f. reap_runs cfg t T = map f T \<and>
      (\<forall>x. run_id (f x) = run_id x \<and> run_attempts (f x) = run_attempts x \<and>
           (run_state x \<noteq> RUNNING \<longrightarrow> f x = x))"
    unfolding reap_runs_def reap_as_map
    by (intro exI conjI allI, rule refl) (auto simp: is_stale_def)
qed simp

subsection \<open>A concrete interleaving\<close>

definition one_run :: run where
  "one_run = new_run ''r'' ''acc'' ''w'' ''a'' ''log'' ''it'' 0 ''''"

abbreviation run_reach :: "settings \<Rightarrow> run cas_state \<Rightarrow> bool" where
  "run_reach cfg \<equiv> cas_reach run_id claimable_run (claim_run cfg) (finish_run cfg) succeeds (reap_runs cfg)"

definition held_copy :: "datetime \<Rightarrow> nat \<Rightarrow> run" where
  "held_copy ts n = one_run\<lparr>run_state := RUNNING, run_started := Some ts, run_attempts := n\<rparr>"

definition two_holders :: "run cas_state" where
  "two_holders = \<lparr>cq_tbl = [held_copy (seconds 1001) 2\<lparr>run_error := TIMED_OUT\<rparr>],
     cq_held = [held_copy (seconds 1001) 2\<lparr>run_error := TIMED_OUT\<rparr>, held_copy 0 1],
     cq_won = [], cq_taken = [''r'', ''r''], cq_used = [''r'']\<rparr>"

lemma two_holders_reach: "run_reach default_settings two_holders"
proof -
  let ?step = "cas_step run_id claimable_run (claim_run default_settings) (finish_run default_settings) succeeds
    (reap_runs default_settings)"
  let ?s1 = "cas_init\<lparr>cq_tbl := [one_run], cq_used := [''r'']\<rparr>"
  let ?s2 = "?s1\<lparr>cq_tbl := [held_copy 0 1], cq_held := [held_copy 0 1], cq_taken := [''r'']\<rparr>"
  let ?c = "one_run\<lparr>run_state := FAILED, run_started := Some 0, run_attempts := 1, run_error := TIMED_OUT\<rparr>"
  let ?s3 = "?s2\<lparr>cq_tbl := [?c]\<rparr>"
  have k: "run_id one_run = ''r''" "run_id (held_copy ts n) = ''r''" for ts n
    by (simp_all add: one_run_def held_copy_def)
  have a: "?step cas_init ?s1"
    using cas_step.enqueue[of run_id one_run cas_init claimable_run "claim_run default_settings"
        "finish_run default_settings" succeeds "reap_runs default_settings"]
    by (simp add: cas_init_def k)
  have "claim_run default_settings 0 one_run (cq_tbl ?s1) = ([held_copy 0 1], Some (held_copy 0 1))"
    by code_simp
  then have b: "?step ?s1 ?s2"
    using cas_step.claim[of claimable_run one_run "claim_run default_settings" 0 ?s1 "[held_copy 0 1]" "held_copy 0 1"
        run_id "finish_run default_settings" succeeds "reap_runs default_settings"]
    by (simp add: cas_init_def k claimable_run_def one_run_def)
  have "reap_runs default_settings (seconds 1000) (cq_tbl ?s2) = [?c]" by code_simp
  then have c: "?step ?s2 ?s3"
    using cas_step.reap[of run_id claimable_run "claim_run default_settings" "finish_run default_settings" succeeds
        "reap_runs default_settings" ?s2 "seconds 1000"] by simp
  have "claim_run default_settings (seconds 1001) ?c (cq_tbl ?s3) =
      ([held_copy (seconds 1001) 2\<lparr>run_error := TIMED_OUT\<rparr>], Some (held_copy (seconds 1001) 2\<lparr>run_error := TIMED_OUT\<rparr>))"
    by code_simp
  then have d: "?step ?s3 two_holders"
    using cas_step.claim[of claimable_run ?c "claim_run default_settings" "seconds 1001" ?s3
        "[held_copy (seconds 1001) 2\<lparr>run_error := TIMED_OUT\<rparr>]" "held_copy (seconds 1001) 2\<lparr>run_error := TIMED_OUT\<rparr>"
        run_id "finish_run default_settings" succeeds "reap_runs default_settings"]
    by (simp add: cas_init_def k claimable_run_def two_holders_def)
  show ?thesis by (rule cas_reach.step[OF cas_reach.step[OF cas_reach.step[OF cas_reach.step[OF cas_reach.start a] b] c] d])
qed

subsection \<open>Properties\<close>

text \<open>C1: whatever the interleaving of drain workers, crashes, reaps and deletions on the run
  table, a successful outcome is committed at most once per run: a run reaped while its first
  worker was still busy, and claimed again, is completed by one of the two only.\<close>

theorem run_succeeds_at_most_once:
  assumes "cas_reach run_id claimable_run (claim_run cfg) (finish_run cfg) succeeds (reap_runs cfg) s"
  shows "distinct (cq_won s)"
  using assms by (rule rq.success_at_most_once)

theorem run_succeeds_at_most_once_witness: "distinct (cq_won two_holders)"
  by (rule run_succeeds_at_most_once [OF two_holders_reach])

text \<open>A run is handed to a worker at most \<open>WATCH_RUN_MAX_ATTEMPTS\<close> times over its whole
  life, however its workers crash, fail or are reaped.\<close>

theorem run_claims_bounded:
  assumes "cas_reach run_id claimable_run (claim_run cfg) (finish_run cfg) succeeds (reap_runs cfg) s"
  shows "count_list (cq_taken s) k \<le> WATCH_RUN_MAX_ATTEMPTS cfg"
  using assms by (rule rq.claims_bounded)

theorem run_claims_bounded_witness: "count_list (cq_taken two_holders) ''r'' \<le> 3"
  using run_claims_bounded [OF two_holders_reach, of "''r''"] by (simp add: default_settings_def)

text \<open>Of two workers that hold the same run, the one with the older claim writes nothing:
  its outcome is dropped and the table is left as the newer claim has it.\<close>

theorem stale_run_claim_writes_nothing:
  assumes "cas_reach run_id claimable_run (claim_run cfg) (finish_run cfg) succeeds (reap_runs cfg) s"
    and "r \<in> set (cq_held s)" "r' \<in> set (cq_held s)" "run_id r = run_id r'" "run_attempts r < run_attempts r'"
  shows "complete_cas cfg ts oc r (cq_tbl s) = (cq_tbl s, False)"
  using rq.stale_claim_loses [OF assms, of "(ts, oc)"] by (simp add: finish_run_def)

theorem stale_run_claim_writes_nothing_witness:
  "complete_cas default_settings 7 \<lparr>oc_state = SUCCEEDED, oc_result = JNull, oc_error = '''', oc_delivery = '''',
     oc_kind = ''log''\<rparr> (held_copy 0 1) (cq_tbl two_holders) = (cq_tbl two_holders, False)"
  by (rule stale_run_claim_writes_nothing [OF two_holders_reach,
        of "held_copy 0 1" "held_copy (seconds 1001) 2\<lparr>run_error := TIMED_OUT\<rparr>"])
     (simp_all add: two_holders_def held_copy_def one_run_def)

text \<open>Enqueueing a stream of item ids queues exactly the missing ones, one PENDING run each
  and in stream order, whatever the chunking, counts them, leaves every existing run alone,
  and is idempotent: the same call again inserts nothing and changes nothing.\<close>

theorem enqueue_many_exact:
  assumes "enqueue_many gen account watch act kind sc ids d = Inr (d', n)" "distinct ids"
  shows "(\<exists>new. t_runs d' = t_runs d @ new \<and> length new = n \<and>
      map run_key new = map (\<lambda>i. (account, watch, act, i))
        (filter (\<lambda>i. (account, watch, act, i) \<notin> run_key ` set (t_runs d)) ids) \<and>
      (\<forall>r\<in>set new. run_state r = PENDING \<and> run_attempts r = 0 \<and> run_scheduled r = Some sc)) \<and>
    enqueue_many gen account watch act kind sc ids d' = Inr (d', 0)"
proof -
  let ?f = "missing account watch act (t_runs d) ids"
  let ?new = "new_rows gen account watch act kind sc (next_id d) ?f"
  have d': "d' = d\<lparr>t_runs := t_runs d @ ?new, next_id := next_id d + length ?f\<rparr>" and n: "n = length ?f"
    using assms(1)[unfolded enqueue_many_spec[OF assms(2)] Let_def] by auto
  have keys: "map run_key ?new = map (\<lambda>i. (account, watch, act, i)) ?f" by (rule map_key_new_rows)
  have rows: "\<forall>r\<in>set ?new. run_state r = PENDING \<and> run_attempts r = 0 \<and> run_scheduled r = Some sc"
    by (auto elim!: new_rows_cases)
  have "run_key ` set ?new = (\<lambda>i. (account, watch, act, i)) ` set ?f"
    using arg_cong[OF keys, of set] by (simp only: set_map)
  then have "missing account watch act (t_runs d') ids = []"
    by (auto simp: d' missing_def filter_empty_conv image_Un)
  then have "enqueue_many gen account watch act kind sc ids d' = Inr (d', 0)"
    using assms(2) by (simp add: enqueue_many_spec new_rows_def)
  moreover have "t_runs d' = t_runs d @ ?new" "length ?new = n" by (simp_all add: d' n)
  ultimately show ?thesis using keys rows unfolding missing_def by blast
qed

theorem enqueue_many_exact_witness:
  "\<exists>d'. enqueue_many (\<lambda>n. replicate (Suc n) CHR ''x'') ''acc'' ''w'' ''a'' ''log'' 5 [''it'', ''i2'']
     (empty_db\<lparr>t_runs := [one_run]\<rparr>) = Inr (d', 1) \<and> map run_item (t_runs d') = [''it'', ''i2'']"
proof -
  let ?g = "\<lambda>n. replicate (Suc n) CHR ''x''"
  let ?d = "empty_db\<lparr>t_runs := [one_run]\<rparr>"
  obtain d' n where e: "enqueue_many ?g ''acc'' ''w'' ''a'' ''log'' 5 [''it'', ''i2''] ?d = Inr (d', n)"
    using enqueue_many_total by blast
  have k: "run_key one_run = (''acc'', ''w'', ''a'', ''it'')" "t_runs ?d = [one_run]" "run_item one_run = ''it''"
    by code_simp+
  from enqueue_many_exact [OF e] obtain new where
    new: "t_runs d' = t_runs ?d @ new" "length new = n"
      "map run_key new = map (\<lambda>i. (''acc'', ''w'', ''a'', i))
        (filter (\<lambda>i. (''acc'', ''w'', ''a'', i) \<notin> run_key ` set (t_runs ?d)) [''it'', ''i2''])"
    by auto
  then obtain r where r: "new = [r]" "run_key r = (''acc'', ''w'', ''a'', ''i2'')"
    using k by (auto simp: map_eq_Cons_conv)
  then have "run_item r = ''i2''" by (simp add: run_key_def)
  with e new r(1) k show ?thesis by auto
qed

text \<open>The reaper resets exactly the RUNNING runs older than the stale bound: one with
  attempts left becomes FAILED, claimable again, with the message that it will be retried; one
  without rests FAILED with its completion stamped and the message that it will not. Every
  other run is untouched, and the count is the number of runs reset.\<close>

theorem reap_stale_exact:
  "reap_stale cfg ts d =
     (d\<lparr>t_runs := map (\<lambda>r.
        if run_state r = RUNNING \<and> lt_col (run_started r) (ts - seconds (WATCH_RUN_STALE_SECONDS cfg))
        then if WATCH_RUN_MAX_ATTEMPTS cfg \<le> run_attempts r
             then r\<lparr>run_state := FAILED, run_error := TIMED_OUT_EXHAUSTED, run_completed := Some ts\<rparr>
             else r\<lparr>run_state := FAILED, run_error := TIMED_OUT, run_completed := None\<rparr>
        else r) (t_runs d)\<rparr>,
      length (filter (\<lambda>r. run_state r = RUNNING \<and>
        lt_col (run_started r) (ts - seconds (WATCH_RUN_STALE_SECONDS cfg))) (t_runs d)))"
proof -
  let ?c = "ts - seconds (WATCH_RUN_STALE_SECONDS cfg)"
  have n: "snd (reap_stale_runs cfg ts t) = qcount (is_stale ?c) t" for t
    by (induction t) (auto simp: reap_stale_runs_def Let_def is_stale_def qcount_qupdate)
  have "reap_stale cfg ts d = (d\<lparr>t_runs := fst (reap_stale_runs cfg ts (t_runs d))\<rparr>,
      snd (reap_stale_runs cfg ts (t_runs d)))"
    by (simp add: reap_stale_def case_prod_beta)
  then show ?thesis unfolding reap_as_map n qcount_def is_stale_def[abs_def] by simp
qed

end
