(* ===== verification/Digest.thy ===== *)
theory Digest
  imports Runs
begin

text \<open>
  The digest-window coordinator (\<open>watches/services/digest.py\<close>) and the batch operations on
  a digest action's pending runs (\<open>watches/services/_run_batches.py\<close>). Lemmas: a later
  arrival joins an open window without extending it, a window closes only when nothing is
  pending, a slice takes the least tried runs first, every failed flush burns one attempt,
  and \<open>no_orphan\<close>: a closed window row has no pending run behind it.
\<close>

subsection \<open>Windows\<close>

definition is_window :: "ulid \<Rightarrow> ulid \<Rightarrow> window \<Rightarrow> bool" where
  "is_window account act w \<longleftrightarrow> win_account w = account \<and> win_action w = act"

definition win_key :: "window \<Rightarrow> ulid \<times> ulid" where
  "win_key w = (win_account w, win_action w)"

definition close_key :: "window \<Rightarrow> datetime" where
  "close_key w = (case win_close w of None \<Rightarrow> 0 | Some t \<Rightarrow> t)"

definition iter_due_windows :: "datetime \<Rightarrow> db \<Rightarrow> window list" where
  "iter_due_windows ts d = order_by close_key (filter (\<lambda>w. le_col (win_close w) ts) (t_windows d))"

text \<open>\<open>select_for_update().get_or_create(...)\<close>, then the close time is set only on a window
  that is not open.\<close>

definition open_window ::
  "ulid \<Rightarrow> ulid \<Rightarrow> int \<Rightarrow> datetime \<Rightarrow> db \<Rightarrow> db \<times> datetime" where
  "open_window account act interval_seconds ts d =
     (let ws = (case qfirst (is_window account act) (t_windows d) of
                  None \<Rightarrow> t_windows d @ [\<lparr>win_account = account, win_action = act, win_close = None\<rparr>]
                | Some _ \<Rightarrow> t_windows d);
          close = (case qfirst (is_window account act) ws of
                     None \<Rightarrow> None | Some w \<Rightarrow> win_close w)
      in case close of
           None \<Rightarrow> let c = ts + seconds interval_seconds
                   in (d\<lparr>t_windows := qupdate (is_window account act)
                                        (\<lambda>w. w\<lparr>win_close := Some c\<rparr>) ws\<rparr>, c)
         | Some c \<Rightarrow> (d\<lparr>t_windows := ws\<rparr>, c))"

definition pending_of :: "ulid \<Rightarrow> ulid \<Rightarrow> run \<Rightarrow> bool" where
  "pending_of account act r \<longleftrightarrow> run_account r = account \<and> run_action r = act \<and> run_state r = PENDING"

definition close_if_drained :: "ulid \<Rightarrow> ulid \<Rightarrow> db \<Rightarrow> db \<times> bool" where
  "close_if_drained account act d =
     (case qfirst (is_window account act) (t_windows d) of
        None \<Rightarrow> (d, True)
      | Some _ \<Rightarrow>
          if list_ex (pending_of account act) (t_runs d) then (d, False)
          else (d\<lparr>t_windows := qupdate (is_window account act) (\<lambda>w. w\<lparr>win_close := None\<rparr>)
                                 (t_windows d)\<rparr>, True))"

subsection \<open>Batches\<close>

definition enqueue_advance_batch ::
  "(nat \<Rightarrow> ulid) \<Rightarrow> ulid \<Rightarrow> ulid \<Rightarrow> string \<Rightarrow> datetime \<Rightarrow> (ulid \<times> ulid \<times> ulid) list \<Rightarrow> db \<Rightarrow> db" where
  "enqueue_advance_batch gen account act kind scheduled_at rows d =
     (let objs = map (\<lambda>(i, watch, it, prior). new_run i account watch act kind it scheduled_at prior)
                   (zip (fresh_ids gen d (length rows)) rows)
      in d\<lparr>t_runs := bulk_create_ignore objs (t_runs d), next_id := next_id d + length rows\<rparr>)"

definition batch_key :: "run \<Rightarrow> nat \<times> ulid" where
  "batch_key r = (run_attempts r, run_id r)"

text \<open>\<open>order_by("attempts", "id")[:DIGEST_MAX_BATCH_ITEMS]\<close>: two stable sorts, the major key
  last.\<close>

definition digest_batch :: "settings \<Rightarrow> ulid \<Rightarrow> ulid \<Rightarrow> db \<Rightarrow> run list" where
  "digest_batch cfg account act d =
     take (DIGEST_MAX_BATCH_ITEMS cfg)
       (order_by run_attempts (order_by run_id (filter (pending_of account act) (t_runs d))))"

definition digest_pending_count :: "ulid \<Rightarrow> ulid \<Rightarrow> db \<Rightarrow> nat" where
  "digest_pending_count account act d = qcount (pending_of account act) (t_runs d)"

definition in_batch :: "ulid \<Rightarrow> ulid list \<Rightarrow> run \<Rightarrow> bool" where
  "in_batch account ids r \<longleftrightarrow> run_id r \<in> set ids \<and> run_account r = account \<and> run_state r = PENDING"

fun complete_chunks ::
  "ulid \<Rightarrow> outcome \<Rightarrow> datetime \<Rightarrow> ulid list list \<Rightarrow> run list \<Rightarrow> nat \<Rightarrow> run list \<times> nat" where
  "complete_chunks account oc ts [] t written = (t, written)"
| "complete_chunks account oc ts (c # cs) t written =
     complete_chunks account oc ts cs
       (qupdate (in_batch account c) (stamp_outcome oc (Some ts)) t)
       (written + qcount (in_batch account c) t)"

definition complete_batch ::
  "ulid \<Rightarrow> ulid list \<Rightarrow> outcome \<Rightarrow> datetime \<Rightarrow> db \<Rightarrow> db \<times> nat" where
  "complete_batch account run_ids oc ts d =
     (case complete_chunks account oc ts (batched ID_IN_CHUNK run_ids) (t_runs d) 0 of
        (t, n) \<Rightarrow> (d\<lparr>t_runs := t\<rparr>, n))"

fun fail_chunks ::
  "settings \<Rightarrow> ulid \<Rightarrow> datetime \<Rightarrow> ulid list list \<Rightarrow> run list \<Rightarrow> nat \<Rightarrow> run list \<times> nat" where
  "fail_chunks cfg account ts [] t exhausted = (t, exhausted)"
| "fail_chunks cfg account ts (c # cs) t exhausted =
     (let t1 = qupdate (in_batch account c)
                 (\<lambda>r. r\<lparr>run_attempts := run_attempts r + 1, run_error := TRANSIENT\<rparr>) t;
          E = (\<lambda>r. in_batch account c r \<and> WATCH_RUN_MAX_ATTEMPTS cfg \<le> run_attempts r);
          t2 = qupdate E (\<lambda>r. r\<lparr>run_state := FAILED, run_error := TRANSIENT_EXHAUSTED,
                               run_completed := Some ts\<rparr>) t1
      in fail_chunks cfg account ts cs t2 (exhausted + qcount E t1))"

definition fail_batch ::
  "settings \<Rightarrow> ulid \<Rightarrow> ulid list \<Rightarrow> datetime \<Rightarrow> db \<Rightarrow> db \<times> nat" where
  "fail_batch cfg account run_ids ts d =
     (case fail_chunks cfg account ts (batched ID_IN_CHUNK run_ids) (t_runs d) 0 of
        (t, n) \<Rightarrow> (d\<lparr>t_runs := t\<rparr>, n))"

subsection \<open>Lemmas: windows\<close>

definition windows_ok :: "window list \<Rightarrow> bool" where
  "windows_ok ws \<longleftrightarrow> distinct (map win_key ws)"

definition close_of :: "ulid \<Rightarrow> ulid \<Rightarrow> db \<Rightarrow> datetime option" where
  "close_of account act d =
     (case qfirst (is_window account act) (t_windows d) of None \<Rightarrow> None | Some w \<Rightarrow> win_close w)"

lemma has_window_iff: "has_window account act ws \<longleftrightarrow> qfirst (is_window account act) ws \<noteq> None"
  by (auto simp: has_window_def list_ex_iff qfirst_None is_window_def)

lemma qfirst_qupdate:
  "(\<And>w. P w \<Longrightarrow> P (f w)) \<Longrightarrow> qfirst P (qupdate P f t) = map_option f (qfirst P t)"
  by (induction t) auto

lemma qfirst_append: "qfirst P (s @ t) = (case qfirst P s of None \<Rightarrow> qfirst P t | Some x \<Rightarrow> Some x)"
  by (induction s) auto

lemma qfirst_qupdate_other:
  "(\<And>w. P w \<Longrightarrow> \<not> Q w) \<Longrightarrow> (\<And>w. P w \<Longrightarrow> \<not> Q (f w)) \<Longrightarrow> qfirst Q (qupdate P f t) = qfirst Q t"
  by (induction t) auto

lemma is_window_simps [simp]:
  "is_window a b (win_close_update f w) = is_window a b w"
  "is_window a b \<lparr>win_account = a', win_action = b', win_close = c\<rparr> = (a' = a \<and> b' = b)"
  by (simp_all add: is_window_def)

lemma qfirst_window_update [simp]:
  "qfirst (is_window a b) (qupdate (is_window a b) (win_close_update f) t) =
   map_option (win_close_update f) (qfirst (is_window a b) t)"
  by (rule qfirst_qupdate) simp

lemma qfirst_window_other [simp]:
  "(a', b') \<noteq> (a, b) \<Longrightarrow>
   qfirst (is_window a' b') (qupdate (is_window a b) (win_close_update f) t) = qfirst (is_window a' b') t"
  by (rule qfirst_qupdate_other) (auto simp: is_window_def)

text \<open>After \<open>open_window\<close> the window is open until the returned time; an open one keeps its
  time, and no other window moves.\<close>

lemma open_window_close:
  "open_window account act n ts d = (d', c) \<Longrightarrow> close_of account act d' = Some c"
  by (auto simp: open_window_def close_of_def Let_def qfirst_append split: option.splits)

lemma open_window_joins:
  "close_of account act d = Some c \<Longrightarrow> open_window account act n ts d = (d, c)"
  by (auto simp: open_window_def close_of_def Let_def split: option.splits)

lemma open_window_opens:
  "close_of account act d = None \<Longrightarrow> snd (open_window account act n ts d) = ts + seconds n"
  by (auto simp: open_window_def close_of_def Let_def qfirst_append split: option.splits)

lemma open_window_other:
  "(account', act') \<noteq> (account, act) \<Longrightarrow>
   close_of account' act' (fst (open_window account act n ts d)) = close_of account' act' d"
  by (auto simp: open_window_def close_of_def Let_def qfirst_append split: option.splits)

lemma open_window_frame [frame_simps]:
  "\<exists>ws. fst (open_window account act n ts d) = d\<lparr>t_windows := ws\<rparr>"
  by (auto simp: open_window_def Let_def split: option.splits intro: exI[of _ "t_windows d"])

lemma windows_ok_open:
  "windows_ok (t_windows d) \<Longrightarrow> windows_ok (t_windows (fst (open_window account act n ts d)))"
proof -
  have *: "map win_key (qupdate (is_window account act) (\<lambda>w. w\<lparr>win_close := Some c\<rparr>) ws) = map win_key ws" for c ws
    by (rule map_qupdate) (simp add: win_key_def)
  show "windows_ok (t_windows d) \<Longrightarrow> ?thesis"
    by (auto simp: open_window_def windows_ok_def Let_def * qfirst_None is_window_def win_key_def
          split: option.splits)
qed

lemma close_if_drained_True:
  "close_if_drained account act d = (d', True) \<Longrightarrow>
   close_of account act d' = None \<and> t_runs d' = t_runs d \<and>
   (has_window account act (t_windows d) \<longrightarrow> digest_pending_count account act d = 0)"
  by (auto simp: close_if_drained_def close_of_def has_window_iff digest_pending_count_def
        qcount_0_iff list_ex_iff split: option.splits if_splits)

lemma close_if_drained_False:
  "close_if_drained account act d = (d', False) \<Longrightarrow> d' = d \<and> 0 < digest_pending_count account act d"
  by (auto simp: close_if_drained_def digest_pending_count_def list_ex_iff qcount_0_iff neq0_conv[symmetric]
        split: option.splits if_splits simp del: neq0_conv)

lemma close_if_drained_other:
  "(account', act') \<noteq> (account, act) \<Longrightarrow>
   close_of account' act' (fst (close_if_drained account act d)) = close_of account' act' d"
  by (auto simp: close_if_drained_def close_of_def split: option.splits)

lemma close_if_drained_frame [frame_simps]:
  "\<exists>ws. fst (close_if_drained account act d) = d\<lparr>t_windows := ws\<rparr>"
  by (auto simp: close_if_drained_def split: option.splits intro: exI[of _ "t_windows d"])

lemma windows_ok_close:
  "windows_ok (t_windows d) \<Longrightarrow> windows_ok (t_windows (fst (close_if_drained account act d)))"
proof -
  have *: "map win_key (qupdate (is_window account act) (\<lambda>w. w\<lparr>win_close := c\<rparr>) ws) = map win_key ws" for c ws
    by (rule map_qupdate) (simp add: win_key_def)
  show "windows_ok (t_windows d) \<Longrightarrow> ?thesis"
    by (auto simp: close_if_drained_def windows_ok_def * split: option.splits)
qed

subsection \<open>Lemmas: slices\<close>

lemma sorted_wrt_insort_stable:
  fixes k :: "'r \<Rightarrow> 'k::linorder"
  assumes "sorted_wrt (\<lambda>x y. k x < k y \<or> (k x = k y \<and> R x y)) xs" "\<forall>y\<in>set xs. R x y"
  shows "sorted_wrt (\<lambda>x y. k x < k y \<or> (k x = k y \<and> R x y)) (insort_key k x xs)"
  using assms by (induction xs) (auto simp: set_insort_key)

lemma sorted_wrt_stable:
  fixes k :: "'r \<Rightarrow> 'k::linorder"
  shows "sorted_wrt R xs \<Longrightarrow> sorted_wrt (\<lambda>x y. k x < k y \<or> (k x = k y \<and> R x y)) (sort_key k xs)"
proof (induction xs)
  case (Cons x xs)
  then show ?case by (auto intro!: sorted_wrt_insort_stable)
qed simp

lemma sorted_wrt_take_drop: "sorted_wrt R xs \<Longrightarrow> x \<in> set (take n xs) \<Longrightarrow> y \<in> set (drop n xs) \<Longrightarrow> R x y"
  by (metis append_take_drop_id sorted_wrt_append)

text \<open>The order of a slice, as the SQL sorts: fewer attempts first, then the older id.\<close>

definition tried_before :: "run \<Rightarrow> run \<Rightarrow> bool" where
  "tried_before x y \<longleftrightarrow>
     run_attempts x < run_attempts y \<or> (run_attempts x = run_attempts y \<and> run_id x \<le> run_id y)"

definition gather :: "ulid \<Rightarrow> ulid \<Rightarrow> db \<Rightarrow> run list" where
  "gather account act d =
     order_by run_attempts (order_by run_id (filter (pending_of account act) (t_runs d)))"

lemma digest_batch_gather: "digest_batch cfg account act d = take (DIGEST_MAX_BATCH_ITEMS cfg) (gather account act d)"
  by (simp add: digest_batch_def gather_def)

lemma sorted_gather: "sorted_wrt tried_before (gather account act d)"
proof -
  have "sorted_wrt (\<lambda>x y. run_id x \<le> run_id y) (order_by run_id (filter (pending_of account act) (t_runs d)))"
    using sorted_order_by[of run_id] by (simp add: sorted_wrt_map)
  then show ?thesis
    unfolding gather_def tried_before_def order_by_def[of run_attempts] by (rule sorted_wrt_stable)
qed

lemma set_gather [simp]: "set (gather account act d) = {r \<in> set (t_runs d). pending_of account act r}"
  by (auto simp: gather_def)

lemma length_gather: "length (gather account act d) = digest_pending_count account act d"
  by (simp add: gather_def digest_pending_count_def qcount_def)

lemma distinct_gather: "distinct (map run_id (t_runs d)) \<Longrightarrow> distinct (map run_id (gather account act d))"
  by (simp add: gather_def distinct_map_filter)

lemma digest_batch_pending:
  "r \<in> set (digest_batch cfg account act d) \<Longrightarrow> r \<in> set (t_runs d) \<and> pending_of account act r"
  using set_take_subset[of _ "gather account act d"] by (fastforce simp: digest_batch_gather)

lemma digest_batch_distinct:
  "distinct (map run_id (t_runs d)) \<Longrightarrow> distinct (map run_id (digest_batch cfg account act d))"
  by (simp add: digest_batch_gather take_map[symmetric] distinct_gather distinct_take)

lemma digest_batch_length:
  "length (digest_batch cfg account act d) =
   min (DIGEST_MAX_BATCH_ITEMS cfg) (digest_pending_count account act d)"
  by (simp add: digest_batch_gather length_gather min.commute)

lemma digest_batch_Nil:
  "0 < DIGEST_MAX_BATCH_ITEMS cfg \<Longrightarrow>
   digest_batch cfg account act d = [] \<longleftrightarrow> digest_pending_count account act d = 0"
  by (subst length_0_conv[symmetric]) (auto simp: digest_batch_length min_def)

lemma digest_batch_least:
  assumes "x \<in> set (digest_batch cfg account act d)" "y \<in> set (t_runs d)" "pending_of account act y"
    and "y \<notin> set (digest_batch cfg account act d)"
  shows "tried_before x y"
proof -
  have "y \<in> set (gather account act d)" using assms(2,3) by simp
  then have "y \<in> set (drop (DIGEST_MAX_BATCH_ITEMS cfg) (gather account act d))"
    using assms(4) by (metis Un_iff append_take_drop_id digest_batch_gather set_append)
  with sorted_gather assms(1) show ?thesis
    unfolding digest_batch_gather by (rule sorted_wrt_take_drop)
qed

subsection \<open>Lemmas: resolving a batch\<close>

text \<open>The two UPDATEs of \<open>fail_batch\<close> on one row.\<close>

definition fail_row :: "settings \<Rightarrow> datetime \<Rightarrow> run \<Rightarrow> run" where
  "fail_row cfg ts r =
     (if WATCH_RUN_MAX_ATTEMPTS cfg \<le> run_attempts r + 1
      then r\<lparr>run_attempts := run_attempts r + 1, run_state := FAILED,
             run_error := TRANSIENT_EXHAUSTED, run_completed := Some ts\<rparr>
      else r\<lparr>run_attempts := run_attempts r + 1, run_error := TRANSIENT\<rparr>)"

lemma fail_row_simps [simp]:
  "run_id (fail_row cfg ts r) = run_id r"
  "run_key (fail_row cfg ts r) = run_key r"
  "run_account (fail_row cfg ts r) = run_account r"
  "run_watch (fail_row cfg ts r) = run_watch r"
  "run_action (fail_row cfg ts r) = run_action r"
  "run_item (fail_row cfg ts r) = run_item r"
  "run_attempts (fail_row cfg ts r) = run_attempts r + 1"
  "run_state (fail_row cfg ts r) =
     (if WATCH_RUN_MAX_ATTEMPTS cfg \<le> run_attempts r + 1 then FAILED else run_state r)"
  by (simp_all add: fail_row_def run_key_def)

lemma map_batch_split:
  assumes "\<And>r. run_id (f r) = run_id r" "set c \<inter> set cs = {}"
  shows "map (\<lambda>r. if in_batch account cs r then f r else r)
           (map (\<lambda>r. if in_batch account c r then f r else r) t) =
         map (\<lambda>r. if in_batch account (c @ cs) r then f r else r) t"
  using assms by (auto simp: in_batch_def)

lemma qcount_batch_split:
  assumes "\<And>r. run_id (f r) = run_id r" "set c \<inter> set cs = {}"
  shows "qcount (\<lambda>r. in_batch account c r \<and> Q r) t +
         qcount (\<lambda>r. in_batch account cs r \<and> Q r) (map (\<lambda>r. if in_batch account c r then f r else r) t) =
         qcount (\<lambda>r. in_batch account (c @ cs) r \<and> Q r) t"
  using assms by (induction t) (auto simp: in_batch_def)

lemma complete_chunks_spec:
  assumes "distinct (concat cs)"
  shows "complete_chunks account oc ts cs t n =
    (map (\<lambda>r. if in_batch account (concat cs) r then stamp_outcome oc (Some ts) r else r) t,
     n + qcount (in_batch account (concat cs)) t)"
  using assms
proof (induction cs arbitrary: t n)
  case Nil
  then show ?case by (simp add: in_batch_def[abs_def] qcount_0_iff flip: map_idI)
next
  case (Cons c cs)
  let ?f = "stamp_outcome oc (Some ts)"
  have disj: "set c \<inter> set (concat cs) = {}" and d: "distinct (concat cs)" using Cons.prems by auto
  show ?case
    using Cons.IH[OF d] map_batch_split[where f = ?f, OF _ disj]
      qcount_batch_split[where f = ?f and Q = "\<lambda>_. True", OF _ disj]
    by (simp add: qupdate_def add.assoc)
qed

lemma complete_batch_spec:
  assumes "distinct ids"
  shows "complete_batch account ids oc ts d =
    (d\<lparr>t_runs := map (\<lambda>r. if in_batch account ids r then stamp_outcome oc (Some ts) r else r) (t_runs d)\<rparr>,
     qcount (in_batch account ids) (t_runs d))"
  using assms by (simp add: complete_batch_def complete_chunks_spec)

lemma fail_chunk_row:
  "qupdate (\<lambda>r. in_batch account c r \<and> WATCH_RUN_MAX_ATTEMPTS cfg \<le> run_attempts r)
     (\<lambda>r. r\<lparr>run_state := FAILED, run_error := TRANSIENT_EXHAUSTED, run_completed := Some ts\<rparr>)
     (qupdate (in_batch account c) (\<lambda>r. r\<lparr>run_attempts := run_attempts r + 1, run_error := TRANSIENT\<rparr>) t) =
   map (\<lambda>r. if in_batch account c r then fail_row cfg ts r else r) t"
  "qcount (\<lambda>r. in_batch account c r \<and> WATCH_RUN_MAX_ATTEMPTS cfg \<le> run_attempts r)
     (qupdate (in_batch account c) (\<lambda>r. r\<lparr>run_attempts := run_attempts r + 1, run_error := TRANSIENT\<rparr>) t) =
   qcount (\<lambda>r. in_batch account c r \<and> WATCH_RUN_MAX_ATTEMPTS cfg \<le> run_attempts r + 1) t"
  by (induction t) (auto simp: in_batch_def fail_row_def)

lemma fail_chunks_spec:
  assumes "distinct (concat cs)"
  shows "fail_chunks cfg account ts cs t n =
    (map (\<lambda>r. if in_batch account (concat cs) r then fail_row cfg ts r else r) t,
     n + qcount (\<lambda>r. in_batch account (concat cs) r \<and> WATCH_RUN_MAX_ATTEMPTS cfg \<le> run_attempts r + 1) t)"
  using assms
proof (induction cs arbitrary: t n)
  case Nil
  then show ?case by (simp add: in_batch_def[abs_def] qcount_0_iff flip: map_idI)
next
  case (Cons c cs)
  let ?f = "fail_row cfg ts"
  have disj: "set c \<inter> set (concat cs) = {}" and d: "distinct (concat cs)" using Cons.prems by auto
  show ?case
    using Cons.IH[OF d] map_batch_split[where f = ?f, OF _ disj]
      qcount_batch_split[where f = ?f and Q = "\<lambda>r. WATCH_RUN_MAX_ATTEMPTS cfg \<le> run_attempts r + 1", OF _ disj]
    by (simp add: fail_chunk_row[unfolded One_nat_def add_Suc_right add_0_right] Let_def add.assoc)
qed

lemma fail_batch_spec:
  assumes "distinct ids"
  shows "fail_batch cfg account ids ts d =
    (d\<lparr>t_runs := map (\<lambda>r. if in_batch account ids r then fail_row cfg ts r else r) (t_runs d)\<rparr>,
     qcount (\<lambda>r. in_batch account ids r \<and> WATCH_RUN_MAX_ATTEMPTS cfg \<le> run_attempts r + 1) (t_runs d))"
  using assms by (simp add: fail_batch_def fail_chunks_spec)

text \<open>The run-table invariant through the batch operations.\<close>

lemma runs_ok_map:
  assumes "runs_ok cfg t" "\<And>r. run_id (f r) = run_id r" "\<And>r. run_key (f r) = run_key r"
    and "\<And>r. r \<in> set t \<Longrightarrow> run_ok cfg r \<Longrightarrow> P r \<Longrightarrow> run_ok cfg (f r)"
  shows "runs_ok cfg (map (\<lambda>r. if P r then f r else r) t)"
  using runs_ok_qupdate[OF assms] by (simp add: qupdate_def)

lemma runs_ok_complete_batch:
  assumes "runs_ok cfg (t_runs d)" "distinct ids" "oc_state oc \<in> set TERMINAL_STATES"
  shows "runs_ok cfg (t_runs (fst (complete_batch account ids oc ts d)))"
  using assms unfolding complete_batch_spec[OF assms(2)]
  by (auto intro!: runs_ok_map simp: run_ok_def)

lemma fail_row_ok:
  "run_ok cfg r \<Longrightarrow> run_state r = PENDING \<Longrightarrow> run_ok cfg (fail_row cfg ts r)"
  by (auto simp: run_ok_def fail_row_def)

lemma runs_ok_fail_batch:
  assumes "runs_ok cfg (t_runs d)" "distinct ids"
  shows "runs_ok cfg (t_runs (fst (fail_batch cfg account ids ts d)))"
  using assms unfolding fail_batch_spec[OF assms(2)]
  by (auto intro!: runs_ok_map fail_row_ok simp: in_batch_def)

text \<open>Identifiers in the run table were drawn from the generator.\<close>

definition run_ids_ok :: "(nat \<Rightarrow> ulid) \<Rightarrow> db \<Rightarrow> bool" where
  "run_ids_ok gen d \<longleftrightarrow> (\<forall>r\<in>set (t_runs d). id_used gen (next_id d) (run_id r))"

definition db_ok :: "settings \<Rightarrow> (nat \<Rightarrow> ulid) \<Rightarrow> db \<Rightarrow> bool" where
  "db_ok cfg gen d \<longleftrightarrow> runs_ok cfg (t_runs d) \<and> windows_ok (t_windows d) \<and> run_ids_ok gen d"

lemma advance_objs_cases:
  assumes "r \<in> set (map (\<lambda>(i, watch, it, prior). new_run i account watch act kind it sc prior) (zip is rows))"
  obtains i w it p where "r = new_run i account w act kind it sc p" "(w, it, p) \<in> set rows" "i \<in> set is"
  using assms by (force dest: set_zip_leftD set_zip_rightD)

lemma bulk_new_runs_ok:
  assumes ok: "runs_ok cfg (t_runs d)" "run_ids_ok gen d" and g: "inj gen" "0 < WATCH_RUN_MAX_ATTEMPTS cfg"
    and ids: "map run_id rs = fresh_ids gen d (length rs)" and new: "list_all (run_ok cfg) rs"
  defines "d' \<equiv> d\<lparr>t_runs := bulk_create_ignore rs (t_runs d), next_id := next_id d + length rs\<rparr>"
  shows "runs_ok cfg (t_runs d') \<and> run_ids_ok gen d'"
proof
  have idset: "run_id ` set rs = set (fresh_ids gen d (length rs))" using ids by (metis set_map)
  have "run_id ` set (t_runs d) \<inter> run_id ` set rs = {}"
    unfolding idset using ok(2) fresh_ids_unused[OF g(1)] by (fastforce simp: run_ids_ok_def)
  moreover have "distinct (map run_id rs)" using g(1) by (simp add: ids distinct_fresh_ids)
  ultimately show "runs_ok cfg (t_runs d')" using ok(1) new by (simp add: d'_def runs_ok_bulk_create)
  have "id_used gen (next_id d + length rs) (run_id r)" if "r \<in> set (bulk_create_ignore rs (t_runs d))" for r
  proof -
    from that set_bulk_create consider "r \<in> set (t_runs d)" | "r \<in> set rs" by blast
    then show ?thesis
    proof cases
      case 1
      then have "id_used gen (next_id d) (run_id r)" using ok(2) by (simp add: run_ids_ok_def)
      then show ?thesis by (rule id_used_mono) simp
    next
      case 2
      then have "run_id r \<in> set (fresh_ids gen d (length rs))" using idset by auto
      then show ?thesis by (rule fresh_ids_used)
    qed
  qed
  then show "run_ids_ok gen d'" by (simp add: d'_def run_ids_ok_def)
qed

lemma enqueue_advance_batch_ok:
  assumes "runs_ok cfg (t_runs d)" "run_ids_ok gen d" "inj gen" "0 < WATCH_RUN_MAX_ATTEMPTS cfg"
  shows "runs_ok cfg (t_runs (enqueue_advance_batch gen account act kind sc rows d)) \<and>
         run_ids_ok gen (enqueue_advance_batch gen account act kind sc rows d)"
proof -
  let ?rs = "map (\<lambda>(i, watch, it, prior). new_run i account watch act kind it sc prior)
               (zip (fresh_ids gen d (length rows)) rows)"
  have "map run_id ?rs = fresh_ids gen d (length ?rs)"
    by (simp add: o_def case_prod_beta)
  moreover have "list_all (run_ok cfg) ?rs"
    unfolding list_all_iff using new_run_ok[OF assms(4)] by (auto elim!: advance_objs_cases)
  ultimately show ?thesis
    using bulk_new_runs_ok[OF assms(1-4), of ?rs] by (simp add: enqueue_advance_batch_def Let_def)
qed

lemma enqueue_advance_batch_rows:
  "\<exists>new m. enqueue_advance_batch gen account act kind sc rows d = d\<lparr>t_runs := t_runs d @ new, next_id := m\<rparr> \<and>
     (\<forall>r\<in>set new. run_account r = account \<and> run_action r = act \<and> run_state r = PENDING \<and>
        run_scheduled r = Some sc)"
proof -
  let ?rs = "map (\<lambda>(i, watch, it, prior). new_run i account watch act kind it sc prior)
               (zip (fresh_ids gen d (length rows)) rows)"
  obtain new where n: "bulk_create_ignore ?rs (t_runs d) = t_runs d @ new" "set new \<subseteq> set ?rs"
    using bulk_create_append by blast
  show ?thesis
    by (rule exI[of _ new], rule exI[of _ "next_id d + length rows"])
       (use n in \<open>fastforce simp: enqueue_advance_batch_def Let_def elim!: advance_objs_cases\<close>)
qed

subsection \<open>No pending run behind a closed window\<close>

text \<open>A pending run of an action whose window row exists but is closed is reached by neither
  the drain (\<open>claim_due\<close> skips actions with a window row) nor the flush (\<open>iter_due\<close> skips
  closed windows). \<open>no_orphan\<close> says there is none.\<close>

definition closed_window :: "ulid \<Rightarrow> ulid \<Rightarrow> db \<Rightarrow> bool" where
  "closed_window account act d \<longleftrightarrow>
     list_ex (\<lambda>w. is_window account act w \<and> win_close w = None) (t_windows d)"

definition no_orphan :: "db \<Rightarrow> bool" where
  "no_orphan d \<longleftrightarrow>
     list_all (\<lambda>r. run_state r = PENDING \<longrightarrow> \<not> closed_window (run_account r) (run_action r) d) (t_runs d)"

lemma no_orphan_iff:
  "no_orphan d \<longleftrightarrow>
   (\<forall>r\<in>set (t_runs d). run_state r = PENDING \<longrightarrow> \<not> closed_window (run_account r) (run_action r) d)"
  by (simp add: no_orphan_def list_all_iff)

lemma window_unique:
  assumes "windows_ok ws" "v \<in> set ws" "w \<in> set ws" "is_window a b v" "is_window a b w"
  shows "v = w"
  by (rule distinct_key_unique[of win_key ws])
     (use assms in \<open>auto simp: windows_ok_def win_key_def is_window_def\<close>)

lemma closed_window_iff:
  assumes "windows_ok (t_windows d)"
  shows "closed_window account act d \<longleftrightarrow>
         has_window account act (t_windows d) \<and> close_of account act d = None"
proof (cases "qfirst (is_window account act) (t_windows d)")
  case None
  then show ?thesis by (auto simp: closed_window_def has_window_iff list_ex_iff qfirst_None)
next
  case (Some w)
  then have w: "w \<in> set (t_windows d)" "is_window account act w" by (auto dest: qfirst_Some)
  have only: "\<And>v. v \<in> set (t_windows d) \<Longrightarrow> is_window account act v \<Longrightarrow> v = w"
    using window_unique[OF assms _ w(1) _ w(2)] by blast
  have "closed_window account act d \<longleftrightarrow> win_close w = None"
    unfolding closed_window_def list_ex_iff using w only by blast
  with Some show ?thesis by (simp add: has_window_iff close_of_def)
qed

lemma has_window_update [simp]:
  "has_window a b (qupdate P (win_close_update f) ws) = has_window a b ws"
  by (induction ws) (auto simp: has_window_def)

lemma has_window_append [simp]:
  "has_window a b (ws @ [\<lparr>win_account = a', win_action = b', win_close = c\<rparr>]) \<longleftrightarrow>
   has_window a b ws \<or> (a' = a \<and> b' = b)"
  by (auto simp: has_window_def)

lemma has_window_open:
  "has_window a b (t_windows (fst (open_window account act n ts d))) \<longleftrightarrow>
   has_window a b (t_windows d) \<or> (a = account \<and> b = act)"
proof (cases "qfirst (is_window account act) (t_windows d)")
  case None
  then show ?thesis by (auto simp: open_window_def Let_def qfirst_append)
next
  case (Some w)
  then have "has_window account act (t_windows d)" by (simp add: has_window_iff)
  with Some show ?thesis by (auto simp: open_window_def Let_def split: option.splits)
qed

lemma has_window_close [simp]:
  "has_window a b (t_windows (fst (close_if_drained account act d))) \<longleftrightarrow> has_window a b (t_windows d)"
  by (auto simp: close_if_drained_def split: option.splits)

lemma closed_window_open:
  assumes "windows_ok (t_windows d)"
  shows "closed_window a b (fst (open_window account act n ts d)) \<longleftrightarrow>
         closed_window a b d \<and> (a, b) \<noteq> (account, act)"
proof (cases "(a, b) = (account, act)")
  case True
  have "close_of account act (fst (open_window account act n ts d)) \<noteq> None"
    using open_window_close[of account act n ts d] by (metis option.distinct(1) prod.collapse)
  with True show ?thesis by (auto simp: closed_window_iff assms windows_ok_open)
next
  case False
  then show ?thesis
    using open_window_other[of a b account act n ts d]
    by (auto simp: closed_window_iff assms windows_ok_open has_window_open)
qed

lemma closed_window_close:
  assumes "windows_ok (t_windows d)"
  shows "closed_window a b (fst (close_if_drained account act d)) \<longrightarrow>
         closed_window a b d \<or> ((a, b) = (account, act) \<and> digest_pending_count account act d = 0)"
proof (cases "(a, b) = (account, act)")
  case True
  show ?thesis
  proof (cases "close_if_drained account act d")
    case (Pair d' closed)
    show ?thesis
    proof (cases closed)
      case closed: True
      with Pair close_if_drained_True[of account act d d'] have
        "has_window account act (t_windows d) \<longrightarrow> digest_pending_count account act d = 0" by simp
      with True show ?thesis
        using assms by (auto simp: closed_window_iff windows_ok_close has_window_close)
    next
      case False
      with Pair close_if_drained_False[of account act d d'] show ?thesis by simp
    qed
  qed
next
  case False
  then show ?thesis
    using close_if_drained_other[of a b account act d]
    by (auto simp: closed_window_iff assms windows_ok_close has_window_close)
qed

lemma t_runs_open [frame_simps, simp]: "t_runs (fst (open_window account act n ts d)) = t_runs d"
  using open_window_frame[of account act n ts d] by auto

lemma t_runs_close [frame_simps, simp]: "t_runs (fst (close_if_drained account act d)) = t_runs d"
  using close_if_drained_frame[of account act d] by auto

lemma next_id_window_ops [simp]:
  "next_id (fst (open_window account act n ts d)) = next_id d"
  "next_id (fst (close_if_drained account act d)) = next_id d"
  using open_window_frame[of account act n ts d] close_if_drained_frame[of account act d] by auto

lemma no_orphan_open:
  "windows_ok (t_windows d) \<Longrightarrow> no_orphan d \<Longrightarrow> no_orphan (fst (open_window account act n ts d))"
  by (auto simp: no_orphan_iff closed_window_open)

lemma no_orphan_close:
  assumes "windows_ok (t_windows d)" "no_orphan d"
  shows "no_orphan (fst (close_if_drained account act d))"
  unfolding no_orphan_iff
proof (intro ballI impI notI)
  fix r assume r: "r \<in> set (t_runs (fst (close_if_drained account act d)))" "run_state r = PENDING"
    and c: "closed_window (run_account r) (run_action r) (fst (close_if_drained account act d))"
  from closed_window_close[OF assms(1)] c
  have "closed_window (run_account r) (run_action r) d \<or>
      ((run_account r, run_action r) = (account, act) \<and> digest_pending_count account act d = 0)" by blast
  with r assms(2) show False
    by (auto simp: no_orphan_iff digest_pending_count_def qcount_0_iff pending_of_def)
qed

text \<open>Rows may change freely as long as no run becomes pending behind a closed window.\<close>

lemma no_orphan_runs:
  assumes "no_orphan d" "t_windows d' = t_windows d"
    and "\<And>r. r \<in> set (t_runs d') \<Longrightarrow> run_state r = PENDING \<Longrightarrow>
      \<not> closed_window (run_account r) (run_action r) d \<or>
      (\<exists>x\<in>set (t_runs d). run_state x = PENDING \<and> run_account x = run_account r \<and> run_action x = run_action r)"
  shows "no_orphan d'"
  using assms by (fastforce simp: no_orphan_iff closed_window_def)

end
