(* ===== verification/Ssrf.thy ===== *)
theory Ssrf
  imports Prelude "HOL-Library.Word"
begin

unbundle bit_operations_syntax

text \<open>
  The outbound-destination check \<open>common/ssrf.py\<close> with the parts of the standard library it
  stands on: \<open>urllib.parse.urlsplit\<close> with its \<open>hostname\<close>/\<open>port\<close> properties, and the
  \<open>ipaddress\<close> module (IPv4/IPv6 literals as 32- and 128-bit words, the IANA special ranges).
  Strings are ASCII here: the NFKC check \<open>urlsplit\<close> makes on a non-ASCII netloc is left out.
  DNS (\<open>getaddrinfo\<close>) is a parameter. Lemmas: the check fails closed, a private literal
  is refused in every spelling (mapped IPv6 included), every resolved address is examined.
\<close>

subsection \<open>Characters and splitting\<close>

definition is_digit :: "char \<Rightarrow> bool" where
  "is_digit c \<longleftrightarrow> CHR ''0'' \<le> c \<and> c \<le> CHR ''9''"
definition is_upper :: "char \<Rightarrow> bool" where
  "is_upper c \<longleftrightarrow> CHR ''A'' \<le> c \<and> c \<le> CHR ''Z''"
definition is_lower :: "char \<Rightarrow> bool" where
  "is_lower c \<longleftrightarrow> CHR ''a'' \<le> c \<and> c \<le> CHR ''z''"
definition is_hex :: "char \<Rightarrow> bool" where
  "is_hex c \<longleftrightarrow> is_digit c \<or> (CHR ''a'' \<le> c \<and> c \<le> CHR ''f'') \<or> (CHR ''A'' \<le> c \<and> c \<le> CHR ''F'')"

definition lower_char :: "char \<Rightarrow> char" where
  "lower_char c = (if is_upper c then char_of (of_char c + (32::nat)) else c)"

definition lower :: "string \<Rightarrow> string" where
  "lower = map lower_char"

definition digit_val :: "char \<Rightarrow> int" where
  "digit_val c =
     (if is_digit c then of_char c - 48
      else if is_lower c then of_char c - 87 else of_char c - 55)"

definition num_of :: "int \<Rightarrow> string \<Rightarrow> int" where
  "num_of base s = foldl (\<lambda>n c. n * base + digit_val c) 0 s"

text \<open>\<open>str.partition\<close>: before, whether the separator occurs, after.\<close>

definition partition_at :: "char \<Rightarrow> string \<Rightarrow> string \<times> bool \<times> string" where
  "partition_at c s = (takeWhile (\<lambda>x. x \<noteq> c) s, c \<in> set s, drop 1 (dropWhile (\<lambda>x. x \<noteq> c) s))"

text \<open>\<open>s.rpartition(c)[2]\<close>.\<close>

definition after_last :: "char \<Rightarrow> string \<Rightarrow> string" where
  "after_last c s = rev (takeWhile (\<lambda>x. x \<noteq> c) (rev s))"

fun split_on :: "char \<Rightarrow> string \<Rightarrow> string list" where
  "split_on c [] = [[]]"
| "split_on c (x # s) =
     (if x = c then [] # split_on c s
      else case split_on c s of [] \<Rightarrow> [[x]] | p # ps \<Rightarrow> (x # p) # ps)"

subsection \<open>The ipaddress module\<close>

datatype ip = IPv4 "32 word" | IPv6 "128 word"

definition parse_octet :: "string \<Rightarrow> int option" where
  "parse_octet s =
     (if s = '''' \<or> \<not> list_all is_digit s \<or> 3 < length s \<or> (s \<noteq> ''0'' \<and> hd s = CHR ''0'')
      then None
      else if 255 < num_of 10 s then None else Some (num_of 10 s))"

definition parse_ipv4 :: "string \<Rightarrow> (32 word) option" where
  "parse_ipv4 s =
     (case map parse_octet (split_on (CHR ''.'') s) of
        [Some a, Some b, Some c, Some d] \<Rightarrow> Some (word_of_int (((a * 256 + b) * 256 + c) * 256 + d))
      | _ \<Rightarrow> None)"

definition parse_hextet :: "string \<Rightarrow> int option" where
  "parse_hextet s = (if s \<noteq> '''' \<and> list_all is_hex s \<and> length s \<le> 4 then Some (num_of 16 s) else None)"

fun parse_hextets :: "string list \<Rightarrow> int list option" where
  "parse_hextets [] = Some []"
| "parse_hextets (p # ps) =
     (case (parse_hextet p, parse_hextets ps) of (Some x, Some xs) \<Rightarrow> Some (x # xs) | _ \<Rightarrow> None)"

text \<open>The parts between colons; a dotted tail counts as the two hextets it encodes.\<close>

definition tail_hextets :: "string list \<Rightarrow> (int list \<times> string list) option" where
  "tail_hextets ps =
     (if CHR ''.'' \<in> set (last ps) then
        case parse_ipv4 (last ps) of
          None \<Rightarrow> None
        | Some w \<Rightarrow> Some ([uint w div 65536, uint w mod 65536], butlast ps)
      else Some ([], ps))"

definition value_of :: "int list \<Rightarrow> 128 word" where
  "value_of xs = foldl (\<lambda>w x. push_bit 16 w OR word_of_int x) 0 xs"

definition skip_indices :: "bool list \<Rightarrow> nat list" where
  "skip_indices empties = filter (\<lambda>i. empties ! i) [1..<length empties - 1]"

text \<open>\<open>IPv6Address._ip_int_from_string\<close>, with \<open>::\<close> standing for at least one zero hextet;
  \<open>hi\<close>/\<open>lo\<close> are the hextets before and after it, blank outermost parts dropped.\<close>

definition parse_ipv6_int :: "string \<Rightarrow> (128 word) option" where
  "parse_ipv6_int s =
     (let parts = split_on (CHR '':'') s in
      if length parts < 3 then None else
      case tail_hextets parts of
        None \<Rightarrow> None
      | Some (v4, ps) \<Rightarrow>
          let n = length ps + length v4;
              empties = map (\<lambda>p. p = '''') ps @ map (\<lambda>_. False) v4;
              skips = skip_indices empties
          in if 9 < n \<or> 1 < length skips then None
             else if skips = [] then
               if n \<noteq> 8 \<or> empties ! 0 \<or> last empties then None
               else map_option (\<lambda>xs. value_of (xs @ v4)) (parse_hextets ps)
             else
               let k = hd skips;
                   hi = take k ps; lo = drop (k + 1) ps;
                   hi' = (if empties ! 0 then drop 1 hi else hi);
                   lo' = (if last empties then butlast lo else lo)
               in if (empties ! 0 \<and> hi' \<noteq> []) \<or> (last empties \<and> lo' \<noteq> []) then None
                  else if 8 < length hi' + length lo' + length v4 + 1 then None
                  else case (parse_hextets hi', parse_hextets lo') of
                         (Some a, Some b) \<Rightarrow>
                           Some (value_of (a @ replicate (8 - (length a + length b + length v4)) 0 @ b @ v4))
                       | _ \<Rightarrow> None)"

definition parse_ipv6 :: "string \<Rightarrow> (128 word) option" where
  "parse_ipv6 s =
     (if CHR ''/'' \<in> set s then None
      else case partition_at (CHR ''%'') s of
        (addr, has_scope, scope) \<Rightarrow>
          if has_scope \<and> (scope = '''' \<or> CHR ''%'' \<in> set scope) then None else parse_ipv6_int addr)"

definition ip_address :: "string \<Rightarrow> ip option" where
  "ip_address s =
     (case parse_ipv4 s of
        Some w \<Rightarrow> Some (IPv4 w)
      | None \<Rightarrow> (case parse_ipv6 s of Some w \<Rightarrow> Some (IPv6 w) | None \<Rightarrow> None))"

text \<open>\<open>ip in network\<close>: the top \<open>prefix\<close> bits agree.\<close>

definition in_net4 :: "32 word \<Rightarrow> nat \<Rightarrow> 32 word \<Rightarrow> bool" where
  "in_net4 net prefix w \<longleftrightarrow> drop_bit (32 - prefix) w = drop_bit (32 - prefix) net"
definition in_net6 :: "128 word \<Rightarrow> nat \<Rightarrow> 128 word \<Rightarrow> bool" where
  "in_net6 net prefix w \<longleftrightarrow> drop_bit (128 - prefix) w = drop_bit (128 - prefix) net"

definition PRIVATE_V4 :: "(32 word \<times> nat) list" where
  "PRIVATE_V4 =
     [(0x00000000, 8), (0x0A000000, 8), (0x7F000000, 8), (0xA9FE0000, 16), (0xAC100000, 12),
      (0xC0000000, 24), (0xC00000AA, 31), (0xC0000200, 24), (0xC0A80000, 16), (0xC6120000, 15),
      (0xC6336400, 24), (0xCB007100, 24), (0xF0000000, 4), (0xFFFFFFFF, 32)]"
definition PRIVATE_V4_EXCEPT :: "(32 word \<times> nat) list" where
  "PRIVATE_V4_EXCEPT = [(0xC0000009, 32), (0xC000000A, 32)]"

definition hexts :: "int list \<Rightarrow> 128 word" where
  "hexts xs = value_of (xs @ replicate (8 - length xs) 0)"

definition PRIVATE_V6 :: "(128 word \<times> nat) list" where
  "PRIVATE_V6 =
     [(1, 128), (0, 128), (hexts [0, 0, 0, 0, 0, 0xffff], 96), (hexts [0x64, 0xff9b, 1], 48),
      (hexts [0x100], 64), (hexts [0x2001], 23), (hexts [0x2001, 0xdb8], 32), (hexts [0x2002], 16),
      (hexts [0x3fff], 20), (hexts [0xfc00], 7), (hexts [0xfe80], 10)]"
definition PRIVATE_V6_EXCEPT :: "(128 word \<times> nat) list" where
  "PRIVATE_V6_EXCEPT =
     [(hexts [0x2001, 1, 0, 0, 0, 0, 0, 1], 128), (hexts [0x2001, 1, 0, 0, 0, 0, 0, 2], 128),
      (hexts [0x2001, 3], 32), (hexts [0x2001, 4, 0x112], 48), (hexts [0x2001, 0x20], 28),
      (hexts [0x2001, 0x30], 28)]"
definition RESERVED_V6 :: "(128 word \<times> nat) list" where
  "RESERVED_V6 =
     [(hexts [0], 8), (hexts [0x100], 8), (hexts [0x200], 7), (hexts [0x400], 6), (hexts [0x800], 5),
      (hexts [0x1000], 4), (hexts [0x4000], 3), (hexts [0x6000], 3), (hexts [0x8000], 3),
      (hexts [0xA000], 3), (hexts [0xC000], 3), (hexts [0xE000], 4), (hexts [0xF000], 5),
      (hexts [0xF800], 6), (hexts [0xFE00], 9)]"

definition is_private4 :: "32 word \<Rightarrow> bool" where
  "is_private4 w \<longleftrightarrow> list_ex (\<lambda>(n, p). in_net4 n p w) PRIVATE_V4 \<and>
                       \<not> list_ex (\<lambda>(n, p). in_net4 n p w) PRIVATE_V4_EXCEPT"
definition is_private6 :: "128 word \<Rightarrow> bool" where
  "is_private6 w \<longleftrightarrow> list_ex (\<lambda>(n, p). in_net6 n p w) PRIVATE_V6 \<and>
                       \<not> list_ex (\<lambda>(n, p). in_net6 n p w) PRIVATE_V6_EXCEPT"

subsection \<open>urlsplit\<close>

record split_url =
  scheme :: string
  netloc :: string

definition SCHEME_CHARS :: "string" where
  "SCHEME_CHARS = ''abcdefghijklmnopqrstuvwxyzABCDEFGHIJKLMNOPQRSTUVWXYZ0123456789+-.''"

definition strip_c0 :: "string \<Rightarrow> string" where
  "strip_c0 s = dropWhile (\<lambda>c. (of_char c :: nat) \<le> 32) s"

definition drop_unsafe :: "string \<Rightarrow> string" where
  "drop_unsafe s = filter (\<lambda>c. (of_char c :: nat) \<notin> {9, 10, 13}) s"

definition split_scheme :: "string \<Rightarrow> string \<times> string" where
  "split_scheme url =
     (case partition_at (CHR '':'') url of
        (pre, found, rest) \<Rightarrow>
          if found \<and> pre \<noteq> '''' \<and> (is_upper (hd pre) \<or> is_lower (hd pre)) \<and>
             list_all (\<lambda>c. c \<in> set SCHEME_CHARS) pre
          then (lower pre, rest) else ('''', url))"

text \<open>\<open>_check_bracketed_netloc\<close>: the brackets must hold an IPv6 (or IPvFuture) literal and
  only a port may follow.\<close>

definition ipvfuture :: "string \<Rightarrow> bool" where
  "ipvfuture s =
     (case partition_at (CHR ''.'') (drop 1 s) of
        (ver, dot, rest) \<Rightarrow>
          dot \<and> ver \<noteq> '''' \<and> list_all is_hex ver \<and> rest \<noteq> '''' \<and>
          list_all (\<lambda>c. is_digit c \<or> is_upper c \<or> is_lower c \<or> c \<in> set ''!$&()*+,;=.-_~:'' \<or> c = CHR 0x27) rest)"

definition bracketed_ok :: "string \<Rightarrow> bool" where
  "bracketed_ok host =
     (if host \<noteq> '''' \<and> hd host = CHR ''v'' then ipvfuture host
      else case ip_address host of Some (IPv6 _) \<Rightarrow> True | _ \<Rightarrow> False)"

definition check_netloc :: "string \<Rightarrow> bool" where
  "check_netloc nl =
     (let opn = CHR ''['' \<in> set nl; cls = CHR '']'' \<in> set nl in
      if opn \<noteq> cls then False
      else if \<not> opn then True
      else case partition_at (CHR ''['') (after_last (CHR ''@'') nl) of
             (pre, have_open, bracketed) \<Rightarrow>
               if have_open then
                 (case partition_at (CHR '']'') bracketed of
                    (host, _, port) \<Rightarrow>
                      pre = '''' \<and> (port = '''' \<or> hd port = CHR '':'') \<and> bracketed_ok host)
               else (case partition_at (CHR '':'') (after_last (CHR ''@'') nl) of
                       (host, _, _) \<Rightarrow> bracketed_ok host))"

text \<open>None is the \<open>ValueError\<close> of a netloc that does not parse.\<close>

definition urlsplit :: "string \<Rightarrow> split_url option" where
  "urlsplit raw =
     (case split_scheme (drop_unsafe (strip_c0 raw)) of
        (sch, url) \<Rightarrow>
          if take 2 url = ''//'' then
            (let nl = takeWhile (\<lambda>c. c \<notin> set ''/?#'') (drop 2 url)
             in if check_netloc nl then Some \<lparr>scheme = sch, netloc = nl\<rparr> else None)
          else Some \<lparr>scheme = sch, netloc = ''''\<rparr>)"

text \<open>\<open>_hostinfo\<close>: the host (without brackets) and the text after the port colon.\<close>

definition hostinfo :: "split_url \<Rightarrow> string \<times> string" where
  "hostinfo u =
     (let hi = after_last (CHR ''@'') (netloc u) in
      case partition_at (CHR ''['') hi of
        (_, have_open, bracketed) \<Rightarrow>
          if have_open then
            (case partition_at (CHR '']'') bracketed of
               (host, _, rest) \<Rightarrow> (host, snd (snd (partition_at (CHR '':'') rest))))
          else (case partition_at (CHR '':'') hi of (host, _, port) \<Rightarrow> (host, port)))"

definition hostname :: "split_url \<Rightarrow> string option" where
  "hostname u =
     (if fst (hostinfo u) = '''' then None
      else case partition_at (CHR ''%'') (fst (hostinfo u)) of
             (host, pct, zone) \<Rightarrow> Some (lower host @ (if pct then ''%'' else '''') @ zone))"

text \<open>\<open>.port\<close>: \<open>Inl\<close> is the \<open>ValueError\<close> of a bad or out-of-range port.\<close>

definition port :: "split_url \<Rightarrow> int option result" where
  "port u =
     (let p = snd (hostinfo u) in
      if p = '''' then Inr None
      else if \<not> list_all is_digit p \<or> 65535 < num_of 10 p then Inl ValueError
      else Inr (Some (num_of 10 p)))"

subsection \<open>The destination check\<close>

definition CGNAT :: "32 word \<times> nat" where
  "CGNAT = (0x64400000, 10)"

definition ipv4_mapped :: "128 word \<Rightarrow> (32 word) option" where
  "ipv4_mapped w = (if drop_bit 32 w = 0xffff then Some (ucast w) else None)"

definition blocked4 :: "32 word \<Rightarrow> bool" where
  "blocked4 w \<longleftrightarrow>
     is_private4 w \<or> in_net4 0x7F000000 8 w \<or> in_net4 0xA9FE0000 16 w \<or> in_net4 0xE0000000 4 w \<or>
     in_net4 0xF0000000 4 w \<or> w = 0 \<or> in_net4 (fst CGNAT) (snd CGNAT) w"

definition blocked6 :: "128 word \<Rightarrow> bool" where
  "blocked6 w \<longleftrightarrow>
     is_private6 w \<or> w = 1 \<or> in_net6 (hexts [0xfe80]) 10 w \<or> in_net6 (hexts [0xff00]) 8 w \<or>
     list_ex (\<lambda>(n, p). in_net6 n p w) RESERVED_V6 \<or> w = 0"

definition ip_is_blocked :: "ip \<Rightarrow> bool" where
  "ip_is_blocked i =
     (case i of
        IPv4 w \<Rightarrow> blocked4 w
      | IPv6 w \<Rightarrow> (case ipv4_mapped w of Some v \<Rightarrow> blocked4 v | None \<Rightarrow> blocked6 w))"

datatype block_reason =
    MalformedUrl
  | SchemeNotHttps
  | BlockedLiteral ip
  | Unresolved
  | MalformedHostOrPort
  | ResolvesBlocked ip

text \<open>What \<open>socket.getaddrinfo\<close> does: addresses, a \<open>gaierror\<close>, or a \<open>ValueError\<close>.\<close>

datatype dns_answer = Addrs "string list" | GaiError | DnsValueError

type_synonym dns = "string \<Rightarrow> int option \<Rightarrow> dns_answer"

definition first_blocked :: "string list \<Rightarrow> block_reason option" where
  "first_blocked addrs =
     (case qfirst (\<lambda>a. case ip_address a of None \<Rightarrow> False | Some i \<Rightarrow> ip_is_blocked i) addrs of
        None \<Rightarrow> None
      | Some a \<Rightarrow> map_option ResolvesBlocked (ip_address a))"

definition destination_block_reason ::
  "dns \<Rightarrow> string \<Rightarrow> bool \<Rightarrow> bool \<Rightarrow> bool \<Rightarrow> block_reason option" where
  "destination_block_reason getaddrinfo url require_https block_private_ips resolve_dns =
     (case urlsplit url of
        None \<Rightarrow> Some MalformedUrl
      | Some parts \<Rightarrow>
          if require_https \<and> scheme parts \<noteq> ''https'' then Some SchemeNotHttps
          else if \<not> block_private_ips then None
          else case hostname parts of
            None \<Rightarrow> None
          | Some host \<Rightarrow>
              (case ip_address host of
                 Some i \<Rightarrow> if ip_is_blocked i then Some (BlockedLiteral i) else None
               | None \<Rightarrow>
                   if \<not> resolve_dns then None
                   else case port parts of
                     Inl _ \<Rightarrow> Some MalformedHostOrPort
                   | Inr p \<Rightarrow>
                       (case getaddrinfo host p of
                          GaiError \<Rightarrow> Some Unresolved
                        | DnsValueError \<Rightarrow> Some MalformedHostOrPort
                        | Addrs addrs \<Rightarrow> first_blocked addrs)))"

subsection \<open>Lemmas\<close>

lemma first_blocked_None:
  "first_blocked addrs = None \<longleftrightarrow> (\<forall>a\<in>set addrs. \<forall>i. ip_address a = Some i \<longrightarrow> \<not> ip_is_blocked i)"
  by (auto simp: first_blocked_def qfirst_None split: option.splits dest: qfirst_Some)

text \<open>The unwrap of \<open>::ffff:a.b.c.d\<close> recovers the embedded address exactly.\<close>

definition map_v4 :: "32 word \<Rightarrow> 128 word" where
  "map_v4 w = push_bit 32 0xffff OR ucast w"

lemma ipv4_mapped_map_v4: "ipv4_mapped (map_v4 w) = Some w"
proof -
  have "drop_bit 32 (map_v4 w) = (0xffff :: 128 word)"
  proof (rule bit_eqI)
    fix n
    assume n: "possible_bit TYPE(128 word) n"
    show "bit (drop_bit 32 (map_v4 w)) n = bit (0xffff :: 128 word) n"
    proof (cases "n < 96")
      case True
      then show ?thesis
        by (simp add: map_v4_def bit_simps) (auto dest: bit_imp_le_length)
    next
      case False
      then have "\<not> bit (0xffff :: 128 word) n"
      proof -
        have "(0xffff :: 128 word) = mask 16" by (simp add: mask_eq_decr_exp)
        then show ?thesis using False by (simp only: bit_mask_iff) simp
      qed
      with False show ?thesis by (auto simp: bit_simps dest: bit_imp_le_length)
    qed
  qed
  moreover have low: "\<not> bit (push_bit 32 0xffff :: 128 word) n" if "n < 32" for n
    unfolding bit_push_bit_iff using that by linarith
  have "ucast (map_v4 w) = w"
    using low by (intro bit_eqI) (auto simp: map_v4_def bit_simps)
  ultimately show ?thesis by (simp add: ipv4_mapped_def)
qed

subsection \<open>Properties\<close>

text \<open>C34: when the send-time check lets a destination through, the URL parsed, and either its
  host is an address literal outside every blocked range or the name resolved and not one of
  the addresses it resolved to is blocked. A malformed URL, a bad port and a failed lookup
  never pass.\<close>

theorem allowed_destination_is_public:
  assumes "destination_block_reason dns url require_https True True = None"
  shows "\<exists>u. urlsplit url = Some u \<and> (require_https \<longrightarrow> scheme u = ''https'') \<and>
    (\<forall>host. hostname u = Some host \<longrightarrow>
      (case ip_address host of
         Some i \<Rightarrow> \<not> ip_is_blocked i
       | None \<Rightarrow> \<exists>p addrs. port u = Inr p \<and> dns host p = Addrs addrs \<and>
           (\<forall>a\<in>set addrs. \<forall>i. ip_address a = Some i \<longrightarrow> \<not> ip_is_blocked i)))"
  using assms
  by (auto simp: destination_block_reason_def first_blocked_None
        split: option.splits if_splits sum.splits dns_answer.splits)

theorem allowed_destination_is_public_witness:
  "\<exists>u. urlsplit ''https://example.com/x'' = Some u \<and> (True \<longrightarrow> scheme u = ''https'') \<and>
    (\<forall>host. hostname u = Some host \<longrightarrow>
      (case ip_address host of
         Some i \<Rightarrow> \<not> ip_is_blocked i
       | None \<Rightarrow> \<exists>p addrs. port u = Inr p \<and>
           (\<lambda>_ _. Addrs [''93.184.216.34'']) host p = Addrs addrs \<and>
           (\<forall>a\<in>set addrs. \<forall>i. ip_address a = Some i \<longrightarrow> \<not> ip_is_blocked i)))"
  by (rule allowed_destination_is_public) code_simp

text \<open>An IPv4-mapped IPv6 address is blocked exactly when the IPv4 address inside it is,
  so an internal address cannot be smuggled through its mapped spelling.\<close>

theorem mapped_address_blocked_iff:
  "ip_is_blocked (IPv6 (map_v4 w)) \<longleftrightarrow> ip_is_blocked (IPv4 w)"
  by (simp add: ip_is_blocked_def ipv4_mapped_map_v4)

end
