(* ===== verification/Configs.thy ===== *)
theory Configs
  imports Tables Ssrf
begin

text \<open>
  The action configurations: the typed configs and validators of
  \<open>openmagpie_schema/watch_actions\<close>, the kind registry \<open>watches/registry.py\<close> and the server
  policy \<open>watches/policy.py\<close>. Pydantic's shape check and dump, and the classes plugins
  register, are fields of the environment \<open>env\<close>. Lemmas: what a persisted config satisfies,
  and how a masked secret travels through an edit.
\<close>

subsection \<open>Typed configs\<close>

record engine_spec =
  en_kind :: string
  en_model :: string

record filter_config =
  sf_engine :: engine_spec
  sf_fetch :: bool
  sf_instructions :: string
  sf_threshold :: rat

record extract_config =
  ex_engine :: engine_spec
  ex_fetch :: bool
  ex_fields :: "(string \<times> string) list"
  ex_instructions :: string

record webhook_config =
  wh_delivery :: cadence
  wh_interval :: int
  wh_url :: string
  wh_method :: webhook_method
  wh_headers :: "(string \<times> string) list"
  wh_include :: "string list"

record log_config =
  lg_delivery :: cadence
  lg_interval :: int
  lg_prefix :: string
  lg_include :: "string list"

text \<open>A plugin's config is opaque but for what the core reads off its base classes: the
  delivery cadence (a \<open>DeliveryConfigBase\<close>), the engine (an \<open>EngineActionConfigBase\<close>) and
  \<open>has_masked_secret\<close>.\<close>

record plugin_config =
  pg_kind :: string
  pg_delivery :: "(cadence \<times> int) option"
  pg_engine :: "engine_spec option"
  pg_masked :: bool
  pg_data :: json

datatype config =
    SemanticFilterConfig filter_config
  | ExtractConfig extract_config
  | WebhookConfig webhook_config
  | LogConfig log_config
  | PluginConfig plugin_config

text \<open>The deployment: settings, the id generator, and the code that is not the program's own:
  Pydantic (\<open>model_validate\<close> as far as types and defaults, \<open>model_dump\<close>), DNS, and the
  registered plugins.\<close>

record env =
  env_cfg :: settings
  env_gen :: "nat \<Rightarrow> ulid"
  env_plugin_kinds :: "string list"
  env_shape :: "string \<Rightarrow> json \<Rightarrow> config option"
  env_dump :: "config \<Rightarrow> json"
  env_plugin_merge :: "plugin_config \<Rightarrow> config \<Rightarrow> config result"
  env_dns :: dns

subsection \<open>Delivery base\<close>

text \<open>\<open>DeliveryConfigBase\<close>: cadence and window length, None for the kinds without it.\<close>

fun delivery_of :: "config \<Rightarrow> (cadence \<times> int) option" where
  "delivery_of (SemanticFilterConfig c) = None"
| "delivery_of (ExtractConfig c) = None"
| "delivery_of (WebhookConfig c) = Some (wh_delivery c, wh_interval c)"
| "delivery_of (LogConfig c) = Some (lg_delivery c, lg_interval c)"
| "delivery_of (PluginConfig c) = pg_delivery c"

text \<open>\<open>isinstance(config, DeliveryConfigBase) and config.is_digest()\<close>.\<close>

definition is_digest :: "config \<Rightarrow> bool" where
  "is_digest c = (case delivery_of c of Some (DIGEST, _) \<Rightarrow> True | _ \<Rightarrow> False)"

definition digest_interval :: "config \<Rightarrow> int" where
  "digest_interval c = (case delivery_of c of Some (_, n) \<Rightarrow> n | None \<Rightarrow> 0)"

text \<open>\<open>digest_interval_seconds\<close> is \<open>ge=0\<close>, and positive when the cadence is digest.\<close>

definition digest_requires_interval :: "(cadence \<times> int) option \<Rightarrow> bool" where
  "digest_requires_interval d =
     (case d of None \<Rightarrow> True | Some (cad, n) \<Rightarrow> 0 \<le> n \<and> (cad = DIGEST \<longrightarrow> 0 < n))"

fun engine_of :: "config \<Rightarrow> engine_spec option" where
  "engine_of (SemanticFilterConfig c) = Some (sf_engine c)"
| "engine_of (ExtractConfig c) = Some (ex_engine c)"
| "engine_of (PluginConfig c) = pg_engine c"
| "engine_of (WebhookConfig c) = None"
| "engine_of (LogConfig c) = None"

subsection \<open>Validators\<close>

definition validate_url :: "string \<Rightarrow> bool" where
  "validate_url v =
     (case urlsplit v of
        None \<Rightarrow> False
      | Some parts \<Rightarrow>
          scheme parts \<in> {''http'', ''https''} \<and> hostname parts \<noteq> None \<and>
          (case port parts of Inl _ \<Rightarrow> False | Inr _ \<Rightarrow> True))"

definition py_space :: "char \<Rightarrow> bool" where
  "py_space c \<longleftrightarrow> (of_char c :: nat) \<in> {9, 10, 11, 12, 13, 28, 29, 30, 31, 32, 133, 160}"

definition strip :: "string \<Rightarrow> string" where
  "strip s = rev (dropWhile py_space (rev (dropWhile py_space s)))"

definition field_name_ok :: "string \<Rightarrow> bool" where
  "field_name_ok v \<longleftrightarrow> v \<noteq> '''' \<and> length v \<le> 64 \<and>
     list_all (\<lambda>c. is_upper c \<or> is_lower c \<or> is_digit c \<or> c = CHR ''_'' \<or> c = CHR ''-'') v"

definition extract_fields_ok :: "(string \<times> string) list \<Rightarrow> bool" where
  "extract_fields_ok fs \<longleftrightarrow>
     fs \<noteq> [] \<and> length fs \<le> 64 \<and> distinct (map fst fs) \<and>
     list_all (\<lambda>(name, desc). field_name_ok name \<and> 1 \<le> length desc \<and> length desc \<le> 256) fs"

text \<open>The \<open>mode="before"\<close> validator strips the descriptions.\<close>

fun normalize :: "config \<Rightarrow> config" where
  "normalize (ExtractConfig c) =
     ExtractConfig (c\<lparr>ex_fields := map (\<lambda>(n, d). (n, strip d)) (ex_fields c)\<rparr>)"
| "normalize (SemanticFilterConfig c) = SemanticFilterConfig c"
| "normalize (WebhookConfig c) = WebhookConfig c"
| "normalize (LogConfig c) = LogConfig c"
| "normalize (PluginConfig c) = PluginConfig c"

fun config_valid :: "config \<Rightarrow> bool" where
  "config_valid (SemanticFilterConfig c) \<longleftrightarrow> 0 < sf_threshold c \<and> sf_threshold c \<le> 1"
| "config_valid (ExtractConfig c) \<longleftrightarrow>
     extract_fields_ok (ex_fields c) \<and> length (ex_instructions c) \<le> 2048"
| "config_valid (WebhookConfig c) \<longleftrightarrow>
     digest_requires_interval (Some (wh_delivery c, wh_interval c)) \<and> validate_url (wh_url c)"
| "config_valid (LogConfig c) \<longleftrightarrow> digest_requires_interval (Some (lg_delivery c, lg_interval c))"
| "config_valid (PluginConfig c) \<longleftrightarrow> digest_requires_interval (pg_delivery c)"

subsection \<open>Secrets\<close>

definition REDACTED :: string where "REDACTED = ''***''"

fun show_nat :: "nat \<Rightarrow> string" where
  "show_nat n =
     (if n < 10 then [char_of (48 + n)] else show_nat (n div 10) @ [char_of (48 + n mod 10)])"

declare show_nat.simps [simp del]

definition redact_url :: "string \<Rightarrow> string" where
  "redact_url url =
     (case urlsplit url of
        None \<Rightarrow> REDACTED
      | Some parts \<Rightarrow>
          (case port parts of
             Inl _ \<Rightarrow> REDACTED
           | Inr p \<Rightarrow>
               (case hostname parts of
                  None \<Rightarrow> REDACTED
                | Some h \<Rightarrow>
                    if scheme parts = '''' then REDACTED
                    else
                      let host = (if CHR '':'' \<in> set h then ''['' @ h @ '']'' else h);
                          nl = (case p of None \<Rightarrow> host
                                | Some n \<Rightarrow> if n = 0 then host else host @ '':'' @ show_nat (nat n))
                      in scheme parts @ ''://'' @ nl @ ''/'' @ REDACTED)))"

definition ends_with :: "string \<Rightarrow> string \<Rightarrow> bool" where
  "ends_with s suf \<longleftrightarrow> length suf \<le> length s \<and> drop (length s - length suf) s = suf"

definition looks_redacted_url :: "string \<Rightarrow> bool" where
  "looks_redacted_url url \<longleftrightarrow> url = REDACTED \<or> ends_with url (''/'' @ REDACTED)"

fun has_masked_secret :: "config \<Rightarrow> bool" where
  "has_masked_secret (WebhookConfig c) \<longleftrightarrow>
     looks_redacted_url (wh_url c) \<or> list_ex (\<lambda>(_, v). v = REDACTED) (wh_headers c)"
| "has_masked_secret (PluginConfig c) \<longleftrightarrow> pg_masked c"
| "has_masked_secret (SemanticFilterConfig c) \<longleftrightarrow> False"
| "has_masked_secret (ExtractConfig c) \<longleftrightarrow> False"
| "has_masked_secret (LogConfig c) \<longleftrightarrow> False"

text \<open>What a reader of the config sees.\<close>

definition redacted_webhook :: "webhook_config \<Rightarrow> webhook_config" where
  "redacted_webhook c =
     c\<lparr>wh_url := redact_url (wh_url c), wh_headers := map (\<lambda>(n, _). (n, REDACTED)) (wh_headers c)\<rparr>"

fun merge_headers ::
  "(string \<times> string) list \<Rightarrow> webhook_config option \<Rightarrow> (string \<times> string) list result" where
  "merge_headers [] prior = Inr []"
| "merge_headers ((name, v) # hs) prior =
     res_bind
       (if v \<noteq> REDACTED then Inr v
        else case prior of
          None \<Rightarrow> Inl ValueError
        | Some p \<Rightarrow> (case map_of (wh_headers p) name of None \<Rightarrow> Inl ValueError | Some old \<Rightarrow> Inr old))
       (\<lambda>v'. res_bind (merge_headers hs prior) (\<lambda>rest. Inr ((name, v') # rest)))"

definition merge_webhook :: "webhook_config \<Rightarrow> config \<Rightarrow> config result" where
  "merge_webhook c prior =
     (let pw = (case prior of WebhookConfig p \<Rightarrow> Some p | _ \<Rightarrow> None);
          url = (case pw of
                   Some p \<Rightarrow> if wh_url c = redact_url (wh_url p) then wh_url p else wh_url c
                 | None \<Rightarrow> wh_url c)
      in res_bind (merge_headers (wh_headers c) pw)
           (\<lambda>hs. Inr (WebhookConfig (c\<lparr>wh_url := url, wh_headers := hs\<rparr>))))"

fun merge_preserving :: "env \<Rightarrow> config \<Rightarrow> config \<Rightarrow> config result" where
  "merge_preserving E (WebhookConfig c) prior = merge_webhook c prior"
| "merge_preserving E (PluginConfig c) prior = env_plugin_merge E c prior"
| "merge_preserving E (SemanticFilterConfig c) prior = Inr (SemanticFilterConfig c)"
| "merge_preserving E (ExtractConfig c) prior = Inr (ExtractConfig c)"
| "merge_preserving E (LogConfig c) prior = Inr (LogConfig c)"

subsection \<open>Policy\<close>

definition DEFAULT_ENGINE_KIND :: string where "DEFAULT_ENGINE_KIND = ''openai_compat''"

text \<open>\<open>engine_registry.get\<close> raises KeyError on a kind other than the blank or default one.\<close>

definition engine_registered :: "string \<Rightarrow> bool" where
  "engine_registered kind \<longleftrightarrow> kind = '''' \<or> kind = DEFAULT_ENGINE_KIND"

definition enforce_engine_registered :: "config \<Rightarrow> unit result" where
  "enforce_engine_registered c =
     (case engine_of c of
        None \<Rightarrow> Inr ()
      | Some e \<Rightarrow> if engine_registered (en_kind e) then Inr () else Inl PolicyError)"

definition enforce_digest_interval :: "settings \<Rightarrow> config \<Rightarrow> unit result" where
  "enforce_digest_interval cfg c =
     (if \<not> is_digest c then Inr ()
      else if DIGEST_MIN_INTERVAL_SECONDS cfg \<le> digest_interval c \<and>
              digest_interval c \<le> DIGEST_MAX_INTERVAL_SECONDS cfg
           then Inr () else Inl PolicyError)"

fun enforce_webhook_url_safety :: "env \<Rightarrow> config \<Rightarrow> unit result" where
  "enforce_webhook_url_safety E (WebhookConfig c) =
     (case destination_block_reason (env_dns E) (wh_url c) (WEBHOOK_REQUIRE_HTTPS (env_cfg E))
             (WEBHOOK_BLOCK_PRIVATE_IPS (env_cfg E)) False of
        None \<Rightarrow> Inr ()
      | Some _ \<Rightarrow> Inl PolicyError)"
| "enforce_webhook_url_safety E (SemanticFilterConfig c) = Inr ()"
| "enforce_webhook_url_safety E (ExtractConfig c) = Inr ()"
| "enforce_webhook_url_safety E (LogConfig c) = Inr ()"
| "enforce_webhook_url_safety E (PluginConfig c) = Inr ()"

definition enforce_action_policy :: "env \<Rightarrow> config \<Rightarrow> config result" where
  "enforce_action_policy E c =
     res_bind (enforce_engine_registered c) (\<lambda>_.
     res_bind (enforce_digest_interval (env_cfg E) c) (\<lambda>_.
     res_bind (enforce_webhook_url_safety E c) (\<lambda>_. Inr c)))"

subsection \<open>Registry\<close>

definition known_kinds :: "env \<Rightarrow> string list" where
  "known_kinds E = BUILTIN_ACTION_KINDS @ env_plugin_kinds E"

definition parse_config :: "env \<Rightarrow> string \<Rightarrow> json \<Rightarrow> config result" where
  "parse_config E kind data =
     (if kind \<notin> set (known_kinds E) then Inl KeyError
      else case env_shape E kind data of
        None \<Rightarrow> Inl ValidationError
      | Some c \<Rightarrow> if config_valid (normalize c) then Inr (normalize c) else Inl ValidationError)"

definition validate_config :: "env \<Rightarrow> string \<Rightarrow> json \<Rightarrow> config result" where
  "validate_config E kind data = res_bind (parse_config E kind data) (enforce_action_policy E)"

definition config_or_empty :: "json \<Rightarrow> json" where
  "config_or_empty j = (case j of JNull \<Rightarrow> JObj [] | _ \<Rightarrow> j)"

definition load_config :: "env \<Rightarrow> action \<Rightarrow> config result" where
  "load_config E a = parse_config E (act_kind a) (config_or_empty (act_config a))"

definition as_policy_error :: "'a result \<Rightarrow> 'a result" where
  "as_policy_error r = (case r of Inl ValueError \<Rightarrow> Inl PolicyError | _ \<Rightarrow> r)"

definition merge_config :: "env \<Rightarrow> string \<Rightarrow> json \<Rightarrow> config option \<Rightarrow> config result" where
  "merge_config E kind data prior =
     res_bind (parse_config E kind data) (\<lambda>submitted.
     res_bind (case prior of
                 None \<Rightarrow> Inr submitted
               | Some p \<Rightarrow> as_policy_error (merge_preserving E submitted p))
       (enforce_action_policy E))"

subsection \<open>Lemmas: policy\<close>

lemma enforce_action_policy_Inr:
  "enforce_action_policy E c = Inr c' \<Longrightarrow>
   c' = c \<and> enforce_engine_registered c = Inr () \<and> enforce_digest_interval (env_cfg E) c = Inr () \<and>
   enforce_webhook_url_safety E c = Inr ()"
  by (auto simp: enforce_action_policy_def res_bind_Inr_iff)

text \<open>A persisted digest config has a window length within the server's bounds.\<close>

lemma policy_interval:
  "enforce_action_policy E c = Inr c' \<Longrightarrow> is_digest c' \<Longrightarrow>
   DIGEST_MIN_INTERVAL_SECONDS (env_cfg E) \<le> digest_interval c' \<and>
   digest_interval c' \<le> DIGEST_MAX_INTERVAL_SECONDS (env_cfg E)"
  by (drule enforce_action_policy_Inr) (auto simp: enforce_digest_interval_def split: if_splits)

lemma policy_idem: "enforce_action_policy E c = Inr c' \<Longrightarrow> enforce_action_policy E c' = Inr c'"
  using enforce_action_policy_Inr by blast

lemma merge_config_policy:
  "merge_config E kind data prior = Inr c \<Longrightarrow> enforce_action_policy E c = Inr c"
  by (auto simp: merge_config_def res_bind_Inr_iff intro: policy_idem)

lemma validate_config_policy:
  "validate_config E kind data = Inr c \<Longrightarrow> enforce_action_policy E c = Inr c"
  by (auto simp: validate_config_def res_bind_Inr_iff intro: policy_idem)

subsection \<open>Lemmas: secrets\<close>

text \<open>Merged headers never carry the sentinel unless the prior's did, keep names and order,
  and a value the operator typed is never replaced.\<close>

lemma merge_headers_Inr:
  "merge_headers hs prior = Inr out \<Longrightarrow>
   map fst out = map fst hs \<and>
   (\<forall>n v. (n, v) \<in> set out \<longrightarrow> (n, v) \<in> set hs \<and> v \<noteq> REDACTED \<or>
      ((n, REDACTED) \<in> set hs \<and> (\<exists>p. prior = Some p \<and> map_of (wh_headers p) n = Some v)))"
proof (induction hs arbitrary: out)
  case (Cons h hs)
  obtain name v where h: "h = (name, v)" by force
  with Cons.prems obtain v' rest where r: "merge_headers hs prior = Inr rest" "out = (name, v') # rest"
    and v': "(v \<noteq> REDACTED \<and> v' = v) \<or>
             (v = REDACTED \<and> (\<exists>p. prior = Some p \<and> map_of (wh_headers p) name = Some v'))"
    by (auto simp: res_bind_Inr_iff split: if_splits option.splits)
  from Cons.IH[OF r(1)] r(2) h v' show ?case by auto
qed simp

text \<open>An edit is refused exactly on a masked header with nothing stored under its name.\<close>

lemma merge_headers_Inl:
  "(\<exists>e. merge_headers hs prior = Inl e) \<longleftrightarrow>
   (\<exists>n. (n, REDACTED) \<in> set hs \<and> (\<forall>p. prior = Some p \<longrightarrow> map_of (wh_headers p) n = None))"
proof (induction hs)
  case (Cons h hs)
  obtain n v where h: "h = (n, v)" by force
  show ?case
  proof (cases "v = REDACTED \<and> (\<forall>p. prior = Some p \<longrightarrow> map_of (wh_headers p) n = None)")
    case True
    then show ?thesis by (cases prior) (auto simp: h)
  next
    case False
    let ?r = "(if v \<noteq> REDACTED then Inr v
        else case prior of
          None \<Rightarrow> Inl ValueError
        | Some p \<Rightarrow> (case map_of (wh_headers p) n of None \<Rightarrow> Inl ValueError | Some old \<Rightarrow> Inr old)) :: string result"
    have "\<exists>v'. ?r = Inr v'"
    proof (cases "v = REDACTED")
      case True
      with False obtain p where p: "prior = Some p" "map_of (wh_headers p) n \<noteq> None" by auto
      with True show ?thesis by (cases "map_of (wh_headers p) n") simp_all
    qed simp
    then obtain v' where r: "?r = Inr v'" by blast
    have "merge_headers (h # hs) prior = res_bind (merge_headers hs prior) (\<lambda>rest. Inr ((n, v') # rest))"
      unfolding h merge_headers.simps r res_bind_simps ..
    then have "(\<exists>e. merge_headers (h # hs) prior = Inl e) \<longleftrightarrow> (\<exists>e. merge_headers hs prior = Inl e)"
      by (cases "merge_headers hs prior") auto
    with Cons.IH False show ?thesis by (auto simp: h)
  qed
qed simp

text \<open>Reading a webhook action redacted and submitting that back restores every secret.\<close>

lemma merge_headers_restore:
  "distinct (map fst (wh_headers p)) \<Longrightarrow> set hs \<subseteq> set (wh_headers p) \<Longrightarrow>
   merge_headers (map (\<lambda>(n, _). (n, REDACTED)) hs) (Some p) = Inr hs"
  by (induction hs) auto

lemma redacted_merge_restores:
  assumes "distinct (map fst (wh_headers p))"
  shows "merge_webhook (redacted_webhook p) (WebhookConfig p) = Inr (WebhookConfig p)"
  using merge_headers_restore[OF assms order_refl]
  by (simp add: merge_webhook_def redacted_webhook_def)

lemma redacted_hides:
  "looks_redacted_url (redact_url u)"
proof -
  have e: "ends_with (x @ ''/'' @ REDACTED) (''/'' @ REDACTED)" for x
    by (simp add: ends_with_def REDACTED_def)
  have "redact_url u = REDACTED \<or> (\<exists>x. redact_url u = x @ ''/'' @ REDACTED)"
    unfolding redact_url_def Let_def
    by (auto split: option.splits sum.splits intro: exI[of _ "_ @ _"])
  then show ?thesis using e by (auto simp: looks_redacted_url_def)
qed

end
