(* ===== verification/Samples.thy ===== *)
theory Samples
  imports Configs
begin

text \<open>
  A concrete deployment on which the witnesses of the properties are evaluated: an injective
  id generator, a strict reader of the built-in config classes with its dump, a resolver.
\<close>

definition sample_gen :: "nat \<Rightarrow> ulid" where
  "sample_gen n = CHR ''i'' # replicate n (CHR ''x'')"

lemma inj_sample_gen: "inj sample_gen"
  by (auto simp: inj_def sample_gen_def dest: arg_cong[of _ _ length])

fun jget :: "string \<Rightarrow> json \<Rightarrow> json" where
  "jget k (JObj kvs) = (case map_of kvs k of None \<Rightarrow> JNull | Some v \<Rightarrow> v)"
| "jget k JNull = JNull"
| "jget k (JBool b) = JNull"
| "jget k (JInt i) = JNull"
| "jget k (JFloat r) = JNull"
| "jget k (JStr s) = JNull"
| "jget k (JArr xs) = JNull"

definition sample_cadence :: "json \<Rightarrow> cadence" where
  "sample_cadence j = (if j = JStr ''digest'' then DIGEST else INSTANT)"

definition sample_int :: "json \<Rightarrow> int" where
  "sample_int j = (case j of JInt n \<Rightarrow> n | _ \<Rightarrow> 0)"

definition sample_str :: "json \<Rightarrow> string" where
  "sample_str j = (case j of JStr s \<Rightarrow> s | _ \<Rightarrow> '''')"

definition default_spec :: engine_spec where
  "default_spec = \<lparr>en_kind = '''', en_model = ''''\<rparr>"

definition sample_shape :: "string \<Rightarrow> json \<Rightarrow> config option" where
  "sample_shape kind j =
     (if kind = KIND_LOG then
        Some (LogConfig \<lparr>lg_delivery = sample_cadence (jget ''delivery'' j),
                         lg_interval = sample_int (jget ''digest_interval_seconds'' j),
                         lg_prefix = sample_str (jget ''prefix'' j), lg_include = []\<rparr>)
      else if kind = KIND_WEBHOOK then
        Some (WebhookConfig \<lparr>wh_delivery = sample_cadence (jget ''delivery'' j),
                wh_interval = sample_int (jget ''digest_interval_seconds'' j),
                wh_url = sample_str (jget ''url'' j), wh_method = POST,
                wh_headers = [], wh_include = []\<rparr>)
      else if kind = KIND_SEMANTIC_FILTER then
        Some (SemanticFilterConfig \<lparr>sf_engine = default_spec, sf_fetch = False,
                sf_instructions = sample_str (jget ''instructions'' j), sf_threshold = 8 / 10\<rparr>)
      else None)"

definition sample_cad_json :: "cadence \<Rightarrow> json" where
  "sample_cad_json c = JStr (case c of DIGEST \<Rightarrow> ''digest'' | INSTANT \<Rightarrow> ''instant'')"

fun sample_dump :: "config \<Rightarrow> json" where
  "sample_dump (LogConfig c) =
     JObj [(''delivery'', sample_cad_json (lg_delivery c)),
           (''digest_interval_seconds'', JInt (lg_interval c)), (''prefix'', JStr (lg_prefix c))]"
| "sample_dump (WebhookConfig c) =
     JObj [(''delivery'', sample_cad_json (wh_delivery c)),
           (''digest_interval_seconds'', JInt (wh_interval c)), (''url'', JStr (wh_url c))]"
| "sample_dump (SemanticFilterConfig c) = JObj [(''instructions'', JStr (sf_instructions c))]"
| "sample_dump (ExtractConfig c) = JObj []"
| "sample_dump (PluginConfig c) = pg_data c"

definition sample_env :: env where
  "sample_env =
     \<lparr>env_cfg = default_settings, env_gen = sample_gen, env_plugin_kinds = [],
      env_shape = sample_shape, env_dump = sample_dump,
      env_plugin_merge = (\<lambda>c prior. Inr (PluginConfig c)),
      env_dns = (\<lambda>host p. Addrs [''93.184.216.34''])\<rparr>"

lemma sample_env_simps [simp]:
  "env_cfg sample_env = default_settings" "env_gen sample_env = sample_gen"
  "env_plugin_kinds sample_env = []" "env_shape sample_env = sample_shape"
  "env_dump sample_env = sample_dump"
  by (simp_all add: sample_env_def)

text \<open>Log configs, instant and digest, as stored blobs.\<close>

definition log_blob :: "cadence \<Rightarrow> int \<Rightarrow> json" where
  "log_blob c n = sample_dump (LogConfig \<lparr>lg_delivery = c, lg_interval = n, lg_prefix = ''p'', lg_include = []\<rparr>)"

definition sample_action :: "ulid \<Rightarrow> ulid \<Rightarrow> json \<Rightarrow> nat \<Rightarrow> action" where
  "sample_action i path blob rank =
     \<lparr>act_id = i, act_account = ''acc'', act_path = path, act_kind = KIND_LOG, act_config = blob,
      act_rank = rank\<rparr>"

end
