(* ===== verification/Chain.thy ===== *)
theory Chain
  imports Digest Samples
begin

text \<open>
  The action chain of a path, \<open>watches/services/watches/_actions.py\<close>: ordered reads,
  neighbours, \<open>replace_chain\<close>, \<open>add\<close>, \<open>set_config\<close>, \<open>remove\<close> and the two-phase renumbering.
  \<open>path_chain_lock\<close> is the argument \<open>acquired\<close>. A raised exception rolls the transaction
  back: the result is \<open>Inl\<close> and no new state. Lemmas: no intermediate row of the renumbering
  violates the unique rank, every edit leaves the chain dense and in the submitted order, and
  windows do not outlive the digest configs they belong to.
\<close>

subsection \<open>Reads\<close>

definition on_path :: "ulid \<Rightarrow> ulid \<Rightarrow> action \<Rightarrow> bool" where
  "on_path account path a \<longleftrightarrow> act_account a = account \<and> act_path a = path"

definition list_for_path :: "ulid \<Rightarrow> ulid \<Rightarrow> action list \<Rightarrow> action list" where
  "list_for_path account path t = order_by act_rank (filter (on_path account path) t)"

definition count_for_path :: "ulid \<Rightarrow> ulid \<Rightarrow> action list \<Rightarrow> nat" where
  "count_for_path account path t = qcount (on_path account path) t"

definition get_action :: "ulid \<Rightarrow> ulid \<Rightarrow> action list \<Rightarrow> action result" where
  "get_action account i t = qget (\<lambda>a. act_id a = i \<and> act_account a = account) t"

definition adjacent :: "ulid \<Rightarrow> action \<Rightarrow> bool \<Rightarrow> action list \<Rightarrow> action option" where
  "adjacent account a forward t =
     (if forward
      then first_row (order_by act_rank
             (filter (\<lambda>x. on_path account (act_path a) x \<and> act_rank a < act_rank x) t))
      else first_row (order_by (\<lambda>x. - int (act_rank x))
             (filter (\<lambda>x. on_path account (act_path a) x \<and> act_rank x < act_rank a) t)))"

definition next_in_chain :: "ulid \<Rightarrow> action \<Rightarrow> action list \<Rightarrow> action option" where
  "next_in_chain account a t = adjacent account a True t"

definition prev_in_chain :: "ulid \<Rightarrow> action \<Rightarrow> action list \<Rightarrow> action option" where
  "prev_in_chain account a t = adjacent account a False t"

subsection \<open>Renumbering\<close>

definition rank_key :: "action \<Rightarrow> ulid \<times> ulid \<times> nat" where
  "rank_key a = (act_account a, act_path a, act_rank a)"

definition actions_ok :: "action list \<Rightarrow> bool" where
  "actions_ok t \<longleftrightarrow> distinct (map act_id t) \<and> distinct (map rank_key t)"

text \<open>One UPDATE of many ranks, with the unique constraint checked after every row, as SQLite
  checks it.\<close>

fun write_ranks :: "(ulid \<times> nat) list \<Rightarrow> action list \<Rightarrow> action list result" where
  "write_ranks [] t = Inr t"
| "write_ranks ((i, r) # ps) t =
     (let t' = qupdate (\<lambda>a. act_id a = i) (\<lambda>a. a\<lparr>act_rank := r\<rparr>) t
      in if distinct (map rank_key t') then write_ranks ps t' else Inl IntegrityError)"

definition max_rank :: "action list \<Rightarrow> nat" where
  "max_rank rows = foldr max (map act_rank rows) 0"

definition renumber :: "action list \<Rightarrow> action list \<Rightarrow> action list result" where
  "renumber ordered t =
     (let offset = max_rank ordered + 1;
          ids = map act_id ordered;
          n = length ordered
      in res_bind (write_ranks (zip ids [offset..<offset + n]) t)
           (\<lambda>t1. write_ranks (zip ids [0..<n]) t1))"

definition insert_row :: "action \<Rightarrow> action list \<Rightarrow> action list result" where
  "insert_row a t = (if rank_key a \<in> rank_key ` set t then Inl IntegrityError else Inr (t @ [a]))"

fun insert_rows :: "action list \<Rightarrow> action list \<Rightarrow> action list result" where
  "insert_rows [] t = Inr t"
| "insert_rows (a # as) t = res_bind (insert_row a t) (insert_rows as)"

subsection \<open>Edits\<close>

definition clear_digest_windows :: "ulid \<Rightarrow> ulid list \<Rightarrow> window list \<Rightarrow> window list" where
  "clear_digest_windows account ids ws =
     (if ids = [] then ws
      else qdelete (\<lambda>w. win_account w = account \<and> win_action w \<in> set ids) ws)"

text \<open>A submitted action: optional id, kind, and the JSON dump of its config.\<close>

record action_input =
  ai_id :: "string option"
  ai_kind :: string
  ai_config :: json

definition insert_at :: "int option \<Rightarrow> nat \<Rightarrow> nat" where
  "insert_at rank n = (case rank of None \<Rightarrow> n | Some r \<Rightarrow> nat (max 0 (min r (int n))))"

definition add_action_dry_run ::
  "env \<Rightarrow> ulid \<Rightarrow> ulid \<Rightarrow> action_input \<Rightarrow> int option \<Rightarrow> db \<Rightarrow> action result" where
  "add_action_dry_run E account path spec rank d =
     res_bind (validate_config E (ai_kind spec) (ai_config spec)) (\<lambda>c.
       Inr \<lparr>act_id = env_gen E (next_id d), act_account = account, act_path = path,
            act_kind = ai_kind spec, act_config = env_dump E c,
            act_rank = insert_at rank (count_for_path account path (t_actions d))\<rparr>)"

definition add_action ::
  "env \<Rightarrow> ulid \<Rightarrow> ulid \<Rightarrow> action_input \<Rightarrow> int option \<Rightarrow> bool \<Rightarrow> db \<Rightarrow> (db \<times> ulid) result" where
  "add_action E account path spec rank acquired d =
     res_bind (validate_config E (ai_kind spec) (ai_config spec)) (\<lambda>c.
       if \<not> acquired then Inl ConcurrentChainError
       else
         let chain = list_for_path account path (t_actions d);
             k = insert_at rank (length chain);
             new = \<lparr>act_id = env_gen E (next_id d), act_account = account, act_path = path,
                    act_kind = ai_kind spec, act_config = env_dump E c,
                    act_rank = length chain + 1\<rparr>
         in res_bind (insert_row new (t_actions d)) (\<lambda>t.
            res_bind (renumber (take k chain @ new # drop k chain) t) (\<lambda>t'.
              Inr (d\<lparr>t_actions := t', next_id := Suc (next_id d)\<rparr>, act_id new))))"

text \<open>The config an in-place edit persists: merged over the prior one when the kind is
  unchanged.\<close>

definition edited_config :: "env \<Rightarrow> action \<Rightarrow> action_input \<Rightarrow> config result" where
  "edited_config E a spec =
     res_bind (if act_kind a = ai_kind spec then map_sum id Some (load_config E a) else Inr None) (\<lambda>prior.
       merge_config E (ai_kind spec) (ai_config spec) prior)"

definition set_config ::
  "env \<Rightarrow> ulid \<Rightarrow> action \<Rightarrow> action_input \<Rightarrow> bool \<Rightarrow> db \<Rightarrow> (db \<times> action) result" where
  "set_config E account a spec dry_run d =
     (if act_account a \<noteq> account then Inl ValueError
      else
        res_bind (edited_config E a spec) (\<lambda>merged.
          let a' = a\<lparr>act_kind := ai_kind spec, act_config := env_dump E merged\<rparr>
          in if dry_run then Inr (d, a')
             else if qcount (\<lambda>x. act_id x = act_id a) (t_actions d) = 0 then Inl DatabaseError
             else
               Inr (d\<lparr>t_actions := qupdate (\<lambda>x. act_id x = act_id a)
                          (\<lambda>x. x\<lparr>act_kind := act_kind a', act_config := act_config a'\<rparr>) (t_actions d),
                      t_windows := (if is_digest merged then t_windows d
                                    else clear_digest_windows account [act_id a] (t_windows d))\<rparr>, a')))"

definition remove_action :: "ulid \<Rightarrow> action \<Rightarrow> bool \<Rightarrow> db \<Rightarrow> db result" where
  "remove_action account a acquired d =
     (if act_account a \<noteq> account then Inl ValueError
      else if \<not> acquired then Inl ConcurrentChainError
      else
        let t = qdelete (\<lambda>x. act_id x = act_id a) (t_actions d);
            ws = clear_digest_windows account [act_id a] (t_windows d)
        in res_bind (renumber (list_for_path account (act_path a) t) t) (\<lambda>t'.
             Inr (d\<lparr>t_actions := t', t_windows := ws\<rparr>)))"

subsection \<open>Whole-chain replace\<close>

record chain_plan =
  cp_ordered :: "action list"
  cp_updated :: "action list"
  cp_created :: "action list"
  cp_kept :: "ulid list"
  cp_clear :: "ulid list"

definition resolve_prior ::
  "string \<Rightarrow> action list \<Rightarrow> ulid list \<Rightarrow> action option result" where
  "resolve_prior sid existing kept =
     (if sid = '''' then Inr None
      else case qfirst (\<lambda>a. act_id a = sid) existing of
        None \<Rightarrow> Inl PolicyError
      | Some a \<Rightarrow> if sid \<in> set kept then Inl PolicyError else Inr (Some a))"

text \<open>A parse failure reads as "no masked secret" so the real error comes from
  \<open>merge_config\<close>.\<close>

definition submitted_has_masked_secret :: "env \<Rightarrow> action_input \<Rightarrow> bool" where
  "submitted_has_masked_secret E spec =
     (case parse_config E (ai_kind spec) (ai_config spec) of
        Inl _ \<Rightarrow> False | Inr c \<Rightarrow> has_masked_secret c)"

definition plan_spec ::
  "env \<Rightarrow> ulid \<Rightarrow> ulid \<Rightarrow> nat \<Rightarrow> action list \<Rightarrow> action_input \<Rightarrow> chain_plan \<Rightarrow> chain_plan result" where
  "plan_spec E account path n existing spec p =
     res_bind (resolve_prior (strip (case ai_id spec of None \<Rightarrow> '''' | Some s \<Rightarrow> s)) existing (cp_kept p))
       (\<lambda>prior_row.
       let same_kind_prior = (case prior_row of None \<Rightarrow> None
             | Some a \<Rightarrow> if act_kind a = ai_kind spec then Some a else None)
       in if same_kind_prior = None \<and> submitted_has_masked_secret E spec then Inl PolicyError
       else
         res_bind (case same_kind_prior of None \<Rightarrow> Inr None | Some a \<Rightarrow> map_sum id Some (load_config E a))
           (\<lambda>prior.
         res_bind (merge_config E (ai_kind spec) (ai_config spec) prior) (\<lambda>merged.
           case prior_row of
             Some a \<Rightarrow>
               let a' = a\<lparr>act_kind := ai_kind spec, act_config := env_dump E merged\<rparr>
               in Inr (p\<lparr>cp_ordered := cp_ordered p @ [a'], cp_updated := cp_updated p @ [a'],
                         cp_kept := cp_kept p @ [act_id a],
                         cp_clear := (if is_digest merged then cp_clear p
                                      else cp_clear p @ [act_id a])\<rparr>)
           | None \<Rightarrow>
               let a' = \<lparr>act_id = env_gen E (n + length (cp_created p)), act_account = account,
                         act_path = path, act_kind = ai_kind spec, act_config = env_dump E merged,
                         act_rank = length existing + 1 + length (cp_created p)\<rparr>
               in Inr (p\<lparr>cp_ordered := cp_ordered p @ [a'], cp_created := cp_created p @ [a']\<rparr>))))"

fun plan_specs ::
  "env \<Rightarrow> ulid \<Rightarrow> ulid \<Rightarrow> nat \<Rightarrow> action list \<Rightarrow> action_input list \<Rightarrow> chain_plan \<Rightarrow> chain_plan result" where
  "plan_specs E account path n existing [] p = Inr p"
| "plan_specs E account path n existing (s # ss) p =
     res_bind (plan_spec E account path n existing s p) (plan_specs E account path n existing ss)"

text \<open>\<open>bulk_update(updated, ["kind", "config"])\<close>.\<close>

definition update_configs :: "action list \<Rightarrow> action list \<Rightarrow> action list" where
  "update_configs updated t =
     map (\<lambda>x. case qfirst (\<lambda>a. act_id a = act_id x) updated of
                None \<Rightarrow> x
              | Some a \<Rightarrow> x\<lparr>act_kind := act_kind a, act_config := act_config a\<rparr>) t"

definition empty_plan :: chain_plan where
  "empty_plan = \<lparr>cp_ordered = [], cp_updated = [], cp_created = [], cp_kept = [], cp_clear = []\<rparr>"

definition replace_chain ::
  "env \<Rightarrow> ulid \<Rightarrow> ulid \<Rightarrow> action_input list \<Rightarrow> bool \<Rightarrow> db \<Rightarrow> db result" where
  "replace_chain E account path specs acquired d =
     (if \<not> acquired then Inl ConcurrentChainError
      else
        let existing = list_for_path account path (t_actions d) in
        res_bind (plan_specs E account path (next_id d) existing specs empty_plan) (\<lambda>p.
        let removed = filter (\<lambda>i. i \<notin> set (cp_kept p)) (map act_id existing);
            hidden = filter (\<lambda>a. act_id a \<in> set removed \<and> act_kind a \<notin> set (known_kinds E)) existing
        in if hidden \<noteq> [] then Inl PolicyError
        else
          let t1 = qdelete (\<lambda>a. act_account a = account \<and> act_id a \<in> set removed) (t_actions d);
              ws = clear_digest_windows account (removed @ cp_clear p) (t_windows d);
              t2 = update_configs (cp_updated p) t1
          in res_bind (insert_rows (cp_created p) t2) (\<lambda>t3.
             res_bind (renumber (cp_ordered p) t3) (\<lambda>t4.
               Inr (d\<lparr>t_actions := t4, t_windows := ws,
                      next_id := next_id d + length (cp_created p)\<rparr>)))))"

subsection \<open>Lemmas: renumbering\<close>

lemma on_path_rank [simp]: "on_path account path (act_rank_update f a) = on_path account path a"
  by (simp add: on_path_def)

definition reassign_row :: "(ulid \<times> nat) list \<Rightarrow> action \<Rightarrow> action" where
  "reassign_row ps a = (case map_of ps (act_id a) of None \<Rightarrow> a | Some r \<Rightarrow> a\<lparr>act_rank := r\<rparr>)"

definition reassign :: "(ulid \<times> nat) list \<Rightarrow> action list \<Rightarrow> action list" where
  "reassign ps t = map (reassign_row ps) t"

lemma reassign_row_simps [simp]:
  "act_id (reassign_row ps a) = act_id a"
  "act_account (reassign_row ps a) = act_account a"
  "act_path (reassign_row ps a) = act_path a"
  "act_kind (reassign_row ps a) = act_kind a"
  "act_config (reassign_row ps a) = act_config a"
  "on_path account path (reassign_row ps a) = on_path account path a"
  by (simp_all add: reassign_row_def split: option.split)

lemma map_id_reassign [simp]: "map act_id (reassign ps t) = map act_id t"
  by (simp add: reassign_def)

lemma set_rank_distinct:
  assumes ok: "actions_ok t" and p: "\<forall>a\<in>set t. act_id a = i \<longrightarrow> on_path account path a"
    and r: "\<forall>a\<in>set t. on_path account path a \<longrightarrow> act_rank a \<noteq> r"
  shows "actions_ok (qupdate (\<lambda>a. act_id a = i) (\<lambda>a. a\<lparr>act_rank := r\<rparr>) t)"
proof -
  let ?g = "\<lambda>a. if act_id a = i then a\<lparr>act_rank := r\<rparr> else a"
  have d: "distinct t" "inj_on act_id (set t)" "inj_on rank_key (set t)"
    using ok by (auto simp: actions_ok_def distinct_map)
  have "inj_on (rank_key \<circ> ?g) (set t)"
  proof (rule inj_onI)
    fix a b assume ab: "a \<in> set t" "b \<in> set t" and e: "(rank_key \<circ> ?g) a = (rank_key \<circ> ?g) b"
    consider "act_id a = i" "act_id b = i" | "act_id a \<noteq> i" "act_id b \<noteq> i"
      | "act_id a = i" "act_id b \<noteq> i" | "act_id a \<noteq> i" "act_id b = i" by blast
    then show "a = b"
    proof cases
      case 1
      then have "act_id a = act_id b" by simp
      then show ?thesis using d(2) ab by (simp add: inj_on_def)
    next
      case 2
      then show ?thesis using d(3) ab e by (simp add: inj_on_def)
    next
      case 3
      then show ?thesis using p r ab e by (auto simp: rank_key_def on_path_def)
    next
      case 4
      then show ?thesis using p r ab e by (fastforce simp: rank_key_def on_path_def)
    qed
  qed
  moreover have "map act_id (map ?g t) = map act_id t" by simp
  ultimately show ?thesis
    using ok d(1) by (simp only: actions_ok_def qupdate_def distinct_map map_map)
qed

text \<open>Writing fresh ranks to rows of one path, in any order, never trips the constraint.\<close>

lemma write_ranks_ok:
  assumes "actions_ok t" "distinct (map fst ps)" "distinct (map snd ps)"
    and "\<forall>a\<in>set t. act_id a \<in> fst ` set ps \<longrightarrow> on_path account path a"
    and "\<forall>a\<in>set t. on_path account path a \<longrightarrow> act_rank a \<notin> snd ` set ps"
  shows "write_ranks ps t = Inr (reassign ps t) \<and> actions_ok (reassign ps t)"
  using assms
proof (induction ps arbitrary: t)
  case Nil
  then show ?case by (simp add: reassign_def reassign_row_def[abs_def])
next
  case (Cons p ps)
  obtain i r where p: "p = (i, r)" by force
  let ?t = "qupdate (\<lambda>a. act_id a = i) (\<lambda>a. a\<lparr>act_rank := r\<rparr>) t"
  have ok: "actions_ok ?t"
    by (rule set_rank_distinct[of _ _ account path]) (use Cons.prems p in auto)
  have "write_ranks ps ?t = Inr (reassign ps ?t) \<and> actions_ok (reassign ps ?t)"
  proof (rule Cons.IH[OF ok])
    show "distinct (map fst ps)" "distinct (map snd ps)" using Cons.prems by auto
    show "\<forall>a\<in>set ?t. act_id a \<in> fst ` set ps \<longrightarrow> on_path account path a"
      using Cons.prems(4) p by (auto simp: set_qupdate)
    show "\<forall>a\<in>set ?t. on_path account path a \<longrightarrow> act_rank a \<notin> snd ` set ps"
      using Cons.prems(3,5) p by (auto simp: set_qupdate) force
  qed
  moreover have "reassign ps ?t = reassign (p # ps) t"
    using Cons.prems(2) p
    by (auto simp: reassign_def reassign_row_def qupdate_def map_of_eq_None_iff split: option.split) force
  ultimately show ?case using ok p by (simp add: actions_ok_def)
qed

lemma max_rank_ge: "a \<in> set rows \<Longrightarrow> act_rank a \<le> max_rank rows"
  by (induction rows) (auto simp: max_rank_def)

lemma distinct_bounded_length: "distinct (xs :: nat list) \<Longrightarrow> \<forall>x\<in>set xs. x \<le> m \<Longrightarrow> length xs \<le> m + 1"
  using card_mono[of "{..m}" "set xs"] by (auto simp: distinct_card)

text \<open>\<open>ordered\<close> lists exactly the rows of the path, with the ranks they have in the table.\<close>

definition lists_path :: "ulid \<Rightarrow> ulid \<Rightarrow> action list \<Rightarrow> action list \<Rightarrow> bool" where
  "lists_path account path ordered t \<longleftrightarrow>
     distinct (map act_id ordered) \<and>
     (\<lambda>a. (act_id a, act_rank a)) ` set ordered =
     (\<lambda>a. (act_id a, act_rank a)) ` {a \<in> set t. on_path account path a}"

lemma lists_path_fwd:
  "lists_path account path ordered t \<Longrightarrow> b \<in> set ordered \<Longrightarrow>
   \<exists>a\<in>set t. on_path account path a \<and> act_id a = act_id b \<and> act_rank a = act_rank b"
  by (auto simp: lists_path_def set_eq_iff image_iff) metis

lemma lists_path_bwd:
  "lists_path account path ordered t \<Longrightarrow> a \<in> set t \<Longrightarrow> on_path account path a \<Longrightarrow>
   \<exists>b\<in>set ordered. act_id b = act_id a \<and> act_rank b = act_rank a"
  by (auto simp: lists_path_def set_eq_iff image_iff) metis

lemma same_id_same: "actions_ok t \<Longrightarrow> a \<in> set t \<Longrightarrow> b \<in> set t \<Longrightarrow> act_id a = act_id b \<Longrightarrow> a = b"
  by (auto simp: actions_ok_def intro: distinct_key_unique)

lemma lists_path_ids:
  assumes "actions_ok t" "lists_path account path ordered t" "a \<in> set t"
  shows "act_id a \<in> set (map act_id ordered) \<longleftrightarrow> on_path account path a"
proof
  assume "act_id a \<in> set (map act_id ordered)"
  then obtain b where b: "b \<in> set ordered" "act_id b = act_id a" by auto
  from lists_path_fwd[OF assms(2) b(1)] obtain c where
    c: "c \<in> set t" "on_path account path c" "act_id c = act_id b" by blast
  with same_id_same[OF assms(1) c(1) assms(3)] b(2) show "on_path account path a" by simp
next
  assume "on_path account path a"
  then obtain b where "b \<in> set ordered" "act_id b = act_id a"
    using lists_path_bwd[OF assms(2,3)] by blast
  then show "act_id a \<in> set (map act_id ordered)" by (metis image_eqI set_map)
qed

lemma lists_path_ranks_distinct:
  assumes "actions_ok t" "lists_path account path ordered t"
  shows "distinct (map act_rank ordered)"
proof -
  have d: "distinct ordered" using assms(2) by (auto simp: lists_path_def distinct_map)
  have "inj_on act_rank (set ordered)"
  proof (rule inj_onI)
    fix x y assume x: "x \<in> set ordered" and y: "y \<in> set ordered" and e: "act_rank x = act_rank y"
    obtain a where a: "a \<in> set t" "on_path account path a" "act_id a = act_id x" "act_rank a = act_rank x"
      using lists_path_fwd[OF assms(2) x] by blast
    obtain b where b: "b \<in> set t" "on_path account path b" "act_id b = act_id y" "act_rank b = act_rank y"
      using lists_path_fwd[OF assms(2) y] by blast
    have "rank_key a = rank_key b" using a b e by (simp add: rank_key_def on_path_def)
    then have "a = b" using assms(1) a(1) b(1) by (auto simp: actions_ok_def intro: distinct_key_unique)
    then have "act_id x = act_id y" using a(3) b(3) by simp
    then show "x = y" using assms(2) x y by (auto simp: lists_path_def distinct_map inj_on_def)
  qed
  with d show ?thesis by (simp add: distinct_map)
qed

text \<open>The two phases: offset past every live rank, then the finals.\<close>

lemma zip_fst_snd:
  assumes "length xs = length ys"
  shows "map fst (zip xs ys) = xs" "map snd (zip xs ys) = ys"
    "fst ` set (zip xs ys) = set xs" "snd ` set (zip xs ys) = set ys"
  using assms by (simp_all add: map_fst_zip map_snd_zip flip: set_map)

lemma reassign_reassign:
  assumes "set (map fst qs) = set (map fst ps)"
  shows "reassign ps (reassign qs t) = reassign ps t"
proof -
  have "reassign_row ps (reassign_row qs a) = reassign_row ps a" for a
  proof (cases "map_of ps (act_id a)")
    case None
    then have "map_of qs (act_id a) = None" using assms by (simp add: map_of_eq_None_iff)
    with None show ?thesis by (simp add: reassign_row_def)
  next
    case (Some r)
    then show ?thesis by (simp add: reassign_row_def split: option.split)
  qed
  then show ?thesis by (simp add: reassign_def)
qed

lemma renumber_ok:
  assumes ok: "actions_ok t" and l: "lists_path account path ordered t"
  defines "t' \<equiv> reassign (zip (map act_id ordered) [0..<length ordered]) t"
  shows "renumber ordered t = Inr t' \<and> actions_ok t'"
proof -
  let ?n = "length ordered" and ?m = "max_rank ordered + 1" and ?ids = "map act_id ordered"
  let ?p1 = "zip ?ids [?m..<?m + ?n]" and ?p2 = "zip ?ids [0..<?n]"
  have dist: "distinct ?ids" using l by (simp add: lists_path_def)
  have len: "length ?ids = length [?m..<?m + ?n]" "length ?ids = length [0..<?n]"
    by (simp_all only: length_map length_upt)
  note z1 = zip_fst_snd[OF len(1)] and z2 = zip_fst_snd[OF len(2)]
  have rank_le: "act_rank a \<le> max_rank ordered" if "a \<in> set t" "on_path account path a" for a
    using lists_path_bwd[OF l that] max_rank_ge by fastforce
  have p1: "write_ranks ?p1 t = Inr (reassign ?p1 t) \<and> actions_ok (reassign ?p1 t)"
  proof (rule write_ranks_ok[OF ok])
    show "distinct (map fst ?p1)" "distinct (map snd ?p1)" by (simp_all only: z1 dist distinct_upt)
    show "\<forall>a\<in>set t. act_id a \<in> fst ` set ?p1 \<longrightarrow> on_path account path a"
      unfolding z1 using lists_path_ids[OF ok l] by blast
    show "\<forall>a\<in>set t. on_path account path a \<longrightarrow> act_rank a \<notin> snd ` set ?p1"
      unfolding z1 using rank_le by fastforce
  qed
  have n_le: "?n \<le> ?m"
    using distinct_bounded_length[OF lists_path_ranks_distinct[OF ok l]] max_rank_ge by fastforce
  have row1: "on_path account path b \<and> act_rank b \<in> {?m..<?m + ?n}"
    if b: "b \<in> set (reassign ?p1 t)" and on: "on_path account path b \<or> act_id b \<in> set ?ids" for b
  proof -
    obtain a where a: "a \<in> set t"
      "b = reassign_row ?p1 a"
      using b by (auto simp: reassign_def)
    then have "on_path account path b = on_path account path a" "act_id b = act_id a"
      by simp_all
    with on a(1) have oa: "on_path account path a" and "act_id a \<in> set ?ids"
      using lists_path_ids[OF ok l] by auto
    then obtain r where r: "map_of ?p1 (act_id a) = Some r"
      by (metis map_of_eq_None_iff not_Some_eq z1(3))
    then have "r \<in> snd ` set ?p1" by (metis imageI map_of_SomeD snd_conv)
    then have "r \<in> {?m..<?m + ?n}" by (simp only: z1 set_upt)
    with a r oa show ?thesis by (simp add: reassign_row_def)
  qed
  have p2: "write_ranks ?p2 (reassign ?p1 t) = Inr (reassign ?p2 (reassign ?p1 t)) \<and>
      actions_ok (reassign ?p2 (reassign ?p1 t))"
  proof (rule write_ranks_ok)
    show "actions_ok (reassign ?p1 t)" using p1 by simp
    show "distinct (map fst ?p2)" "distinct (map snd ?p2)" by (simp_all only: z2 dist distinct_upt)
    show "\<forall>a\<in>set (reassign ?p1 t). act_id a \<in> fst ` set ?p2 \<longrightarrow> on_path account path a"
      unfolding z2 using row1 by blast
    show "\<forall>a\<in>set (reassign ?p1 t). on_path account path a \<longrightarrow> act_rank a \<notin> snd ` set ?p2"
      unfolding z2 using row1 n_le by fastforce
  qed
  have "reassign ?p2 (reassign ?p1 t) = t'"
    unfolding t'_def by (rule reassign_reassign) (simp only: z1 z2)
  with p1 p2 show ?thesis by (simp add: renumber_def Let_def)
qed

text \<open>After a renumbering the chain reads back as the submitted list, ranks 0 to n-1.\<close>

definition dense :: "ulid \<Rightarrow> ulid \<Rightarrow> action list \<Rightarrow> bool" where
  "dense account path t \<longleftrightarrow>
     map act_rank (list_for_path account path t) = [0..<length (list_for_path account path t)]"

lemma set_list_for_path [simp]:
  "set (list_for_path account path t) = {a \<in> set t. on_path account path a}"
  by (auto simp: list_for_path_def)

lemma distinct_list_for_path:
  "actions_ok t \<Longrightarrow> distinct (map act_id (list_for_path account path t))"
  by (simp add: list_for_path_def actions_ok_def distinct_map_filter)

lemma path_ranks_distinct:
  "actions_ok t \<Longrightarrow> distinct (map act_rank (list_for_path account path t))"
  unfolding list_for_path_def distinct_order_by
  by (auto simp: actions_ok_def distinct_map inj_on_def rank_key_def on_path_def)

lemma reassign_row_rank:
  assumes "i < length rows" "distinct (map act_id rows)" "act_id a = act_id (rows ! i)"
  shows "act_rank (reassign_row (zip (map act_id rows) [0..<length rows]) a) = i"
proof -
  have "map_of (zip (map act_id rows) [0..<length rows]) (map act_id rows ! i) = Some ([0..<length rows] ! i)"
    by (rule map_of_zip_nth) (use assms in auto)
  with assms show ?thesis by (simp add: reassign_row_def)
qed

lemma renumber_list:
  assumes ok: "actions_ok t" and l: "lists_path account path ordered t"
    and r: "renumber ordered t = Inr t'"
  shows "map act_id (list_for_path account path t') = map act_id ordered \<and>
         map act_rank (list_for_path account path t') = [0..<length ordered]"
proof -
  let ?ps = "zip (map act_id ordered) [0..<length ordered]"
  let ?L = "list_for_path account path t'"
  have t': "t' = reassign ?ps t" and ok': "actions_ok t'"
    using renumber_ok[OF ok l] r by auto
  have dist: "distinct (map act_id ordered)" using l by (simp add: lists_path_def)
  have row: "act_rank b < length ordered \<and> act_id b = map act_id ordered ! act_rank b" if b: "b \<in> set ?L" for b
  proof -
    obtain a where a: "a \<in> set t" "on_path account path a" "b = reassign_row ?ps a"
      using b by (auto simp: t' reassign_def)
    then have "act_id a \<in> set (map act_id ordered)" using lists_path_ids[OF ok l] by simp
    then obtain i where i: "i < length ordered" "act_id a = act_id (ordered ! i)"
      by (auto simp: in_set_conv_nth)
    from reassign_row_rank[OF i(1) dist i(2)] a(3) i show ?thesis by simp
  qed
  have "set (map act_rank ?L) = {..<length ordered}"
  proof
    show "set (map act_rank ?L) \<subseteq> {..<length ordered}" using row by auto
    show "{..<length ordered} \<subseteq> set (map act_rank ?L)"
    proof
      fix i assume "i \<in> {..<length ordered}"
      then have i: "i < length ordered" by simp
      obtain a where a: "a \<in> set t" "on_path account path a" "act_id a = act_id (ordered ! i)"
        using lists_path_fwd[OF l nth_mem[OF i]] by blast
      then have "reassign_row ?ps a \<in> set ?L" by (auto simp: t' reassign_def)
      with reassign_row_rank[OF i dist a(3)] show "i \<in> set (map act_rank ?L)" by force
    qed
  qed
  then have ranks: "map act_rank ?L = [0..<length ordered]"
    using path_ranks_distinct[OF ok'] sorted_order_by[of act_rank]
    by (intro sorted_distinct_set_unique) (auto simp: list_for_path_def lessThan_atLeast0)
  have "map act_id ?L = map (\<lambda>b. map act_id ordered ! act_rank b) ?L" using row by simp
  also have "\<dots> = map ((!) (map act_id ordered)) (map act_rank ?L)" by simp
  also have "\<dots> = map act_id ordered" unfolding ranks by (metis length_map map_nth)
  finally show ?thesis using ranks by simp
qed

lemma lists_path_self: "actions_ok t \<Longrightarrow> lists_path account path (list_for_path account path t) t"
  by (simp add: lists_path_def distinct_list_for_path)

lemma dense_ranks: "dense account path t \<Longrightarrow> a \<in> set t \<Longrightarrow> on_path account path a \<Longrightarrow>
  act_rank a < length (list_for_path account path t)"
proof -
  assume d: "dense account path t" and a: "a \<in> set t" "on_path account path a"
  then have "act_rank a \<in> set (map act_rank (list_for_path account path t))" by simp
  then show ?thesis unfolding d[unfolded dense_def] by simp
qed

lemma dense_renumber:
  assumes "actions_ok t" "lists_path account path ordered t" "renumber ordered t = Inr t'"
  shows "dense account path t'"
proof -
  note r = renumber_list[OF assms]
  then have "length (list_for_path account path t') = length ordered" by (metis length_map)
  with r show ?thesis by (simp add: dense_def)
qed

text \<open>Adding a fresh row of a path at any place of its chain.\<close>

lemma insert_renumber:
  assumes ok: "actions_ok t" and fresh: "act_id new \<notin> set (map act_id t)"
    and on: "on_path account path new"
    and free: "\<forall>a\<in>set t. on_path account path a \<longrightarrow> act_rank a \<noteq> act_rank new"
  defines "chain \<equiv> list_for_path account path t"
  shows "\<exists>t'. insert_row new t = Inr (t @ [new]) \<and>
    renumber (take k chain @ new # drop k chain) (t @ [new]) = Inr t' \<and> actions_ok t' \<and>
    dense account path t' \<and>
    map act_id (list_for_path account path t') =
      take k (map act_id chain) @ act_id new # drop k (map act_id chain)"
proof -
  let ?ord = "take k chain @ new # drop k chain"
  have nokey: "rank_key new \<notin> rank_key ` set t"
    using free on by (auto simp: rank_key_def on_path_def)
  then have ok': "actions_ok (t @ [new])" using ok fresh by (auto simp: actions_ok_def)
  have set: "set ?ord = insert new (set chain)"
    by (simp add: Un_insert_right) (metis append_take_drop_id set_append)
  have "distinct (map act_id chain)" unfolding chain_def by (rule distinct_list_for_path[OF ok])
  moreover have "act_id new \<notin> set (map act_id chain)" using fresh by (auto simp: chain_def)
  ultimately have "distinct (take k (map act_id chain) @ act_id new # drop k (map act_id chain))"
    by (metis append_take_drop_id distinct_append distinct.simps(2) disjoint_insert(1) Un_iff
        list.simps(15) set_append)
  then have l: "lists_path account path ?ord (t @ [new])"
    unfolding lists_path_def set using on by (auto simp: chain_def take_map drop_map)
  obtain t' where t': "renumber ?ord (t @ [new]) = Inr t'" "actions_ok t'"
    using renumber_ok[OF ok' l] by blast
  show ?thesis
    using nokey t' dense_renumber[OF ok' l t'(1)] renumber_list[OF ok' l t'(1)]
    by (auto simp: insert_row_def take_map drop_map)
qed

subsection \<open>Lemmas: whole-chain replace\<close>

definition plan_ok :: "env \<Rightarrow> ulid \<Rightarrow> ulid \<Rightarrow> nat \<Rightarrow> action list \<Rightarrow> chain_plan \<Rightarrow> bool" where
  "plan_ok E account path n existing p \<longleftrightarrow>
     map act_id (cp_updated p) = cp_kept p \<and> distinct (cp_kept p) \<and>
     (\<forall>a\<in>set (cp_updated p). \<exists>x\<in>set existing. act_id a = act_id x \<and> act_rank a = act_rank x) \<and>
     map act_id (cp_created p) = map (env_gen E) [n..<n + length (cp_created p)] \<and>
     map act_rank (cp_created p) =
       [length existing + 1..<length existing + 1 + length (cp_created p)] \<and>
     (\<forall>a\<in>set (cp_created p). on_path account path a) \<and>
     mset (cp_ordered p) = mset (cp_updated p) + mset (cp_created p)"

lemma resolve_prior_Some:
  "resolve_prior sid existing kept = Inr (Some a) \<Longrightarrow>
   a \<in> set existing \<and> act_id a = sid \<and> sid \<noteq> '''' \<and> sid \<notin> set kept"
  by (auto simp: resolve_prior_def split: if_splits option.splits dest: qfirst_Some)

lemma resolve_prior_None: "resolve_prior sid existing kept = Inr None \<Longrightarrow> sid = ''''"
  by (auto simp: resolve_prior_def split: if_splits option.splits)

definition submitted_id :: "action_input \<Rightarrow> string" where
  "submitted_id spec = strip (case ai_id spec of None \<Rightarrow> '''' | Some s \<Rightarrow> s)"

text \<open>The two ways one spec extends the plan.\<close>

lemma plan_spec_cases:
  assumes "plan_spec E account path n existing spec p = Inr p'"
  obtains (keep) a merged where "a \<in> set existing" "act_id a = submitted_id spec" "submitted_id spec \<noteq> ''''"
      "act_id a \<notin> set (cp_kept p)" "enforce_action_policy E merged = Inr merged"
      "p' = p\<lparr>cp_ordered := cp_ordered p @ [a\<lparr>act_kind := ai_kind spec, act_config := env_dump E merged\<rparr>],
              cp_updated := cp_updated p @ [a\<lparr>act_kind := ai_kind spec, act_config := env_dump E merged\<rparr>],
              cp_kept := cp_kept p @ [act_id a],
              cp_clear := (if is_digest merged then cp_clear p else cp_clear p @ [act_id a])\<rparr>"
    | (new) a merged where "submitted_id spec = ''''" "enforce_action_policy E merged = Inr merged"
      "\<not> submitted_has_masked_secret E spec"
      "a = \<lparr>act_id = env_gen E (n + length (cp_created p)), act_account = account, act_path = path,
            act_kind = ai_kind spec, act_config = env_dump E merged,
            act_rank = length existing + 1 + length (cp_created p)\<rparr>"
      "p' = p\<lparr>cp_ordered := cp_ordered p @ [a], cp_created := cp_created p @ [a]\<rparr>"
  using assms unfolding plan_spec_def submitted_id_def[symmetric]
  by (auto simp: res_bind_Inr_iff Let_def split: option.splits if_splits
        dest!: resolve_prior_Some resolve_prior_None merge_config_policy)

lemma plan_ok_step:
  assumes "plan_spec E account path n existing spec p = Inr p'" "plan_ok E account path n existing p"
  shows "plan_ok E account path n existing p'"
  using assms(1)
proof (cases rule: plan_spec_cases)
  case (keep a merged)
  with assms(2) show ?thesis by (auto simp: plan_ok_def intro: bexI[of _ a])
next
  case (new a merged)
  with assms(2) show ?thesis by (simp add: plan_ok_def on_path_def)
qed

lemma plan_ok_specs:
  "plan_specs E account path n existing specs p = Inr p' \<Longrightarrow> plan_ok E account path n existing p \<Longrightarrow>
   plan_ok E account path n existing p'"
  by (induction specs arbitrary: p) (auto simp: res_bind_Inr_iff dest: plan_ok_step)

lemma plan_ok_empty: "plan_ok E account path n existing empty_plan"
  by (simp add: plan_ok_def empty_plan_def)

lemma plan_length:
  "plan_specs E account path n existing specs p = Inr p' \<Longrightarrow>
   length (cp_ordered p') = length (cp_ordered p) + length specs"
proof (induction specs arbitrary: p)
  case (Cons s ss)
  then obtain q where q: "plan_spec E account path n existing s p = Inr q"
    "plan_specs E account path n existing ss q = Inr p'" by (auto simp: res_bind_Inr_iff)
  from q(1) have "length (cp_ordered q) = length (cp_ordered p) + 1"
    by (cases rule: plan_spec_cases) auto
  with Cons.IH[OF q(2)] show ?case by simp
qed simp

text \<open>A submitted id stays the id of the action at its place; the others are new ids.\<close>

lemma plan_ids:
  "plan_specs E account path n existing specs p = Inr p' \<Longrightarrow>
   \<exists>ids. map act_id (cp_ordered p') = map act_id (cp_ordered p) @ ids \<and> length ids = length specs \<and>
     (\<forall>i<length specs. if submitted_id (specs ! i) \<noteq> '''' then ids ! i = submitted_id (specs ! i)
        else ids ! i \<in> range (\<lambda>m. env_gen E (n + m)))"
proof (induction specs arbitrary: p)
  case (Cons s ss)
  then obtain q where q: "plan_spec E account path n existing s p = Inr q"
    "plan_specs E account path n existing ss q = Inr p'" by (auto simp: res_bind_Inr_iff)
  from Cons.IH[OF q(2)] obtain ids where ids: "map act_id (cp_ordered p') = map act_id (cp_ordered q) @ ids"
    "length ids = length ss"
    "\<forall>i<length ss. if submitted_id (ss ! i) \<noteq> '''' then ids ! i = submitted_id (ss ! i)
        else ids ! i \<in> range (\<lambda>m. env_gen E (n + m))" by blast
  from q(1) obtain i where i: "map act_id (cp_ordered q) = map act_id (cp_ordered p) @ [i]"
    "if submitted_id s \<noteq> '''' then i = submitted_id s else i \<in> range (\<lambda>m. env_gen E (n + m))"
    by (cases rule: plan_spec_cases) auto
  show ?case
  proof (intro exI[of _ "i # ids"] conjI allI impI)
    show "map act_id (cp_ordered p') = map act_id (cp_ordered p) @ i # ids" using ids(1) i(1) by simp
    show "length (i # ids) = length (s # ss)" using ids(2) by simp
    fix j assume "j < length (s # ss)"
    then show "if submitted_id ((s # ss) ! j) \<noteq> '''' then (i # ids) ! j = submitted_id ((s # ss) ! j)
        else (i # ids) ! j \<in> range (\<lambda>m. env_gen E (n + m))"
      using i(2) ids(3) by (cases j) auto
  qed
qed simp

lemma update_configs_row:
  "\<exists>g. update_configs u t = map g t \<and> (\<forall>x. act_id (g x) = act_id x \<and> act_rank (g x) = act_rank x \<and>
      act_account (g x) = act_account x \<and> act_path (g x) = act_path x)"
  unfolding update_configs_def by (intro exI conjI, rule refl) (auto split: option.split)

lemma insert_rows_ok:
  "actions_ok t \<Longrightarrow> distinct (map act_id rows) \<Longrightarrow> set (map act_id rows) \<inter> set (map act_id t) = {} \<Longrightarrow>
   distinct (map rank_key rows) \<Longrightarrow> rank_key ` set rows \<inter> rank_key ` set t = {} \<Longrightarrow>
   insert_rows rows t = Inr (t @ rows) \<and> actions_ok (t @ rows)"
proof (induction rows arbitrary: t)
  case (Cons a as)
  have "rank_key a \<notin> rank_key ` set t" "act_id a \<notin> act_id ` set t" using Cons.prems by auto
  then have "actions_ok (t @ [a])" using Cons.prems(1) by (auto simp: actions_ok_def)
  moreover have "set (map act_id as) \<inter> set (map act_id (t @ [a])) = {}"
    "rank_key ` set as \<inter> rank_key ` set (t @ [a]) = {}" using Cons.prems by (auto simp: disjoint_iff)
  ultimately have "insert_rows as (t @ [a]) = Inr ((t @ [a]) @ as) \<and> actions_ok ((t @ [a]) @ as)"
    using Cons.prems by (intro Cons.IH) auto
  with \<open>rank_key a \<notin> rank_key ` set t\<close> show ?case by (simp add: insert_row_def)
qed simp

text \<open>The rows after delete, update and insert are the path's rows for the final order.\<close>

lemma replace_chain_rows:
  assumes ok: "actions_ok t" and dn: "dense account path t"
    and fresh: "\<forall>m. env_gen E (n + m) \<notin> set (map act_id t)" and inj: "inj (env_gen E)"
    and p: "plan_ok E account path n (list_for_path account path t) p"
  defines "removed \<equiv> filter (\<lambda>i. i \<notin> set (cp_kept p)) (map act_id (list_for_path account path t))"
  defines "t2 \<equiv> update_configs (cp_updated p)
                 (qdelete (\<lambda>a. act_account a = account \<and> act_id a \<in> set removed) t)"
  shows "insert_rows (cp_created p) t2 = Inr (t2 @ cp_created p) \<and> actions_ok (t2 @ cp_created p) \<and>
    lists_path account path (cp_ordered p) (t2 @ cp_created p)"
proof -
  let ?chain = "list_for_path account path t" and ?C = "cp_created p" and ?U = "cp_updated p"
  let ?t1 = "qdelete (\<lambda>a. act_account a = account \<and> act_id a \<in> set removed) t"
  obtain g where g: "t2 = map g ?t1" and gs: "\<And>x. act_id (g x) = act_id x" "\<And>x. act_rank (g x) = act_rank x"
      "\<And>x. act_account (g x) = act_account x" "\<And>x. act_path (g x) = act_path x"
    unfolding t2_def using update_configs_row by blast
  have gk: "rank_key (g x) = rank_key x" "on_path account path (g x) = on_path account path x" for x
    by (simp_all add: rank_key_def on_path_def gs)
  have ok1: "actions_ok ?t1" using ok by (simp add: actions_ok_def qdelete_def distinct_map_filter)
  have ok2: "actions_ok t2" using ok1 by (simp add: g actions_ok_def o_def gs gk)
  have ids2: "set (map act_id t2) \<subseteq> set (map act_id t)" by (auto simp: g gs)
  have cid: "map act_id ?C = map (env_gen E) [n..<n + length ?C]"
    and crank: "map act_rank ?C = [length ?chain + 1..<length ?chain + 1 + length ?C]"
    and con: "\<And>a. a \<in> set ?C \<Longrightarrow> on_path account path a"
    and uid: "map act_id ?U = cp_kept p" and kd: "distinct (cp_kept p)"
    and up: "\<And>a. a \<in> set ?U \<Longrightarrow> \<exists>x\<in>set ?chain. act_id a = act_id x \<and> act_rank a = act_rank x"
    and ms: "mset (cp_ordered p) = mset ?U + mset ?C"
    using p by (simp_all only: plan_ok_def)
  have cd: "distinct (map act_id ?C)" unfolding cid using inj by (simp add: distinct_map inj_on_def)
  have cfresh: "set (map act_id ?C) \<inter> set (map act_id t) = {}"
  proof -
    have "set (map act_id ?C) \<subseteq> range (\<lambda>m. env_gen E (n + m))"
      unfolding cid by (auto simp: image_iff) (metis le_add_diff_inverse)
    with fresh show ?thesis by blast
  qed
  have crd: "distinct (map act_rank ?C)" unfolding crank by (rule distinct_upt)
  then have ckd: "distinct (map rank_key ?C)"
    by (auto simp: distinct_map inj_on_def rank_key_def)
  have cbig: "length ?chain < act_rank a" if "a \<in> set ?C" for a
  proof -
    have "act_rank a \<in> set (map act_rank ?C)" using that by simp
    then show ?thesis unfolding crank set_upt atLeastLessThan_iff by linarith
  qed
  have ckf: "rank_key ` set ?C \<inter> rank_key ` set t2 = {}"
  proof -
    have "rank_key a \<noteq> rank_key b" if a: "a \<in> set ?C" and b: "b \<in> set t2" for a b
    proof
      assume e: "rank_key a = rank_key b"
      obtain x where x: "x \<in> set t" "b = g x" using b by (auto simp: g)
      have "on_path account path x" using e con[OF a] x(2) by (simp add: rank_key_def on_path_def gs)
      then have "act_rank x < length ?chain" using dense_ranks[OF dn x(1)] by simp
      with e cbig[OF a] x(2) show False by (simp add: rank_key_def gs)
    qed
    then show ?thesis by blast
  qed
  have ins: "insert_rows ?C t2 = Inr (t2 @ ?C) \<and> actions_ok (t2 @ ?C)"
    by (rule insert_rows_ok[OF ok2 cd _ ckd ckf]) (use ids2 cfresh in blast)
  have so: "set (cp_ordered p) = set ?U \<union> set ?C" using ms by (metis set_mset_mset set_mset_union)
  have "mset (map act_id (cp_ordered p)) = mset (map act_id ?U @ map act_id ?C)" using ms by simp
  moreover have "distinct (map act_id ?U @ map act_id ?C)"
  proof -
    have "set (map act_id ?U) \<subseteq> set (map act_id t)" using up by fastforce
    then show ?thesis using cd cfresh kd uid by auto
  qed
  ultimately have od: "distinct (map act_id (cp_ordered p))" by (metis mset_eq_imp_distinct_iff)
  have kept_iff: "act_id x \<notin> set removed \<longleftrightarrow> act_id x \<in> set (cp_kept p)" if "x \<in> set ?chain" for x
    using that by (auto simp: removed_def)
  let ?f = "\<lambda>a. (act_id a, act_rank a)"
  have "?f ` set ?U = ?f ` {a \<in> set t2. on_path account path a}"
  proof
    show "?f ` set ?U \<subseteq> ?f ` {a \<in> set t2. on_path account path a}"
    proof clarify
      fix a assume a: "a \<in> set ?U"
      obtain x where x: "x \<in> set ?chain" "act_id a = act_id x" "act_rank a = act_rank x" using up[OF a] by blast
      have "act_id x \<in> set (cp_kept p)" using a x(2) uid by (metis image_eqI set_map)
      then have "g x \<in> set t2" using x(1) kept_iff[OF x(1)] by (auto simp: g)
      then show "?f a \<in> ?f ` {a \<in> set t2. on_path account path a}"
        using x by (intro image_eqI[of _ _ "g x"]) (auto simp: gs gk)
    qed
    show "?f ` {a \<in> set t2. on_path account path a} \<subseteq> ?f ` set ?U"
    proof clarify
      fix b assume b: "b \<in> set t2" "on_path account path b"
      obtain x where x: "x \<in> set t" "b = g x" "\<not> (act_account x = account \<and> act_id x \<in> set removed)"
        using b(1) by (auto simp: g)
      have on: "on_path account path x" using b(2) x(2) gk by simp
      then have xc: "x \<in> set ?chain" using x(1) by simp
      have "act_id x \<in> set (map act_id ?U)" using kept_iff[OF xc] x(3) on uid by (auto simp: on_path_def)
      then obtain a where a: "a \<in> set ?U" "act_id a = act_id x" by auto
      obtain y where y: "y \<in> set ?chain" "act_id a = act_id y" "act_rank a = act_rank y" using up[OF a(1)] by blast
      have "y = x" using same_id_same[OF ok] y(1,2) a(2) x(1) by auto
      with a y x(2) show "?f b \<in> ?f ` set ?U" by (intro image_eqI[of _ _ a]) (auto simp: gs)
    qed
  qed
  then have "lists_path account path (cp_ordered p) (t2 @ ?C)"
    using od con unfolding lists_path_def so by (auto simp: image_Un Collect_disj_eq conj_disj_distribR)
  with ins show ?thesis by blast
qed

lemma replace_chain_ok:
  assumes "actions_ok (t_actions d)" "dense account path (t_actions d)"
    and "\<forall>m. env_gen E (next_id d + m) \<notin> set (map act_id (t_actions d))" "inj (env_gen E)"
    and r: "replace_chain E account path specs acquired d = Inr d'"
  shows "\<exists>p. plan_specs E account path (next_id d) (list_for_path account path (t_actions d)) specs empty_plan = Inr p \<and>
    actions_ok (t_actions d') \<and> dense account path (t_actions d') \<and>
    map act_id (list_for_path account path (t_actions d')) = map act_id (cp_ordered p) \<and>
    t_runs d' = t_runs d"
proof -
  let ?L = "list_for_path account path (t_actions d)"
  from r obtain p where pl: "plan_specs E account path (next_id d) ?L specs empty_plan = Inr p"
    by (auto simp: replace_chain_def res_bind_Inr_iff Let_def split: if_splits)
  have pok: "plan_ok E account path (next_id d) ?L p" by (rule plan_ok_specs[OF pl plan_ok_empty])
  note rows = replace_chain_rows[OF assms(1-4) pok]
  from r pl rows obtain t3 t4 where
    t: "actions_ok t3" "lists_path account path (cp_ordered p) t3" "renumber (cp_ordered p) t3 = Inr t4"
      "t_actions d' = t4" "t_runs d' = t_runs d"
    by (auto simp: replace_chain_def res_bind_Inr_iff Let_def split: if_splits)
  show ?thesis
    using pl t renumber_ok[OF t(1,2)] renumber_list[OF t(1-3)] dense_renumber[OF t(1-3)] by auto
qed

text \<open>What a spec is merged with, and what it is stored as: its kind, and its config merged with that
  of the row it names if that row is of the same kind.\<close>

definition prior_config :: "env \<Rightarrow> action list \<Rightarrow> action_input \<Rightarrow> config option result" where
  "prior_config E existing spec =
     (case (if submitted_id spec = '''' then None else qfirst (\<lambda>a. act_id a = submitted_id spec) existing) of
        None \<Rightarrow> Inr None
      | Some a \<Rightarrow> if act_kind a = ai_kind spec then map_sum id Some (load_config E a) else Inr None)"

definition stored_as :: "env \<Rightarrow> action list \<Rightarrow> action_input \<Rightarrow> action \<Rightarrow> bool" where
  "stored_as E existing spec a \<longleftrightarrow> act_kind a = ai_kind spec \<and>
     (\<exists>prior merged. prior_config E existing spec = Inr prior \<and>
        merge_config E (ai_kind spec) (ai_config spec) prior = Inr merged \<and> act_config a = env_dump E merged)"

lemma plan_spec_stores:
  assumes "plan_spec E account path n existing spec p = Inr p'"
  shows "\<exists>a. cp_ordered p' = cp_ordered p @ [a] \<and> stored_as E existing spec a"
proof -
  let ?sid = "submitted_id spec"
  from assms obtain prior_row prior merged where
    row: "resolve_prior ?sid existing (cp_kept p) = Inr prior_row" and
    prior: "(case (case prior_row of None \<Rightarrow> None | Some a \<Rightarrow> if act_kind a = ai_kind spec then Some a else None) of
        None \<Rightarrow> Inr None | Some a \<Rightarrow> map_sum id Some (load_config E a)) = Inr prior" and
    merged: "merge_config E (ai_kind spec) (ai_config spec) prior = Inr merged" and
    p': "\<exists>a. cp_ordered p' = cp_ordered p @ [a] \<and> act_kind a = ai_kind spec \<and> act_config a = env_dump E merged"
    unfolding plan_spec_def submitted_id_def[symmetric]
    by (auto simp: res_bind_Inr_iff Let_def split: option.splits if_splits)
  have "prior_config E existing spec = Inr prior"
    using row prior by (auto simp: prior_config_def resolve_prior_def split: option.splits if_splits)
  with merged p' show ?thesis by (auto simp: stored_as_def)
qed

lemma plan_stores:
  "plan_specs E account path n existing specs p = Inr p' \<Longrightarrow>
   \<exists>as. cp_ordered p' = cp_ordered p @ as \<and> list_all2 (stored_as E existing) specs as"
proof (induction specs arbitrary: p)
  case (Cons s ss)
  then obtain q where q: "plan_spec E account path n existing s p = Inr q"
    "plan_specs E account path n existing ss q = Inr p'" by (auto simp: res_bind_Inr_iff)
  from plan_spec_stores[OF q(1)] obtain a where a: "cp_ordered q = cp_ordered p @ [a]" "stored_as E existing s a" by blast
  from Cons.IH[OF q(2)] obtain as where "cp_ordered p' = cp_ordered q @ as" "list_all2 (stored_as E existing) ss as" by blast
  with a show ?case by (intro exI[of _ "a # as"]) simp
qed simp

text \<open>Id, kind and config of a row: what the renumbering leaves alone.\<close>

definition content :: "action \<Rightarrow> ulid \<times> string \<times> json" where
  "content a = (act_id a, act_kind a, act_config a)"

lemma stored_as_content: "content a = content b \<Longrightarrow> stored_as E existing spec a = stored_as E existing spec b"
  by (simp add: stored_as_def content_def)

lemma content_reassign: "content (reassign_row ps a) = content a"
  by (simp add: content_def)

text \<open>The rows of the path carry what the plan holds.\<close>

lemma replace_chain_contents:
  assumes ok: "actions_ok t" and dn: "dense account path t"
    and fresh: "\<forall>m. env_gen E (n + m) \<notin> set (map act_id t)" and inj: "inj (env_gen E)"
    and p: "plan_ok E account path n (list_for_path account path t) p"
  defines "removed \<equiv> filter (\<lambda>i. i \<notin> set (cp_kept p)) (map act_id (list_for_path account path t))"
  defines "t2 \<equiv> update_configs (cp_updated p)
                 (qdelete (\<lambda>a. act_account a = account \<and> act_id a \<in> set removed) t)"
  assumes x: "x \<in> set (t2 @ cp_created p)" "on_path account path x"
  shows "content x \<in> content ` set (cp_ordered p)"
proof -
  note rows = replace_chain_rows[OF ok dn fresh inj p, folded removed_def, folded t2_def]
  have U: "map act_id (cp_updated p) = cp_kept p" "distinct (cp_kept p)"
    and cid: "map act_id (cp_created p) = map (env_gen E) [n..<n + length (cp_created p)]"
    and ms: "mset (cp_ordered p) = mset (cp_updated p) + mset (cp_created p)" using p by (simp_all only: plan_ok_def)
  have so: "set (cp_ordered p) = set (cp_updated p) \<union> set (cp_created p)" using ms by (metis set_mset_mset set_mset_union)
  show ?thesis
  proof (cases "x \<in> set (cp_created p)")
    case False
    with x(1) have "x \<in> set t2" by simp
    then obtain y where y: "y \<in> set t" "x = (case qfirst (\<lambda>a. act_id a = act_id y) (cp_updated p) of
        None \<Rightarrow> y | Some a \<Rightarrow> y\<lparr>act_kind := act_kind a, act_config := act_config a\<rparr>)"
      by (auto simp: t2_def update_configs_def)
    then have yx: "act_id x = act_id y" by (simp split: option.splits)
    from lists_path_bwd[of account path "cp_ordered p" "t2 @ cp_created p" x] rows x
    obtain a where a: "a \<in> set (cp_ordered p)" "act_id a = act_id x" by blast
    have "a \<notin> set (cp_created p)"
    proof
      assume "a \<in> set (cp_created p)"
      then have "act_id a \<in> set (map act_id (cp_created p))" by simp
      then obtain m where "act_id a = env_gen E (n + m)" unfolding cid by (auto simp: image_iff) (metis le_add_diff_inverse)
      with fresh a(2) yx y(1) show False by (metis image_eqI set_map)
    qed
    with a so have "a \<in> set (cp_updated p)" by blast
    then have "qfirst (\<lambda>a. act_id a = act_id y) (cp_updated p) = Some a"
      using qfirst_distinct_key[of act_id "cp_updated p" a] U a(2) yx by simp
    with y(2) a show ?thesis by (auto simp: content_def yx intro!: image_eqI[of _ _ a])
  qed (use so in blast)
qed

lemma replace_chain_stores:
  assumes "actions_ok (t_actions d)" "dense account path (t_actions d)"
    and "\<forall>m. env_gen E (next_id d + m) \<notin> set (map act_id (t_actions d))" "inj (env_gen E)"
    and r: "replace_chain E account path specs acquired d = Inr d'"
  shows "list_all2 (stored_as E (list_for_path account path (t_actions d))) specs (list_for_path account path (t_actions d'))"
proof -
  let ?L = "list_for_path account path (t_actions d)" and ?L' = "list_for_path account path (t_actions d')"
  from replace_chain_ok[OF assms] obtain p where pl: "plan_specs E account path (next_id d) ?L specs empty_plan = Inr p"
    and ids: "map act_id ?L' = map act_id (cp_ordered p)" by blast
  have pok: "plan_ok E account path (next_id d) ?L p" by (rule plan_ok_specs[OF pl plan_ok_empty])
  note rows = replace_chain_rows[OF assms(1-4) pok] and cont = replace_chain_contents[OF assms(1-4) pok]
  define t3 where "t3 = update_configs (cp_updated p) (qdelete (\<lambda>a. act_account a = account \<and>
      act_id a \<in> set (filter (\<lambda>i. i \<notin> set (cp_kept p)) (map act_id ?L))) (t_actions d)) @ cp_created p"
  have t12: "actions_ok t3" "lists_path account path (cp_ordered p) t3" using rows unfolding t3_def by blast+
  have t_3: "renumber (cp_ordered p) t3 = Inr (t_actions d')"
    unfolding t3_def using r pl rows by (auto simp: replace_chain_def res_bind_Inr_iff Let_def split: if_splits)
  have c: "\<And>x. x \<in> set t3 \<Longrightarrow> on_path account path x \<Longrightarrow> content x \<in> content ` set (cp_ordered p)"
    using cont unfolding t3_def by blast
  note t = t12 t_3
  have dist: "distinct (map act_id (cp_ordered p))" using t(2) by (simp add: lists_path_def)
  have cc: "content (?L' ! i) = content (cp_ordered p ! i)" if i: "i < length ?L'" for i
  proof -
    have len: "length ?L' = length (cp_ordered p)" using ids by (metis length_map)
    have id: "act_id (?L' ! i) = act_id (cp_ordered p ! i)" using ids i len by (metis nth_map)
    have "?L' ! i \<in> set ?L'" by (rule nth_mem[OF i])
    then have "?L' ! i \<in> set (t_actions d')" "on_path account path (?L' ! i)" unfolding set_list_for_path by blast+
    moreover have "t_actions d' = reassign (zip (map act_id (cp_ordered p)) [0..<length (cp_ordered p)]) t3"
      using renumber_ok[OF t(1,2)] t(3) by simp
    ultimately obtain y where y: "y \<in> set t3" "content (?L' ! i) = content y" "on_path account path y"
      by (auto simp: reassign_def content_reassign)
    from c[OF y(1,3)] obtain a where a: "a \<in> set (cp_ordered p)" "content (?L' ! i) = content a" using y(2) by auto
    then have "act_id a = act_id (cp_ordered p ! i)" using id by (simp add: content_def)
    then have "a = cp_ordered p ! i" using distinct_key_unique[OF dist a(1)] i len by simp
    with a(2) show ?thesis by simp
  qed
  have as: "list_all2 (stored_as E ?L) specs (cp_ordered p)" using plan_stores[OF pl] by (auto simp: empty_plan_def)
  have len: "length ?L' = length (cp_ordered p)" using ids by (metis length_map)
  show ?thesis unfolding list_all2_conv_all_nth
  proof (intro conjI allI impI)
    show "length specs = length ?L'" using list_all2_lengthD[OF as] len by simp
    fix i assume "i < length specs"
    with list_all2_nthD[OF as this] list_all2_lengthD[OF as] len show "stored_as E ?L (specs ! i) (?L' ! i)"
      using stored_as_content[OF cc[of i]] by metis
  qed
qed

lemma replace_chain_no_integrity_error:
  assumes "actions_ok (t_actions d)" "dense account path (t_actions d)"
    and "\<forall>m. env_gen E (next_id d + m) \<notin> set (map act_id (t_actions d))" "inj (env_gen E)"
    and pl: "plan_specs E account path (next_id d) (list_for_path account path (t_actions d)) specs empty_plan = Inr p"
    and hid: "\<forall>a\<in>set (list_for_path account path (t_actions d)).
      act_id a \<notin> set (cp_kept p) \<longrightarrow> act_kind a \<in> set (known_kinds E)"
  shows "\<exists>d'. replace_chain E account path specs True d = Inr d'"
proof -
  let ?L = "list_for_path account path (t_actions d)"
  have pok: "plan_ok E account path (next_id d) ?L p" by (rule plan_ok_specs[OF pl plan_ok_empty])
  note rows = replace_chain_rows[OF assms(1-4) pok]
  have h: "filter (\<lambda>a. act_id a \<in> set (filter (\<lambda>i. i \<notin> set (cp_kept p)) (map act_id ?L)) \<and>
      act_kind a \<notin> set (known_kinds E)) ?L = []"
    using hid by (auto simp: filter_empty_conv)
  obtain t4 where "renumber (cp_ordered p) (update_configs (cp_updated p)
      (qdelete (\<lambda>a. act_account a = account \<and>
         act_id a \<in> set (filter (\<lambda>i. i \<notin> set (cp_kept p)) (map act_id ?L))) (t_actions d)) @ cp_created p) = Inr t4"
    using rows renumber_ok by blast
  with pl rows h show ?thesis by (simp add: replace_chain_def Let_def)
qed

subsection \<open>Lemmas: windows of edited actions\<close>

lemma clear_digest_windows_gone:
  "i \<in> set ids \<Longrightarrow> \<not> has_window account i (clear_digest_windows account ids ws)"
  by (auto simp: clear_digest_windows_def has_window_def list_ex_iff)

text \<open>An action that leaves digest is put on the clear list.\<close>

lemma plan_clear:
  "plan_specs E account path n existing specs p = Inr p' \<Longrightarrow>
   set (cp_clear p) \<subseteq> set (cp_clear p') \<and>
   (\<forall>a\<in>set (cp_updated p') - set (cp_updated p). \<exists>merged. act_config a = env_dump E merged \<and>
      (is_digest merged \<or> act_id a \<in> set (cp_clear p')))"
proof (induction specs arbitrary: p)
  case (Cons s ss)
  then obtain q where q: "plan_spec E account path n existing s p = Inr q"
    "plan_specs E account path n existing ss q = Inr p'" by (auto simp: res_bind_Inr_iff)
  from Cons.IH[OF q(2)] have ih: "set (cp_clear q) \<subseteq> set (cp_clear p')"
    "\<forall>a\<in>set (cp_updated p') - set (cp_updated q). \<exists>merged. act_config a = env_dump E merged \<and>
      (is_digest merged \<or> act_id a \<in> set (cp_clear p'))" by auto
  have q1: "set (cp_clear p) \<subseteq> set (cp_clear q) \<and>
    (\<forall>a\<in>set (cp_updated q) - set (cp_updated p). \<exists>merged. act_config a = env_dump E merged \<and>
      (is_digest merged \<or> act_id a \<in> set (cp_clear q)))"
    using q(1) by (cases rule: plan_spec_cases) auto
  with ih show ?case by blast
qed simp

subsection \<open>Lemmas: neighbours\<close>

lemma first_row_order_by:
  fixes k :: "'r \<Rightarrow> 'k::linorder"
  assumes "first_row (order_by k t) = Some x"
  shows "x \<in> set t \<and> (\<forall>y\<in>set t. k x \<le> k y)"
proof -
  obtain ys where o: "order_by k t = x # ys"
    using assms by (auto simp: first_row_def split: list.splits)
  have "sorted (map k (x # ys))" using sorted_order_by[of k t] unfolding o .
  moreover have "set t = set (x # ys)" using set_order_by[of k t] unfolding o by simp
  ultimately show ?thesis by auto
qed

lemma first_row_None: "first_row t = None \<longleftrightarrow> t = []"
  by (cases t) (simp_all add: first_row_def)

lemma next_in_chain_Some:
  assumes "next_in_chain account a t = Some b"
  shows "b \<in> set t \<and> on_path account (act_path a) b \<and> act_rank a < act_rank b \<and>
    (\<forall>x\<in>set t. on_path account (act_path a) x \<and> act_rank a < act_rank x \<longrightarrow> act_rank b \<le> act_rank x)"
  using assms by (auto simp: next_in_chain_def adjacent_def dest!: first_row_order_by)

lemma prev_in_chain_Some:
  assumes "prev_in_chain account a t = Some b"
  shows "b \<in> set t \<and> on_path account (act_path a) b \<and> act_rank b < act_rank a \<and>
    (\<forall>x\<in>set t. on_path account (act_path a) x \<and> act_rank x < act_rank a \<longrightarrow> act_rank x \<le> act_rank b)"
  using assms by (auto simp: prev_in_chain_def adjacent_def dest!: first_row_order_by)

lemma next_in_chain_None:
  "next_in_chain account a t = None \<longleftrightarrow>
   (\<forall>x\<in>set t. on_path account (act_path a) x \<longrightarrow> act_rank x \<le> act_rank a)"
  by (auto simp: next_in_chain_def adjacent_def first_row_None filter_empty_conv)

lemma prev_in_chain_None:
  "prev_in_chain account a t = None \<longleftrightarrow>
   (\<forall>x\<in>set t. on_path account (act_path a) x \<longrightarrow> act_rank a \<le> act_rank x)"
  by (auto simp: prev_in_chain_def adjacent_def first_row_None filter_empty_conv)

subsection \<open>Properties\<close>

text \<open>Adding an action never trips the unique rank, whatever the requested position: the
  new action lands there (clamped to the chain), everyone else keeps id and order, and the
  chain stays dense.\<close>

theorem add_action_keeps_chain:
  assumes "actions_ok (t_actions d)" "dense account path (t_actions d)"
    and "env_gen E (next_id d) \<notin> set (map act_id (t_actions d))"
    and "validate_config E (ai_kind spec) (ai_config spec) = Inr c"
  shows "\<exists>d'. add_action E account path spec rank True d = Inr (d', env_gen E (next_id d)) \<and>
    actions_ok (t_actions d') \<and> dense account path (t_actions d') \<and>
    (let ids = map act_id (list_for_path account path (t_actions d)); k = insert_at rank (length ids)
     in map act_id (list_for_path account path (t_actions d')) =
          take k ids @ env_gen E (next_id d) # drop k ids)"
proof -
  let ?chain = "list_for_path account path (t_actions d)"
  let ?new = "\<lparr>act_id = env_gen E (next_id d), act_account = account, act_path = path,
    act_kind = ai_kind spec, act_config = env_dump E c, act_rank = length ?chain + 1\<rparr>"
  have "\<forall>a\<in>set (t_actions d). on_path account path a \<longrightarrow> act_rank a \<noteq> act_rank ?new"
    using dense_ranks[OF assms(2)] by fastforce
  then obtain t' where "insert_row ?new (t_actions d) = Inr (t_actions d @ [?new])"
    "renumber (take (insert_at rank (length ?chain)) ?chain @ ?new # drop (insert_at rank (length ?chain)) ?chain)
       (t_actions d @ [?new]) = Inr t'" "actions_ok t'" "dense account path t'"
    "map act_id (list_for_path account path t') = take (insert_at rank (length ?chain)) (map act_id ?chain) @
       act_id ?new # drop (insert_at rank (length ?chain)) (map act_id ?chain)"
    using insert_renumber[OF assms(1), of ?new account path "insert_at rank (length ?chain)"] assms(3)
    by (auto simp: on_path_def)
  with assms(4) show ?thesis by (simp add: add_action_def Let_def)
qed

definition sample_chain :: db where
  "sample_chain = empty_db\<lparr>next_id := 5, t_actions :=
     [sample_action ''a1'' ''p'' (log_blob INSTANT 0) 0, sample_action ''a2'' ''p'' (log_blob DIGEST 3600) 1]\<rparr>"

definition sample_input :: "string option \<Rightarrow> action_input" where
  "sample_input i = \<lparr>ai_id = i, ai_kind = KIND_LOG, ai_config = log_blob INSTANT 0\<rparr>"

theorem add_action_keeps_chain_witness:
  "\<exists>d'. add_action sample_env ''acc'' ''p'' (sample_input None) (Some 1) True sample_chain =
          Inr (d', sample_gen 5) \<and> actions_ok (t_actions d') \<and> dense ''acc'' ''p'' (t_actions d') \<and>
     map act_id (list_for_path ''acc'' ''p'' (t_actions d')) = [''a1'', sample_gen 5, ''a2'']"
proof -
  have 1: "actions_ok (t_actions sample_chain)" by code_simp
  have 2: "dense ''acc'' ''p'' (t_actions sample_chain)" by code_simp
  have 3: "env_gen sample_env (next_id sample_chain) \<notin> set (map act_id (t_actions sample_chain))" by code_simp
  have 4: "validate_config sample_env (ai_kind (sample_input None)) (ai_config (sample_input None)) =
      Inr (LogConfig \<lparr>lg_delivery = INSTANT, lg_interval = 0, lg_prefix = ''p'', lg_include = []\<rparr>)" by code_simp
  have 5: "map act_id (list_for_path ''acc'' ''p'' (t_actions sample_chain)) = [''a1'', ''a2'']" by code_simp
  have 6: "next_id sample_chain = 5" by (simp add: sample_chain_def)
  show ?thesis
    using add_action_keeps_chain[OF 1 2 3 4, of "Some 1"] unfolding 5 6 by (simp add: insert_at_def)
qed

text \<open>Removing an action always succeeds under the lock, closes the gap it leaves (the
  other actions keep id and order, ranks are dense again) and drops its digest window.\<close>

theorem remove_action_closes_gap:
  assumes "actions_ok (t_actions d)" "a \<in> set (t_actions d)" "act_account a = account"
  shows "\<exists>d'. remove_action account a True d = Inr d' \<and> actions_ok (t_actions d') \<and>
    dense account (act_path a) (t_actions d') \<and>
    map act_id (list_for_path account (act_path a) (t_actions d')) =
      remove1 (act_id a) (map act_id (list_for_path account (act_path a) (t_actions d))) \<and>
    \<not> has_window account (act_id a) (t_windows d')"
proof -
  let ?t = "qdelete (\<lambda>x. act_id x = act_id a) (t_actions d)"
  let ?L = "list_for_path account (act_path a) (t_actions d)"
  have ok: "actions_ok ?t" using assms(1) by (simp add: actions_ok_def qdelete_def distinct_map_filter)
  note l = lists_path_self[OF ok, of account "act_path a"]
  obtain t' where t': "renumber (list_for_path account (act_path a) ?t) ?t = Inr t'" "actions_ok t'"
    using renumber_ok[OF ok l] by blast
  have "list_for_path account (act_path a) ?t = filter (\<lambda>x. act_id x \<noteq> act_id a) ?L"
    by (simp add: list_for_path_def order_by_def qdelete_def filter_sort conj_commute)
  then have "map act_id (list_for_path account (act_path a) ?t) = filter (\<lambda>i. i \<noteq> act_id a) (map act_id ?L)"
    by (simp add: filter_map o_def)
  also have "\<dots> = remove1 (act_id a) (map act_id ?L)"
    using distinct_list_for_path[OF assms(1)]
    by (auto simp: distinct_remove1_removeAll removeAll_filter_not_eq intro: filter_cong)
  finally show ?thesis
    using t' assms(3) renumber_list[OF ok l t'(1)] dense_renumber[OF ok l t'(1)]
    by (simp add: remove_action_def Let_def clear_digest_windows_gone)
qed

theorem remove_action_closes_gap_witness:
  "\<exists>d'. remove_action ''acc'' (sample_action ''a1'' ''p'' (log_blob INSTANT 0) 0) True sample_chain = Inr d' \<and>
     dense ''acc'' ''p'' (t_actions d') \<and>
     map act_id (list_for_path ''acc'' ''p'' (t_actions d')) = [''a2'']"
proof -
  let ?a = "sample_action ''a1'' ''p'' (log_blob INSTANT 0) 0"
  have 1: "actions_ok (t_actions sample_chain)" by code_simp
  have 2: "?a \<in> set (t_actions sample_chain)" by (simp add: sample_chain_def)
  have 3: "act_account ?a = ''acc''" by (simp add: sample_action_def)
  have 4: "remove1 (act_id ?a) (map act_id (list_for_path ''acc'' (act_path ?a) (t_actions sample_chain))) =
      [''a2'']" by code_simp
  have 5: "act_path ?a = ''p''" by (simp add: sample_action_def)
  obtain d' where r: "remove_action ''acc'' ?a True sample_chain = Inr d'"
      "dense ''acc'' (act_path ?a) (t_actions d')"
      "map act_id (list_for_path ''acc'' (act_path ?a) (t_actions d')) =
         remove1 (act_id ?a) (map act_id (list_for_path ''acc'' (act_path ?a) (t_actions sample_chain)))"
    using remove_action_closes_gap[OF 1 2 3] by (elim exE conjE)
  show ?thesis
    by (intro exI[of _ d'] conjI r(1) r(2)[unfolded 5] trans[OF r(3)[unfolded 5] 4[unfolded 5]])
qed

text \<open>C11: a whole-chain replace stores exactly the submitted chain. Position i holds the action
  submitted there: the same id when one was given, so its run history stays attached, a new id
  otherwise; its kind; and its config, merged with the stored one of the row it names when that row is
  of the same kind. Ranks are dense, no run row is touched.\<close>

theorem replace_chain_stores_submitted:
  assumes "actions_ok (t_actions d)" "dense account path (t_actions d)"
    and "\<forall>m. env_gen E (next_id d + m) \<notin> set (map act_id (t_actions d))" "inj (env_gen E)"
    and "replace_chain E account path specs acquired d = Inr d'"
  shows "actions_ok (t_actions d') \<and> dense account path (t_actions d') \<and> t_runs d' = t_runs d \<and>
    (let old = list_for_path account path (t_actions d); stored = list_for_path account path (t_actions d')
     in length stored = length specs \<and>
        (\<forall>i<length specs.
           (if submitted_id (specs ! i) \<noteq> '''' then act_id (stored ! i) = submitted_id (specs ! i)
            else act_id (stored ! i) \<in> range (\<lambda>m. env_gen E (next_id d + m))) \<and>
           act_kind (stored ! i) = ai_kind (specs ! i) \<and>
           (\<exists>prior merged. prior_config E old (specs ! i) = Inr prior \<and>
              merge_config E (ai_kind (specs ! i)) (ai_config (specs ! i)) prior = Inr merged \<and>
              act_config (stored ! i) = env_dump E merged)))"
proof -
  let ?L' = "list_for_path account path (t_actions d')"
  obtain p where p: "plan_specs E account path (next_id d) (list_for_path account path (t_actions d)) specs empty_plan = Inr p"
    "actions_ok (t_actions d') \<and> dense account path (t_actions d') \<and>
     map act_id ?L' = map act_id (cp_ordered p) \<and>
     t_runs d' = t_runs d"
    using replace_chain_ok[OF assms] by blast
  have "map act_id (cp_ordered empty_plan) = []" by (simp add: empty_plan_def)
  with p plan_ids[OF p(1)] have ids: "length (map act_id ?L') = length specs"
    "\<forall>i<length specs. if submitted_id (specs ! i) \<noteq> '''' then map act_id ?L' ! i = submitted_id (specs ! i)
           else map act_id ?L' ! i \<in> range (\<lambda>m. env_gen E (next_id d + m))" by auto
  have len: "length ?L' = length specs" using ids(1) by (simp only: length_map)
  have st: "stored_as E (list_for_path account path (t_actions d)) (specs ! i) (?L' ! i)" if "i < length specs" for i
    using replace_chain_stores[OF assms] that by (simp add: list_all2_conv_all_nth)
  have id: "if submitted_id (specs ! i) \<noteq> '''' then act_id (?L' ! i) = submitted_id (specs ! i)
      else act_id (?L' ! i) \<in> range (\<lambda>m. env_gen E (next_id d + m))" if "i < length specs" for i
    using ids(2) that len nth_map[of i ?L' act_id] by metis
  show ?thesis
    unfolding Let_def using p(2) len id st[unfolded stored_as_def] by (intro conjI allI impI) blast+
qed

theorem replace_chain_stores_submitted_witness:
  "\<exists>d'. replace_chain sample_env ''acc'' ''p'' [sample_input (Some ''a2''), sample_input None] True sample_chain = Inr d' \<and>
     dense ''acc'' ''p'' (t_actions d') \<and> length (list_for_path ''acc'' ''p'' (t_actions d')) = 2 \<and>
     act_id (list_for_path ''acc'' ''p'' (t_actions d') ! 0) = ''a2'' \<and>
     act_kind (list_for_path ''acc'' ''p'' (t_actions d') ! 0) = ai_kind (sample_input (Some ''a2''))"
proof -
  let ?specs = "[sample_input (Some ''a2''), sample_input None]"
  have 1: "actions_ok (t_actions sample_chain)" by code_simp
  have 2: "dense ''acc'' ''p'' (t_actions sample_chain)" by code_simp
  have ids: "set (map act_id (t_actions sample_chain)) = {''a1'', ''a2''}"
    by (simp add: sample_chain_def sample_action_def)
  have 3: "\<forall>m. env_gen sample_env (next_id sample_chain + m) \<notin> set (map act_id (t_actions sample_chain))"
    unfolding ids by (simp add: sample_gen_def)
  have 4: "inj (env_gen sample_env)" by (simp add: inj_sample_gen)
  have "case replace_chain sample_env ''acc'' ''p'' ?specs True sample_chain of Inl _ \<Rightarrow> False | Inr _ \<Rightarrow> True"
    by code_simp
  then obtain d' where 5: "replace_chain sample_env ''acc'' ''p'' ?specs True sample_chain = Inr d'"
    by (auto split: sum.splits)
  have s: "submitted_id (sample_input (Some ''a2'')) = ''a2''" by code_simp
  note r = replace_chain_stores_submitted[OF 1 2 3 4 5, unfolded Let_def]
  let ?L' = "list_for_path ''acc'' ''p'' (t_actions d')"
  have len: "length ?L' = length ?specs" using r by (elim conjE)
  note at = r[THEN conjunct2, THEN conjunct2, THEN conjunct2, THEN conjunct2, rule_format, of 0]
  then have "act_id (?L' ! 0) = ''a2''" "act_kind (?L' ! 0) = ai_kind (sample_input (Some ''a2''))" by (simp_all add: s)
  moreover have "dense ''acc'' ''p'' (t_actions d')" using r by (elim conjE)
  ultimately show ?thesis using 5 len by (intro exI[of _ d']) simp
qed

text \<open>An in-place edit stores the merged config on the row and leaves ids and ranks alone;
  an edit that leaves digest takes the window row with it (a lingering one would hide the
  action's runs from the drain).\<close>

theorem set_config_sheds_window:
  assumes "a \<in> set (t_actions d)" "act_account a = account" "edited_config E a spec = Inr merged"
  shows "\<exists>d' a'. set_config E account a spec False d = Inr (d', a') \<and>
    (\<forall>x\<in>set (t_actions d'). act_id x = act_id a \<longrightarrow>
       act_kind x = ai_kind spec \<and> act_config x = env_dump E merged) \<and>
    map act_id (t_actions d') = map act_id (t_actions d) \<and>
    map rank_key (t_actions d') = map rank_key (t_actions d) \<and>
    (\<not> is_digest merged \<longrightarrow> \<not> has_window account (act_id a) (t_windows d')) \<and>
    (is_digest merged \<longrightarrow> t_windows d' = t_windows d)"
proof -
  let ?f = "\<lambda>x. x\<lparr>act_kind := ai_kind spec, act_config := env_dump E merged\<rparr>"
  let ?t = "qupdate (\<lambda>x. act_id x = act_id a) ?f (t_actions d)"
  have n: "qcount (\<lambda>x. act_id x = act_id a) (t_actions d) \<noteq> 0" using assms(1) by (auto simp: qcount_0_iff)
  have "set_config E account a spec False d = Inr (d\<lparr>t_actions := ?t,
      t_windows := (if is_digest merged then t_windows d
                    else clear_digest_windows account [act_id a] (t_windows d))\<rparr>, ?f a)"
    using assms(2,3) n by (simp add: set_config_def)
  moreover have "map act_id ?t = map act_id (t_actions d)" by (rule map_qupdate) simp
  moreover have "map rank_key ?t = map rank_key (t_actions d)" by (rule map_qupdate) (simp add: rank_key_def)
  ultimately show ?thesis by (auto simp: set_qupdate clear_digest_windows_gone)
qed

theorem set_config_sheds_window_witness:
  "\<exists>d' a'. set_config sample_env ''acc'' (sample_action ''a2'' ''p'' (log_blob DIGEST 3600) 1)
       (sample_input None) False sample_chain = Inr (d', a') \<and>
     \<not> has_window ''acc'' (act_id (sample_action ''a2'' ''p'' (log_blob DIGEST 3600) 1)) (t_windows d')"
proof -
  let ?a = "sample_action ''a2'' ''p'' (log_blob DIGEST 3600) 1"
  let ?c = "LogConfig \<lparr>lg_delivery = INSTANT, lg_interval = 0, lg_prefix = ''p'', lg_include = []\<rparr>"
  have 1: "?a \<in> set (t_actions sample_chain)" by (simp add: sample_chain_def)
  have 2: "act_account ?a = ''acc''" by (simp add: sample_action_def)
  have 3: "edited_config sample_env ?a (sample_input None) = Inr ?c" by code_simp
  have 5: "\<not> is_digest ?c" by code_simp
  show ?thesis using set_config_sheds_window[OF 1 2 3] 5 by (elim exE conjE) blast
qed

end
