(* ===== verification/Feed_Items.thy ===== *)
theory Feed_Items
  imports Tables
begin

text \<open>
  The items log of a feed (\<open>feeds/services/feeds/_items.py\<close> and the backfill selection
  \<open>_backfill_select.py\<close>): recording a poll's payloads, retention, the window reads the
  trigger makes, and the keyset pagers. Lemmas: a pager yields exactly the ids of its window,
  ascending, whatever the page size; recording is idempotent on the item key.
\<close>

subsection \<open>Keyset pagers\<close>

text \<open>\<open>_iter_ids_keyset\<close>: \<open>id > cursor\<close>, ordered, one page at a time, until an empty page.\<close>

function keyset_pages :: "nat \<Rightarrow> ulid list \<Rightarrow> ulid \<Rightarrow> ulid list" where
  "keyset_pages page_size ids cursor =
     (let page = take page_size (sort (filter (\<lambda>i. cursor < i) ids))
      in if page = [] then [] else page @ keyset_pages page_size ids (last page))"
  by pat_completeness auto

lemma last_page_above:
  assumes "take n (sort (filter (\<lambda>i. cursor < i) ids)) = page" "page \<noteq> []"
  shows "cursor < last page \<and> last page \<in> set ids"
proof -
  have "last page \<in> set (sort (filter (\<lambda>i. cursor < i) ids))"
    using assms by (metis in_set_takeD last_in_set)
  then show ?thesis by simp
qed

lemma keyset_shrinks:
  assumes "take n (sort (filter (\<lambda>i. (cursor :: ulid) < i) ids)) = page" "page \<noteq> []"
  shows "length (filter (\<lambda>i. last page < i) ids) < length (filter (\<lambda>i. cursor < i) ids)"
proof -
  from last_page_above[OF assms] have l: "cursor < last page" "last page \<in> set ids" by auto
  have "filter (\<lambda>i. last page < i) ids = filter (\<lambda>i. last page < i) (filter (\<lambda>i. cursor < i) ids)"
    using l(1) by (auto intro: filter_cong)
  moreover have "last page \<in> set (filter (\<lambda>i. cursor < i) ids)" using l by simp
  then have "length (filter (\<lambda>i. last page < i) (filter (\<lambda>i. cursor < i) ids))
      < length (filter (\<lambda>i. cursor < i) ids)"
    by (rule length_filter_less) simp
  ultimately show ?thesis by simp
qed

termination keyset_pages
  by (relation "measure (\<lambda>(n, ids, cursor). length (filter (\<lambda>i. cursor < i) ids))")
     (auto simp: keyset_shrinks)

declare keyset_pages.simps [simp del]

text \<open>\<open>iter_item_ids_in_window\<close>: the same walk, stopping at the first short page.\<close>

function window_pages :: "nat \<Rightarrow> ulid list \<Rightarrow> ulid \<Rightarrow> ulid list" where
  "window_pages chunk_size ids last_seen =
     (let chunk = take chunk_size (sort (filter (\<lambda>i. last_seen < i) ids))
      in if chunk = [] then []
         else if length chunk < chunk_size then chunk
         else chunk @ window_pages chunk_size ids (last chunk))"
  by pat_completeness auto

termination window_pages
  by (relation "measure (\<lambda>(n, ids, cursor). length (filter (\<lambda>i. cursor < i) ids))")
     (auto simp: keyset_shrinks)

declare window_pages.simps [simp del]

lemma sorted_above_last:
  fixes xs :: "ulid list"
  assumes "sorted xs" "distinct xs" "take n xs \<noteq> []"
  shows "filter (\<lambda>i. last (take n xs) < i) xs = drop n xs"
proof -
  let ?l = "last (take n xs)"
  have "\<forall>x\<in>set (take n xs). x \<le> ?l"
  proof
    fix x assume x: "x \<in> set (take n xs)"
    have s: "sorted (take n xs)" using assms(1) by (rule sorted_wrt_take)
    from x obtain k where k: "k < length (take n xs)" "take n xs ! k = x" by (auto simp: in_set_conv_nth)
    have "take n xs ! k \<le> take n xs ! (length (take n xs) - 1)"
      using s k(1) by (intro sorted_nth_mono) auto
    with k(2) assms(3) show "x \<le> ?l" by (simp add: last_conv_nth)
  qed
  then have a: "filter (\<lambda>i. ?l < i) (take n xs) = []" by (auto simp: filter_empty_conv)
  have "\<forall>y\<in>set (drop n xs). ?l < y"
  proof
    fix y assume y: "y \<in> set (drop n xs)"
    have "?l \<in> set (take n xs)" using assms(3) by (rule last_in_set)
    moreover from this y have "?l \<le> y" using assms(1) sorted_take_le_drop by blast
    moreover have "?l \<noteq> y" using assms(2) y calculation(1) by (metis disjoint_iff set_take_disj_set_drop_if_distinct order_refl)
    ultimately show "?l < y" by simp
  qed
  then have b: "filter (\<lambda>i. ?l < i) (drop n xs) = drop n xs" by (simp add: filter_id_conv)
  have "filter (\<lambda>i. ?l < i) xs = filter (\<lambda>i. ?l < i) (take n xs @ drop n xs)" by simp
  also have "\<dots> = drop n xs" unfolding filter_append a b by simp
  finally show ?thesis .
qed

lemma next_page:
  fixes ids :: "ulid list"
  assumes d: "distinct ids" and p: "page = take n (sort (filter (\<lambda>i. cursor < i) ids))" "page \<noteq> []"
  shows "sort (filter (\<lambda>i. last page < i) ids) = drop n (sort (filter (\<lambda>i. cursor < i) ids))"
proof -
  let ?s = "sort (filter (\<lambda>i. cursor < i) ids)"
  have c: "cursor < last page" using last_page_above[OF p(1)[symmetric] p(2)] by simp
  have "sort (filter (\<lambda>i. last page < i) ids) = filter (\<lambda>i. last page < i) (sort ids)"
    by (simp add: filter_sort)
  also have "\<dots> = filter (\<lambda>i. last page < i) (filter (\<lambda>i. cursor < i) (sort ids))"
    using c by (auto intro: filter_cong)
  also have "\<dots> = filter (\<lambda>i. last page < i) ?s" by (simp add: filter_sort)
  also have "\<dots> = drop n ?s"
    unfolding p(1) by (rule sorted_above_last) (use d p in auto)
  finally show ?thesis .
qed

lemma keyset_pages_eq:
  assumes "distinct ids" "0 < n"
  shows "keyset_pages n ids cursor = sort (filter (\<lambda>i. cursor < i) ids)"
  using assms
proof (induction n ids cursor rule: keyset_pages.induct)
  case (1 n ids cursor)
  let ?s = "sort (filter (\<lambda>i. cursor < i) ids)"
  show ?case
  proof (cases "take n ?s = []")
    case True
    with "1.prems"(2) have "?s = []" by simp
    then show ?thesis by (subst keyset_pages.simps) simp
  next
    case False
    have "keyset_pages n ids (last (take n ?s)) = drop n ?s"
      using "1.IH"[OF refl False "1.prems"] next_page[OF "1.prems"(1) refl False] by simp
    with False show ?thesis by (subst keyset_pages.simps) (simp add: Let_def)
  qed
qed

lemma window_pages_eq:
  assumes "distinct ids" "0 < n"
  shows "window_pages n ids cursor = sort (filter (\<lambda>i. cursor < i) ids)"
  using assms
proof (induction n ids cursor rule: window_pages.induct)
  case (1 n ids cursor)
  let ?s = "sort (filter (\<lambda>i. cursor < i) ids)"
  show ?case
  proof (cases "take n ?s = []")
    case True
    with "1.prems"(2) have "?s = []" by simp
    then show ?thesis by (subst window_pages.simps) simp
  next
    case False
    show ?thesis
    proof (cases "length (take n ?s) < n")
      case True
      then have "length ?s < n" by (simp only: length_take min_def split: if_splits)
      then have "take n ?s = ?s" by simp
      with False True show ?thesis by (subst window_pages.simps) (simp only: Let_def if_True if_False)
    next
      case full: False
      have "window_pages n ids (last (take n ?s)) = drop n ?s"
        using "1.IH"[OF refl False full "1.prems"] next_page[OF "1.prems"(1) refl False] by simp
      with False full show ?thesis
        by (subst window_pages.simps) (simp only: Let_def if_False append_take_drop_id)
    qed
  qed
qed

subsection \<open>Recording a poll\<close>

record source_payload =
  sp_source :: string
  sp_external :: string
  sp_occurred :: datetime
  sp_dump :: json

definition item_key :: "item \<Rightarrow> ulid \<times> string \<times> string" where
  "item_key i = (item_feed i, item_source_kind i, item_external i)"

definition payload_key :: "source_payload \<Rightarrow> string \<times> string" where
  "payload_key p = (sp_source p, sp_external p)"

text \<open>\<open>bulk_create(ignore_conflicts=True)\<close> on the unique (feed, source kind, external id).\<close>

fun insert_items_ignore :: "item list \<Rightarrow> item list \<Rightarrow> item list" where
  "insert_items_ignore [] t = t"
| "insert_items_ignore (r # rs) t =
     insert_items_ignore rs (if item_key r \<in> item_key ` set t then t else t @ [r])"

definition new_item :: "ulid \<Rightarrow> ulid \<Rightarrow> string \<Rightarrow> json \<Rightarrow> ulid \<Rightarrow> source_payload \<Rightarrow> item" where
  "new_item account feed label meta i p =
     \<lparr>item_id = i, item_account = account, item_feed = feed, item_source_kind = sp_source p,
      item_external = sp_external p, item_label = label, item_meta = meta,
      item_occurred = Some (sp_occurred p), item_data = sp_dump p\<rparr>"

definition existing_keys :: "ulid \<Rightarrow> ulid \<Rightarrow> source_payload list \<Rightarrow> db \<Rightarrow> (string \<times> string) set" where
  "existing_keys account feed chunk d =
     (\<lambda>i. (item_source_kind i, item_external i)) ` set (filter (\<lambda>i. item_account i = account \<and>
        item_feed i = feed \<and> item_external i \<in> set (map sp_external chunk)) (t_items d))"

definition record_chunk ::
  "(nat \<Rightarrow> ulid) \<Rightarrow> ulid \<Rightarrow> ulid \<Rightarrow> string \<Rightarrow> json \<Rightarrow> source_payload list \<Rightarrow> db \<Rightarrow> db \<times> nat" where
  "record_chunk gen account feed label meta chunk d =
     (let fresh = filter (\<lambda>p. payload_key p \<notin> existing_keys account feed chunk d) chunk;
          rows = map (\<lambda>(i, p). new_item account feed label meta i p) (zip (fresh_ids gen d (length fresh)) fresh)
      in if rows = [] then (d, 0)
         else (d\<lparr>t_items := insert_items_ignore rows (t_items d), next_id := next_id d + length rows\<rparr>, length rows))"

fun record_chunks ::
  "(nat \<Rightarrow> ulid) \<Rightarrow> ulid \<Rightarrow> ulid \<Rightarrow> string \<Rightarrow> json \<Rightarrow> source_payload list list \<Rightarrow> db \<Rightarrow> nat \<Rightarrow> db \<times> nat" where
  "record_chunks gen account feed label meta [] d created = (d, created)"
| "record_chunks gen account feed label meta (c # cs) d created =
     (case record_chunk gen account feed label meta c d of
        (d', n) \<Rightarrow> record_chunks gen account feed label meta cs d' (created + n))"

definition RECORD_CHUNK :: nat where "RECORD_CHUNK = 200"

text \<open>\<open>record_items\<close>: a full chunk is flushed as soon as it is complete, the rest at the end,
  which is \<open>batched\<close>.\<close>

definition record_items ::
  "(nat \<Rightarrow> ulid) \<Rightarrow> ulid \<Rightarrow> feed \<Rightarrow> string \<Rightarrow> json \<Rightarrow> source_payload list \<Rightarrow> db \<Rightarrow> (db \<times> nat) result" where
  "record_items gen account f label meta payloads d =
     (if feed_account f \<noteq> account then Inl ValueError
      else Inr (record_chunks gen account (feed_id f) label meta (batched RECORD_CHUNK payloads) d 0))"

text \<open>\<open>prune_items\<close>: the cutoff ULID is the encoded millisecond count (the ULID library's
  \<open>encode_time\<close>, \<open>enc\<close>) padded with zeros.\<close>

definition min_ulid_at :: "(int \<Rightarrow> string) \<Rightarrow> datetime \<Rightarrow> ulid" where
  "min_ulid_at enc t = enc (t div 1000) @ replicate 16 (CHR ''0'')"

definition prune_items ::
  "(int \<Rightarrow> string) \<Rightarrow> ulid \<Rightarrow> feed \<Rightarrow> int \<Rightarrow> datetime \<Rightarrow> db \<Rightarrow> (db \<times> nat) result" where
  "prune_items enc account f retention_days now d =
     (if feed_account f \<noteq> account then Inl ValueError
      else
        let cutoff = min_ulid_at enc (now - days retention_days);
            P = (\<lambda>i. item_account i = account \<and> item_feed i = feed_id f \<and> item_id i < cutoff)
        in Inr (d\<lparr>t_items := qdelete P (t_items d)\<rparr>, qcount P (t_items d)))"

subsection \<open>Window reads\<close>

definition feed_item_ids :: "ulid \<Rightarrow> ulid \<Rightarrow> db \<Rightarrow> ulid list" where
  "feed_item_ids account feed d =
     map item_id (filter (\<lambda>i. item_account i = account \<and> item_feed i = feed) (t_items d))"

definition newest_item_id :: "ulid \<Rightarrow> feed \<Rightarrow> db \<Rightarrow> ulid option result" where
  "newest_item_id account f d =
     (if feed_account f \<noteq> account then Inl ValueError
      else Inr (case rev (sort (feed_item_ids account (feed_id f) d)) of [] \<Rightarrow> None | i # _ \<Rightarrow> Some i))"

definition count_items_in_window :: "ulid \<Rightarrow> feed \<Rightarrow> ulid \<Rightarrow> ulid \<Rightarrow> db \<Rightarrow> nat result" where
  "count_items_in_window account f after_id through_id d =
     (if feed_account f \<noteq> account then Inl ValueError
      else Inr (qcount (\<lambda>i. after_id < i \<and> i \<le> through_id) (feed_item_ids account (feed_id f) d)))"

definition ITEM_CHUNK :: nat where "ITEM_CHUNK = 500"

definition iter_item_ids_in_window :: "ulid \<Rightarrow> feed \<Rightarrow> ulid \<Rightarrow> ulid \<Rightarrow> db \<Rightarrow> ulid list result" where
  "iter_item_ids_in_window account f after_id through_id d =
     (if feed_account f \<noteq> account then Inl ValueError
      else Inr (window_pages ITEM_CHUNK
             (filter (\<lambda>i. i \<le> through_id) (feed_item_ids account (feed_id f) d)) after_id))"

definition get_many :: "ulid \<Rightarrow> ulid list \<Rightarrow> db \<Rightarrow> (ulid \<times> item) list" where
  "get_many account ids d =
     concat (map (\<lambda>chunk. map (\<lambda>i. (item_id i, i))
       (filter (\<lambda>i. item_account i = account \<and> item_id i \<in> set chunk) (t_items d))) (batched ID_IN_CHUNK ids))"

definition list_for_feed :: "ulid \<Rightarrow> feed \<Rightarrow> ulid option \<Rightarrow> nat \<Rightarrow> db \<Rightarrow> item list result" where
  "list_for_feed account f after limit d =
     (if feed_account f \<noteq> account then Inl ValueError
      else Inr (take limit (rev (order_by item_id (filter (\<lambda>i. item_account i = account \<and>
             item_feed i = feed_id f \<and>
             (case after of None \<Rightarrow> True | Some a \<Rightarrow> a = '''' \<or> item_id i < a)) (t_items d))))))"

subsection \<open>Backfill selection\<close>

definition PAGE_SIZE :: nat where "PAGE_SIZE = 500"

definition iter_ids_keyset :: "ulid list \<Rightarrow> ulid list" where
  "iter_ids_keyset ids = keyset_pages PAGE_SIZE ids ''''"

definition existing_feed_item_ids :: "ulid \<Rightarrow> ulid set \<Rightarrow> db \<Rightarrow> ulid list" where
  "existing_feed_item_ids account candidates d =
     map item_id (filter (\<lambda>i. item_account i = account \<and> item_id i \<in> candidates) (t_items d))"

definition feed_items_in_occurred_window ::
  "ulid \<Rightarrow> ulid list \<Rightarrow> datetime option \<Rightarrow> datetime option \<Rightarrow> db \<Rightarrow> ulid list result" where
  "feed_items_in_occurred_window account feed_ids since until d =
     (if since = None \<and> until = None then Inl ValueError
      else Inr (map item_id (filter (\<lambda>i. item_account i = account \<and> item_feed i \<in> set feed_ids \<and>
             in_window since until (item_occurred i)) (t_items d))))"

subsection \<open>Lemmas: windows\<close>

definition items_ok :: "item list \<Rightarrow> bool" where
  "items_ok t \<longleftrightarrow> distinct (map item_id t) \<and> distinct (map item_key t) \<and> list_all (\<lambda>i. item_id i \<noteq> '''') t"

lemma items_ok_ids: "items_ok t \<Longrightarrow> distinct (map item_id (filter P t))"
  by (simp add: items_ok_def distinct_map_filter)

lemma distinct_feed_item_ids: "items_ok (t_items d) \<Longrightarrow> distinct (feed_item_ids account feed d)"
  by (simp add: feed_item_ids_def items_ok_ids)

lemma newest_item_id_Some:
  assumes "newest_item_id account f d = Inr (Some i)"
  shows "i \<in> set (feed_item_ids account (feed_id f) d) \<and> (\<forall>j\<in>set (feed_item_ids account (feed_id f) d). j \<le> i)"
proof -
  let ?l = "feed_item_ids account (feed_id f) d"
  from assms obtain rest where r: "rev (sort ?l) = i # rest"
    by (auto simp: newest_item_id_def split: if_splits list.splits)
  then have s: "sort ?l = rev rest @ [i]" by (metis rev.simps(2) rev_rev_ident)
  have "sorted (rev rest @ [i])" using s by (metis sorted_sort)
  moreover have "set ?l = set (rev rest @ [i])" using s by (metis set_sort)
  ultimately show ?thesis by (auto simp: sorted_append)
qed

lemma newest_item_id_None:
  "newest_item_id account f d = Inr None \<Longrightarrow> feed_item_ids account (feed_id f) d = []"
  by (auto simp: newest_item_id_def split: if_splits list.splits dest: arg_cong[of _ _ set])

lemma iter_item_ids_set:
  assumes "items_ok (t_items d)" "iter_item_ids_in_window account f a b d = Inr ids"
  shows "distinct ids \<and> sorted ids \<and>
    set ids = {i \<in> set (feed_item_ids account (feed_id f) d). a < i \<and> i \<le> b}"
proof -
  let ?l = "filter (\<lambda>i. i \<le> b) (feed_item_ids account (feed_id f) d)"
  have d: "distinct ?l" using distinct_feed_item_ids[OF assms(1)] by simp
  have "ids = window_pages ITEM_CHUNK ?l a"
    using assms(2) by (auto simp: iter_item_ids_in_window_def split: if_splits)
  also have "\<dots> = sort (filter (\<lambda>i. a < i) ?l)"
    by (rule window_pages_eq[OF d]) (simp add: ITEM_CHUNK_def)
  finally have i: "ids = sort (filter (\<lambda>i. a < i) ?l)" .
  have "distinct ids" unfolding i distinct_sort by (rule distinct_filter[OF d])
  moreover have "sorted ids" unfolding i by (rule sorted_sort)
  moreover have "set ids = {i \<in> set (feed_item_ids account (feed_id f) d). a < i \<and> i \<le> b}"
    unfolding i set_sort by auto
  ultimately show ?thesis by simp
qed

lemma iter_ids_keyset_set:
  assumes "distinct ids" "'''' \<notin> set ids"
  shows "iter_ids_keyset ids = sort ids"
proof -
  have "filter (\<lambda>i. '''' < i) ids = ids"
    unfolding filter_id_conv
  proof
    fix x assume "x \<in> set ids"
    with assms(2) have "x \<noteq> ''''" by blast
    then show "'''' < x" by (cases x) simp_all
  qed
  with keyset_pages_eq[OF assms(1), of PAGE_SIZE "''''"] show ?thesis
    by (simp add: iter_ids_keyset_def PAGE_SIZE_def)
qed

subsection \<open>Lemmas: recording\<close>

lemma insert_items_ignore_spec:
  "\<exists>new. insert_items_ignore rs t = t @ new \<and> set new \<subseteq> set rs \<and> length new \<le> length rs \<and>
     item_key ` set (t @ new) = item_key ` set t \<union> item_key ` set rs \<and>
     (distinct (map item_key t) \<longrightarrow> distinct (map item_key (t @ new))) \<and>
     (distinct (map item_key rs) \<and> item_key ` set rs \<inter> item_key ` set t = {} \<longrightarrow> new = rs)"
proof (induction rs arbitrary: t)
  case (Cons r rs)
  show ?case
  proof (cases "item_key r \<in> item_key ` set t")
    case True
    from Cons.IH[of t] obtain new where "insert_items_ignore rs t = t @ new" "set new \<subseteq> set rs" "length new \<le> length rs"
      "item_key ` set (t @ new) = item_key ` set t \<union> item_key ` set rs"
      "distinct (map item_key t) \<longrightarrow> distinct (map item_key (t @ new))" by blast
    with True show ?thesis by (intro exI[of _ new]) (simp, blast)
  next
    case False
    from Cons.IH[of "t @ [r]"] obtain new where n: "insert_items_ignore rs (t @ [r]) = (t @ [r]) @ new" "set new \<subseteq> set rs"
      "length new \<le> length rs" "item_key ` set ((t @ [r]) @ new) = item_key ` set (t @ [r]) \<union> item_key ` set rs"
      "distinct (map item_key (t @ [r])) \<longrightarrow> distinct (map item_key ((t @ [r]) @ new))"
      "distinct (map item_key rs) \<and> item_key ` set rs \<inter> item_key ` set (t @ [r]) = {} \<longrightarrow> new = rs" by blast
    show ?thesis
    proof (intro exI[of _ "r # new"] conjI impI)
      show "insert_items_ignore (r # rs) t = t @ r # new" using False n(1) by simp
      show "item_key ` set (t @ r # new) = item_key ` set t \<union> item_key ` set (r # rs)" using n(4) by simp
      show "distinct (map item_key (t @ r # new))" if "distinct (map item_key t)"
      proof -
        have "distinct (map item_key (t @ [r]))" using False that by simp
        with n(5) show ?thesis by simp
      qed
      show "r # new = r # rs" if "distinct (map item_key (r # rs)) \<and> item_key ` set (r # rs) \<inter> item_key ` set t = {}"
        using n(6) that by auto
    qed (use n(2,3) in auto)
  qed
qed simp

text \<open>The keys a poll brings to a feed, and the feed's rows all carrying its account.\<close>

definition poll_keys :: "feed \<Rightarrow> source_payload list \<Rightarrow> (ulid \<times> string \<times> string) set" where
  "poll_keys f ps = (\<lambda>p. (feed_id f, payload_key p)) ` set ps"

definition feed_owned :: "ulid \<Rightarrow> ulid \<Rightarrow> item list \<Rightarrow> bool" where
  "feed_owned account feed t \<longleftrightarrow> list_all (\<lambda>i. item_feed i = feed \<longrightarrow> item_account i = account) t"

definition from_poll :: "ulid \<Rightarrow> ulid \<Rightarrow> string \<Rightarrow> json \<Rightarrow> source_payload list \<Rightarrow> item \<Rightarrow> bool" where
  "from_poll account feed label meta ps r \<longleftrightarrow> (\<exists>i. \<exists>p\<in>set ps. r = new_item account feed label meta i p)"

lemma existing_keys_iff:
  assumes "feed_owned account feed (t_items d)" "p \<in> set chunk"
  shows "payload_key p \<in> existing_keys account feed chunk d \<longleftrightarrow> (feed, payload_key p) \<in> item_key ` set (t_items d)"
proof
  assume "payload_key p \<in> existing_keys account feed chunk d"
  then show "(feed, payload_key p) \<in> item_key ` set (t_items d)"
    by (auto simp: existing_keys_def item_key_def image_iff)
next
  assume "(feed, payload_key p) \<in> item_key ` set (t_items d)"
  then obtain i where i: "i \<in> set (t_items d)" "item_feed i = feed" "payload_key p = (item_source_kind i, item_external i)"
    by (auto simp: item_key_def)
  with assms have "item_account i = account" by (simp add: feed_owned_def list_all_iff)
  moreover have "item_external i \<in> set (map sp_external chunk)" using i(3) assms(2) by (auto simp: payload_key_def intro: rev_image_eqI)
  ultimately show "payload_key p \<in> existing_keys account feed chunk d"
    unfolding existing_keys_def i(3) using i(1,2) by (intro imageI) simp
qed

lemma new_item_key [simp]: "item_key (new_item account feed label meta i p) = (feed, payload_key p)"
  by (simp add: item_key_def new_item_def payload_key_def)

lemma from_poll_account: "from_poll account feed label meta ps r \<Longrightarrow> item_account r = account"
  by (auto simp: from_poll_def new_item_def)

lemma record_chunk_spec:
  assumes own: "feed_owned account feed (t_items d)" and r: "record_chunk gen account feed label meta chunk d = (d', n)"
  shows "\<exists>new. t_items d' = t_items d @ new \<and> Ball (set new) (from_poll account feed label meta chunk) \<and> length new \<le> n \<and>
     item_key ` set (t_items d') = item_key ` set (t_items d) \<union> (\<lambda>p. (feed, payload_key p)) ` set chunk \<and>
     (distinct (map item_key (t_items d)) \<longrightarrow> distinct (map item_key (t_items d'))) \<and>
     (distinct (map payload_key chunk) \<longrightarrow> length new = n) \<and> feed_owned account feed (t_items d')"
proof -
  let ?fresh = "filter (\<lambda>p. payload_key p \<notin> existing_keys account feed chunk d) chunk"
  let ?rows = "map (\<lambda>(i, p). new_item account feed label meta i p) (zip (fresh_ids gen d (length ?fresh)) ?fresh)"
  let ?k = "\<lambda>p. (feed, payload_key p)"
  have len: "length (fresh_ids gen d (length ?fresh)) = length ?fresh" by (simp add: fresh_ids_def)
  have keys: "map item_key ?rows = map ?k ?fresh"
    using len by (intro nth_equalityI) (simp_all)
  have fresh: "?fresh = filter (\<lambda>p. ?k p \<notin> item_key ` set (t_items d)) chunk"
    using existing_keys_iff[OF own] by (auto intro: filter_cong)
  from insert_items_ignore_spec[of ?rows "t_items d"] obtain new where
    n: "insert_items_ignore ?rows (t_items d) = t_items d @ new" "set new \<subseteq> set ?rows" "length new \<le> length ?rows"
    "item_key ` set (t_items d @ new) = item_key ` set (t_items d) \<union> item_key ` set ?rows"
    "distinct (map item_key (t_items d)) \<longrightarrow> distinct (map item_key (t_items d @ new))"
    "distinct (map item_key ?rows) \<and> item_key ` set ?rows \<inter> item_key ` set (t_items d) = {} \<longrightarrow> new = ?rows" by blast
  have rk: "item_key ` set ?rows = ?k ` set ?fresh" using arg_cong[OF keys, of set] by (simp only: set_map)
  define rows where "rows = ?rows"
  have "(if rows = [] then (d, 0) else (d\<lparr>t_items := insert_items_ignore rows (t_items d), next_id := next_id d + length rows\<rparr>,
      length rows)) = (d', n)"
    using r unfolding record_chunk_def Let_def rows_def .
  then have t: "t_items d' = t_items d @ new" and l: "n = length ?rows"
    using n(1) unfolding rows_def[symmetric] by (auto split: if_splits)
  have from_: "Ball (set new) (from_poll account feed label meta chunk)"
    using n(2) by (fastforce simp: from_poll_def dest: set_zip_rightD)
  have all: "item_key ` set (t_items d') = item_key ` set (t_items d) \<union> ?k ` set chunk"
    unfolding t n(4) rk unfolding fresh by auto
  have exact: "length new = n" if "distinct (map payload_key chunk)"
  proof -
    have "distinct (map ?k chunk)" using that by (auto simp: distinct_map inj_on_def)
    then have "distinct (map item_key ?rows)" unfolding keys by (rule distinct_map_filter)
    moreover have "item_key ` set ?rows \<inter> item_key ` set (t_items d) = {}" unfolding rk unfolding fresh by auto
    ultimately have "new = ?rows" using n(6) by blast
    then show ?thesis using l by simp
  qed
  have "feed_owned account feed (t_items d')"
    using own from_poll_account from_ unfolding t feed_owned_def by (auto simp: list_all_iff)
  with t from_ l n(3,5) all exact show ?thesis by (intro exI[of _ new]) simp
qed

lemma record_chunk_known:
  assumes own: "feed_owned account feed (t_items d)"
    and "(\<lambda>p. (feed, payload_key p)) ` set chunk \<subseteq> item_key ` set (t_items d)"
  shows "record_chunk gen account feed label meta chunk d = (d, 0)"
proof -
  have "filter (\<lambda>p. payload_key p \<notin> existing_keys account feed chunk d) chunk = []"
    using existing_keys_iff[OF own] assms(2) by (auto simp: filter_empty_conv)
  then show ?thesis by (simp add: record_chunk_def)
qed

lemma record_chunks_known:
  assumes "feed_owned account feed (t_items d)"
    and "(\<lambda>p. (feed, payload_key p)) ` set (concat cs) \<subseteq> item_key ` set (t_items d)"
  shows "record_chunks gen account feed label meta cs d c = (d, c)"
  using assms(2)
proof (induction cs)
  case (Cons a cs)
  then have "record_chunk gen account feed label meta a d = (d, 0)" by (intro record_chunk_known[OF assms(1)]) auto
  with Cons show ?case by (simp add: image_Un)
qed simp

lemma record_chunks_spec:
  assumes "feed_owned account feed (t_items d)" "record_chunks gen account feed label meta cs d c = (d', n)"
  shows "\<exists>new. t_items d' = t_items d @ new \<and> Ball (set new) (from_poll account feed label meta (concat cs)) \<and>
     c + length new \<le> n \<and>
     item_key ` set (t_items d') = item_key ` set (t_items d) \<union> (\<lambda>p. (feed, payload_key p)) ` set (concat cs) \<and>
     (distinct (map item_key (t_items d)) \<longrightarrow> distinct (map item_key (t_items d'))) \<and>
     (distinct (map payload_key (concat cs)) \<longrightarrow> c + length new = n) \<and> feed_owned account feed (t_items d')"
  using assms
proof (induction cs arbitrary: d c)
  case Nil
  then show ?case by (intro exI[of _ "[]"]) simp
next
  case (Cons a cs)
  obtain d1 m where a: "record_chunk gen account feed label meta a d = (d1, m)" by fastforce
  from record_chunk_spec[OF Cons.prems(1) a] obtain new1 where 1: "t_items d1 = t_items d @ new1"
    "Ball (set new1) (from_poll account feed label meta a)" "length new1 \<le> m"
    "item_key ` set (t_items d1) = item_key ` set (t_items d) \<union> (\<lambda>p. (feed, payload_key p)) ` set a"
    "distinct (map item_key (t_items d)) \<longrightarrow> distinct (map item_key (t_items d1))"
    "distinct (map payload_key a) \<longrightarrow> length new1 = m" "feed_owned account feed (t_items d1)" by blast
  have "record_chunks gen account feed label meta cs d1 (c + m) = (d', n)" using Cons.prems(2) a by simp
  from Cons.IH[OF 1(7) this] obtain new2 where 2: "t_items d' = t_items d1 @ new2"
    "Ball (set new2) (from_poll account feed label meta (concat cs))" "c + m + length new2 \<le> n"
    "item_key ` set (t_items d') = item_key ` set (t_items d1) \<union> (\<lambda>p. (feed, payload_key p)) ` set (concat cs)"
    "distinct (map item_key (t_items d1)) \<longrightarrow> distinct (map item_key (t_items d'))"
    "distinct (map payload_key (concat cs)) \<longrightarrow> c + m + length new2 = n" "feed_owned account feed (t_items d')" by blast
  have mono: "from_poll account feed label meta ps x \<Longrightarrow> set ps \<subseteq> set qs \<Longrightarrow> from_poll account feed label meta qs x" for ps qs x
    by (auto simp: from_poll_def)
  have "Ball (set (new1 @ new2)) (from_poll account feed label meta (concat (a # cs)))"
    using 1(2) 2(2) by (auto elim!: mono)
  moreover have "distinct (map payload_key (concat (a # cs))) \<longrightarrow> c + length (new1 @ new2) = n"
    using 1(6) 2(6) by auto
  moreover have "item_key ` set (t_items d') = item_key ` set (t_items d) \<union> (\<lambda>p. (feed, payload_key p)) ` set (concat (a # cs))"
    unfolding 2(4) 1(4) by auto
  ultimately show ?case using 1(1,3,5) 2(1,3,5,7) by (intro exI[of _ "new1 @ new2"]) simp
qed

subsection \<open>Properties\<close>

text \<open>Recording a poll is idempotent and exact. The log only grows, by rows built from the
  polled payloads, one per key the log did not have; the keys stay unique; the returned count is
  the number of new rows when the poll has no duplicate key (and never less); and recording the
  same poll again, whole, changes nothing.\<close>

theorem recording_is_idempotent:
  assumes keys: "distinct (map item_key (t_items d))" and own: "feed_owned account (feed_id f) (t_items d)"
    and rec: "record_items gen account f label meta payloads d = Inr (d', n)"
  shows "(\<exists>new. t_items d' = t_items d @ new \<and>
       Ball (set new) (from_poll account (feed_id f) label meta payloads) \<and>
       item_key ` set new = poll_keys f payloads - item_key ` set (t_items d) \<and>
       length new \<le> n \<and> (distinct (map payload_key payloads) \<longrightarrow> length new = n)) \<and>
     distinct (map item_key (t_items d')) \<and>
     record_items gen account f label meta payloads d' = Inr (d', 0)"
proof -
  from rec have acc: "feed_account f = account"
    and r: "record_chunks gen account (feed_id f) label meta (batched RECORD_CHUNK payloads) d 0 = (d', n)"
    by (auto simp: record_items_def split: if_splits)
  from record_chunks_spec[OF own r] obtain new where n: "t_items d' = t_items d @ new"
    "Ball (set new) (from_poll account (feed_id f) label meta payloads)" "length new \<le> n"
    "item_key ` set (t_items d') = item_key ` set (t_items d) \<union> poll_keys f payloads"
    "distinct (map item_key (t_items d))  \<longrightarrow> distinct (map item_key (t_items d'))"
    "distinct (map payload_key payloads) \<longrightarrow> length new = n" "feed_owned account (feed_id f) (t_items d')"
    by (auto simp: poll_keys_def)
  have d': "distinct (map item_key (t_items d @ new))" using n(1,5) keys by simp
  then have "item_key ` set new = poll_keys f payloads - item_key ` set (t_items d)"
    using n(4) unfolding n(1) by (auto simp: image_Un)
  moreover have "record_chunks gen account (feed_id f) label meta (batched RECORD_CHUNK payloads) d' 0 = (d', 0)"
    by (rule record_chunks_known[OF n(7)]) (use n(4) in \<open>auto simp: poll_keys_def\<close>)
  ultimately show ?thesis using n(1,2,3,6) d' acc by (auto simp: record_items_def)
qed

text \<open>A poll that names one entry twice: two rows are counted, one is stored.\<close>

definition news_feed :: feed where
  "news_feed = \<lparr>feed_id = ''f'', feed_account = ''acc'', feed_user = '''', feed_kind = ''rss'', feed_name = ''n'',
     feed_active = True, feed_interval = 60, feed_last_polled = None, feed_next_poll = None, feed_data = JNull\<rparr>"

definition news_poll :: "source_payload list" where
  "news_poll = map (\<lambda>e. \<lparr>sp_source = ''rss'', sp_external = e, sp_occurred = 4, sp_dump = JNull\<rparr>) [''e1'', ''e2'', ''e1'']"

definition short_ids :: "nat \<Rightarrow> ulid" where
  "short_ids n = replicate (Suc n) CHR ''x''"

theorem recording_is_idempotent_witness:
  "\<exists>d'. record_items short_ids ''acc'' news_feed ''l'' JNull news_poll empty_db = Inr (d', 3) \<and>
     length (t_items d') = 2 \<and> record_items short_ids ''acc'' news_feed ''l'' JNull news_poll d' = Inr (d', 0)"
proof -
  have 1: "distinct (map item_key (t_items empty_db))" "feed_owned ''acc'' (feed_id news_feed) (t_items empty_db)"
    by (simp_all add: empty_db_def feed_owned_def)
  have "case record_items short_ids ''acc'' news_feed ''l'' JNull news_poll empty_db of
      Inl e \<Rightarrow> False | Inr (d', n) \<Rightarrow> n = 3 \<and> length (t_items d') = 2" by code_simp
  then obtain d' where r: "record_items short_ids ''acc'' news_feed ''l'' JNull news_poll empty_db = Inr (d', 3)"
    and l: "length (t_items d') = 2" by (auto split: sum.splits)
  from recording_is_idempotent [OF 1 r] r l show ?thesis by blast
qed

text \<open>The pager the trigger reads its window with yields exactly the feed's ids in the window,
  once each and in ascending order, as one ORDER BY query would, whatever the page boundaries;
  and the count announced for the window is their number.\<close>

theorem window_pager_is_query:
  assumes "items_ok (t_items d)" "iter_item_ids_in_window account f after_id through_id d = Inr ids"
  shows "ids = sort (filter (\<lambda>i. after_id < i \<and> i \<le> through_id) (feed_item_ids account (feed_id f) d)) \<and>
    count_items_in_window account f after_id through_id d = Inr (length ids)"
proof -
  let ?l = "filter (\<lambda>i. i \<le> through_id) (feed_item_ids account (feed_id f) d)"
  have own: "feed_account f = account" and i: "ids = window_pages ITEM_CHUNK ?l after_id"
    using assms(2) by (auto simp: iter_item_ids_in_window_def split: if_splits)
  have "distinct ?l" using distinct_feed_item_ids[OF assms(1)] by simp
  from window_pages_eq[OF this, of ITEM_CHUNK after_id] have "ids = sort (filter (\<lambda>i. after_id < i) ?l)"
    unfolding i by (simp add: ITEM_CHUNK_def)
  then have s: "ids = sort (filter (\<lambda>i. after_id < i \<and> i \<le> through_id) (feed_item_ids account (feed_id f) d))"
    by (simp add: filter_filter conj_commute)
  then show ?thesis using own by (simp add: count_items_in_window_def qcount_def)
qed

theorem window_pager_is_query_witness:
  "\<exists>d'. record_items short_ids ''acc'' news_feed ''l'' JNull news_poll empty_db = Inr (d', 3) \<and>
     count_items_in_window ''acc'' news_feed ''x'' ''xxx'' d' = Inr 1 \<and>
     iter_item_ids_in_window ''acc'' news_feed ''x'' ''xxx'' d' = Inr [''xx'']"
proof -
  have "case record_items short_ids ''acc'' news_feed ''l'' JNull news_poll empty_db of
      Inl e \<Rightarrow> False | Inr (d', n) \<Rightarrow> n = 3 \<and> items_ok (t_items d') \<and>
        iter_item_ids_in_window ''acc'' news_feed ''x'' ''xxx'' d' = Inr [''xx'']" by code_simp
  then obtain d' where d: "record_items short_ids ''acc'' news_feed ''l'' JNull news_poll empty_db = Inr (d', 3)"
    "items_ok (t_items d')" "iter_item_ids_in_window ''acc'' news_feed ''x'' ''xxx'' d' = Inr [''xx'']"
    by (auto split: sum.splits)
  from window_pager_is_query [OF d(2,3)] d show ?thesis by auto
qed

end
