(* ===== verification/Watches.thy ===== *)
theory Watches
  imports Chain Feed_Items "HOL-Library.AList"
begin

text \<open>
  The watch aggregate, \<open>watches/services/watches/_service.py\<close> and \<open>_global.py\<close>: the watch
  row, its path, its feed subscriptions with their watermarks, and its chain. A write that
  spans two transactions returns the database it leaves together with the exception of the
  second. Lemmas: deleting a watch leaves nothing of it behind and touches nobody else, and
  an edit keeps the watermark of every subscription that survives it.
\<close>

subsection \<open>Reads\<close>

definition get_watch :: "ulid \<Rightarrow> ulid \<Rightarrow> db \<Rightarrow> watch result" where
  "get_watch account i d = qget (\<lambda>w. w_id w = i \<and> w_account w = account) (t_watches d)"

definition find_by_name :: "ulid \<Rightarrow> string \<Rightarrow> db \<Rightarrow> watch option" where
  "find_by_name account name d =
     first_row (order_by w_id (filter (\<lambda>w. w_account w = account \<and> w_name w = name) (t_watches d)))"

definition watch_id_for_path :: "ulid \<Rightarrow> ulid \<Rightarrow> db \<Rightarrow> ulid result" where
  "watch_id_for_path account p d =
     map_sum id path_watch (qget (\<lambda>x. path_id x = p \<and> path_account x = account) (t_paths d))"

definition list_watches :: "ulid \<Rightarrow> ulid option \<Rightarrow> nat \<Rightarrow> db \<Rightarrow> watch list" where
  "list_watches account after limit d =
     take limit (rev (order_by w_id (filter (\<lambda>w. w_account w = account \<and>
       (case after of None \<Rightarrow> True | Some a \<Rightarrow> a = '''' \<or> w_id w < a)) (t_watches d))))"

definition subscribed :: "ulid \<Rightarrow> ulid \<Rightarrow> watch_feed \<Rightarrow> bool" where
  "subscribed account watch f \<longleftrightarrow> wf_account f = account \<and> wf_watch f = watch"

definition watch_feeds :: "ulid \<Rightarrow> watch \<Rightarrow> db \<Rightarrow> watch_feed list result" where
  "watch_feeds account w d =
     (if w_account w \<noteq> account then Inl ValueError
      else Inr (order_by wf_id (filter (subscribed account (w_id w)) (t_watch_feeds d))))"

definition feed_ids :: "ulid \<Rightarrow> watch \<Rightarrow> db \<Rightarrow> ulid list result" where
  "feed_ids account w d = map_sum id (map wf_feed) (watch_feeds account w d)"

definition initial_actions :: "ulid \<Rightarrow> watch \<Rightarrow> db \<Rightarrow> action list result" where
  "initial_actions account w d =
     (if w_account w \<noteq> account then Inl ValueError
      else if w_path w = '''' then Inl ValueError
      else Inr (list_for_path account (w_path w) (t_actions d)))"

definition get_watch_global :: "ulid \<Rightarrow> db \<Rightarrow> watch result" where
  "get_watch_global i d = qget (\<lambda>w. w_id w = i) (t_watches d)"

definition iter_active :: "db \<Rightarrow> watch list" where
  "iter_active d = filter w_active (t_watches d)"

definition count_watches :: "db \<Rightarrow> nat" where
  "count_watches d = length (t_watches d)"

subsection \<open>Writes\<close>

definition advance_watermark :: "ulid \<Rightarrow> watch_feed \<Rightarrow> ulid \<Rightarrow> db \<Rightarrow> db result" where
  "advance_watermark account f last_item d =
     (if wf_account f \<noteq> account then Inl ValueError
      else map_sum id (\<lambda>t. d\<lparr>t_watch_feeds := t\<rparr>)
             (save_row (\<lambda>x. wf_id x = wf_id f) (\<lambda>x. x\<lparr>wf_last_item := last_item\<rparr>) (t_watch_feeds d)))"

definition wf_key :: "watch_feed \<Rightarrow> ulid \<times> ulid \<times> ulid" where
  "wf_key f = (wf_account f, wf_watch f, wf_feed f)"

fun insert_feeds :: "watch_feed list \<Rightarrow> watch_feed list \<Rightarrow> watch_feed list result" where
  "insert_feeds [] t = Inr t"
| "insert_feeds (f # fs) t =
     (if wf_key f \<in> wf_key ` set t then Inl IntegrityError else insert_feeds fs (t @ [f]))"

definition new_feeds :: "(nat \<Rightarrow> ulid) \<Rightarrow> nat \<Rightarrow> ulid \<Rightarrow> ulid \<Rightarrow> ulid list \<Rightarrow> watch_feed list" where
  "new_feeds gen n account watch fids =
     map (\<lambda>(i, fid). \<lparr>wf_id = gen i, wf_account = account, wf_watch = watch, wf_feed = fid,
                     wf_last_item = ''''\<rparr>) (zip [n..<n + length fids] fids)"

definition build_watch :: "ulid \<Rightarrow> ulid \<Rightarrow> string \<Rightarrow> bool \<Rightarrow> watch" where
  "build_watch i account name is_active =
     \<lparr>w_id = i, w_account = account, w_user = '''', w_name = name, w_active = is_active, w_path = ''''\<rparr>"

definition create_watch ::
  "env \<Rightarrow> ulid \<Rightarrow> ulid \<Rightarrow> string \<Rightarrow> bool \<Rightarrow> ulid list \<Rightarrow> action_input list \<Rightarrow> bool \<Rightarrow> db \<Rightarrow>
   db \<times> watch result" where
  "create_watch E account user name is_active fids specs acquired d =
     (let n = next_id d;
          w = \<lparr>w_id = env_gen E n, w_account = account, w_user = user, w_name = name,
               w_active = is_active, w_path = env_gen E (n + 1)\<rparr>;
          p = \<lparr>path_id = env_gen E (n + 1), path_account = account, path_watch = w_id w\<rparr>;
          rows = new_feeds (env_gen E) (n + 2) account (w_id w) (dedupe fids)
      in case insert_feeds rows (t_watch_feeds d) of
           Inl e \<Rightarrow> (d, Inl e)
         | Inr t \<Rightarrow>
             let d1 = d\<lparr>t_watches := t_watches d @ [w], t_paths := t_paths d @ [p], t_watch_feeds := t,
                        next_id := n + 2 + length rows\<rparr>
             in case replace_chain E account (path_id p) specs acquired d1 of
                  Inl e \<Rightarrow> (d1, Inl e)
                | Inr d2 \<Rightarrow> (d2, Inr w))"

text \<open>\<open>{wf.feed_id: wf for wf in ...}\<close>: a later row of the same feed replaces an earlier one.\<close>

definition feed_dict :: "watch_feed list \<Rightarrow> (ulid \<times> watch_feed) list" where
  "feed_dict rows = fold (\<lambda>f m. AList.update (wf_feed f) f m) rows []"

definition set_feeds :: "(nat \<Rightarrow> ulid) \<Rightarrow> ulid \<Rightarrow> watch \<Rightarrow> ulid list \<Rightarrow> db \<Rightarrow> db result" where
  "set_feeds gen account w fids d =
     (let desired = dedupe fids;
          existing = feed_dict (filter (subscribed account (w_id w)) (t_watch_feeds d));
          to_remove = map (\<lambda>(_, f). wf_id f) (filter (\<lambda>(fid, _). fid \<notin> set desired) existing);
          t1 = (if to_remove = [] then t_watch_feeds d
                else qdelete (\<lambda>x. wf_id x \<in> set to_remove) (t_watch_feeds d));
          to_add = filter (\<lambda>fid. fid \<notin> fst ` set existing) desired
      in map_sum id (\<lambda>t. d\<lparr>t_watch_feeds := t, next_id := next_id d + length to_add\<rparr>)
           (insert_feeds (new_feeds gen (next_id d) account (w_id w) to_add) t1))"

definition update_watch ::
  "env \<Rightarrow> ulid \<Rightarrow> watch \<Rightarrow> string \<Rightarrow> bool \<Rightarrow> ulid list \<Rightarrow> action_input list \<Rightarrow> bool \<Rightarrow> db \<Rightarrow>
   db \<times> watch result" where
  "update_watch E account w name is_active fids specs acquired d =
     (if w_account w \<noteq> account then (d, Inl ValueError)
      else if w_path w = '''' then (d, Inl ValueError)
      else
        let w' = w\<lparr>w_name := name, w_active := is_active\<rparr>
        in case res_bind (save_row (\<lambda>x. w_id x = w_id w) (\<lambda>x. x\<lparr>w_name := name, w_active := is_active\<rparr>)
                            (t_watches d))
                  (\<lambda>t. set_feeds (env_gen E) account w' fids (d\<lparr>t_watches := t\<rparr>)) of
             Inl e \<Rightarrow> (d, Inl e)
           | Inr d1 \<Rightarrow>
               (case replace_chain E account (w_path w) specs acquired d1 of
                  Inl e \<Rightarrow> (d1, Inl e)
                | Inr d2 \<Rightarrow> (d2, Inr w')))"

definition set_active :: "ulid \<Rightarrow> watch \<Rightarrow> bool \<Rightarrow> db \<Rightarrow> (db \<times> watch) result" where
  "set_active account w is_active d =
     (if w_account w \<noteq> account then Inl ValueError
      else map_sum id (\<lambda>t. (d\<lparr>t_watches := t\<rparr>, w\<lparr>w_active := is_active\<rparr>))
             (save_row (\<lambda>x. w_id x = w_id w) (\<lambda>x. x\<lparr>w_active := is_active\<rparr>) (t_watches d)))"

definition delete_watch :: "ulid \<Rightarrow> watch \<Rightarrow> db \<Rightarrow> db result" where
  "delete_watch account w d =
     (if w_account w \<noteq> account then Inl ValueError
      else
        let own_path = (\<lambda>p. path_account p = account \<and> path_watch p = w_id w);
            path_ids = map path_id (filter own_path (t_paths d));
            own_action = (\<lambda>a. act_account a = account \<and> act_path a \<in> set path_ids);
            action_ids = map act_id (filter own_action (t_actions d));
            own_window = (\<lambda>x. win_account x = account \<and> win_action x \<in> set action_ids)
        in Inr (d\<lparr>
             t_runs := qdelete (\<lambda>r. run_account r = account \<and> run_watch r = w_id w) (t_runs d),
             t_windows := (if path_ids \<noteq> [] \<and> action_ids \<noteq> [] then qdelete own_window (t_windows d)
                           else t_windows d),
             t_actions := (if path_ids \<noteq> [] then qdelete own_action (t_actions d) else t_actions d),
             t_paths := qdelete own_path (t_paths d),
             t_watch_feeds := qdelete (subscribed account (w_id w)) (t_watch_feeds d),
             t_watches := qdelete (\<lambda>x. w_id x = w_id w) (t_watches d)\<rparr>))"


subsection \<open>Lemmas: subscriptions\<close>

lemma update_absent: "k \<notin> fst ` set al \<Longrightarrow> AList.update k v al = al @ [(k, v)]"
  by (induction al) auto

lemma fold_feed_dict:
  "distinct (map wf_feed rows) \<Longrightarrow> fst ` set m \<inter> wf_feed ` set rows = {} \<Longrightarrow>
   fold (\<lambda>f m. AList.update (wf_feed f) f m) rows m = m @ map (\<lambda>f. (wf_feed f, f)) rows"
proof (induction rows arbitrary: m)
  case (Cons f fs)
  have "fold (\<lambda>f m. AList.update (wf_feed f) f m) fs (m @ [(wf_feed f, f)]) =
      (m @ [(wf_feed f, f)]) @ map (\<lambda>f. (wf_feed f, f)) fs"
    by (rule Cons.IH) (use Cons.prems in auto)
  moreover have "wf_feed f \<notin> fst ` set m" using Cons.prems(2) by auto
  ultimately show ?case by (simp add: update_absent)
qed simp

lemma feed_dict_rows: "distinct (map wf_feed rows) \<Longrightarrow> feed_dict rows = map (\<lambda>f. (wf_feed f, f)) rows"
  using fold_feed_dict[of rows "[]"] by (simp add: feed_dict_def)

definition feeds_ok :: "watch_feed list \<Rightarrow> bool" where
  "feeds_ok t \<longleftrightarrow> distinct (map wf_id t) \<and> distinct (map wf_key t)"

lemma subscribed_feeds_distinct:
  assumes "feeds_ok t"
  shows "distinct (map wf_feed (filter (subscribed account watch) t))"
proof -
  have "distinct t" "inj_on wf_key (set t)" using assms by (auto simp: feeds_ok_def distinct_map)
  then show ?thesis
    by (auto simp: distinct_map inj_on_def wf_key_def subscribed_def)
qed

lemma insert_feeds_fresh:
  "distinct (map wf_key fs) \<Longrightarrow> wf_key ` set fs \<inter> wf_key ` set t = {} \<Longrightarrow> insert_feeds fs t = Inr (t @ fs)"
proof (induction fs arbitrary: t)
  case (Cons f fs)
  then have "insert_feeds fs (t @ [f]) = Inr ((t @ [f]) @ fs)" by (intro Cons.IH) auto
  with Cons.prems show ?case by auto
qed simp

lemma map_feed_new_feeds: "map wf_feed (new_feeds gen n acc w fids) = fids"
  by (simp add: new_feeds_def o_def case_prod_beta)

lemma map_id_new_feeds: "map wf_id (new_feeds gen n acc w fids) = map gen [n..<n + length fids]"
  by (rule nth_equalityI) (simp_all add: new_feeds_def)

lemma delete_listed: "(if ks = [] then t else qdelete (\<lambda>x. k x \<in> set ks) t) = qdelete (\<lambda>x. k x \<in> set ks) t"
  by (simp add: qdelete_def)

lemma new_feeds_row:
  assumes "f \<in> set (new_feeds gen n acc w fids)"
  shows "wf_account f = acc \<and> wf_watch f = w \<and> wf_feed f \<in> set fids \<and> wf_last_item f = ''''"
  using assms by (auto simp: new_feeds_def dest: set_zip_rightD)

lemma new_feeds_keys:
  assumes "distinct fids"
  shows "distinct (map wf_key (new_feeds gen n acc w fids))"
proof -
  have "map (\<lambda>k. snd (snd k)) (map wf_key (new_feeds gen n acc w fids)) = fids"
    using map_feed_new_feeds[of gen n acc w fids] by (simp add: wf_key_def o_def)
  with assms show ?thesis by (metis distinct_map)
qed

text \<open>What \<open>_set_feeds\<close> stores: the rows that survive as they are, then the new ones.\<close>

definition kept_feed :: "ulid \<Rightarrow> ulid \<Rightarrow> ulid list \<Rightarrow> watch_feed \<Rightarrow> bool" where
  "kept_feed account watch fids f \<longleftrightarrow> subscribed account watch f \<longrightarrow> wf_feed f \<in> set fids"

lemma set_feeds_spec:
  assumes "feeds_ok (t_watch_feeds d)"
  shows "\<exists>add. set add = set fids - wf_feed ` set (filter (subscribed account (w_id w)) (t_watch_feeds d)) \<and> distinct add \<and>
    set_feeds gen account w fids d =
      Inr (d\<lparr>t_watch_feeds := filter (kept_feed account (w_id w) fids) (t_watch_feeds d) @
               new_feeds gen (next_id d) account (w_id w) add,
             next_id := next_id d + length add\<rparr>)"
proof -
  let ?t = "t_watch_feeds d"
  let ?own = "filter (subscribed account (w_id w)) ?t"
  let ?rm = "map wf_id (filter (\<lambda>f. wf_feed f \<notin> set fids) ?own)"
  let ?add = "filter (\<lambda>fid. fid \<notin> wf_feed ` set ?own) (dedupe fids)"
  let ?new = "new_feeds gen (next_id d) account (w_id w) ?add"
  have dict: "feed_dict ?own = map (\<lambda>f. (wf_feed f, f)) ?own"
    by (rule feed_dict_rows[OF subscribed_feeds_distinct[OF assms]])
  have rm: "map (\<lambda>(_, f). wf_id f) (filter (\<lambda>(fid, _). fid \<notin> set (dedupe fids)) (feed_dict ?own)) = ?rm"
    unfolding dict by (simp add: filter_map o_def)
  have keys: "fst ` set (feed_dict ?own) = wf_feed ` set ?own" unfolding dict by force
  have inj: "inj_on wf_id (set ?t)" using assms by (simp add: feeds_ok_def distinct_map)
  have sel: "wf_id x \<notin> set ?rm \<longleftrightarrow> kept_feed account (w_id w) fids x" if "x \<in> set ?t" for x
    using that inj by (auto simp: kept_feed_def inj_on_def)
  have del: "(if ?rm = [] then ?t else qdelete (\<lambda>x. wf_id x \<in> set ?rm) ?t) =
      filter (kept_feed account (w_id w) fids) ?t"
    unfolding delete_listed unfolding qdelete_def using sel by (intro filter_cong) auto
  have "insert_feeds ?new (filter (kept_feed account (w_id w) fids) ?t) =
      Inr (filter (kept_feed account (w_id w) fids) ?t @ ?new)"
  proof (rule insert_feeds_fresh)
    show "distinct (map wf_key ?new)" by (rule new_feeds_keys) simp
    show "wf_key ` set ?new \<inter> wf_key ` set (filter (kept_feed account (w_id w) fids) ?t) = {}"
    proof (rule ccontr)
      assume "\<not> ?thesis"
      then obtain k where k: "k \<in> wf_key ` set ?new"
        "k \<in> wf_key ` set (filter (kept_feed account (w_id w) fids) ?t)" by blast
      from k(1) obtain f where f: "f \<in> set ?new" and kf: "k = wf_key f" by blast
      from k(2) kf obtain g where g: "g \<in> set ?t" "wf_key f = wf_key g" by auto
      note n = new_feeds_row[OF f]
      from n g(2) have s: "g \<in> set ?own" using g(1) by (auto simp: wf_key_def subscribed_def)
      have "wf_feed f = wf_feed g" using g(2) by (simp add: wf_key_def)
      then have "wf_feed f \<in> wf_feed ` set ?own" using s by (metis imageI)
      with n show False by simp
    qed
  qed
  then have "set_feeds gen account w fids d =
      Inr (d\<lparr>t_watch_feeds := filter (kept_feed account (w_id w) fids) ?t @ ?new,
             next_id := next_id d + length ?add\<rparr>)"
    unfolding set_feeds_def Let_def rm keys del by simp
  then show ?thesis by (intro exI[of _ ?add]) auto
qed


subsection \<open>Lemmas: who owns which row\<close>

definition owner :: "action \<Rightarrow> ulid \<times> ulid \<times> ulid" where
  "owner a = (act_id a, act_account a, act_path a)"

lemma write_ranks_owner: "write_ranks ps t = Inr t' \<Longrightarrow> map owner t' = map owner t"
proof (induction ps arbitrary: t)
  case (Cons p ps)
  obtain i r where p: "p = (i, r)" by force
  let ?t = "qupdate (\<lambda>a. act_id a = i) (\<lambda>a. a\<lparr>act_rank := r\<rparr>) t"
  from Cons.prems p have "write_ranks ps ?t = Inr t'" by (auto simp: Let_def split: if_splits)
  then have "map owner t' = map owner ?t" by (rule Cons.IH)
  also have "\<dots> = map owner t" by (rule map_qupdate) (simp add: owner_def)
  finally show ?case .
qed simp

lemma renumber_owner: "renumber ordered t = Inr t' \<Longrightarrow> map owner t' = map owner t"
  by (auto simp: renumber_def Let_def res_bind_Inr_iff dest!: write_ranks_owner)

lemma update_configs_owner: "map owner (update_configs u t) = map owner t"
proof -
  obtain g where "update_configs u t = map g t" "\<And>x. owner (g x) = owner x"
    using update_configs_row[of u t] by (auto simp: owner_def)
  then show ?thesis by simp
qed

lemma insert_rows_append: "insert_rows rows t = Inr t' \<Longrightarrow> t' = t @ rows"
proof (induction rows arbitrary: t)
  case (Cons r rs)
  then have "insert_rows rs (t @ [r]) = Inr t'" by (auto simp: insert_row_def split: if_splits)
  with Cons.IH[of "t @ [r]"] show ?case by simp
qed simp

lemma plan_created_path:
  "plan_specs E account path n existing specs p = Inr p' \<Longrightarrow>
   \<forall>a\<in>set (cp_created p). act_account a = account \<and> act_path a = path \<Longrightarrow>
   \<forall>a\<in>set (cp_created p'). act_account a = account \<and> act_path a = path"
proof (induction specs arbitrary: p)
  case (Cons s ss)
  from Cons.prems(1) obtain q where q: "plan_spec E account path n existing s p = Inr q"
    "plan_specs E account path n existing ss q = Inr p'" by (auto simp: res_bind_Inr_iff)
  from q(1) Cons.prems(2) have "\<forall>a\<in>set (cp_created q). act_account a = account \<and> act_path a = path"
    by (cases rule: plan_spec_cases) auto
  with Cons.IH[OF q(2)] show ?case by blast
qed simp

text \<open>A chain replace drops some actions of the account with their windows, adds actions on
  the path, and leaves every other action its id, account and path.\<close>

lemma replace_chain_owner:
  assumes "replace_chain E account path specs acquired d = Inr d'"
  shows "\<exists>gone new ts ws m. d' = d\<lparr>t_actions := ts, t_windows := ws, next_id := m\<rparr> \<and> next_id d \<le> m \<and>
    map owner ts = map owner (filter (\<lambda>a. \<not> (act_account a = account \<and> act_id a \<in> gone)) (t_actions d)) @ new \<and>
    (\<forall>x\<in>set new. snd x = (account, path)) \<and>
    (\<forall>x\<in>set ws. x \<in> set (t_windows d) \<and> \<not> (win_account x = account \<and> win_action x \<in> gone))"
proof -
  let ?L = "list_for_path account path (t_actions d)"
  from assms obtain p where pl: "plan_specs E account path (next_id d) ?L specs empty_plan = Inr p"
    by (auto simp: replace_chain_def res_bind_Inr_iff Let_def split: if_splits)
  let ?gone = "filter (\<lambda>i. i \<notin> set (cp_kept p)) (map act_id ?L)"
  let ?t1 = "qdelete (\<lambda>a. act_account a = account \<and> act_id a \<in> set ?gone) (t_actions d)"
  let ?ws = "clear_digest_windows account (?gone @ cp_clear p) (t_windows d)"
  from assms pl obtain t3 t4 where t: "insert_rows (cp_created p) (update_configs (cp_updated p) ?t1) = Inr t3"
    "renumber (cp_ordered p) t3 = Inr t4"
    "d' = d\<lparr>t_actions := t4, t_windows := ?ws, next_id := next_id d + length (cp_created p)\<rparr>"
    by (auto simp: replace_chain_def res_bind_Inr_iff Let_def split: if_splits)
  have "map owner t4 = map owner ?t1 @ map owner (cp_created p)"
    using renumber_owner[OF t(2)] insert_rows_append[OF t(1)] by (simp add: update_configs_owner)
  moreover have "\<forall>x\<in>set (map owner (cp_created p)). snd x = (account, path)"
    using plan_created_path[OF pl] by (auto simp: empty_plan_def owner_def)
  moreover have "\<forall>x\<in>set ?ws. x \<in> set (t_windows d) \<and> \<not> (win_account x = account \<and> win_action x \<in> set ?gone)"
  proof (cases "?gone @ cp_clear p = []")
    case True
    then have "set ?gone = {}" "?ws = t_windows d" by (simp_all add: clear_digest_windows_def)
    then show ?thesis by (simp only:) simp
  next
    case False
    then have "?ws = qdelete (\<lambda>w. win_account w = account \<and> win_action w \<in> set (?gone @ cp_clear p)) (t_windows d)"
      by (simp only: clear_digest_windows_def if_False)
    then show ?thesis by (simp only: set_qdelete set_append) blast
  qed
  ultimately show ?thesis
    using t(3) unfolding qdelete_def by (intro exI conjI) (assumption | simp)+
qed


subsection \<open>Referential integrity\<close>

text \<open>No table has foreign keys, so the services own it: every path, subscription and run
  names a watch of its account, every action a path, every window row an action, and every
  watch its initial path.\<close>

definition watch_keys :: "db \<Rightarrow> (ulid \<times> ulid) set" where
  "watch_keys d = (\<lambda>w. (w_id w, w_account w)) ` set (t_watches d)"

definition path_keys :: "db \<Rightarrow> (ulid \<times> ulid) set" where
  "path_keys d = (\<lambda>p. (path_id p, path_account p)) ` set (t_paths d)"

definition action_keys :: "db \<Rightarrow> (ulid \<times> ulid) set" where
  "action_keys d = (\<lambda>a. (act_id a, act_account a)) ` set (t_actions d)"

definition refs_ok :: "db \<Rightarrow> bool" where
  "refs_ok d \<longleftrightarrow>
     distinct (map w_id (t_watches d)) \<and>
     (\<forall>p\<in>set (t_paths d). (path_watch p, path_account p) \<in> watch_keys d) \<and>
     (\<forall>a\<in>set (t_actions d). (act_path a, act_account a) \<in> path_keys d) \<and>
     (\<forall>f\<in>set (t_watch_feeds d). (wf_watch f, wf_account f) \<in> watch_keys d) \<and>
     (\<forall>r\<in>set (t_runs d). (run_watch r, run_account r) \<in> watch_keys d) \<and>
     (\<forall>x\<in>set (t_windows d). (win_action x, win_account x) \<in> action_keys d) \<and>
     (\<forall>w\<in>set (t_watches d). \<exists>p\<in>set (t_paths d). path_id p = w_path w \<and> path_account p = w_account w \<and>
        path_watch p = w_id w)"

lemma watch_keysI: "w \<in> set (t_watches d) \<Longrightarrow> (w_id w, w_account w) \<in> watch_keys d"
  by (auto simp: watch_keys_def)

lemma watch_account_unique:
  assumes "refs_ok d" "(i, a) \<in> watch_keys d" "(i, b) \<in> watch_keys d"
  shows "a = b"
proof -
  have u: "inj_on w_id (set (t_watches d))" using assms(1) by (simp add: refs_ok_def distinct_map)
  from assms(2,3) obtain v w where v: "v \<in> set (t_watches d)" "w_id v = i" "w_account v = a"
    and w: "w \<in> set (t_watches d)" "w_id w = i" "w_account w = b" by (auto simp: watch_keys_def)
  with u have "v = w" by (simp add: inj_on_def)
  with v(3) w(3) show ?thesis by simp
qed

lemma refs_watch_path:
  assumes "refs_ok d" "w \<in> set (t_watches d)"
  shows "(w_path w, w_account w) \<in> path_keys d"
proof -
  from assms obtain p where "p \<in> set (t_paths d)" "path_id p = w_path w" "path_account p = w_account w"
    unfolding refs_ok_def by blast
  then show ?thesis unfolding path_keys_def by (metis (mono_tags, lifting) imageI)
qed

text \<open>Replacing the chain of a known path, or renumbering one, keeps it.\<close>

lemma refs_ok_actions:
  assumes ok: "refs_ok d"
    and ts: "map owner ts = map owner (filter (\<lambda>a. \<not> (act_account a = account \<and> act_id a \<in> gone)) (t_actions d)) @ new"
    and new: "\<forall>x\<in>set new. snd x = (account, path)" "new \<noteq> [] \<longrightarrow> (path, account) \<in> path_keys d"
    and ws: "\<forall>x\<in>set ws. x \<in> set (t_windows d) \<and> \<not> (win_account x = account \<and> win_action x \<in> gone)"
  shows "refs_ok (d\<lparr>t_actions := ts, t_windows := ws, next_id := m\<rparr>)"
proof -
  let ?d = "d\<lparr>t_actions := ts, t_windows := ws, next_id := m\<rparr>"
  let ?old = "filter (\<lambda>a. \<not> (act_account a = account \<and> act_id a \<in> gone)) (t_actions d)"
  have o: "owner ` set ts = owner ` set ?old \<union> set new"
    using arg_cong[OF ts, of set] by (simp only: set_map set_append)
  have "(act_path a, act_account a) \<in> path_keys d" if "a \<in> set ts" for a
  proof -
    from that o have "owner a \<in> owner ` set ?old \<union> set new" by blast
    then show ?thesis
    proof
      assume "owner a \<in> owner ` set ?old"
      then obtain b where "b \<in> set (t_actions d)" "act_path a = act_path b" "act_account a = act_account b"
        by (auto simp: owner_def)
      with ok show ?thesis by (simp add: refs_ok_def)
    next
      assume n: "owner a \<in> set new"
      then have "new \<noteq> []" by auto
      with n new show ?thesis by (auto simp: owner_def)
    qed
  qed
  moreover have "(win_action x, win_account x) \<in> action_keys ?d" if x: "x \<in> set ws" for x
  proof -
    from x ws have x': "x \<in> set (t_windows d)" "\<not> (win_account x = account \<and> win_action x \<in> gone)" by auto
    with ok have "(win_action x, win_account x) \<in> action_keys d" by (simp add: refs_ok_def)
    then obtain a where a: "a \<in> set (t_actions d)" "act_id a = win_action x" "act_account a = win_account x"
      by (auto simp: action_keys_def)
    with x'(2) have "a \<in> set ?old" by simp
    then have "owner a \<in> owner ` set ts" unfolding o by blast
    then obtain b where "b \<in> set ts" "owner a = owner b" by blast
    with a show ?thesis by (auto simp: action_keys_def owner_def image_iff)
  qed
  ultimately show ?thesis
    using ok by (simp add: refs_ok_def watch_keys_def path_keys_def)
qed

lemma refs_ok_replace_chain:
  assumes "refs_ok d" "replace_chain E account path specs acquired d = Inr d'" "(path, account) \<in> path_keys d"
  shows "refs_ok d'"
proof -
  obtain gone new ts ws m where r: "d' = d\<lparr>t_actions := ts, t_windows := ws, next_id := m\<rparr>"
    "map owner ts = map owner (filter (\<lambda>a. \<not> (act_account a = account \<and> act_id a \<in> gone)) (t_actions d)) @ new"
    "\<forall>x\<in>set new. snd x = (account, path)"
    "\<forall>x\<in>set ws. x \<in> set (t_windows d) \<and> \<not> (win_account x = account \<and> win_action x \<in> gone)"
    using replace_chain_owner[OF assms(2)] by blast
  show ?thesis unfolding r(1) by (rule refs_ok_actions[OF assms(1) r(2,3) _ r(4)]) (use assms(3) in simp)
qed


lemma delete_guard:
  "(if ks \<noteq> [] then qdelete (\<lambda>x. Q x \<and> k x \<in> set ks) t else t) = qdelete (\<lambda>x. Q x \<and> k x \<in> set ks) t"
  by (simp add: qdelete_def)

lemma delete_watch_db:
  assumes "delete_watch account w d = Inr d'"
  defines "pids \<equiv> map path_id (filter (\<lambda>p. path_account p = account \<and> path_watch p = w_id w) (t_paths d))"
  defines "aids \<equiv> map act_id (filter (\<lambda>a. act_account a = account \<and> act_path a \<in> set pids) (t_actions d))"
  shows "w_account w = account \<and> d' = d\<lparr>
      t_runs := qdelete (\<lambda>r. run_account r = account \<and> run_watch r = w_id w) (t_runs d),
      t_windows := qdelete (\<lambda>x. win_account x = account \<and> win_action x \<in> set aids) (t_windows d),
      t_actions := qdelete (\<lambda>a. act_account a = account \<and> act_path a \<in> set pids) (t_actions d),
      t_paths := qdelete (\<lambda>p. path_account p = account \<and> path_watch p = w_id w) (t_paths d),
      t_watch_feeds := qdelete (subscribed account (w_id w)) (t_watch_feeds d),
      t_watches := qdelete (\<lambda>x. w_id x = w_id w) (t_watches d)\<rparr>"
proof -
  have c: "(pids \<noteq> [] \<and> aids \<noteq> []) = (aids \<noteq> [])" by (auto simp: aids_def filter_empty_conv)
  from assms(1) have acc: "w_account w = account" by (auto simp: delete_watch_def split: if_splits)
  with assms(1) show ?thesis
    unfolding delete_watch_def Let_def pids_def[symmetric] aids_def[symmetric] c delete_guard by simp
qed

lemma delete_watch_rows:
  assumes "delete_watch account w d = Inr d'"
  defines "pids \<equiv> map path_id (filter (\<lambda>p. path_account p = account \<and> path_watch p = w_id w) (t_paths d))"
  shows "r \<in> set (t_runs d') \<longleftrightarrow> r \<in> set (t_runs d) \<and> \<not> (run_account r = account \<and> run_watch r = w_id w)"
    and "f \<in> set (t_watch_feeds d') \<longleftrightarrow> f \<in> set (t_watch_feeds d) \<and> \<not> subscribed account (w_id w) f"
    and "p \<in> set (t_paths d') \<longleftrightarrow> p \<in> set (t_paths d) \<and> \<not> (path_account p = account \<and> path_watch p = w_id w)"
    and "a \<in> set (t_actions d') \<longleftrightarrow> a \<in> set (t_actions d) \<and> \<not> (act_account a = account \<and> act_path a \<in> set pids)"
    and "x \<in> set (t_windows d') \<longleftrightarrow> x \<in> set (t_windows d) \<and> \<not> (win_account x = account \<and>
      win_action x \<in> act_id ` {b \<in> set (t_actions d). act_account b = account \<and> act_path b \<in> set pids})"
    and "t_items d' = t_items d \<and> t_feeds d' = t_feeds d \<and> t_deliveries d' = t_deliveries d"
  using delete_watch_db[OF assms(1)] unfolding pids_def by auto

lemma refs_ok_delete:
  assumes ok: "refs_ok d" and w: "w \<in> set (t_watches d)" and del: "delete_watch account w d = Inr d'"
  shows "refs_ok d' \<and> w_id w \<notin> w_id ` set (t_watches d')"
proof -
  let ?own_path = "\<lambda>p. path_account p = account \<and> path_watch p = w_id w"
  let ?pids = "map path_id (filter ?own_path (t_paths d))"
  let ?own_action = "\<lambda>a. act_account a = account \<and> act_path a \<in> set ?pids"
  let ?aids = "map act_id (filter ?own_action (t_actions d))"
  let ?own_window = "\<lambda>x. win_account x = account \<and> win_action x \<in> set ?aids"
  have acc: "w_account w = account"
    and d': "d' = d\<lparr>t_runs := qdelete (\<lambda>r. run_account r = account \<and> run_watch r = w_id w) (t_runs d),
      t_windows := qdelete ?own_window (t_windows d), t_actions := qdelete ?own_action (t_actions d),
      t_paths := qdelete ?own_path (t_paths d), t_watch_feeds := qdelete (subscribed account (w_id w)) (t_watch_feeds d),
      t_watches := qdelete (\<lambda>x. w_id x = w_id w) (t_watches d)\<rparr>"
    using delete_watch_db[OF del] by simp_all
  have mine: "a = account" if "(w_id w, a) \<in> watch_keys d" for a
    using watch_account_unique[OF ok that watch_keysI[OF w]] acc by simp
  have wk: "(i, a) \<in> watch_keys d'" if "(i, a) \<in> watch_keys d" "\<not> (i = w_id w \<and> a = account)" for i a
  proof -
    have ni: "i \<noteq> w_id w" using that mine by blast
    from that(1) obtain x where "x \<in> set (t_watches d)" "w_id x = i" "w_account x = a" by (auto simp: watch_keys_def)
    with ni show ?thesis by (auto simp: watch_keys_def d')
  qed
  have pk: "(i, a) \<in> path_keys d'" if "(i, a) \<in> path_keys d" "\<not> (a = account \<and> i \<in> set ?pids)" for i a
    using that by (auto simp: path_keys_def d')
  have ak: "(i, a) \<in> action_keys d'" if "(i, a) \<in> action_keys d" "\<not> (a = account \<and> i \<in> set ?aids)" for i a
    using that by (auto simp: action_keys_def d')
  have own: "\<exists>p\<in>set (t_paths d'). path_id p = w_path x \<and> path_account p = w_account x \<and> path_watch p = w_id x"
    if x: "x \<in> set (t_watches d')" for x
  proof -
    from x have x': "x \<in> set (t_watches d)" "w_id x \<noteq> w_id w" by (auto simp: d')
    with ok obtain p where "p \<in> set (t_paths d)" "path_id p = w_path x" "path_account p = w_account x" "path_watch p = w_id x"
      unfolding refs_ok_def by blast
    with x'(2) show ?thesis by (auto simp: d')
  qed
  have dist: "distinct (map w_id (t_watches d'))"
    using ok by (simp add: d' refs_ok_def qdelete_def distinct_map_filter)
  have "\<forall>p\<in>set (t_paths d'). (path_watch p, path_account p) \<in> watch_keys d'"
    using ok wk unfolding refs_ok_def d' by auto
  moreover have "\<forall>a\<in>set (t_actions d'). (act_path a, act_account a) \<in> path_keys d'"
  proof
    fix a assume "a \<in> set (t_actions d')"
    then have "a \<in> set (t_actions d)" "\<not> ?own_action a" by (simp_all add: d')
    with ok pk show "(act_path a, act_account a) \<in> path_keys d'" unfolding refs_ok_def by blast
  qed
  moreover have "\<forall>f\<in>set (t_watch_feeds d'). (wf_watch f, wf_account f) \<in> watch_keys d'"
  proof
    fix f assume "f \<in> set (t_watch_feeds d')"
    then have "f \<in> set (t_watch_feeds d)" "\<not> (wf_watch f = w_id w \<and> wf_account f = account)"
      by (auto simp: d' subscribed_def)
    with ok wk show "(wf_watch f, wf_account f) \<in> watch_keys d'" unfolding refs_ok_def by blast
  qed
  moreover have "\<forall>r\<in>set (t_runs d'). (run_watch r, run_account r) \<in> watch_keys d'"
  proof
    fix r assume "r \<in> set (t_runs d')"
    then have "r \<in> set (t_runs d)" "\<not> (run_watch r = w_id w \<and> run_account r = account)" by (auto simp: d')
    with ok wk show "(run_watch r, run_account r) \<in> watch_keys d'" unfolding refs_ok_def by blast
  qed
  moreover have "\<forall>x\<in>set (t_windows d'). (win_action x, win_account x) \<in> action_keys d'"
  proof
    fix x assume "x \<in> set (t_windows d')"
    then have "x \<in> set (t_windows d)" "\<not> ?own_window x" by (simp_all add: d')
    with ok ak show "(win_action x, win_account x) \<in> action_keys d'" unfolding refs_ok_def by blast
  qed
  ultimately have "refs_ok d'" using dist own unfolding refs_ok_def by blast
  moreover have "w_id w \<notin> w_id ` set (t_watches d')" by (auto simp: d')
  ultimately show ?thesis by blast
qed

lemma insert_feeds_append: "insert_feeds fs t = Inr t' \<Longrightarrow> t' = t @ fs"
proof (induction fs arbitrary: t)
  case (Cons f fs)
  then have "insert_feeds fs (t @ [f]) = Inr t'" by (auto split: if_splits)
  with Cons.IH[of "t @ [f]"] show ?case by simp
qed simp

lemma set_feeds_rows:
  assumes "set_feeds gen account w fids d = Inr d'"
  shows "\<exists>t m. d' = d\<lparr>t_watch_feeds := t, next_id := m\<rparr> \<and> next_id d \<le> m \<and>
    (\<forall>f\<in>set t. f \<in> set (t_watch_feeds d) \<or> (wf_watch f = w_id w \<and> wf_account f = account))"
proof -
  let ?existing = "feed_dict (filter (subscribed account (w_id w)) (t_watch_feeds d))"
  let ?rm = "map (\<lambda>(_, f). wf_id f) (filter (\<lambda>(fid, _). fid \<notin> set (dedupe fids)) ?existing)"
  let ?t1 = "if ?rm = [] then t_watch_feeds d else qdelete (\<lambda>x. wf_id x \<in> set ?rm) (t_watch_feeds d)"
  let ?add = "filter (\<lambda>fid. fid \<notin> fst ` set ?existing) (dedupe fids)"
  have sub: "set ?t1 \<subseteq> set (t_watch_feeds d)" unfolding delete_listed by (simp only: set_qdelete) blast
  obtain t where t: "insert_feeds (new_feeds gen (next_id d) account (w_id w) ?add) ?t1 = Inr t"
    "d' = d\<lparr>t_watch_feeds := t, next_id := next_id d + length ?add\<rparr>"
    using assms unfolding set_feeds_def Let_def
    by (cases "insert_feeds (new_feeds gen (next_id d) account (w_id w) ?add) ?t1") (simp_all only: map_sum.simps sum.simps id_apply)
  have "\<forall>f\<in>set t. f \<in> set (t_watch_feeds d) \<or> (wf_watch f = w_id w \<and> wf_account f = account)"
  proof
    fix f assume "f \<in> set t"
    then have "f \<in> set ?t1 \<or> f \<in> set (new_feeds gen (next_id d) account (w_id w) ?add)"
      unfolding insert_feeds_append[OF t(1)] set_append by (rule UnE) (intro disjI1 disjI2 | assumption)+
    then show "f \<in> set (t_watch_feeds d) \<or> (wf_watch f = w_id w \<and> wf_account f = account)"
      using sub new_feeds_row by blast
  qed
  then show ?thesis using t(2) le_add1 by blast
qed

lemma refs_ok_set_feeds:
  assumes "refs_ok d" "set_feeds gen account w fids d = Inr d'" "(w_id w, account) \<in> watch_keys d"
  shows "refs_ok d'"
proof -
  from set_feeds_rows[OF assms(2)] obtain t m where "d' = d\<lparr>t_watch_feeds := t, next_id := m\<rparr>"
    "\<forall>f\<in>set t. f \<in> set (t_watch_feeds d) \<or> (wf_watch f = w_id w \<and> wf_account f = account)" by blast
  with assms(1,3) show ?thesis
    by (auto simp: refs_ok_def watch_keys_def path_keys_def action_keys_def)
qed


lemma refs_ok_save_watch:
  assumes "refs_ok d" "save_row (\<lambda>x. w_id x = i) f (t_watches d) = Inr t"
    and f: "\<And>x. w_id (f x) = w_id x \<and> w_account (f x) = w_account x \<and> w_path (f x) = w_path x"
  shows "refs_ok (d\<lparr>t_watches := t\<rparr>) \<and> watch_keys (d\<lparr>t_watches := t\<rparr>) = watch_keys d"
proof
  have t: "t = qupdate (\<lambda>x. w_id x = i) f (t_watches d)"
    using assms(2) by (auto simp: save_row_def split: if_splits)
  have k: "map (\<lambda>w. (w_id w, w_account w)) t = map (\<lambda>w. (w_id w, w_account w)) (t_watches d)"
    unfolding t by (rule map_qupdate) (simp add: f)
  then show wk: "watch_keys (d\<lparr>t_watches := t\<rparr>) = watch_keys d"
    unfolding watch_keys_def set_map[symmetric] by simp
  have "map w_id t = map w_id (t_watches d)" unfolding t by (rule map_qupdate) (simp add: f)
  moreover have "\<forall>x\<in>set t. \<exists>p\<in>set (t_paths d). path_id p = w_path x \<and> path_account p = w_account x \<and> path_watch p = w_id x"
    using assms(1) f unfolding t refs_ok_def set_qupdate by auto
  ultimately show "refs_ok (d\<lparr>t_watches := t\<rparr>)"
    using assms(1) wk by (simp add: refs_ok_def path_keys_def action_keys_def)
qed

lemma update_watch_cases:
  assumes "update_watch E account w name is_active fids specs acquired d = (d', r)"
  obtains (refused) e where "d' = d" "r = Inl e"
    | (half) t d1 e where "w_account w = account"
        "save_row (\<lambda>x. w_id x = w_id w) (\<lambda>x. x\<lparr>w_name := name, w_active := is_active\<rparr>) (t_watches d) = Inr t"
        "set_feeds (env_gen E) account (w\<lparr>w_name := name, w_active := is_active\<rparr>) fids (d\<lparr>t_watches := t\<rparr>) = Inr d1"
        "d' = d1" "r = Inl e"
    | (full) t d1 where "w_account w = account"
        "save_row (\<lambda>x. w_id x = w_id w) (\<lambda>x. x\<lparr>w_name := name, w_active := is_active\<rparr>) (t_watches d) = Inr t"
        "set_feeds (env_gen E) account (w\<lparr>w_name := name, w_active := is_active\<rparr>) fids (d\<lparr>t_watches := t\<rparr>) = Inr d1"
        "replace_chain E account (w_path w) specs acquired d1 = Inr d'"
        "r = Inr (w\<lparr>w_name := name, w_active := is_active\<rparr>)"
  using assms unfolding update_watch_def Let_def
  by (auto split: if_splits sum.splits simp: res_bind_Inr_iff)

lemma refs_ok_update:
  assumes ok: "refs_ok d" and w: "w \<in> set (t_watches d)"
    and u: "update_watch E account w name is_active fids specs acquired d = (d', r)"
  shows "refs_ok d'"
proof -
  let ?w = "w\<lparr>w_name := name, w_active := is_active\<rparr>"
  have saved: "refs_ok d1 \<and> (w_path w, account) \<in> path_keys d1"
    if a: "w_account w = account"
      and s: "save_row (\<lambda>x. w_id x = w_id w) (\<lambda>x. x\<lparr>w_name := name, w_active := is_active\<rparr>) (t_watches d) = Inr t"
      and f: "set_feeds (env_gen E) account ?w fids (d\<lparr>t_watches := t\<rparr>) = Inr d1" for t d1
  proof -
    have r: "refs_ok (d\<lparr>t_watches := t\<rparr>)" "watch_keys (d\<lparr>t_watches := t\<rparr>) = watch_keys d"
      using refs_ok_save_watch[OF ok s] by simp_all
    have "(w_id ?w, account) \<in> watch_keys (d\<lparr>t_watches := t\<rparr>)"
      using watch_keysI[OF w] a r(2) by simp
    with refs_ok_set_feeds[OF r(1) f] have "refs_ok d1" .
    moreover have "path_keys d1 = path_keys d"
      using set_feeds_rows[OF f] by (auto simp: path_keys_def)
    ultimately show ?thesis using refs_watch_path[OF ok w] a by simp
  qed
  from u show ?thesis
  proof (cases rule: update_watch_cases)
    case refused
    with ok show ?thesis by simp
  next
    case (half t d1 e)
    with saved show ?thesis by blast
  next
    case (full t d1)
    with saved[OF full(1-3)] refs_ok_replace_chain[OF _ full(4)] show ?thesis by blast
  qed
qed


lemma refs_ok_create:
  assumes ok: "refs_ok d" and fresh: "env_gen E (next_id d) \<notin> w_id ` set (t_watches d)"
    and c: "create_watch E account user name is_active fids specs acquired d = (d', r)"
  shows "refs_ok d'"
proof -
  let ?n = "next_id d"
  let ?w = "\<lparr>w_id = env_gen E ?n, w_account = account, w_user = user, w_name = name,
      w_active = is_active, w_path = env_gen E (?n + 1)\<rparr>"
  let ?p = "\<lparr>path_id = env_gen E (?n + 1), path_account = account, path_watch = w_id ?w\<rparr>"
  let ?rows = "new_feeds (env_gen E) (?n + 2) account (w_id ?w) (dedupe fids)"
  show ?thesis
  proof (cases "insert_feeds ?rows (t_watch_feeds d)")
    case (Inl e)
    with c ok show ?thesis by (simp add: create_watch_def Let_def)
  next
    case (Inr t)
    let ?d = "d\<lparr>t_watches := t_watches d @ [?w], t_paths := t_paths d @ [?p], t_watch_feeds := t,
        next_id := ?n + 2 + length ?rows\<rparr>"
    have t: "t = t_watch_feeds d @ ?rows" by (rule insert_feeds_append[OF Inr])
    have wk: "watch_keys ?d = insert (w_id ?w, account) (watch_keys d)" by (auto simp: watch_keys_def)
    have pk: "path_keys ?d = insert (path_id ?p, account) (path_keys d)" by (auto simp: path_keys_def)
    have "\<forall>f\<in>set t. (wf_watch f, wf_account f) \<in> watch_keys ?d"
    proof
      fix f assume "f \<in> set t"
      then have "f \<in> set (t_watch_feeds d) \<or> f \<in> set ?rows" unfolding t by simp
      then show "(wf_watch f, wf_account f) \<in> watch_keys ?d"
        unfolding wk using ok new_feeds_row by (auto simp: refs_ok_def)
    qed
    moreover have "distinct (map w_id (t_watches ?d))" using ok fresh by (simp add: refs_ok_def)
    moreover have "\<forall>x\<in>set (t_watches ?d). \<exists>p\<in>set (t_paths ?d). path_id p = w_path x \<and> path_account p = w_account x \<and>
        path_watch p = w_id x" using ok unfolding refs_ok_def by auto
    ultimately have ok1: "refs_ok ?d"
      using ok unfolding refs_ok_def wk pk by (auto simp: action_keys_def)
    show ?thesis
    proof (cases "replace_chain E account (path_id ?p) specs acquired ?d")
      case (Inl e)
      with c Inr ok1 show ?thesis by (simp add: create_watch_def Let_def)
    next
      case r: (Inr d2)
      with c Inr have "d' = d2" by (simp add: create_watch_def Let_def)
      moreover have "(path_id ?p, account) \<in> path_keys ?d" unfolding pk by simp
      ultimately show ?thesis using refs_ok_replace_chain[OF ok1 r] by simp
    qed
  qed
qed

lemma refs_ok_set_active:
  assumes "refs_ok d" "set_active account w b d = Inr (d', w')"
  shows "refs_ok d'"
proof -
  from assms(2) obtain t where t: "save_row (\<lambda>x. w_id x = w_id w) (\<lambda>x. x\<lparr>w_active := b\<rparr>) (t_watches d) = Inr t"
    "d' = d\<lparr>t_watches := t\<rparr>"
    by (cases "save_row (\<lambda>x. w_id x = w_id w) (\<lambda>x. x\<lparr>w_active := b\<rparr>) (t_watches d)")
       (auto simp: set_active_def split: if_splits)
  show ?thesis unfolding t(2) using refs_ok_save_watch[OF assms(1) t(1)] by simp
qed

lemma refs_ok_set_config:
  assumes ok: "refs_ok d" and s: "set_config E account a spec dry_run d = Inr (d', a')"
  shows "refs_ok d'"
proof (cases "d' = d")
  case False
  from s obtain merged where e: "edited_config E a spec = Inr merged"
    by (auto simp: set_config_def res_bind_Inr_iff split: if_splits)
  from s False have g: "act_account a = account" "\<not> dry_run" "qcount (\<lambda>x. act_id x = act_id a) (t_actions d) \<noteq> 0"
    by (auto simp: set_config_def e Let_def split: if_splits)
  with s e have m: "d' = d\<lparr>t_actions := qupdate (\<lambda>x. act_id x = act_id a)
         (\<lambda>x. x\<lparr>act_kind := ai_kind spec, act_config := env_dump E merged\<rparr>) (t_actions d),
       t_windows := (if is_digest merged then t_windows d else clear_digest_windows account [act_id a] (t_windows d))\<rparr>"
    by (simp add: set_config_def Let_def)
  let ?ws = "if is_digest merged then t_windows d else clear_digest_windows account [act_id a] (t_windows d)"
  let ?f = "\<lambda>x. x\<lparr>act_kind := ai_kind spec, act_config := env_dump E merged\<rparr>"
  have o: "map owner (qupdate (\<lambda>x. act_id x = act_id a) ?f (t_actions d)) = map owner (t_actions d)"
    by (rule map_qupdate) (simp add: owner_def)
  have "refs_ok (d\<lparr>t_actions := qupdate (\<lambda>x. act_id x = act_id a) ?f (t_actions d), t_windows := ?ws, next_id := next_id d\<rparr>)"
    by (rule refs_ok_actions[OF ok, of _ account "{}" "[]"]) (simp_all add: o clear_digest_windows_def)
  then show ?thesis by (simp add: m)
qed (use ok in simp)

lemma refs_ok_add_action:
  assumes ok: "refs_ok d" and a: "add_action E account path spec rank acquired d = Inr (d', i)"
    and p: "(path, account) \<in> path_keys d"
  shows "refs_ok d'"
proof -
  from a obtain new t ordered t' where t: "insert_row new (t_actions d) = Inr t" "renumber ordered t = Inr t'"
    "d' = d\<lparr>t_actions := t', next_id := Suc (next_id d)\<rparr>" "act_account new = account" "act_path new = path"
    by (auto simp: add_action_def Let_def res_bind_Inr_iff split: if_splits)
  have "t = t_actions d @ [new]" using t(1) by (auto simp: insert_row_def split: if_splits)
  with renumber_owner[OF t(2)] have "map owner t' = map owner (filter (\<lambda>a. \<not> (act_account a = account \<and> act_id a \<in> {})) (t_actions d)) @ [owner new]"
    by simp
  from refs_ok_actions[OF ok this, where ws = "t_windows d" and path = path and m = "Suc (next_id d)"] t p
  show ?thesis by (simp add: owner_def)
qed

lemma refs_ok_remove_action:
  assumes ok: "refs_ok d" and r: "remove_action account a acquired d = Inr d'"
    and a: "a \<in> set (t_actions d)" "distinct (map act_id (t_actions d))"
  shows "refs_ok d'"
proof -
  let ?gone = "{act_id a}"
  have acc: "act_account a = account" using r by (auto simp: remove_action_def split: if_splits)
  let ?t = "qdelete (\<lambda>x. act_id x = act_id a) (t_actions d)"
  from r acc obtain t' where t: "renumber (list_for_path account (act_path a) ?t) ?t = Inr t'"
    "d' = d\<lparr>t_actions := t', t_windows := clear_digest_windows account [act_id a] (t_windows d)\<rparr>"
    by (auto simp: remove_action_def Let_def res_bind_Inr_iff split: if_splits)
  have "?t = filter (\<lambda>x. \<not> (act_account x = account \<and> act_id x \<in> ?gone)) (t_actions d)"
    unfolding qdelete_def using distinct_key_unique[OF a(2) _ a(1)] acc by (intro filter_cong) auto
  with renumber_owner[OF t(1)]
  have "map owner t' = map owner (filter (\<lambda>x. \<not> (act_account x = account \<and> act_id x \<in> ?gone)) (t_actions d)) @ []"
    by simp
  from refs_ok_actions[OF ok this, where ws = "clear_digest_windows account [act_id a] (t_windows d)"
      and path = "act_path a" and m = "next_id d"]
  show ?thesis unfolding t(2) by (auto simp: clear_digest_windows_def)
qed


lemma refs_ok_enqueue:
  assumes ok: "refs_ok d" and w: "w \<in> set (t_watches d)" and "distinct ids"
    and e: "enqueue_many gen (w_account w) (w_id w) act kind sc ids d = Inr (d', n)"
  shows "refs_ok d'"
proof -
  let ?f = "missing (w_account w) (w_id w) act (t_runs d) ids"
  let ?new = "new_rows gen (w_account w) (w_id w) act kind sc (next_id d) ?f"
  have d': "d' = d\<lparr>t_runs := t_runs d @ ?new, next_id := next_id d + length ?f\<rparr>"
    using e[unfolded enqueue_many_spec[OF assms(3)] Let_def] by auto
  have "(run_watch r, run_account r) \<in> watch_keys d" if "r \<in> set ?new" for r
    using that watch_keysI[OF w] by (auto elim!: new_rows_cases)
  then show ?thesis using ok unfolding d' by (auto simp: refs_ok_def watch_keys_def path_keys_def action_keys_def)
qed

text \<open>Any sequence of writes of the watch API and of enqueues for a watch. A view reads the row
  it edits (\<open>w \<in> set (t_watches d)\<close>) and ids are primary keys.\<close>

inductive watch_step :: "env \<Rightarrow> db \<Rightarrow> db \<Rightarrow> bool" for E where
  create: "env_gen E (next_id d) \<notin> w_id ` set (t_watches d) \<Longrightarrow>
    create_watch E account user name is_active fids specs acquired d = (d', r) \<Longrightarrow> watch_step E d d'"
| update: "w \<in> set (t_watches d) \<Longrightarrow>
    update_watch E account w name is_active fids specs acquired d = (d', r) \<Longrightarrow> watch_step E d d'"
| toggle: "set_active account w b d = Inr (d', w') \<Longrightarrow> watch_step E d d'"
| delete: "w \<in> set (t_watches d) \<Longrightarrow> delete_watch account w d = Inr d' \<Longrightarrow> watch_step E d d'"
| add: "w \<in> set (t_watches d) \<Longrightarrow>
    add_action E (w_account w) (w_path w) spec rank acquired d = Inr (d', i) \<Longrightarrow> watch_step E d d'"
| edit: "set_config E account a spec dry_run d = Inr (d', a') \<Longrightarrow> watch_step E d d'"
| remove: "a \<in> set (t_actions d) \<Longrightarrow> distinct (map act_id (t_actions d)) \<Longrightarrow>
    remove_action account a acquired d = Inr d' \<Longrightarrow> watch_step E d d'"
| queue: "w \<in> set (t_watches d) \<Longrightarrow> distinct ids \<Longrightarrow>
    enqueue_many (env_gen E) (w_account w) (w_id w) act kind sc ids d = Inr (d', n) \<Longrightarrow> watch_step E d d'"

inductive watch_reach :: "env \<Rightarrow> db \<Rightarrow> bool" for E where
  empty: "watch_reach E empty_db"
| step: "watch_reach E d \<Longrightarrow> watch_step E d d' \<Longrightarrow> watch_reach E d'"

lemma watch_step_refs: "watch_step E d d' \<Longrightarrow> refs_ok d \<Longrightarrow> refs_ok d'"
proof (induction rule: watch_step.induct)
  case (create d account user name is_active fids specs acquired d' r)
  then show ?case by (metis refs_ok_create)
next
  case (delete w d account d')
  then show ?case using refs_ok_delete by blast
next
  case (add w d spec rank acquired d' i)
  then show ?case using refs_ok_add_action refs_watch_path by blast
next
  case (queue w d ids act kind sc d' n)
  then show ?case using refs_ok_enqueue by blast
qed (blast intro: refs_ok_update refs_ok_set_active refs_ok_set_config refs_ok_remove_action)+

subsection \<open>Properties\<close>

text \<open>C17: whatever sequence of creates, edits, pauses, deletes, chain edits and enqueues runs
  from an empty database, no row dangles: every path, subscription and run names a watch of
  its own account, every action a path, every digest window an action, every watch its path.\<close>

theorem references_always_hold:
  assumes "watch_reach E d"
  shows "refs_ok d"
  using assms
proof (induction rule: watch_reach.induct)
  case empty
  then show ?case by (simp add: refs_ok_def empty_db_def)
next
  case (step d d')
  then show ?case by (blast intro: watch_step_refs)
qed

definition one_watch :: db where
  "one_watch = fst (create_watch sample_env ''acc'' ''u'' ''n'' True [''f1'', ''f2'', ''f1'']
     [sample_input None] True empty_db)"

lemma one_watch_reach: "watch_reach sample_env one_watch"
proof (rule watch_reach.step[OF watch_reach.empty])
  show "watch_step sample_env empty_db one_watch"
    unfolding one_watch_def
    by (rule watch_step.create[OF _ surjective_pairing]) (simp add: empty_db_def)
qed

theorem references_always_hold_witness: "refs_ok one_watch \<and> length (t_actions one_watch) = 1"
proof
  show "refs_ok one_watch" by (rule references_always_hold [OF one_watch_reach])
  show "length (t_actions one_watch) = 1" by code_simp
qed


text \<open>Deleting a watch takes everything under it, and nothing else. No run, subscription or
  path of the watch is left and no row dangles; the runs, subscriptions and paths of every
  other watch stay, with the actions of those paths and their digest windows, and so do the
  items, the feeds and the delivery audit.\<close>

theorem delete_watch_takes_exactly_its_rows:
  assumes "refs_ok d" "w \<in> set (t_watches d)" "delete_watch account w d = Inr d'"
    and "distinct (map path_id (t_paths d))" "distinct (map act_id (t_actions d))"
  shows "refs_ok d' \<and> w_id w \<notin> w_id ` set (t_watches d') \<and>
    {r \<in> set (t_runs d). run_watch r \<noteq> w_id w} = set (t_runs d') \<and>
    {f \<in> set (t_watch_feeds d). wf_watch f \<noteq> w_id w} = set (t_watch_feeds d') \<and>
    {p \<in> set (t_paths d). path_watch p \<noteq> w_id w} = set (t_paths d') \<and>
    {a \<in> set (t_actions d). \<exists>p\<in>set (t_paths d'). path_id p = act_path a} = set (t_actions d') \<and>
    {x \<in> set (t_windows d). \<exists>a\<in>set (t_actions d'). act_id a = win_action x} = set (t_windows d') \<and>
    t_items d' = t_items d \<and> t_feeds d' = t_feeds d \<and> t_deliveries d' = t_deliveries d"
proof -
  let ?own_path = "\<lambda>p. path_account p = account \<and> path_watch p = w_id w"
  let ?pids = "map path_id (filter ?own_path (t_paths d))"
  have acc: "w_account w = account" using assms(3) by (auto simp: delete_watch_def split: if_splits)
  have ok': "refs_ok d'" "w_id w \<notin> w_id ` set (t_watches d')" using refs_ok_delete[OF assms(1-3)] by auto
  have mine: "a = account" if "(w_id w, a) \<in> watch_keys d" for a
    using watch_account_unique[OF assms(1) that watch_keysI[OF assms(2)]] acc by simp
  note fr = delete_watch_rows[OF assms(3)]
  have gone: "(w_id w, a) \<notin> watch_keys d'" for a using ok'(2) by (force simp: watch_keys_def)
  have runs: "{r \<in> set (t_runs d). run_watch r \<noteq> w_id w} = set (t_runs d')"
    using assms(1) mine fr(1) unfolding refs_ok_def by fastforce
  have feeds: "{f \<in> set (t_watch_feeds d). wf_watch f \<noteq> w_id w} = set (t_watch_feeds d')"
    using assms(1) mine fr(2) unfolding refs_ok_def by (fastforce simp: subscribed_def)
  have paths: "{p \<in> set (t_paths d). path_watch p \<noteq> w_id w} = set (t_paths d')"
    using assms(1) mine fr(3) unfolding refs_ok_def by fastforce
  have acts: "{a \<in> set (t_actions d). \<exists>p\<in>set (t_paths d'). path_id p = act_path a} = set (t_actions d')" (is "?L = ?R")
  proof
    show "?L \<subseteq> ?R"
    proof
      fix a assume "a \<in> ?L"
      then obtain p where a: "a \<in> set (t_actions d)" and p: "p \<in> set (t_paths d')" "path_id p = act_path a" by blast
      have "act_path a \<notin> set ?pids"
      proof
        assume "act_path a \<in> set ?pids"
        then obtain q where q: "q \<in> set (t_paths d)" "?own_path q" "path_id q = act_path a" by auto
        then have "q = p" using p fr(3) distinct_key_unique[OF assms(4)] by auto
        with q p paths show False by blast
      qed
      with a show "a \<in> ?R" using fr(4) by simp
    qed
    show "?R \<subseteq> ?L"
    proof
      fix a assume a: "a \<in> ?R"
      then have "(act_path a, act_account a) \<in> path_keys d'" using ok'(1) by (simp add: refs_ok_def)
      with a show "a \<in> ?L" using fr(4) by (auto simp: path_keys_def)
    qed
  qed
  have wins: "{x \<in> set (t_windows d). \<exists>a\<in>set (t_actions d'). act_id a = win_action x} = set (t_windows d')" (is "?L = ?R")
  proof
    show "?L \<subseteq> ?R"
    proof
      fix x assume "x \<in> ?L"
      then obtain a where x: "x \<in> set (t_windows d)" and a: "a \<in> set (t_actions d')" "act_id a = win_action x" by blast
      show "x \<in> ?R"
      proof (rule ccontr)
        assume "x \<notin> ?R"
        with x fr(5)[of x] obtain b where b: "b \<in> set (t_actions d)" "act_account b = account" "act_path b \<in> set ?pids"
          "act_id b = win_action x" by auto
        have "a \<in> set (t_actions d)" using a(1) fr(4)[of a] by blast
        then have "a = b" using distinct_key_unique[OF assms(5) _ b(1)] a(2) b(4) by metis
        with b a(1) fr(4)[of a] show False by blast
      qed
    qed
    show "?R \<subseteq> ?L"
    proof
      fix x assume x: "x \<in> ?R"
      then have "(win_action x, win_account x) \<in> action_keys d'" using ok'(1) by (simp add: refs_ok_def)
      with x show "x \<in> ?L" using fr(5) by (auto simp: action_keys_def)
    qed
  qed
  show ?thesis using ok' runs feeds paths acts wins fr(6) by blast
qed


definition two_watches :: db where
  "two_watches = fst (create_watch sample_env ''acc'' ''u'' ''m'' True [''f1'']
     [sample_input None, sample_input None] True one_watch)"

definition first_watch :: watch where
  "first_watch = hd (t_watches two_watches)"

theorem delete_watch_takes_exactly_its_rows_witness:
  "\<exists>d'. delete_watch ''acc'' first_watch two_watches = Inr d' \<and> refs_ok d' \<and>
     w_id first_watch \<notin> w_id ` set (t_watches d') \<and>
     {p \<in> set (t_paths two_watches). path_watch p \<noteq> w_id first_watch} = set (t_paths d')"
proof -
  have "case delete_watch ''acc'' first_watch two_watches of Inl _ \<Rightarrow> False | Inr _ \<Rightarrow> True" by code_simp
  then obtain d' where d': "delete_watch ''acc'' first_watch two_watches = Inr d'" by (auto split: sum.splits)
  have 1: "refs_ok two_watches" by code_simp
  have 2: "first_watch \<in> set (t_watches two_watches)" by code_simp
  have 3: "distinct (map path_id (t_paths two_watches))" by code_simp
  have 4: "distinct (map act_id (t_actions two_watches))" by code_simp
  show ?thesis using d' delete_watch_takes_exactly_its_rows [OF 1 2 d' 3 4] by blast
qed

text \<open>C18: an edit that gets past its guards leaves the watch subscribed to exactly the submitted
  feeds, each once; a subscription that survives the edit keeps its row and so its watermark, a
  new one starts from a blank watermark, other watches' subscriptions are untouched and no run
  is, and all this even when the chain replace after it fails.\<close>

theorem edit_keeps_watermarks:
  assumes "feeds_ok (t_watch_feeds d)" "w \<in> set (t_watches d)" "w_account w = account" "w_path w \<noteq> ''''"
    and u: "update_watch E account w name is_active fids specs acquired d = (d', r)"
  shows "wf_feed ` set (filter (subscribed account (w_id w)) (t_watch_feeds d')) = set fids \<and>
    distinct (map wf_feed (filter (subscribed account (w_id w)) (t_watch_feeds d'))) \<and>
    (\<forall>f\<in>set (t_watch_feeds d). subscribed account (w_id w) f \<longrightarrow> wf_feed f \<in> set fids \<longrightarrow> f \<in> set (t_watch_feeds d')) \<and>
    (\<forall>f\<in>set (t_watch_feeds d'). subscribed account (w_id w) f \<longrightarrow> f \<in> set (t_watch_feeds d) \<or> wf_last_item f = '''') \<and>
    filter (\<lambda>f. \<not> subscribed account (w_id w) f) (t_watch_feeds d') =
      filter (\<lambda>f. \<not> subscribed account (w_id w) f) (t_watch_feeds d) \<and>
    t_runs d' = t_runs d"
proof -
  let ?t = "t_watch_feeds d"
  let ?f = "\<lambda>x. x\<lparr>w_name := name, w_active := is_active\<rparr>"
  let ?t1 = "qupdate (\<lambda>x. w_id x = w_id w) ?f (t_watches d)"
  have s: "save_row (\<lambda>x. w_id x = w_id w) ?f (t_watches d) = Inr ?t1"
    using assms(2) by (auto simp: save_row_def qcount_0_iff)
  obtain add where add: "set add = set fids - wf_feed ` set (filter (subscribed account (w_id w)) ?t)" "distinct add"
    and f: "set_feeds (env_gen E) account (?f w) fids (d\<lparr>t_watches := ?t1\<rparr>) =
      Inr (d\<lparr>t_watches := ?t1, t_watch_feeds := filter (kept_feed account (w_id w) fids) ?t @
               new_feeds (env_gen E) (next_id d) account (w_id w) add,
             next_id := next_id d + length add\<rparr>)"
    using set_feeds_spec[where d = "d\<lparr>t_watches := ?t1\<rparr>" and account = account and w = "?f w" and gen = "env_gen E" and fids = fids] assms(1) by auto
  let ?new = "new_feeds (env_gen E) (next_id d) account (w_id w) add"
  have d': "t_watch_feeds d' = filter (kept_feed account (w_id w) fids) ?t @ ?new \<and> t_runs d' = t_runs d"
  proof -
    let ?d1 = "d\<lparr>t_watches := ?t1, t_watch_feeds := filter (kept_feed account (w_id w) fids) ?t @ ?new,
             next_id := next_id d + length add\<rparr>"
    have e: "update_watch E account w name is_active fids specs acquired d =
        (case replace_chain E account (w_path w) specs acquired ?d1 of Inl e \<Rightarrow> (?d1, Inl e) | Inr d2 \<Rightarrow> (d2, Inr (?f w)))"
      using s f assms(3,4) by (simp add: update_watch_def Let_def)
    show ?thesis
    proof (cases "replace_chain E account (w_path w) specs acquired ?d1")
      case (Inl x)
      with u e have "d' = ?d1" by simp
      then show ?thesis by simp
    next
      case (Inr d2)
      with u e have "d' = d2" by simp
      moreover obtain ts ws m where "d2 = ?d1\<lparr>t_actions := ts, t_windows := ws, next_id := m\<rparr>"
        using replace_chain_owner[OF Inr] by blast
      ultimately show ?thesis by simp
    qed
  qed
  have sub: "filter (subscribed account (w_id w)) ?new = ?new"
    using new_feeds_row by (auto simp: filter_id_conv subscribed_def)
  have own: "filter (subscribed account (w_id w)) (t_watch_feeds d') =
      filter (\<lambda>f. wf_feed f \<in> set fids) (filter (subscribed account (w_id w)) ?t) @ ?new"
    using d' sub by (auto simp: kept_feed_def intro: filter_cong)
  have other: "filter (\<lambda>f. \<not> subscribed account (w_id w) f) ?new = []"
    using new_feeds_row by (auto simp: filter_empty_conv subscribed_def)
  have nf: "wf_feed ` set ?new = set add" using map_feed_new_feeds by (metis set_map)
  have dist: "distinct (map wf_feed (filter (\<lambda>f. wf_feed f \<in> set fids) (filter (subscribed account (w_id w)) ?t)))"
    using subscribed_feeds_distinct[OF assms(1)] by (rule distinct_map_filter)
  have "wf_feed ` set (filter (subscribed account (w_id w)) (t_watch_feeds d')) = set fids"
    unfolding own set_append image_Un nf add(1) by auto
  moreover have "distinct (map wf_feed (filter (subscribed account (w_id w)) (t_watch_feeds d')))"
    unfolding own map_append distinct_append map_feed_new_feeds set_map using dist add by auto
  moreover have "filter (\<lambda>f. \<not> subscribed account (w_id w) f) (t_watch_feeds d') =
      filter (\<lambda>f. \<not> subscribed account (w_id w) f) ?t"
    using d' other by (auto simp: kept_feed_def intro: filter_cong)
  moreover have "\<forall>f\<in>set (t_watch_feeds d'). subscribed account (w_id w) f \<longrightarrow> f \<in> set ?t \<or> wf_last_item f = ''''"
    using d' new_feeds_row by auto
  moreover have "\<forall>f\<in>set ?t. subscribed account (w_id w) f \<longrightarrow> wf_feed f \<in> set fids \<longrightarrow> f \<in> set (t_watch_feeds d')"
    using d' by (auto simp: kept_feed_def)
  ultimately show ?thesis using d' by blast
qed


definition seen_watch :: db where
  "seen_watch = one_watch\<lparr>t_watch_feeds := map (\<lambda>f. f\<lparr>wf_last_item := ''it''\<rparr>) (t_watch_feeds one_watch)\<rparr>"

theorem edit_keeps_watermarks_witness:
  "\<exists>f\<in>set (t_watch_feeds (fst (update_watch sample_env ''acc'' (hd (t_watches seen_watch)) ''n2'' True
      [''f2'', ''f3''] [] False seen_watch))). wf_feed f = ''f2'' \<and> wf_last_item f = ''it''"
proof -
  let ?w = "hd (t_watches seen_watch)"
  let ?u = "update_watch sample_env ''acc'' ?w ''n2'' True [''f2'', ''f3''] [] False seen_watch"
  have 1: "feeds_ok (t_watch_feeds seen_watch)" by code_simp
  have 2: "?w \<in> set (t_watches seen_watch)" by code_simp
  have 3: "w_account ?w = ''acc''" by code_simp
  have 4: "w_path ?w \<noteq> ''''" by code_simp
  have 5: "\<exists>f\<in>set (t_watch_feeds seen_watch). subscribed ''acc'' (w_id ?w) f \<and> wf_feed f = ''f2'' \<and> wf_last_item f = ''it''"
    by code_simp
  obtain d' r where u: "?u = (d', r)" by force
  have "\<forall>f\<in>set (t_watch_feeds seen_watch). subscribed ''acc'' (w_id ?w) f \<longrightarrow> wf_feed f \<in> set [''f2'', ''f3''] \<longrightarrow>
      f \<in> set (t_watch_feeds d')"
    using edit_keeps_watermarks [OF 1 2 3 4 u] by (elim conjE)
  with 5 u show ?thesis by fastforce
qed

end
