(* ===== verification/Actions.thy ===== *)
theory Actions
  imports Chain
begin

text \<open>
  The execution layer \<open>watches/actions\<close>: the inputs and outputs of one run (\<open>protocol.py\<close>),
  the shared prelude of the LLM kinds (\<open>_engine_action.py\<close>, \<open>_external.py\<close>), the four
  executors and their registry, \<open>result_enforce.py\<close>, and the delivery audit
  (\<open>services/deliveries.py\<close>). The engine, HTTP, the article fetchers, the payload registry
  and plugin executors answer through the record \<open>world\<close>. A raised exception is \<open>Inl\<close>.
  Lemmas: how an HTTP outcome is classified, that every call is recorded with its outcome,
  and that a run is not failed for missing enrichment.
\<close>

subsection \<open>Protocol\<close>

record action_item =
  it_data :: json
  it_key :: string
  it_label :: string
  it_kind :: string
  it_meta :: json

record action_context =
  cx_watch :: ulid
  cx_watch_name :: string
  cx_delivery :: cadence
  cx_since :: "datetime option"
  cx_until :: "datetime option"

record outbound_call =
  ob_host :: string
  ob_method :: string
  ob_status :: "int option"
  ob_count :: nat
  ob_payload :: json

text \<open>\<open>ar_outbound = Some call\<close> is the subclass \<open>OutboundActionResult\<close>.\<close>

record action_result =
  ar_state :: run_state
  ar_result :: json
  ar_error :: string
  ar_outbound :: "outbound_call option"

definition plain_result :: "run_state \<Rightarrow> json \<Rightarrow> string \<Rightarrow> action_result" where
  "plain_result st res err = \<lparr>ar_state = st, ar_result = res, ar_error = err, ar_outbound = None\<rparr>"

abbreviation errored :: "string \<Rightarrow> action_result" where
  "errored err \<equiv> plain_result ERRORED (JObj []) err"

subsection \<open>The world\<close>

datatype judge_answer = Judged rat string | JudgeRejected | JudgeRaised
datatype extract_answer = Extracted "(string \<times> string) list" | ExtractRejected | ExtractRaised
datatype fetch_answer = Fetched string | FetchFailed | FetchRaised
datatype http_answer = HttpStatus int | HttpError | HttpRaised

record payload =
  pl_data :: json
  pl_article_url :: string

record world =
  w_hydrate :: "json \<Rightarrow> payload option"
  w_judge :: "json \<Rightarrow> string \<Rightarrow> string option \<Rightarrow> string option \<Rightarrow> judge_answer"
  w_extract :: "json \<Rightarrow> (string \<times> string) list \<Rightarrow> string \<Rightarrow> string option \<Rightarrow> string option \<Rightarrow> extract_answer"
  w_fetch :: "string \<Rightarrow> fetch_answer"
  w_article_text :: "string \<Rightarrow> string"
  w_bypass_configured :: bool
  w_bypass_fetch :: "string \<Rightarrow> string option"
  w_http :: "string \<Rightarrow> string \<Rightarrow> (string \<times> string) list \<Rightarrow> json \<Rightarrow> http_answer"
  w_str :: "json \<Rightarrow> string"
  w_iso :: "datetime \<Rightarrow> string"
  w_plugin :: "string \<Rightarrow> (action \<Rightarrow> action_item list \<Rightarrow> action_context \<Rightarrow> action_result result) option"
  w_result_schema :: "string \<Rightarrow> json \<Rightarrow> bool"

subsection \<open>Linked-article enrichment\<close>

datatype content_status =
    NOT_APPLICABLE | DISABLED | INCLUDED | INCLUDED_VIA_FALLBACK | UNAVAILABLE | MISSING

fun status_value :: "content_status \<Rightarrow> string" where
  "status_value NOT_APPLICABLE = ''not_applicable''"
| "status_value DISABLED = ''disabled''"
| "status_value INCLUDED = ''included''"
| "status_value INCLUDED_VIA_FALLBACK = ''included_via_fallback''"
| "status_value UNAVAILABLE = ''unavailable''"
| "status_value MISSING = ''missing''"

definition is_fetchable_web_url :: "string \<Rightarrow> bool" where
  "is_fetchable_web_url url =
     (case urlsplit url of
        None \<Rightarrow> False
      | Some parts \<Rightarrow> scheme parts \<in> {''http'', ''https''} \<and> hostname parts \<noteq> None)"

definition non_empty :: "string \<Rightarrow> string option" where
  "non_empty s = (if s = '''' then None else Some s)"

definition challenge_fallback :: "env \<Rightarrow> world \<Rightarrow> string \<Rightarrow> string option" where
  "challenge_fallback E W url =
     (if \<not> w_bypass_configured W then None
      else if \<not> is_fetchable_web_url url then None
      else case destination_block_reason (env_dns E) url False True True of
        Some _ \<Rightarrow> None
      | None \<Rightarrow>
          (case w_bypass_fetch W url of
             None \<Rightarrow> None
           | Some html \<Rightarrow> non_empty (w_article_text W html)))"

definition resolve_external_content ::
  "env \<Rightarrow> world \<Rightarrow> bool \<Rightarrow> string \<Rightarrow> (string option \<times> content_status) result" where
  "resolve_external_content E W enabled url =
     (if \<not> enabled then Inr (None, DISABLED)
      else if url = '''' then Inr (None, NOT_APPLICABLE)
      else
        let recover = (\<lambda>status. case challenge_fallback E W url of
                         Some text \<Rightarrow> Inr (Some text, INCLUDED_VIA_FALLBACK)
                       | None \<Rightarrow> Inr (None, status))
        in case w_fetch W url of
          FetchRaised \<Rightarrow> Inl UnexpectedError
        | FetchFailed \<Rightarrow> recover UNAVAILABLE
        | Fetched html \<Rightarrow>
            (case non_empty (w_article_text W html) of
               Some text \<Rightarrow> Inr (Some text, INCLUDED)
             | None \<Rightarrow> recover MISSING))"

subsection \<open>The LLM kinds\<close>

record prepared =
  pr_config :: config
  pr_engine :: engine_spec
  pr_payload :: json
  pr_external :: "string option"
  pr_status :: content_status

definition fetch_enabled :: "config \<Rightarrow> bool" where
  "fetch_enabled c = (case c of
     SemanticFilterConfig f \<Rightarrow> sf_fetch f | ExtractConfig x \<Rightarrow> ex_fetch x | _ \<Rightarrow> False)"

text \<open>\<open>_prepare\<close>: \<open>Inr (Inl r)\<close> is the terminal \<open>ActionResult\<close> of a permanent defect.\<close>

definition prepare ::
  "env \<Rightarrow> world \<Rightarrow> action \<Rightarrow> action_item list \<Rightarrow> (action_result + prepared) result" where
  "prepare E W a items =
     (case items of
        [it] \<Rightarrow>
          (case load_config E a of
             Inl ValidationError \<Rightarrow> Inr (Inl (errored CONFIG_INVALID))
           | Inl e \<Rightarrow> Inl e
           | Inr c \<Rightarrow>
               (case engine_of c of
                  None \<Rightarrow> Inl AssertionError
                | Some spec \<Rightarrow>
                    (case w_hydrate W (it_data it) of
                       None \<Rightarrow> Inr (Inl (errored ITEM_UNREADABLE))
                     | Some p \<Rightarrow>
                         if \<not> engine_registered (en_kind spec)
                         then Inr (Inl (errored ENGINE_UNAVAILABLE))
                         else
                           res_bind (resolve_external_content E W (fetch_enabled c) (pl_article_url p))
                             (\<lambda>(content, st).
                               Inr (Inr \<lparr>pr_config = c, pr_engine = spec, pr_payload = pl_data p,
                                          pr_external = content, pr_status = st\<rparr>)))))
      | _ \<Rightarrow> Inl AssertionError)"

definition run_semantic_filter ::
  "env \<Rightarrow> world \<Rightarrow> action \<Rightarrow> action_item list \<Rightarrow> action_result result" where
  "run_semantic_filter E W a items =
     res_bind (prepare E W a items) (\<lambda>p. case p of
       Inl r \<Rightarrow> Inr r
     | Inr q \<Rightarrow>
         (case pr_config q of
            SemanticFilterConfig f \<Rightarrow>
              (case w_judge W (pr_payload q) (sf_instructions f) (non_empty (en_model (pr_engine q)))
                      (pr_external q) of
                 JudgeRaised \<Rightarrow> Inl UnexpectedError
               | JudgeRejected \<Rightarrow> Inr (errored ENGINE_REJECTED)
               | Judged score reason \<Rightarrow>
                   if score < 0 \<or> 1 < score then Inl ValidationError
                   else
                     let passed = sf_threshold f \<le> score
                     in Inr (plain_result (if passed then SUCCEEDED else GATED)
                          (JObj [(''passed'', JBool passed), (''score'', JFloat score),
                                 (''reason'', JStr reason),
                                 (''enrichment_status'', JStr (status_value (pr_status q)))]) ''''))
          | _ \<Rightarrow> Inl AssertionError))"

definition filled_fields :: "(string \<times> string) list \<Rightarrow> (string \<times> string) list \<Rightarrow> nat" where
  "filled_fields extracted fs =
     qcount (\<lambda>(name, _). strip (case map_of extracted name of None \<Rightarrow> '''' | Some v \<Rightarrow> v) \<noteq> '''') fs"

definition extract_status :: "(string \<times> string) list \<Rightarrow> (string \<times> string) list \<Rightarrow> string" where
  "extract_status extracted fs =
     (let n = filled_fields extracted fs
      in if n = 0 then ''empty'' else if n = length fs then ''complete'' else ''partial'')"

definition run_extract ::
  "env \<Rightarrow> world \<Rightarrow> action \<Rightarrow> action_item list \<Rightarrow> action_result result" where
  "run_extract E W a items =
     res_bind (prepare E W a items) (\<lambda>p. case p of
       Inl r \<Rightarrow> Inr r
     | Inr q \<Rightarrow>
         (case pr_config q of
            ExtractConfig x \<Rightarrow>
              (case w_extract W (pr_payload q) (ex_fields x) (ex_instructions x)
                      (non_empty (en_model (pr_engine q))) (pr_external q) of
                 ExtractRaised \<Rightarrow> Inl UnexpectedError
               | ExtractRejected \<Rightarrow> Inr (errored ENGINE_REJECTED)
               | Extracted vs \<Rightarrow>
                   Inr (plain_result SUCCEEDED
                     (JObj [(''extracted'', JObj (map (\<lambda>(k, v). (k, JStr v)) vs)),
                            (''status'', JStr (extract_status vs (ex_fields x))),
                            (''enrichment_status'', JStr (status_value (pr_status q)))]) ''''))
          | _ \<Rightarrow> Inl AssertionError))"

subsection \<open>Delivery kinds\<close>

definition json_truthy :: "json \<Rightarrow> bool" where
  "json_truthy j = (case j of
     JNull \<Rightarrow> False | JBool b \<Rightarrow> b | JInt n \<Rightarrow> n \<noteq> 0 | JFloat r \<Rightarrow> r \<noteq> 0 | JStr s \<Rightarrow> s \<noteq> ''''
   | JArr xs \<Rightarrow> xs \<noteq> [] | JObj kvs \<Rightarrow> kvs \<noteq> [])"

definition dict_items :: "json \<Rightarrow> (string \<times> json) list" where
  "dict_items j = (case j of JObj kvs \<Rightarrow> kvs | _ \<Rightarrow> [])"

definition join :: "string \<Rightarrow> string list \<Rightarrow> string" where
  "join sep xs = (case xs of [] \<Rightarrow> '''' | y # ys \<Rightarrow> y @ concat (map (\<lambda>z. sep @ z) ys))"

definition rstrip :: "string \<Rightarrow> string" where
  "rstrip s = rev (dropWhile py_space (rev s))"

definition render_item :: "world \<Rightarrow> log_config \<Rightarrow> json \<Rightarrow> string" where
  "render_item W c d =
     (let kvs = dict_items d;
          fields = (if lg_include c = [] then map fst kvs else lg_include c);
          shown = join '' | ''
            (concat (map (\<lambda>f. case map_of kvs f of
               None \<Rightarrow> []
             | Some v \<Rightarrow> if json_truthy v then [f @ ''='' @ w_str W v] else []) fields))
      in rstrip (lg_prefix c @ '' '' @ shown))"

definition render_log :: "world \<Rightarrow> log_config \<Rightarrow> action_item list \<Rightarrow> string" where
  "render_log W c items =
     (if length items = 1 then render_item W c (it_data (hd items))
      else
        let n = show_nat (length items);
            lines = map (\<lambda>(i, it). render_item W c (it_data it) @ '' ('' @ show_nat (i + 1) @ ''/'' @ n @ '')'')
                      (zip [0..<length items] items)
        in lg_prefix c @ '' digest of '' @ n @ '':'' @ [CHR 10] @ join [CHR 10] lines)"

definition run_log :: "env \<Rightarrow> world \<Rightarrow> action \<Rightarrow> action_item list \<Rightarrow> action_result result" where
  "run_log E W a items =
     (case load_config E a of
        Inl ValidationError \<Rightarrow> Inr (errored CONFIG_INVALID)
      | Inl e \<Rightarrow> Inl e
      | Inr (LogConfig c) \<Rightarrow>
          Inr (plain_result SUCCEEDED (JObj [(''rendered'', JStr (render_log W c items))]) '''')
      | Inr _ \<Rightarrow> Inl AssertionError)"

definition RETRYABLE_4XX :: "int list" where "RETRYABLE_4XX = [408, 429]"

fun method_value :: "webhook_method \<Rightarrow> string" where
  "method_value POST = ''POST''"
| "method_value PUT = ''PUT''"
| "method_value PATCH = ''PATCH''"

text \<open>\<open>pattern_id: str | None\<close>: any other JSON value fails the payload's validation.\<close>

definition pattern_id_ok :: "action_item \<Rightarrow> bool" where
  "pattern_id_ok it =
     (case map_of (dict_items (it_meta it)) ''pattern_id'' of
        None \<Rightarrow> True | Some JNull \<Rightarrow> True | Some (JStr _) \<Rightarrow> True | Some _ \<Rightarrow> False)"

definition filtered :: "json \<Rightarrow> string list \<Rightarrow> json" where
  "filtered d include =
     (if include = [] then d
      else JObj (concat (map (\<lambda>k. case map_of (dict_items d) k of None \<Rightarrow> [] | Some v \<Rightarrow> [(k, v)])
                   (dedupe include))))"

definition payload_item :: "webhook_config \<Rightarrow> action_item \<Rightarrow> json" where
  "payload_item c it =
     JObj [(''key'', JStr (it_key it)),
           (''source'', JObj [(''label'', JStr (it_label it)), (''kind'', JStr (it_kind it)),
              (''pattern_id'', case map_of (dict_items (it_meta it)) ''pattern_id'' of
                                 None \<Rightarrow> JNull | Some v \<Rightarrow> v)]),
           (''item'', filtered (it_data it) (wh_include c))]"

fun cadence_value :: "cadence \<Rightarrow> string" where
  "cadence_value INSTANT = ''instant''"
| "cadence_value DIGEST = ''digest''"

definition build_payload ::
  "world \<Rightarrow> action \<Rightarrow> webhook_config \<Rightarrow> action_item list \<Rightarrow> action_context \<Rightarrow> json result" where
  "build_payload W a c items cx =
     (if \<not> list_all pattern_id_ok items then Inl ValidationError
      else Inr (JObj
        [(''watch'', JObj [(''id'', JStr (cx_watch cx)), (''name'', JStr (cx_watch_name cx))]),
         (''action_id'', JStr (act_id a)),
         (''delivery'', JStr (cadence_value (cx_delivery cx))),
         (''window'', case (cx_since cx, cx_until cx) of
             (Some s, Some u) \<Rightarrow> JObj [(''since'', JStr (w_iso W s)), (''until'', JStr (w_iso W u))]
           | _ \<Rightarrow> JNull),
         (''items'', JArr (map (payload_item c) items))]))"

definition http_status_result :: "int \<Rightarrow> json" where
  "http_status_result s = JObj [(''http_status'', JInt s)]"

definition classify_status :: "int \<Rightarrow> (int option \<Rightarrow> outbound_call) \<Rightarrow> action_result" where
  "classify_status status make_call =
     (if 300 \<le> status \<and> status < 400 then
        \<lparr>ar_state = ERRORED, ar_result = http_status_result status, ar_error = WEBHOOK_REDIRECT,
         ar_outbound = Some (make_call (Some status))\<rparr>
      else if 400 \<le> status \<and> status < 500 \<and> status \<notin> set RETRYABLE_4XX then
        \<lparr>ar_state = ERRORED, ar_result = http_status_result status, ar_error = WEBHOOK_REJECTED,
         ar_outbound = Some (make_call (Some status))\<rparr>
      else
        \<lparr>ar_state = FAILED, ar_result = JObj [], ar_error = TRANSIENT,
         ar_outbound = Some (make_call (Some status))\<rparr>)"

text \<open>\<open>raise_for_status\<close> lets exactly the 2xx through.\<close>

definition deliver ::
  "env \<Rightarrow> world \<Rightarrow> webhook_config \<Rightarrow> action_item list \<Rightarrow> json \<Rightarrow> action_result result" where
  "deliver E W c items body =
     (case urlsplit (wh_url c) of
        None \<Rightarrow> Inl ValueError
      | Some parts \<Rightarrow>
          let host = (case hostname parts of None \<Rightarrow> '''' | Some h \<Rightarrow> h);
              make_call = (\<lambda>s. \<lparr>ob_host = host, ob_method = method_value (wh_method c), ob_status = s,
                               ob_count = length items, ob_payload = body\<rparr>)
          in case destination_block_reason (env_dns E) (wh_url c) (WEBHOOK_REQUIRE_HTTPS (env_cfg E))
                    (WEBHOOK_BLOCK_PRIVATE_IPS (env_cfg E)) True of
               Some _ \<Rightarrow>
                 Inr \<lparr>ar_state = ERRORED, ar_result = JObj [], ar_error = WEBHOOK_BLOCKED,
                      ar_outbound = Some (make_call None)\<rparr>
             | None \<Rightarrow>
                 (case w_http W (method_value (wh_method c)) (wh_url c) (wh_headers c) body of
                    HttpRaised \<Rightarrow> Inl UnexpectedError
                  | HttpError \<Rightarrow>
                      Inr \<lparr>ar_state = FAILED, ar_result = JObj [], ar_error = TRANSIENT,
                           ar_outbound = Some (make_call None)\<rparr>
                  | HttpStatus s \<Rightarrow>
                      if 200 \<le> s \<and> s < 300
                      then Inr \<lparr>ar_state = SUCCEEDED, ar_result = http_status_result s, ar_error = '''',
                                ar_outbound = Some (make_call (Some s))\<rparr>
                      else Inr (classify_status s make_call)))"

definition run_webhook ::
  "env \<Rightarrow> world \<Rightarrow> action \<Rightarrow> action_item list \<Rightarrow> action_context \<Rightarrow> action_result result" where
  "run_webhook E W a items cx =
     (case load_config E a of
        Inl ValidationError \<Rightarrow> Inr (errored CONFIG_INVALID)
      | Inl e \<Rightarrow> Inl e
      | Inr (WebhookConfig c) \<Rightarrow>
          res_bind (build_payload W a c items cx) (\<lambda>body. deliver E W c items body)
      | Inr _ \<Rightarrow> Inl AssertionError)"

subsection \<open>Registry and result schema\<close>

text \<open>\<open>actions_registry.get\<close>: None is the KeyError of a kind without an executor.\<close>

definition executor ::
  "env \<Rightarrow> world \<Rightarrow> string \<Rightarrow> (action \<Rightarrow> action_item list \<Rightarrow> action_context \<Rightarrow> action_result result) option" where
  "executor E W kind =
     (if kind = KIND_SEMANTIC_FILTER then Some (\<lambda>a items cx. run_semantic_filter E W a items)
      else if kind = KIND_EXTRACT then Some (\<lambda>a items cx. run_extract E W a items)
      else if kind = KIND_WEBHOOK then Some (run_webhook E W)
      else if kind = KIND_LOG then Some (\<lambda>a items cx. run_log E W a items)
      else w_plugin W kind)"

text \<open>Only plugin kinds have a registered result schema (\<open>register_result\<close> refuses a
  built-in); any exception of the validator counts as a violation.\<close>

definition result_conforms :: "world \<Rightarrow> string \<Rightarrow> json \<Rightarrow> bool" where
  "result_conforms W kind res \<longleftrightarrow> kind \<in> set BUILTIN_ACTION_KINDS \<or> w_result_schema W kind res"

definition enforce_result_schema :: "world \<Rightarrow> string \<Rightarrow> action_result \<Rightarrow> action_result" where
  "enforce_result_schema W kind r =
     (if ar_state r \<noteq> SUCCEEDED then r
      else if result_conforms W kind (ar_result r) then r
      else r\<lparr>ar_state := ERRORED, ar_error := RESULT_INVALID\<rparr>)"

subsection \<open>Run inputs\<close>

definition watch_name :: "ulid \<Rightarrow> db \<Rightarrow> string" where
  "watch_name i d = (case qfirst (\<lambda>w. w_id w = i) (t_watches d) of None \<Rightarrow> '''' | Some w \<Rightarrow> w_name w)"

definition to_action_item :: "item \<Rightarrow> action_item" where
  "to_action_item i =
     \<lparr>it_data = item_data i, it_key = item_source_kind i @ '':'' @ item_external i,
      it_label = item_label i, it_kind = item_source_kind i, it_meta = item_meta i\<rparr>"

definition build_run_inputs ::
  "(run \<times> item) list \<Rightarrow> ulid \<Rightarrow> cadence \<Rightarrow> datetime option \<Rightarrow> datetime option \<Rightarrow> db \<Rightarrow>
   action_item list \<times> action_context" where
  "build_run_inputs pairs watch cad since until d =
     (map (\<lambda>(_, i). to_action_item i) pairs,
      \<lparr>cx_watch = watch, cx_watch_name = watch_name watch d, cx_delivery = cad,
       cx_since = since, cx_until = until\<rparr>)"

subsection \<open>Delivery audit\<close>

definition outcome_to_delivery :: "run_state \<Rightarrow> delivery_state" where
  "outcome_to_delivery s = (case s of
     SUCCEEDED \<Rightarrow> DELIVERY_SUCCEEDED | FAILED \<Rightarrow> DELIVERY_FAILED | _ \<Rightarrow> DELIVERY_ERRORED)"

definition record_delivery ::
  "(nat \<Rightarrow> ulid) \<Rightarrow> ulid \<Rightarrow> ulid \<Rightarrow> ulid \<Rightarrow> cadence \<Rightarrow> outbound_call \<Rightarrow> run_state \<Rightarrow> string \<Rightarrow>
   nat \<Rightarrow> datetime \<Rightarrow> db \<Rightarrow> db \<times> ulid" where
  "record_delivery gen account watch act cad call outcome_state err attempt ts d =
     (let st = outcome_to_delivery outcome_state; i = gen (next_id d)
      in (d\<lparr>t_deliveries := t_deliveries d @
             [\<lparr>dl_id = i, dl_account = account, dl_watch = watch, dl_action = act, dl_cadence = cad,
               dl_method = ob_method call, dl_host = ob_host call, dl_state = st,
               dl_http_status = ob_status call, dl_item_count = ob_count call, dl_attempt = attempt,
               dl_payload = ob_payload call,
               dl_error = (if st = DELIVERY_SUCCEEDED then '''' else err),
               dl_started = Some ts, dl_completed = Some ts\<rparr>],
            next_id := Suc (next_id d)\<rparr>, i))"

definition get_delivery :: "ulid \<Rightarrow> ulid \<Rightarrow> db \<Rightarrow> delivery result" where
  "get_delivery account i d = qget (\<lambda>x. dl_id x = i \<and> dl_account x = account) (t_deliveries d)"

definition list_deliveries ::
  "ulid \<Rightarrow> ulid \<Rightarrow> ulid option \<Rightarrow> nat \<Rightarrow> delivery_state option \<Rightarrow> db \<Rightarrow> delivery list" where
  "list_deliveries account act after limit state d =
     take limit (rev (order_by dl_id (filter (\<lambda>x.
       dl_account x = account \<and> dl_action x = act \<and>
       (case state of None \<Rightarrow> True | Some s \<Rightarrow> dl_state x = s) \<and>
       (case after of None \<Rightarrow> True | Some a \<Rightarrow> a = '''' \<or> dl_id x < a)) (t_deliveries d))))"

subsection \<open>Lemmas: outcomes of the executors\<close>

lemma errored_simps [simp]:
  "ar_state (plain_result st j err) = st" "ar_result (plain_result st j err) = j"
  "ar_error (plain_result st j err) = err" "ar_outbound (plain_result st j err) = None"
  by (simp_all add: plain_result_def)

lemma prepare_states:
  "prepare E W a items = Inr (Inl r) \<Longrightarrow> ar_state r = ERRORED \<and> ar_outbound r = None"
  unfolding prepare_def
  by (auto simp: res_bind_Inr_iff split: list.splits sum.splits exn.splits option.splits if_splits)

lemma semantic_filter_states:
  "run_semantic_filter E W a items = Inr r \<Longrightarrow>
   ar_state r \<in> {SUCCEEDED, GATED, ERRORED} \<and> ar_outbound r = None"
  unfolding run_semantic_filter_def res_bind_Inr_iff
  by (elim exE conjE)
     (auto simp: Let_def dest: prepare_states split: sum.splits config.splits judge_answer.splits if_splits)

lemma extract_states:
  "run_extract E W a items = Inr r \<Longrightarrow> ar_state r \<in> {SUCCEEDED, ERRORED} \<and> ar_outbound r = None"
  unfolding run_extract_def res_bind_Inr_iff
  by (elim exE conjE)
     (auto simp: Let_def dest: prepare_states split: sum.splits config.splits extract_answer.splits if_splits)

lemma log_states: "run_log E W a items = Inr r \<Longrightarrow> ar_state r \<in> {SUCCEEDED, ERRORED} \<and> ar_outbound r = None"
  by (auto simp: run_log_def split: sum.splits exn.splits config.splits)

lemma classify_states: "ar_state (classify_status s mk) \<in> {ERRORED, FAILED} \<and>
  ar_outbound (classify_status s mk) = Some (mk (Some s))"
  by (simp add: classify_status_def)

lemma deliver_states:
  "deliver E W c items body = Inr r \<Longrightarrow>
   ar_state r \<in> {SUCCEEDED, ERRORED, FAILED} \<and> ar_outbound r \<noteq> None"
  using classify_states
  by (auto simp: deliver_def Let_def split: option.splits http_answer.splits if_splits)

lemma webhook_states: "run_webhook E W a items cx = Inr r \<Longrightarrow> ar_state r \<in> {SUCCEEDED, ERRORED, FAILED}"
  by (auto simp: run_webhook_def res_bind_Inr_iff dest: deliver_states
        split: sum.splits exn.splits config.splits)

text \<open>The protocol's states: an executor reports how a run resolved, never PENDING or RUNNING.
  Plugins are bound by it; the built-in kinds keep it.\<close>

definition plugins_resolve :: "world \<Rightarrow> bool" where
  "plugins_resolve W \<longleftrightarrow>
     (\<forall>kind impl a items cx r. w_plugin W kind = Some impl \<longrightarrow> impl a items cx = Inr r \<longrightarrow>
        ar_state r \<noteq> PENDING \<and> ar_state r \<noteq> RUNNING)"

lemma executor_states:
  assumes "plugins_resolve W" "executor E W kind = Some impl" "impl a items cx = Inr r"
  shows "ar_state r \<noteq> PENDING \<and> ar_state r \<noteq> RUNNING"
proof -
  consider "kind = KIND_SEMANTIC_FILTER" | "kind = KIND_EXTRACT" "kind \<noteq> KIND_SEMANTIC_FILTER"
    | "kind = KIND_WEBHOOK" "kind \<noteq> KIND_SEMANTIC_FILTER" "kind \<noteq> KIND_EXTRACT"
    | "kind = KIND_LOG" "kind \<noteq> KIND_SEMANTIC_FILTER" "kind \<noteq> KIND_EXTRACT" "kind \<noteq> KIND_WEBHOOK"
    | "w_plugin W kind = Some impl"
    using assms(2) by (auto simp: executor_def split: if_splits)
  then show ?thesis
  proof cases
    case 1
    with assms(2,3) semantic_filter_states[of E W a items r] show ?thesis by (auto simp: executor_def)
  next
    case 2
    with assms(2,3) extract_states[of E W a items r] show ?thesis by (auto simp: executor_def)
  next
    case 3
    with assms(2,3) webhook_states[of E W a items cx r] show ?thesis by (auto simp: executor_def)
  next
    case 4
    with assms(2,3) log_states[of E W a items r] show ?thesis by (auto simp: executor_def)
  next
    case 5
    with assms(1,3) show ?thesis by (auto simp: plugins_resolve_def)
  qed
qed

lemma enforce_simps [simp]:
  "ar_outbound (enforce_result_schema W kind r) = ar_outbound r"
  "ar_result (enforce_result_schema W kind r) = ar_result r"
  by (simp_all add: enforce_result_schema_def)

lemma enforce_states:
  "ar_state (enforce_result_schema W kind r) = ar_state r \<or> ar_state (enforce_result_schema W kind r) = ERRORED"
  by (simp add: enforce_result_schema_def)

lemma enforce_succeeded:
  "ar_state (enforce_result_schema W kind r) = SUCCEEDED \<Longrightarrow>
   enforce_result_schema W kind r = r \<and> result_conforms W kind (ar_result r)"
  by (auto simp: enforce_result_schema_def split: if_splits)

text \<open>The two guards of \<open>_deliver\<close>, read off its calls.\<close>

definition webhook_blocked :: "env \<Rightarrow> webhook_config \<Rightarrow> bool" where
  "webhook_blocked E c \<longleftrightarrow>
     destination_block_reason (env_dns E) (wh_url c) (WEBHOOK_REQUIRE_HTTPS (env_cfg E))
       (WEBHOOK_BLOCK_PRIVATE_IPS (env_cfg E)) True \<noteq> None"

definition webhook_answer :: "world \<Rightarrow> webhook_config \<Rightarrow> json \<Rightarrow> http_answer" where
  "webhook_answer W c body = w_http W (method_value (wh_method c)) (wh_url c) (wh_headers c) body"

lemma deliver_blocked:
  assumes "deliver E W c items body = Inr r" and "webhook_blocked E c"
  shows "ar_state r = ERRORED \<and>
    (\<exists>call. ar_outbound r = Some call \<and> ob_payload call = body \<and> ob_count call = length items)"
  using assms by (auto simp: deliver_def webhook_blocked_def Let_def split: option.splits)

lemma classify_status_simps:
  "ar_state (classify_status s mk) =
     (if 300 \<le> s \<and> s < 500 \<and> s \<noteq> 408 \<and> s \<noteq> 429 then ERRORED else FAILED)"
  "ar_outbound (classify_status s mk) = Some (mk (Some s))"
  by (auto simp: classify_status_def RETRYABLE_4XX_def)

lemma deliver_answered:
  assumes "deliver E W c items body = Inr r" and "\<not> webhook_blocked E c"
  shows "ar_state r = (case webhook_answer W c body of
             HttpStatus s \<Rightarrow> if 200 \<le> s \<and> s < 300 then SUCCEEDED
                            else if 300 \<le> s \<and> s < 500 \<and> s \<noteq> 408 \<and> s \<noteq> 429 then ERRORED else FAILED
           | _ \<Rightarrow> FAILED) \<and>
    webhook_answer W c body \<noteq> HttpRaised \<and>
    (\<exists>call. ar_outbound r = Some call \<and> ob_payload call = body \<and> ob_count call = length items)"
  using assms
  by (auto simp: deliver_def webhook_blocked_def webhook_answer_def Let_def classify_status_simps
      split: option.splits http_answer.splits if_splits)

subsection \<open>A concrete world\<close>

definition sample_world :: world where
  "sample_world =
     \<lparr>w_hydrate = (\<lambda>j. Some \<lparr>pl_data = j, pl_article_url = ''''\<rparr>),
      w_judge = (\<lambda>_ _ _ _. Judged (9 / 10) ''ok''), w_extract = (\<lambda>_ _ _ _ _. Extracted []),
      w_fetch = (\<lambda>_. FetchFailed), w_article_text = (\<lambda>s. s), w_bypass_configured = False,
      w_bypass_fetch = (\<lambda>_. None), w_http = (\<lambda>_ _ _ _. HttpStatus 200),
      w_str = (\<lambda>j. case j of JStr s \<Rightarrow> s | _ \<Rightarrow> ''?''), w_iso = (\<lambda>t. ''t''),
      w_plugin = (\<lambda>_. None), w_result_schema = (\<lambda>_ _. True)\<rparr>"

definition webhook_blob :: json where
  "webhook_blob = JObj [(''delivery'', JStr ''instant''), (''digest_interval_seconds'', JInt 0),
     (''url'', JStr ''https://example.com/h'')]"

subsection \<open>Properties\<close>

text \<open>How a webhook call resolves its run, over every answer that does not raise: success
  exactly on an unblocked 2xx; retryable exactly on a connection error, 408, 429 or a status
  outside 2xx-4xx; permanent on a blocked destination, a redirect and the other 4xx. Every one
  of them, the blocked one included, carries the call with the body and the item count.\<close>

theorem webhook_outcome:
  assumes "deliver E W c items body = Inr r"
  shows "(ar_state r = SUCCEEDED \<longleftrightarrow> \<not> webhook_blocked E c \<and>
            (\<exists>s. webhook_answer W c body = HttpStatus s \<and> 200 \<le> s \<and> s < 300)) \<and>
         (ar_state r = FAILED \<longleftrightarrow> \<not> webhook_blocked E c \<and> (webhook_answer W c body = HttpError \<or>
            (\<exists>s. webhook_answer W c body = HttpStatus s \<and> (s < 200 \<or> 500 \<le> s \<or> s = 408 \<or> s = 429)))) \<and>
         (ar_state r = ERRORED \<longleftrightarrow> webhook_blocked E c \<or>
            (\<exists>s. webhook_answer W c body = HttpStatus s \<and> 300 \<le> s \<and> s < 500 \<and> s \<noteq> 408 \<and> s \<noteq> 429)) \<and>
         (\<exists>call. ar_outbound r = Some call \<and> ob_payload call = body \<and> ob_count call = length items)"
proof (cases "webhook_blocked E c")
  case True
  then show ?thesis using deliver_blocked [OF assms True] by auto
next
  case False
  then show ?thesis using deliver_answered [OF assms False]
    by (cases "webhook_answer W c body") (auto split: if_splits)
qed

theorem webhook_outcome_witness:
  "\<exists>r. deliver sample_env sample_world
      \<lparr>wh_delivery = INSTANT, wh_interval = 0, wh_url = ''https://example.com/h'', wh_method = POST,
       wh_headers = [], wh_include = []\<rparr> [] JNull = Inr r \<and> ar_state r = SUCCEEDED"
proof -
  let ?c = "\<lparr>wh_delivery = INSTANT, wh_interval = 0, wh_url = ''https://example.com/h'', wh_method = POST,
       wh_headers = [], wh_include = []\<rparr>"
  have "case deliver sample_env sample_world ?c [] JNull of Inl _ \<Rightarrow> False | Inr _ \<Rightarrow> True" by code_simp
  then obtain r where r: "deliver sample_env sample_world ?c [] JNull = Inr r"
    by (cases "deliver sample_env sample_world ?c [] JNull") auto
  have "\<not> webhook_blocked sample_env ?c" "webhook_answer sample_world ?c JNull = HttpStatus 200" by code_simp+
  with webhook_outcome [OF r] r show ?thesis by auto
qed

end
