(* ===== verification/Drain.thy ===== *)
theory Drain
  imports Actions
begin

text \<open>
  One claimed run carried to its resting state: \<open>watches/operations/drain.py\<close> with the chain
  advance \<open>operations/advance.py\<close>. The outcome pairs the database the operation leaves with
  what it returns, since the delivery row is committed before the completion transaction and
  survives its rollback. Lemmas: the chain advances exactly on a SUCCEEDED outcome that won
  its claim, every HTTP call is on record, resolution failures become terminal outcomes, and
  the table invariants and \<open>no_orphan\<close> are kept.
\<close>

subsection \<open>Advance\<close>

definition enqueue_next_batch ::
  "env \<Rightarrow> run list \<Rightarrow> action \<Rightarrow> datetime \<Rightarrow> db \<Rightarrow> db result" where
  "enqueue_next_batch E runs a now d =
     (case runs of
        [] \<Rightarrow> Inr d
      | r0 # _ \<Rightarrow>
          let account = run_account r0 in
          (case next_in_chain account a (t_actions d) of
             None \<Rightarrow> Inr d
           | Some nxt \<Rightarrow>
               res_bind (load_config E nxt) (\<lambda>config.
                 let (d1, scheduled_at) =
                       (if is_digest config
                        then open_window account (act_id nxt) (digest_interval config) now d
                        else (d, now))
                 in Inr (enqueue_advance_batch (env_gen E) account (act_id nxt) (act_kind nxt) scheduled_at
                           (map (\<lambda>r. (run_watch r, run_item r, run_id r)) runs) d1))))"

definition enqueue_next :: "env \<Rightarrow> run \<Rightarrow> action \<Rightarrow> datetime \<Rightarrow> db \<Rightarrow> db result" where
  "enqueue_next E r a now d = enqueue_next_batch E [r] a now d"

subsection \<open>Drain\<close>

definition get_item :: "ulid \<Rightarrow> ulid \<Rightarrow> db \<Rightarrow> item result" where
  "get_item account i d = qget (\<lambda>x. item_id x = i \<and> item_account x = account) (t_items d)"

definition drain_resolve :: "env \<Rightarrow> world \<Rightarrow> run \<Rightarrow> db \<Rightarrow> action option \<times> action_result" where
  "drain_resolve E W r d =
     (case get_action (run_account r) (run_action r) (t_actions d) of
        Inl _ \<Rightarrow> (None, errored ACTION_GONE)
      | Inr a \<Rightarrow>
          (case get_item (run_account r) (run_item r) d of
             Inl _ \<Rightarrow> (Some a, errored ITEM_GONE)
           | Inr it \<Rightarrow>
               (case executor E W (act_kind a) of
                  None \<Rightarrow> (Some a, errored NO_EXECUTOR)
                | Some impl \<Rightarrow>
                    let (items, cx) = build_run_inputs [(r, it)] (run_watch r) INSTANT None None d
                    in (case impl a items cx of
                          Inl _ \<Rightarrow> (Some a, plain_result FAILED (JObj []) TRANSIENT)
                        | Inr res \<Rightarrow> (Some a, enforce_result_schema W (act_kind a) res)))))"

definition record_outcome ::
  "env \<Rightarrow> datetime \<Rightarrow> run \<Rightarrow> action_result \<Rightarrow> db \<Rightarrow> db \<times> ulid" where
  "record_outcome E now r res d =
     (case ar_outbound res of
        None \<Rightarrow> (d, '''')
      | Some call \<Rightarrow>
          record_delivery (env_gen E) (run_account r) (run_watch r) (run_action r) INSTANT call
            (ar_state res) (ar_error res) (run_attempts r) now d)"

definition drain_outcome :: "action option \<Rightarrow> action_result \<Rightarrow> ulid \<Rightarrow> outcome" where
  "drain_outcome a res delivery_id =
     \<lparr>oc_state = ar_state res, oc_result = ar_result res, oc_error = ar_error res,
      oc_delivery = delivery_id, oc_kind = (case a of None \<Rightarrow> '''' | Some x \<Rightarrow> act_kind x)\<rparr>"

text \<open>The completion transaction: an exception inside it leaves the database before it.\<close>

definition drain_commit ::
  "env \<Rightarrow> datetime \<Rightarrow> run \<Rightarrow> action option \<Rightarrow> action_result \<Rightarrow> ulid \<Rightarrow> db \<Rightarrow> (db \<times> bool) result" where
  "drain_commit E now r a res delivery_id d =
     res_bind (complete (env_cfg E) (run_account r) now (drain_outcome a res delivery_id) r d)
       (\<lambda>(d1, committed).
         if committed = None then Inr (d1, False)
         else case a of
           Some x \<Rightarrow>
             if ar_state res = SUCCEEDED
             then res_bind (enqueue_next E r x now d1) (\<lambda>d2. Inr (d2, True))
             else Inr (d1, True)
         | None \<Rightarrow> Inr (d1, True))"

definition drain_run ::
  "env \<Rightarrow> world \<Rightarrow> datetime \<Rightarrow> run \<Rightarrow> db \<Rightarrow> db \<times> action_result option result" where
  "drain_run E W now r d =
     (let (a, res) = drain_resolve E W r d;
          (d1, delivery_id) = record_outcome E now r res d
      in case drain_commit E now r a res delivery_id d1 of
           Inl e \<Rightarrow> (d1, Inl e)
         | Inr (d2, won) \<Rightarrow> (d2, Inr (if won then Some res else None)))"

subsection \<open>Lemmas: frames\<close>

lemma record_delivery_frame [simp]:
  "t_runs (fst (record_delivery g acc w a c call s e n ts d)) = t_runs d"
  "t_windows (fst (record_delivery g acc w a c call s e n ts d)) = t_windows d"
  "t_actions (fst (record_delivery g acc w a c call s e n ts d)) = t_actions d"
  "t_items (fst (record_delivery g acc w a c call s e n ts d)) = t_items d"
  "next_id (fst (record_delivery g acc w a c call s e n ts d)) = Suc (next_id d)"
  by (simp_all add: record_delivery_def Let_def)

lemma record_outcome_frame:
  assumes "record_outcome E now r res d = (d1, i)"
  shows "t_runs d1 = t_runs d \<and> t_windows d1 = t_windows d \<and> t_actions d1 = t_actions d \<and>
    next_id d \<le> next_id d1"
proof (cases "ar_outbound res")
  case None
  with assms show ?thesis by (simp add: record_outcome_def)
next
  case (Some call)
  with assms have "d1 = fst (record_delivery (env_gen E) (run_account r) (run_watch r) (run_action r)
      INSTANT call (ar_state res) (ar_error res) (run_attempts r) now d)"
    by (simp add: record_outcome_def)
  then show ?thesis by simp
qed

lemma enqueue_advance_batch_frame [simp]:
  "t_windows (enqueue_advance_batch g acc a k sc rows d) = t_windows d"
  "t_actions (enqueue_advance_batch g acc a k sc rows d) = t_actions d"
  "t_deliveries (enqueue_advance_batch g acc a k sc rows d) = t_deliveries d"
  "t_items (enqueue_advance_batch g acc a k sc rows d) = t_items d"
  "next_id (enqueue_advance_batch g acc a k sc rows d) = next_id d + length rows"
  by (simp_all add: enqueue_advance_batch_def Let_def)

lemma open_window_other_tables [simp]:
  "t_actions (fst (open_window acc a n ts d)) = t_actions d"
  "t_deliveries (fst (open_window acc a n ts d)) = t_deliveries d"
  "t_items (fst (open_window acc a n ts d)) = t_items d"
  using open_window_frame[of acc a n ts d] by auto

text \<open>One advance, written with its window step named.\<close>

definition advance_window :: "env \<Rightarrow> ulid \<Rightarrow> action \<Rightarrow> config \<Rightarrow> datetime \<Rightarrow> db \<Rightarrow> db \<times> datetime" where
  "advance_window E account nxt config now d =
     (if is_digest config then open_window account (act_id nxt) (digest_interval config) now d
      else (d, now))"

lemma enqueue_next_batch_cases:
  assumes "enqueue_next_batch E runs a now d = Inr d'"
  obtains (noop) "d' = d" "runs = [] \<or> next_in_chain (run_account (hd runs)) a (t_actions d) = None"
    | (advance) nxt config where
      "runs \<noteq> []" "next_in_chain (run_account (hd runs)) a (t_actions d) = Some nxt"
      "load_config E nxt = Inr config"
      "d' = enqueue_advance_batch (env_gen E) (run_account (hd runs)) (act_id nxt) (act_kind nxt)
              (snd (advance_window E (run_account (hd runs)) nxt config now d))
              (map (\<lambda>r. (run_watch r, run_item r, run_id r)) runs)
              (fst (advance_window E (run_account (hd runs)) nxt config now d))"
  using assms unfolding enqueue_next_batch_def advance_window_def
  by (cases runs) (auto simp: Let_def res_bind_Inr_iff case_prod_beta split: option.splits)

lemma advance_window_frame [simp]:
  "t_runs (fst (advance_window E acc n c now d)) = t_runs d"
  "t_actions (fst (advance_window E acc n c now d)) = t_actions d"
  "t_deliveries (fst (advance_window E acc n c now d)) = t_deliveries d"
  "next_id (fst (advance_window E acc n c now d)) = next_id d"
  by (simp_all add: advance_window_def)

subsection \<open>Lemmas: invariants through the advance\<close>

text \<open>Digest-ness is the action's: an action whose config is not a digest one has no window
  row, or the drain would never look at its runs.\<close>

definition windows_match :: "env \<Rightarrow> db \<Rightarrow> bool" where
  "windows_match E d \<longleftrightarrow>
     list_all (\<lambda>a. case load_config E a of
        Inl _ \<Rightarrow> True
      | Inr c \<Rightarrow> is_digest c \<or> \<not> has_window (act_account a) (act_id a) (t_windows d)) (t_actions d)"

lemma windows_matchD:
  "windows_match E d \<Longrightarrow> a \<in> set (t_actions d) \<Longrightarrow> load_config E a = Inr c \<Longrightarrow> \<not> is_digest c \<Longrightarrow>
   \<not> has_window (act_account a) (act_id a) (t_windows d)"
  by (auto simp: windows_match_def list_all_iff split: sum.splits)

definition ids_distinct :: "action list \<Rightarrow> bool" where
  "ids_distinct t \<longleftrightarrow> distinct (map act_id t)"

lemma advance_window_ok:
  assumes "windows_ok (t_windows d)"
  shows "windows_ok (t_windows (fst (advance_window E acc n c now d)))"
  using assms by (simp add: advance_window_def windows_ok_open)

lemma advance_window_match:
  assumes "windows_match E d" "ids_distinct (t_actions d)" "n \<in> set (t_actions d)" "act_account n = acc"
    "load_config E n = Inr c"
  shows "windows_match E (fst (advance_window E acc n c now d))"
  unfolding windows_match_def list_all_iff
proof (intro ballI)
  fix x assume "x \<in> set (t_actions (fst (advance_window E acc n c now d)))"
  then have x: "x \<in> set (t_actions d)" by simp
  show "case load_config E x of Inl _ \<Rightarrow> True
      | Inr cx \<Rightarrow> is_digest cx \<or>
          \<not> has_window (act_account x) (act_id x) (t_windows (fst (advance_window E acc n c now d)))"
  proof (cases "load_config E x")
    case (Inr cx)
    show ?thesis
    proof (cases "is_digest cx")
      case False
      then have nw: "\<not> has_window (act_account x) (act_id x) (t_windows d)"
        using windows_matchD[OF assms(1) x Inr] by simp
      have "act_id x \<noteq> act_id n \<or> \<not> is_digest c"
      proof (rule ccontr)
        assume "\<not> (act_id x \<noteq> act_id n \<or> \<not> is_digest c)"
        then have "x = n" "is_digest c"
          using assms(2,3) x by (auto simp: ids_distinct_def intro: distinct_key_unique)
        with assms(5) Inr False show False by simp
      qed
      with nw Inr show ?thesis by (auto simp: advance_window_def has_window_open)
    qed (simp add: Inr)
  qed simp
qed

lemma windows_match_cong:
  "t_windows d' = t_windows d \<Longrightarrow> t_actions d' = t_actions d \<Longrightarrow> windows_match E d' = windows_match E d"
  by (simp only: windows_match_def)

lemma enqueue_next_batch_ok:
  assumes e: "enqueue_next_batch E runs a now d = Inr d'" and ok: "db_ok cfg (env_gen E) d"
    and g: "inj (env_gen E)" "0 < WATCH_RUN_MAX_ATTEMPTS cfg"
  shows "db_ok cfg (env_gen E) d'"
  using e
proof (cases rule: enqueue_next_batch_cases)
  case noop
  with ok show ?thesis by simp
next
  case (advance nxt c)
  let ?d = "fst (advance_window E (run_account (hd runs)) nxt c now d)"
  have "runs_ok cfg (t_runs ?d)" "run_ids_ok (env_gen E) ?d" "windows_ok (t_windows ?d)"
    using ok by (simp_all add: db_ok_def run_ids_ok_def advance_window_ok)
  with enqueue_advance_batch_ok[OF this(1,2) g] show ?thesis
    unfolding advance(4) by (simp add: db_ok_def)
qed

lemma next_in_chain_action:
  "next_in_chain acc a t = Some n \<Longrightarrow> n \<in> set t \<and> act_account n = acc"
  by (auto dest: next_in_chain_Some simp: on_path_def)

lemma enqueue_next_batch_windows_match:
  assumes e: "enqueue_next_batch E runs a now d = Inr d'" and m: "windows_match E d"
    and i: "ids_distinct (t_actions d)"
  shows "windows_match E d' \<and> t_actions d' = t_actions d"
  using e
proof (cases rule: enqueue_next_batch_cases)
  case (advance nxt c)
  have n: "nxt \<in> set (t_actions d)" "act_account nxt = run_account (hd runs)"
    using next_in_chain_action[OF advance(2)] by simp_all
  have "windows_match E d' = windows_match E (fst (advance_window E (run_account (hd runs)) nxt c now d))"
    by (rule windows_match_cong) (simp_all add: advance(4))
  with advance_window_match[OF m i n advance(3)] show ?thesis by (simp add: advance(4))
qed (use m in simp)

lemma enqueue_next_batch_no_orphan:
  assumes e: "enqueue_next_batch E runs a now d = Inr d'"
    and w: "windows_ok (t_windows d)" and m: "windows_match E d" and o: "no_orphan d"
  shows "no_orphan d'"
  using e
proof (cases rule: enqueue_next_batch_cases)
  case (advance nxt c)
  let ?acc = "run_account (hd runs)"
  let ?d = "fst (advance_window E ?acc nxt c now d)"
  have n: "nxt \<in> set (t_actions d)" "act_account nxt = ?acc"
    using next_in_chain_action[OF advance(2)] by simp_all
  have w': "windows_ok (t_windows ?d)" by (rule advance_window_ok[OF w])
  have o': "no_orphan ?d" using o w by (simp add: advance_window_def no_orphan_open)
  have open': "\<not> closed_window ?acc (act_id nxt) ?d"
  proof (cases "is_digest c")
    case True
    then show ?thesis using w by (simp add: advance_window_def closed_window_open)
  next
    case False
    with windows_matchD[OF m n(1) advance(3)] n(2) show ?thesis
      using w by (simp add: advance_window_def closed_window_iff)
  qed
  obtain new k where new: "d' = ?d\<lparr>t_runs := t_runs ?d @ new, next_id := k\<rparr>"
    "\<forall>r\<in>set new. run_account r = ?acc \<and> run_action r = act_id nxt"
    unfolding advance(4)
    using enqueue_advance_batch_rows[of "env_gen E" ?acc "act_id nxt" "act_kind nxt"
        "snd (advance_window E ?acc nxt c now d)" "map (\<lambda>r. (run_watch r, run_item r, run_id r)) runs" ?d]
    by (elim exE conjE) simp
  show ?thesis
    by (rule no_orphan_runs[OF o']) (use new open' in auto)
qed (use o in simp)

text \<open>Every run of the batch has its successor queued.\<close>

lemma enqueue_next_batch_queues:
  assumes e: "enqueue_next_batch E runs a now d = Inr d'"
    and n: "next_in_chain (run_account (hd runs)) a (t_actions d) = Some nxt" and r: "r \<in> set runs"
  shows "(run_account (hd runs), run_watch r, act_id nxt, run_item r) \<in> run_key ` set (t_runs d')"
  using e
proof (cases rule: enqueue_next_batch_cases)
  case noop
  with n r show ?thesis by auto
next
  case (advance n' c)
  with n have n': "n' = nxt" by simp
  let ?rows = "map (\<lambda>r. (run_watch r, run_item r, run_id r)) runs"
  let ?d = "fst (advance_window E (run_account (hd runs)) nxt c now d)"
  let ?sc = "snd (advance_window E (run_account (hd runs)) nxt c now d)"
  let ?objs = "map (\<lambda>(i, watch, it, prior). new_run i (run_account (hd runs)) watch (act_id nxt) (act_kind nxt) it ?sc prior)
      (zip (fresh_ids (env_gen E) ?d (length ?rows)) ?rows)"
  have "map run_key ?objs = map (\<lambda>(w, it, p). (run_account (hd runs), w, act_id nxt, it)) ?rows"
    by (rule nth_equalityI) (auto simp: case_prod_beta)
  then have "(run_account (hd runs), run_watch r, act_id nxt, run_item r) \<in> set (map run_key ?objs)"
    using r by (simp only:) force
  then have k: "(run_account (hd runs), run_watch r, act_id nxt, run_item r) \<in> run_key ` set ?objs"
    by (simp only: set_map)
  have "t_runs d' = bulk_create_ignore ?objs (t_runs ?d)"
    by (simp add: advance(4) n' enqueue_advance_batch_def Let_def)
  then show ?thesis using k by (simp only: keys_bulk_create Un_iff simp_thms)
qed

subsection \<open>Lemmas: one drained run\<close>

lemma drain_resolve_parts:
  assumes "drain_resolve E W r d = (a, res)"
  shows "(a = None \<longrightarrow> res = errored ACTION_GONE) \<and>
    (\<forall>x. a = Some x \<longrightarrow> x \<in> set (t_actions d) \<and> act_id x = run_action r \<and> act_account x = run_account r)"
  using assms
  by (auto simp: drain_resolve_def get_action_def Let_def dest!: qget_Inr split: sum.splits option.splits prod.splits)

definition holds_claim :: "run \<Rightarrow> db \<Rightarrow> bool" where
  "holds_claim r d \<longleftrightarrow>
     list_ex (\<lambda>x. run_id x = run_id r \<and> run_state x = RUNNING \<and> run_attempts x = run_attempts r) (t_runs d)"

lemma complete_cases:
  "complete cfg (run_account r) ts oc r d =
     (if holds_claim r d
      then Inr (d\<lparr>t_runs := qupdate (\<lambda>x. run_id x = run_id r \<and> run_state x = RUNNING \<and>
                                        run_attempts x = run_attempts r)
                  (stamp_outcome oc (completion_ts cfg (oc_state oc) (run_attempts r) ts)) (t_runs d)\<rparr>,
                Some (stamp_outcome oc (completion_ts cfg (oc_state oc) (run_attempts r) ts) r))
      else Inr (d, None))"
  by (auto simp: complete_def complete_cas_def Let_def holds_claim_def list_ex_iff qcount_0_iff)

definition completed_db :: "settings \<Rightarrow> datetime \<Rightarrow> outcome \<Rightarrow> run \<Rightarrow> db \<Rightarrow> db" where
  "completed_db cfg ts oc r d =
     d\<lparr>t_runs := qupdate (\<lambda>x. run_id x = run_id r \<and> run_state x = RUNNING \<and> run_attempts x = run_attempts r)
        (stamp_outcome oc (completion_ts cfg (oc_state oc) (run_attempts r) ts)) (t_runs d)\<rparr>"

text \<open>The four ways the completion transaction ends.\<close>

lemma drain_commit_lost:
  "\<not> holds_claim r d \<Longrightarrow> drain_commit E now r a res i d = Inr (d, False)"
  by (simp add: drain_commit_def complete_cases)

lemma drain_commit_stop:
  "holds_claim r d \<Longrightarrow> a = None \<or> ar_state res \<noteq> SUCCEEDED \<Longrightarrow>
   drain_commit E now r a res i d = Inr (completed_db (env_cfg E) now (drain_outcome a res i) r d, True)"
  by (cases a) (auto simp: drain_commit_def complete_cases completed_db_def drain_outcome_def)

lemma drain_commit_advance:
  "holds_claim r d \<Longrightarrow> ar_state res = SUCCEEDED \<Longrightarrow>
   drain_commit E now r (Some x) res i d =
     res_bind (enqueue_next E r x now (completed_db (env_cfg E) now (drain_outcome (Some x) res i) r d))
       (\<lambda>d2. Inr (d2, True))"
  by (simp add: drain_commit_def complete_cases completed_db_def drain_outcome_def)

lemma completed_db_row:
  assumes "holds_claim r d"
  shows "\<exists>x\<in>set (t_runs (completed_db cfg ts oc r d)). run_id x = run_id r \<and> run_state x = oc_state oc \<and>
    run_attempts x = run_attempts r \<and> run_result x = result_or_empty (oc_result oc) \<and>
    run_error x = oc_error oc \<and> run_completed x = completion_ts cfg (oc_state oc) (run_attempts r) ts \<and>
    (oc_delivery oc \<noteq> '''' \<longrightarrow> run_delivery x = oc_delivery oc)"
proof -
  from assms obtain y where y: "y \<in> set (t_runs d)" "run_id y = run_id r" "run_state y = RUNNING"
    "run_attempts y = run_attempts r" by (auto simp: holds_claim_def list_ex_iff)
  let ?x = "stamp_outcome oc (completion_ts cfg (oc_state oc) (run_attempts r) ts) y"
  have "?x \<in> set (t_runs (completed_db cfg ts oc r d))"
    using y by (auto simp: completed_db_def set_qupdate)
  then show ?thesis by (rule bexI[rotated]) (use y in auto)
qed

lemma completed_db_keys [simp]:
  "map run_key (t_runs (completed_db cfg ts oc r d)) = map run_key (t_runs d)"
  by (simp add: completed_db_def map_qupdate)

lemma completed_db_frame [simp]:
  "t_windows (completed_db cfg ts oc r d) = t_windows d"
  "t_actions (completed_db cfg ts oc r d) = t_actions d"
  "t_deliveries (completed_db cfg ts oc r d) = t_deliveries d"
  "next_id (completed_db cfg ts oc r d) = next_id d"
  by (simp_all add: completed_db_def)

text \<open>An advance adds runs of the successor only; the rows already there stay.\<close>

lemma enqueue_next_batch_appends:
  assumes "enqueue_next_batch E runs a now d = Inr d'"
  shows "\<exists>new. t_runs d' = t_runs d @ new"
  using assms
proof (cases rule: enqueue_next_batch_cases)
  case (advance nxt c)
  show ?thesis
    unfolding advance(4)
    using enqueue_advance_batch_rows[of "env_gen E" "run_account (hd runs)" "act_id nxt" "act_kind nxt"
        "snd (advance_window E (run_account (hd runs)) nxt c now d)"
        "map (\<lambda>r. (run_watch r, run_item r, run_id r)) runs"
        "fst (advance_window E (run_account (hd runs)) nxt c now d)"]
    by (elim exE conjE) simp
qed simp

lemma enqueue_next_batch_deliveries:
  assumes "enqueue_next_batch E runs a now d = Inr d'"
  shows "t_deliveries d' = t_deliveries d"
  using assms by (cases rule: enqueue_next_batch_cases) simp_all

lemma drain_commit_deliveries:
  "drain_commit E now r a res i d = Inr (d', b) \<Longrightarrow> t_deliveries d' = t_deliveries d"
proof -
  assume c: "drain_commit E now r a res i d = Inr (d', b)"
  show ?thesis
  proof (cases "holds_claim r d")
    case hc: True
    show ?thesis
    proof (cases "a = None \<or> ar_state res \<noteq> SUCCEEDED")
      case True
      with c drain_commit_stop[OF hc True] show ?thesis by auto
    next
      case False
      then obtain x where x: "a = Some x" "ar_state res = SUCCEEDED" by auto
      with c drain_commit_advance[OF hc x(2)] show ?thesis
        by (auto simp: enqueue_next_def res_bind_Inr_iff dest!: enqueue_next_batch_deliveries)
    qed
  next
    case False
    with c drain_commit_lost[OF False] show ?thesis by simp
  qed
qed

lemma record_outcome_rows:
  assumes "record_outcome E now r res d = (d1, i)"
  shows "t_runs d1 = t_runs d" "d1 = d\<lparr>t_deliveries := t_deliveries d1, next_id := next_id d1\<rparr>"
    "\<exists>rows. t_deliveries d1 = t_deliveries d @ rows \<and> length rows = (if ar_outbound res = None then 0 else 1) \<and>
       list_all (\<lambda>x. dl_id x = env_gen E (next_id d) \<and> dl_account x = run_account r \<and> dl_action x = run_action r \<and>
         dl_state x = outcome_to_delivery (ar_state res) \<and> dl_attempt x = run_attempts r \<and>
         map_option ob_payload (ar_outbound res) = Some (dl_payload x) \<and>
         map_option ob_status (ar_outbound res) = Some (dl_http_status x)) rows"
    "i = (if ar_outbound res = None then '''' else env_gen E (next_id d))"
  using assms by (auto simp: record_outcome_def record_delivery_def Let_def split: option.splits)

lemma drain_commit_won:
  assumes c: "drain_commit E now r a res i d = Inr (d', b)" and h: "holds_claim r d"
  shows "b \<and> (\<exists>new. t_runs d' = t_runs (completed_db (env_cfg E) now (drain_outcome a res i) r d) @ new)"
proof (cases "a = None \<or> ar_state res \<noteq> SUCCEEDED")
  case True
  with c drain_commit_stop[OF h True] show ?thesis by auto
next
  case False
  then obtain x where x: "a = Some x" "ar_state res = SUCCEEDED" by auto
  with c drain_commit_advance[OF h x(2)] obtain
    e: "enqueue_next E r x now (completed_db (env_cfg E) now (drain_outcome a res i) r d) = Inr d'" and b: "b"
    by (auto simp: res_bind_Inr_iff)
  from enqueue_next_batch_appends[OF e[unfolded enqueue_next_def]] b show ?thesis by blast
qed

subsection \<open>A concrete pipeline\<close>

definition sample_item :: "ulid \<Rightarrow> item" where
  "sample_item i =
     \<lparr>item_id = i, item_account = ''acc'', item_feed = ''f'', item_source_kind = ''rss'', item_external = i,
      item_label = ''l'', item_meta = JObj [], item_occurred = None, item_data = JObj [(''title'', JStr ''x'')]\<rparr>"

definition sample_run :: "ulid \<Rightarrow> ulid \<Rightarrow> ulid \<Rightarrow> run_state \<Rightarrow> nat \<Rightarrow> run" where
  "sample_run i act it st n =
     (new_run i ''acc'' ''w'' act KIND_LOG it 0 '''')\<lparr>run_state := st, run_attempts := n\<rparr>"

text \<open>A webhook head, a digest log behind it, one claimed run of the head.\<close>

definition sample_pipeline :: db where
  "sample_pipeline = empty_db\<lparr>next_id := 9,
     t_actions := [(sample_action ''a1'' ''p'' webhook_blob 0)\<lparr>act_kind := KIND_WEBHOOK\<rparr>,
                   sample_action ''a2'' ''p'' (log_blob DIGEST 3600) 1],
     t_items := [sample_item ''it''], t_runs := [sample_run ''r1'' ''a1'' ''it'' RUNNING 1]\<rparr>"

definition sample_claimed :: run where
  "sample_claimed = sample_run ''r1'' ''a1'' ''it'' RUNNING 1"

subsection \<open>Properties\<close>

text \<open>C2: what a drained run leaves behind. A POST that was made is recorded as one delivery row with
  its answer and attempt, whatever becomes of the claim; an executor without a POST records none. With
  the claim still held the row of the run carries exactly the resolved outcome: state, result, error,
  completion stamp, the kind that ran and the link to that delivery, while the rows of other runs stay.
  With the claim lost nothing but the delivery is written.\<close>

theorem drain_writes_outcome:
  assumes "drain_resolve E W r d = (a, res)" "drain_run E W now r d = (d', Inr out)" "env_gen E (next_id d) \<noteq> ''''"
  shows "out = (if holds_claim r d then Some res else None) \<and>
    (\<exists>rows. t_deliveries d' = t_deliveries d @ rows \<and> length rows = (if ar_outbound res = None then 0 else 1) \<and>
       list_all (\<lambda>x. dl_id x = env_gen E (next_id d) \<and> dl_account x = run_account r \<and> dl_action x = run_action r \<and>
         dl_state x = outcome_to_delivery (ar_state res) \<and> dl_attempt x = run_attempts r \<and>
         map_option ob_payload (ar_outbound res) = Some (dl_payload x) \<and>
         map_option ob_status (ar_outbound res) = Some (dl_http_status x)) rows) \<and>
    (holds_claim r d \<longrightarrow> (\<exists>y\<in>set (t_runs d). run_id y = run_id r \<and> run_state y = RUNNING \<and> run_attempts y = run_attempts r \<and>
       y\<lparr>run_state := ar_state res, run_result := result_or_empty (ar_result res), run_error := ar_error res,
         run_completed := completion_ts (env_cfg E) (ar_state res) (run_attempts r) now,
         run_delivery := (if ar_outbound res = None then run_delivery y else env_gen E (next_id d)),
         run_kind := (case a of None \<Rightarrow> run_kind y | Some b \<Rightarrow> if act_kind b = '''' then run_kind y else act_kind b)\<rparr>
       \<in> set (t_runs d'))) \<and>
    (\<forall>x\<in>set (t_runs d). run_id x \<noteq> run_id r \<longrightarrow> x \<in> set (t_runs d')) \<and>
    (\<not> holds_claim r d \<longrightarrow> d' = d\<lparr>t_deliveries := t_deliveries d', next_id := next_id d'\<rparr>)"
proof -
  obtain d1 i where ro: "record_outcome E now r res d = (d1, i)" by force
  note rec = record_outcome_rows[OF ro]
  have hc: "holds_claim r d1 = holds_claim r d" using rec(1) by (simp add: holds_claim_def)
  from assms ro obtain b where c: "drain_commit E now r a res i d1 = Inr (d', b)"
    and out: "out = (if b then Some res else None)"
    by (auto simp: drain_run_def split: sum.splits)
  show ?thesis
  proof (cases "holds_claim r d1")
    case False
    with c drain_commit_lost[OF False] have "d' = d1" "\<not> b" by auto
    then show ?thesis using rec False hc out by (simp del: not_None_eq)
  next
    case True
    let ?oc = "drain_outcome a res i"
    let ?st = "stamp_outcome ?oc (completion_ts (env_cfg E) (ar_state res) (run_attempts r) now)"
    from drain_commit_won[OF c True] obtain new where b: "b"
      and runs: "t_runs d' = t_runs (completed_db (env_cfg E) now ?oc r d1) @ new" by blast
    have oc: "oc_state ?oc = ar_state res" by (simp add: drain_outcome_def)
    have rows: "x \<in> set (t_runs (completed_db (env_cfg E) now ?oc r d1)) \<longleftrightarrow>
        (\<exists>y\<in>set (t_runs d). x = (if run_id y = run_id r \<and> run_state y = RUNNING \<and> run_attempts y = run_attempts r then ?st y else y))" for x
      using rec(1) by (auto simp: completed_db_def set_qupdate oc)
    from True obtain y where y: "y \<in> set (t_runs d)" "run_id y = run_id r" "run_state y = RUNNING" "run_attempts y = run_attempts r"
      unfolding hc by (auto simp: holds_claim_def list_ex_iff)
    have "?st y \<in> set (t_runs d')" unfolding runs using y rows[of "?st y"] by auto
    moreover have "?st y = y\<lparr>run_state := ar_state res, run_result := result_or_empty (ar_result res), run_error := ar_error res,
         run_completed := completion_ts (env_cfg E) (ar_state res) (run_attempts r) now,
         run_delivery := (if ar_outbound res = None then run_delivery y else env_gen E (next_id d)),
         run_kind := (case a of None \<Rightarrow> run_kind y | Some b \<Rightarrow> if act_kind b = '''' then run_kind y else act_kind b)\<rparr>"
      using rec(4) assms(3) by (auto simp: stamp_outcome_def set_if_def drain_outcome_def split: option.splits)
    ultimately have "\<exists>y\<in>set (t_runs d). run_id y = run_id r \<and> run_state y = RUNNING \<and> run_attempts y = run_attempts r \<and>
       y\<lparr>run_state := ar_state res, run_result := result_or_empty (ar_result res), run_error := ar_error res,
         run_completed := completion_ts (env_cfg E) (ar_state res) (run_attempts r) now,
         run_delivery := (if ar_outbound res = None then run_delivery y else env_gen E (next_id d)),
         run_kind := (case a of None \<Rightarrow> run_kind y | Some b \<Rightarrow> if act_kind b = '''' then run_kind y else act_kind b)\<rparr>
       \<in> set (t_runs d')" using y by (intro bexI[of _ y]) simp_all
    moreover have "\<forall>x\<in>set (t_runs d). run_id x \<noteq> run_id r \<longrightarrow> x \<in> set (t_runs d')" unfolding runs using rows by auto
    moreover have "t_deliveries d' = t_deliveries d1" by (rule drain_commit_deliveries[OF c])
    ultimately show ?thesis using b out hc True rec(3) by (simp del: not_None_eq)
  qed
qed

theorem drain_writes_outcome_witness:
  "\<exists>d' out. drain_run sample_env sample_world 50 sample_claimed sample_pipeline = (d', Inr out) \<and>
     length (t_deliveries d') = 1 \<and>
     (\<exists>x\<in>set (t_runs d'). run_id x = run_id sample_claimed \<and> run_state x = SUCCEEDED \<and> run_delivery x = sample_gen 9)"
proof -
  have s: "ar_state (snd (drain_resolve sample_env sample_world sample_claimed sample_pipeline)) = SUCCEEDED"
    "ar_outbound (snd (drain_resolve sample_env sample_world sample_claimed sample_pipeline)) \<noteq> None" "t_deliveries sample_pipeline = []"
    "next_id sample_pipeline = 9"
    by code_simp+
  obtain a res where r: "drain_resolve sample_env sample_world sample_claimed sample_pipeline = (a, res)"
    by force
  have "case snd (drain_run sample_env sample_world 50 sample_claimed sample_pipeline) of
      Inl _ \<Rightarrow> False | Inr _ \<Rightarrow> True" by code_simp
  then obtain d' out where d': "drain_run sample_env sample_world 50 sample_claimed sample_pipeline = (d', Inr out)"
    by (cases "drain_run sample_env sample_world 50 sample_claimed sample_pipeline") (auto split: sum.splits)
  have h: "holds_claim sample_claimed sample_pipeline" by code_simp
  have g: "env_gen sample_env (next_id sample_pipeline) \<noteq> ''''" by (simp add: sample_env_simps sample_gen_def)
  note all = drain_writes_outcome[OF r d' g]
  from all h obtain y where y: "run_id y = run_id sample_claimed"
    "y\<lparr>run_state := ar_state res, run_result := result_or_empty (ar_result res), run_error := ar_error res,
         run_completed := completion_ts (env_cfg sample_env) (ar_state res) (run_attempts sample_claimed) 50,
         run_delivery := (if ar_outbound res = None then run_delivery y else env_gen sample_env (next_id sample_pipeline)),
         run_kind := (case a of None \<Rightarrow> run_kind y | Some b \<Rightarrow> if act_kind b = '''' then run_kind y else act_kind b)\<rparr>
       \<in> set (t_runs d')" by blast
  have "length (t_deliveries d') = 1" using all s r by auto
  moreover have "ar_state res = SUCCEEDED" "ar_outbound res \<noteq> None" using s(1,2) r by simp_all
  then have "\<exists>x\<in>set (t_runs d'). run_id x = run_id sample_claimed \<and> run_state x = SUCCEEDED \<and> run_delivery x = sample_gen 9"
    by (intro bexI[OF _ y(2)]) (simp add: y(1) s(4) sample_env_simps del: not_None_eq)
  ultimately show ?thesis using d' by blast
qed

text \<open>The chain advances exactly when it should: after a SUCCEEDED outcome that won its
  claim the successor has a run for this item, and on every other outcome (gated, errored,
  failed, lost claim) no run is created at all.\<close>

theorem drain_advances_only_on_success:
  assumes "drain_resolve E W r d = (a, res)" "drain_run E W now r d = (d', Inr out)"
  shows "(out \<noteq> None \<and> ar_state res = SUCCEEDED \<longrightarrow>
      (\<forall>x n. a = Some x \<longrightarrow> next_in_chain (run_account r) x (t_actions d) = Some n \<longrightarrow>
         (run_account r, run_watch r, act_id n, run_item r) \<in> run_key ` set (t_runs d'))) \<and>
    (out = None \<or> ar_state res \<noteq> SUCCEEDED \<longrightarrow> map run_key (t_runs d') = map run_key (t_runs d))"
proof -
  obtain d1 i where ro: "record_outcome E now r res d = (d1, i)" by force
  note fr = record_outcome_frame[OF ro]
  from assms ro obtain b where c: "drain_commit E now r a res i d1 = Inr (d', b)"
    and out: "out = (if b then Some res else None)"
    by (auto simp: drain_run_def split: sum.splits)
  show ?thesis
  proof (cases "holds_claim r d1")
    case False
    with c out drain_commit_lost[OF False] fr show ?thesis by simp
  next
    case True
    let ?d = "completed_db (env_cfg E) now (drain_outcome a res i) r d1"
    show ?thesis
    proof (cases "a = None \<or> ar_state res \<noteq> SUCCEEDED")
      case stop: True
      with c drain_commit_stop[OF True stop] have "d' = ?d" by simp
      then have "map run_key (t_runs d') = map run_key (t_runs d)" using fr by simp
      with stop show ?thesis by auto
    next
      case False
      then obtain x where x: "a = Some x" "ar_state res = SUCCEEDED" by auto
      with c drain_commit_advance[OF True x(2)] obtain
        e: "enqueue_next_batch E [r] x now ?d = Inr d'" and b: "b"
        by (auto simp: res_bind_Inr_iff enqueue_next_def)
      have "(run_account r, run_watch r, act_id n, run_item r) \<in> run_key ` set (t_runs d')"
        if "next_in_chain (run_account r) x (t_actions d) = Some n" for n
        using enqueue_next_batch_queues[OF e, of n r] that fr by simp
      with x b out show ?thesis by auto
    qed
  qed
qed

theorem drain_advances_only_on_success_witness:
  "\<exists>d' out. drain_run sample_env sample_world 50 sample_claimed sample_pipeline = (d', Inr out) \<and>
     (''acc'', ''w'', ''a2'', ''it'') \<in> run_key ` set (t_runs d')"
proof -
  let ?R = "drain_resolve sample_env sample_world sample_claimed sample_pipeline"
  have s: "ar_state (snd ?R) = SUCCEEDED" by code_simp
  have n: "map_option act_id (case fst ?R of None \<Rightarrow> None | Some x \<Rightarrow>
      next_in_chain ''acc'' x (t_actions sample_pipeline)) = Some ''a2''" by code_simp
  obtain a res where r: "?R = (a, res)" by force
  have o: "case snd (drain_run sample_env sample_world 50 sample_claimed sample_pipeline) of
      Inr (Some _) \<Rightarrow> True | _ \<Rightarrow> False" by code_simp
  then obtain d' out where d': "drain_run sample_env sample_world 50 sample_claimed sample_pipeline = (d', Inr out)"
    by (cases "drain_run sample_env sample_world 50 sample_claimed sample_pipeline") (auto split: sum.splits)
  with o have o: "out \<noteq> None" by (cases out) auto
  from n r obtain x m where x: "a = Some x" "next_in_chain ''acc'' x (t_actions sample_pipeline) = Some m"
    "act_id m = ''a2''" by (auto split: option.splits)
  have k: "run_account sample_claimed = ''acc''" "run_watch sample_claimed = ''w''" "run_item sample_claimed = ''it''"
    by code_simp+
  from drain_advances_only_on_success[OF r d'] o s r x
  have "(run_account sample_claimed, run_watch sample_claimed, act_id m, run_item sample_claimed)
      \<in> run_key ` set (t_runs d')" unfolding k by auto
  with d' x(3) k show ?thesis by auto
qed

text \<open>Every HTTP call a run made is on record, whatever happens to the run: the delivery
  row carries the call, its outcome and the attempt number, even when the claim was lost or
  the completion transaction rolled back.\<close>

theorem drain_records_every_call:
  assumes "drain_resolve E W r d = (a, res)" "ar_outbound res = Some call"
  shows "\<exists>x\<in>set (t_deliveries (fst (drain_run E W now r d))).
    dl_account x = run_account r \<and> dl_action x = run_action r \<and> dl_cadence x = INSTANT \<and>
    dl_state x = outcome_to_delivery (ar_state res) \<and> dl_http_status x = ob_status call \<and>
    dl_payload x = ob_payload call \<and> dl_attempt x = run_attempts r \<and> dl_completed x = Some now"
proof -
  obtain d1 i where ro: "record_outcome E now r res d = (d1, i)" by force
  let ?row = "\<lparr>dl_id = env_gen E (next_id d), dl_account = run_account r, dl_watch = run_watch r,
    dl_action = run_action r, dl_cadence = INSTANT, dl_method = ob_method call, dl_host = ob_host call,
    dl_state = outcome_to_delivery (ar_state res), dl_http_status = ob_status call,
    dl_item_count = ob_count call, dl_attempt = run_attempts r, dl_payload = ob_payload call,
    dl_error = (if outcome_to_delivery (ar_state res) = DELIVERY_SUCCEEDED then '''' else ar_error res),
    dl_started = Some now, dl_completed = Some now\<rparr>"
  have d1: "?row \<in> set (t_deliveries d1)"
    using ro assms(2) by (auto simp: record_outcome_def record_delivery_def Let_def)
  have "?row \<in> set (t_deliveries (fst (drain_run E W now r d)))"
  proof (cases "drain_commit E now r a res i d1")
    case (Inl e)
    with assms(1) ro d1 show ?thesis by (simp add: drain_run_def)
  next
    case (Inr p)
    then obtain d2 b where p: "drain_commit E now r a res i d1 = Inr (d2, b)" by (cases p) simp
    with assms(1) ro d1 drain_commit_deliveries[OF p] show ?thesis by (simp add: drain_run_def)
  qed
  then show ?thesis by (rule bexI[rotated]) simp
qed

theorem drain_records_every_call_witness:
  "\<exists>x\<in>set (t_deliveries (fst (drain_run sample_env sample_world 50 sample_claimed sample_pipeline))).
    dl_state x = DELIVERY_SUCCEEDED \<and> dl_http_status x = Some 200"
proof -
  let ?R = "drain_resolve sample_env sample_world sample_claimed sample_pipeline"
  have s: "ar_state (snd ?R) = SUCCEEDED" by code_simp
  have h: "map_option ob_status (ar_outbound (snd ?R)) = Some (Some 200)" by code_simp
  obtain a res where r: "?R = (a, res)" by force
  with h obtain call where c: "ar_outbound res = Some call" "ob_status call = Some 200" by auto
  from drain_records_every_call[OF r c(1), of 50] s r c(2) show ?thesis
    by (auto simp: outcome_to_delivery_def)
qed

text \<open>C12: a successor whose stored config no longer loads undoes its predecessor's completion:
  the POST has been made and recorded as delivered, but the run is left RUNNING with nothing
  written, so the reaper retries it and the next attempt delivers again.\<close>

theorem broken_successor_undoes_completion:
  assumes "drain_resolve E W r d = (Some x, res)" "ar_state res = SUCCEEDED" "ar_outbound res = Some call"
    and "holds_claim r d" "next_in_chain (run_account r) x (t_actions d) = Some n" "load_config E n = Inl e"
  shows "\<exists>d' row. drain_run E W now r d = (d', Inl e) \<and> t_runs d' = t_runs d \<and> holds_claim r d' \<and>
    t_deliveries d' = t_deliveries d @ [row] \<and> dl_state row = DELIVERY_SUCCEEDED"
proof -
  obtain d1 i where ro: "record_outcome E now r res d = (d1, i)" by force
  note fr = record_outcome_frame[OF ro]
  have hc: "holds_claim r d1" using fr assms(4) by (simp add: holds_claim_def)
  have "enqueue_next E r x now (completed_db (env_cfg E) now (drain_outcome (Some x) res i) r d1) = Inl e"
    using assms(5,6) fr by (simp add: enqueue_next_def enqueue_next_batch_def)
  then have "drain_run E W now r d = (d1, Inl e)"
    using assms(1) ro drain_commit_advance[OF hc assms(2)] by (simp add: drain_run_def)
  moreover have "\<exists>row. t_deliveries d1 = t_deliveries d @ [row] \<and> dl_state row = DELIVERY_SUCCEEDED"
    using ro assms(2,3) by (auto simp: record_outcome_def record_delivery_def Let_def outcome_to_delivery_def)
  ultimately show ?thesis using fr hc by blast
qed

definition broken_pipeline :: db where
  "broken_pipeline = sample_pipeline\<lparr>t_actions :=
     [(sample_action ''a1'' ''p'' webhook_blob 0)\<lparr>act_kind := KIND_WEBHOOK\<rparr>,
      sample_action ''a2'' ''p'' (log_blob DIGEST 0) 1]\<rparr>"

theorem broken_successor_undoes_completion_witness:
  "\<exists>d'. drain_run sample_env sample_world 50 sample_claimed broken_pipeline = (d', Inl ValidationError) \<and>
     holds_claim sample_claimed d' \<and> length (t_deliveries d') = 1"
proof -
  let ?R = "drain_resolve sample_env sample_world sample_claimed broken_pipeline"
  have s: "ar_state (snd ?R) = SUCCEEDED" by code_simp
  have o: "ar_outbound (snd ?R) \<noteq> None" by code_simp
  have h: "holds_claim sample_claimed broken_pipeline" by code_simp
  have n: "case fst ?R of None \<Rightarrow> False | Some x \<Rightarrow>
      (case next_in_chain (run_account sample_claimed) x (t_actions broken_pipeline) of
         None \<Rightarrow> False | Some n \<Rightarrow> load_config sample_env n = Inl ValidationError)" by code_simp
  have z: "t_deliveries broken_pipeline = []" by code_simp
  obtain x res where r: "?R = (Some x, res)" using n by (cases ?R) (auto split: option.splits)
  from n r obtain m where m: "next_in_chain (run_account sample_claimed) x (t_actions broken_pipeline) = Some m"
    "load_config sample_env m = Inl ValidationError" by (auto split: option.splits)
  from o r obtain call where c: "ar_outbound res = Some call" by auto
  from s r have s': "ar_state res = SUCCEEDED" by simp
  from broken_successor_undoes_completion[OF r s' c h m, of 50] z show ?thesis by auto
qed

lemma completed_db_inv:
  assumes "db_ok (env_cfg E) g d" "oc_state oc \<noteq> PENDING"
  shows "db_ok (env_cfg E) g (completed_db (env_cfg E) ts oc r d)"
proof -
  have "runs_ok (env_cfg E) (t_runs (completed_db (env_cfg E) ts oc r d))"
    unfolding completed_db_def
    using assms by (auto intro!: runs_ok_qupdate simp: db_ok_def run_ok_def completion_ts_def)
  moreover have "run_ids_ok g (completed_db (env_cfg E) ts oc r d)"
    using assms(1) by (auto simp: db_ok_def run_ids_ok_def completed_db_def set_qupdate)
  ultimately show ?thesis using assms(1) by (simp add: db_ok_def)
qed

lemma completed_db_no_orphan:
  assumes "no_orphan d" "oc_state oc \<noteq> PENDING"
  shows "no_orphan (completed_db cfg ts oc r d)"
proof (rule no_orphan_runs[OF assms(1)])
  fix x assume x: "x \<in> set (t_runs (completed_db cfg ts oc r d))" "run_state x = PENDING"
  then have "x \<in> set (t_runs d)" using assms(2) by (auto simp: completed_db_def set_qupdate split: if_splits)
  with x(2) show "\<not> closed_window (run_account x) (run_action x) d \<or>
      (\<exists>y\<in>set (t_runs d). run_state y = PENDING \<and> run_account y = run_account x \<and> run_action y = run_action x)"
    by blast
qed simp

text \<open>What every operation of the pipeline keeps.\<close>

definition pipeline_ok :: "env \<Rightarrow> db \<Rightarrow> bool" where
  "pipeline_ok E d \<longleftrightarrow>
     db_ok (env_cfg E) (env_gen E) d \<and> windows_match E d \<and> ids_distinct (t_actions d) \<and> no_orphan d"

lemma pipeline_ok_advance:
  assumes "pipeline_ok E d" "inj (env_gen E)" "0 < WATCH_RUN_MAX_ATTEMPTS (env_cfg E)"
    and "enqueue_next_batch E runs a now d = Inr d'"
  shows "pipeline_ok E d'"
proof -
  have p: "db_ok (env_cfg E) (env_gen E) d" "windows_match E d" "ids_distinct (t_actions d)" "no_orphan d"
    using assms(1) by (auto simp: pipeline_ok_def)
  have w: "windows_ok (t_windows d)" using p(1) by (simp add: db_ok_def)
  show ?thesis
    using enqueue_next_batch_ok[OF assms(4) p(1) assms(2,3)] enqueue_next_batch_windows_match[OF assms(4) p(2,3)]
      enqueue_next_batch_no_orphan[OF assms(4) w p(2,4)] p(3)
    by (simp add: pipeline_ok_def)
qed

lemma pipeline_ok_completed:
  assumes "pipeline_ok E d" "oc_state oc \<noteq> PENDING"
  shows "pipeline_ok E (completed_db (env_cfg E) ts oc r d)"
proof -
  have "windows_match E (completed_db (env_cfg E) ts oc r d) = windows_match E d"
    by (rule windows_match_cong) simp_all
  with assms show ?thesis by (simp add: pipeline_ok_def completed_db_inv completed_db_no_orphan)
qed

text \<open>A change that leaves runs, windows and actions alone keeps it.\<close>

lemma pipeline_ok_frame:
  assumes "pipeline_ok E d" "t_runs d' = t_runs d" "t_windows d' = t_windows d" "t_actions d' = t_actions d"
    and "next_id d \<le> next_id d'"
  shows "pipeline_ok E d'"
proof -
  have "windows_match E d' = windows_match E d" by (rule windows_match_cong) (use assms in simp_all)
  moreover have "run_ids_ok (env_gen E) d'"
    using assms id_used_mono by (fastforce simp: pipeline_ok_def db_ok_def run_ids_ok_def)
  moreover have "no_orphan d' = no_orphan d" using assms(2,3) by (simp add: no_orphan_def closed_window_def)
  ultimately show ?thesis using assms by (simp add: pipeline_ok_def db_ok_def)
qed

text \<open>C3: draining a run keeps the tables sound: unique run keys and ids, \<open>completed_at\<close> set
  exactly on runs at rest, one window row per action and none on an instant one, and no
  pending run behind a closed window, through the advance into a digest window as well.\<close>

theorem drain_keeps_pipeline:
  assumes "pipeline_ok E d" "inj (env_gen E)" "0 < WATCH_RUN_MAX_ATTEMPTS (env_cfg E)"
    and "ar_state (snd (drain_resolve E W r d)) \<noteq> PENDING"
  shows "pipeline_ok E (fst (drain_run E W now r d))"
proof -
  obtain a res where r: "drain_resolve E W r d = (a, res)" by force
  obtain d1 i where ro: "record_outcome E now r res d = (d1, i)" by force
  note fr = record_outcome_frame[OF ro]
  have p1: "pipeline_ok E d1" by (rule pipeline_ok_frame[OF assms(1)]) (use fr in simp_all)
  show ?thesis
  proof (cases "drain_commit E now r a res i d1")
    case (Inl e)
    with r ro p1 show ?thesis by (simp add: drain_run_def)
  next
    case (Inr q)
    then obtain d2 b where c: "drain_commit E now r a res i d1 = Inr (d2, b)" by (cases q) simp
    let ?oc = "drain_outcome a res i"
    have pc: "pipeline_ok E (completed_db (env_cfg E) now ?oc r d1)"
      by (rule pipeline_ok_completed[OF p1]) (use assms(4) r in \<open>simp add: drain_outcome_def\<close>)
    have "pipeline_ok E d2"
    proof (cases "holds_claim r d1")
      case False
      with c p1 drain_commit_lost[OF False] show ?thesis by simp
    next
      case True
      show ?thesis
      proof (cases "a = None \<or> ar_state res \<noteq> SUCCEEDED")
        case stop: True
        with c pc drain_commit_stop[OF True stop] show ?thesis by simp
      next
        case False
        then obtain x where x: "a = Some x" "ar_state res = SUCCEEDED" by auto
        with c drain_commit_advance[OF True x(2)] have
          "enqueue_next_batch E [r] x now (completed_db (env_cfg E) now ?oc r d1) = Inr d2"
          by (auto simp: res_bind_Inr_iff enqueue_next_def)
        with pipeline_ok_advance[OF pc assms(2,3)] show ?thesis by blast
      qed
    qed
    with r ro c show ?thesis by (simp add: drain_run_def)
  qed
qed

theorem drain_keeps_pipeline_witness:
  "pipeline_ok sample_env (fst (drain_run sample_env sample_world 50 sample_claimed
     (sample_pipeline\<lparr>t_runs := [sample_run (sample_gen 3) ''a1'' ''it'' RUNNING 1]\<rparr>)))"
proof (rule drain_keeps_pipeline)
  let ?d = "sample_pipeline\<lparr>t_runs := [sample_run (sample_gen 3) ''a1'' ''it'' RUNNING 1]\<rparr>"
  have u: "run_ids_ok (env_gen sample_env) ?d"
    by (simp add: run_ids_ok_def sample_pipeline_def sample_run_def id_used_def)
  have "runs_ok default_settings (t_runs ?d)" "windows_ok (t_windows ?d)" "windows_match sample_env ?d"
    "ids_distinct (t_actions ?d)" "no_orphan ?d"
    by code_simp+
  with u show "pipeline_ok sample_env ?d" by (simp add: pipeline_ok_def db_ok_def)
  show "inj (env_gen sample_env)" by (simp add: inj_sample_gen)
  show "0 < WATCH_RUN_MAX_ATTEMPTS (env_cfg sample_env)" by (simp add: default_settings_def)
  show "ar_state (snd (drain_resolve sample_env sample_world sample_claimed ?d)) \<noteq> PENDING" by code_simp
qed

end
