(* ===== verification/Flush.thy ===== *)
theory Flush
  imports Drain
begin

text \<open>
  One due digest window emitted in capped slices: \<open>watches/operations/digest_flush.py\<close>. The
  loop takes fuel; \<open>W k\<close> is the world the k-th slice sees. Lemmas: the loop ends within
  (pending runs + 1) slices and leaves the window closed with nothing pending when every emit
  succeeds, a failed emit burns one attempt per run of the slice and touches nothing else,
  gone items become ERRORED, and the pipeline invariant is kept.
\<close>

subsection \<open>Slices\<close>

record slice =
  sl_outcome :: "action_result option"
  sl_more :: bool
  sl_count :: nat

definition resolve_digest_action ::
  "env \<Rightarrow> world \<Rightarrow> ulid \<Rightarrow> ulid \<Rightarrow> db \<Rightarrow>
   string + (action \<times> (action \<Rightarrow> action_item list \<Rightarrow> action_context \<Rightarrow> action_result result))" where
  "resolve_digest_action E W account act d =
     (case get_action account act (t_actions d) of
        Inl _ \<Rightarrow> Inl ACTION_GONE
      | Inr a \<Rightarrow> (case executor E W (act_kind a) of
          None \<Rightarrow> Inl NO_EXECUTOR | Some impl \<Rightarrow> Inr (a, impl)))"

definition errored_outcome :: "string \<Rightarrow> outcome" where
  "errored_outcome err = \<lparr>oc_state = ERRORED, oc_result = JNull, oc_error = err, oc_delivery = '''', oc_kind = ''''\<rparr>"

definition find_item :: "ulid \<Rightarrow> db \<Rightarrow> run \<Rightarrow> item option" where
  "find_item account d r = qfirst (\<lambda>i. item_account i = account \<and> item_id i = run_item r) (t_items d)"

definition window_bounds ::
  "env \<Rightarrow> window \<Rightarrow> action \<Rightarrow> (datetime option \<times> datetime option) result" where
  "window_bounds E w a =
     (case win_close w of
        None \<Rightarrow> Inr (None, None)
      | Some close_at \<Rightarrow>
          (case load_config E a of
             Inl ValidationError \<Rightarrow> Inr (None, Some close_at)
           | Inl e \<Rightarrow> Inl e
           | Inr c \<Rightarrow>
               if delivery_of c = None \<or> digest_interval c = 0 then Inr (None, Some close_at)
               else Inr (Some (close_at - seconds (digest_interval c)), Some close_at)))"

definition close_window :: "window \<Rightarrow> db \<Rightarrow> db" where
  "close_window w d = fst (close_if_drained (win_account w) (win_action w) d)"

definition fail_slice :: "env \<Rightarrow> datetime \<Rightarrow> window \<Rightarrow> run list \<Rightarrow> run list \<Rightarrow> db \<Rightarrow> db \<times> slice" where
  "fail_slice E now w batch gone d =
     (close_window w (fst (fail_batch (env_cfg E) (win_account w) (map run_id batch) now d)),
      \<lparr>sl_outcome = Some (plain_result FAILED (JObj []) TRANSIENT), sl_more = False,
       sl_count = length gone\<rparr>)"

definition max_attempts :: "run list \<Rightarrow> nat" where
  "max_attempts rs = foldr max (map run_attempts rs) 0"

definition record_slice ::
  "env \<Rightarrow> datetime \<Rightarrow> window \<Rightarrow> run list \<Rightarrow> action_result \<Rightarrow> db \<Rightarrow> db \<times> ulid" where
  "record_slice E now w batch res d =
     (case ar_outbound res of
        None \<Rightarrow> (d, '''')
      | Some call \<Rightarrow>
          record_delivery (env_gen E) (win_account w) (run_watch (hd batch)) (win_action w) DIGEST call
            (ar_state res) (ar_error res) (max_attempts batch + 1) now d)"

definition slice_outcome :: "action \<Rightarrow> action_result \<Rightarrow> ulid \<Rightarrow> outcome" where
  "slice_outcome a res delivery_id =
     \<lparr>oc_state = ar_state res, oc_result = ar_result res, oc_error = ar_error res,
      oc_delivery = delivery_id, oc_kind = act_kind a\<rparr>"

definition complete_slice ::
  "env \<Rightarrow> datetime \<Rightarrow> window \<Rightarrow> run list \<Rightarrow> action \<Rightarrow> action_result \<Rightarrow> ulid \<Rightarrow> nat \<Rightarrow> db \<Rightarrow>
   (db \<times> slice) result" where
  "complete_slice E now w batch a res delivery_id n_total d =
     (let d1 = fst (complete_batch (win_account w) (map run_id batch) (slice_outcome a res delivery_id) now d)
      in res_bind (if ar_state res = SUCCEEDED then enqueue_next_batch E batch a now d1 else Inr d1) (\<lambda>d2.
           let (d3, closed) = close_if_drained (win_account w) (win_action w) d2
           in Inr (d3, \<lparr>sl_outcome = Some res, sl_more = \<not> closed, sl_count = n_total\<rparr>)))"

text \<open>The emit and what follows it, on the runs whose item is still there.\<close>

definition emit_slice ::
  "env \<Rightarrow> world \<Rightarrow> datetime \<Rightarrow> window \<Rightarrow> run list \<Rightarrow> run list \<Rightarrow> action \<Rightarrow>
   (action \<Rightarrow> action_item list \<Rightarrow> action_context \<Rightarrow> action_result result) \<Rightarrow> db \<Rightarrow> db \<times> slice result" where
  "emit_slice E W now w batch gone a impl d =
     (let watch = run_watch (hd batch) in
      if list_ex (\<lambda>r. run_watch r \<noteq> watch) batch then (d, Inl RuntimeError)
      else case window_bounds E w a of
        Inl e \<Rightarrow> (d, Inl e)
      | Inr (since, until) \<Rightarrow>
          let pairs = concat (map (\<lambda>r. case find_item (win_account w) d r of None \<Rightarrow> [] | Some i \<Rightarrow> [(r, i)]) batch);
              (items, cx) = build_run_inputs pairs watch DIGEST since until d
          in (case impl a items cx of
                Inl _ \<Rightarrow> (case fail_slice E now w batch gone d of (d', s) \<Rightarrow> (d', Inr s))
              | Inr res0 \<Rightarrow>
                  let res = enforce_result_schema W (act_kind a) res0;
                      (d1, delivery_id) = record_slice E now w batch res d
                  in if ar_state res = FAILED
                     then (case fail_slice E now w batch gone d1 of (d', s) \<Rightarrow> (d', Inr s))
                     else (case complete_slice E now w batch a res delivery_id (length batch + length gone) d1 of
                             Inl e \<Rightarrow> (d1, Inl e)
                           | Inr (d', s) \<Rightarrow> (d', Inr s))))"

definition flush_slice :: "env \<Rightarrow> world \<Rightarrow> datetime \<Rightarrow> window \<Rightarrow> db \<Rightarrow> db \<times> slice result" where
  "flush_slice E W now w d =
     (let account = win_account w; act = win_action w;
          runs = digest_batch (env_cfg E) account act d
      in if runs = [] then (close_window w d, Inr \<lparr>sl_outcome = None, sl_more = False, sl_count = 0\<rparr>)
      else case resolve_digest_action E W account act d of
        Inl err \<Rightarrow>
          (close_window w (fst (complete_batch account (map run_id runs) (errored_outcome err) now d)),
           Inr \<lparr>sl_outcome = Some (errored err), sl_more = False, sl_count = length runs\<rparr>)
      | Inr (a, impl) \<Rightarrow>
          let batch = filter (\<lambda>r. find_item account d r \<noteq> None) runs;
              gone = filter (\<lambda>r. find_item account d r = None) runs;
              d1 = (if gone = [] then d
                    else fst (complete_batch account (map run_id gone) (errored_outcome ITEM_GONE) now d))
          in if batch = []
             then (close_window w d1,
                   Inr \<lparr>sl_outcome = Some (errored ITEM_GONE), sl_more = False, sl_count = length runs\<rparr>)
             else emit_slice E W now w batch gone a impl d1)"

text \<open>The loop of \<open>run\<close>: the last outcome of a slice that had one, or an exception. None is
  a loop still running after \<open>fuel\<close> slices.\<close>

fun flush_loop ::
  "env \<Rightarrow> (nat \<Rightarrow> world) \<Rightarrow> datetime \<Rightarrow> window \<Rightarrow> nat \<Rightarrow> nat \<Rightarrow> action_result option \<Rightarrow> db \<Rightarrow>
   (db \<times> action_result option result) option" where
  "flush_loop E W now w 0 k last_outcome d = None"
| "flush_loop E W now w (Suc fuel) k last_outcome d =
     (case flush_slice E (W k) now w d of
        (d', Inl e) \<Rightarrow> Some (d', Inl e)
      | (d', Inr s) \<Rightarrow>
          let out = (case sl_outcome s of None \<Rightarrow> last_outcome | Some r \<Rightarrow> Some r)
          in if sl_more s then flush_loop E W now w fuel (Suc k) out d' else Some (d', Inr out))"

definition flush_run ::
  "env \<Rightarrow> (nat \<Rightarrow> world) \<Rightarrow> datetime \<Rightarrow> window \<Rightarrow> nat \<Rightarrow> db \<Rightarrow> (db \<times> action_result option result) option" where
  "flush_run E W now w fuel d = flush_loop E W now w fuel 0 None d"

subsection \<open>Lemmas: pending runs of a window\<close>

definition pend :: "window \<Rightarrow> db \<Rightarrow> nat" where
  "pend w d = digest_pending_count (win_account w) (win_action w) d"

lemma pend_cong: "t_runs d' = t_runs d \<Longrightarrow> pend w d' = pend w d"
  by (simp add: pend_def digest_pending_count_def)

lemma pend_close [simp]: "pend w (close_window v d) = pend w d"
  by (rule pend_cong) (simp add: close_window_def)

text \<open>Settling a batch takes exactly its own pending runs out of the window.\<close>

lemma pend_complete_batch:
  assumes "distinct ids" "oc_state oc \<noteq> PENDING"
  shows "pend w (fst (complete_batch (win_account w) ids oc ts d)) =
    qcount (\<lambda>r. pending_of (win_account w) (win_action w) r \<and> run_id r \<notin> set ids) (t_runs d)"
proof -
  have "qcount (pending_of a b) (map (\<lambda>r. if in_batch a ids r then stamp_outcome oc (Some ts) r else r) t) =
      qcount (\<lambda>r. pending_of a b r \<and> run_id r \<notin> set ids) t" for a b t
    using assms(2) by (induction t) (auto simp: pending_of_def in_batch_def)
  then show ?thesis using assms(1) by (simp add: pend_def digest_pending_count_def complete_batch_spec)
qed

lemma pend_complete_batch_le:
  "distinct ids \<Longrightarrow> oc_state oc \<noteq> PENDING \<Longrightarrow>
   pend w (fst (complete_batch (win_account w) ids oc ts d)) \<le> pend w d"
  using qcount_split[of "pending_of (win_account w) (win_action w)" "t_runs d" "\<lambda>r. run_id r \<notin> set ids"]
  by (simp add: pend_complete_batch) (simp add: pend_def digest_pending_count_def)

lemma pend_complete_batch_less:
  assumes "distinct ids" "oc_state oc \<noteq> PENDING"
    and "r \<in> set (t_runs d)" "pending_of (win_account w) (win_action w) r" "run_id r \<in> set ids"
  shows "pend w (fst (complete_batch (win_account w) ids oc ts d)) < pend w d"
proof -
  let ?P = "pending_of (win_account w) (win_action w)"
  have "0 < qcount (\<lambda>x. ?P x \<and> run_id x \<in> set ids) (t_runs d)"
    using assms(3-5) qcount_0_iff[of "\<lambda>x. ?P x \<and> run_id x \<in> set ids" "t_runs d"] by auto
  with qcount_split[of ?P "t_runs d" "\<lambda>x. run_id x \<in> set ids"] assms(1,2) show ?thesis
    by (simp add: pend_complete_batch) (simp add: pend_def digest_pending_count_def)
qed

text \<open>The advance queues runs of the next rank, never of the window's own action.\<close>

lemma pend_advance:
  assumes e: "enqueue_next_batch E runs a now d = Inr d'" and i: "ids_distinct (t_actions d)"
    and a: "a \<in> set (t_actions d)" "act_id a = win_action w"
  shows "pend w d' = pend w d"
  using e
proof (cases rule: enqueue_next_batch_cases)
  case noop
  then show ?thesis by simp
next
  case (advance nxt c)
  have n: "nxt \<in> set (t_actions d)" "act_rank a < act_rank nxt"
    using next_in_chain_Some[OF advance(2)] by simp_all
  have ne: "act_id nxt \<noteq> win_action w"
  proof
    assume "act_id nxt = win_action w"
    then have "nxt = a" using i a n(1) by (auto simp: ids_distinct_def intro: distinct_key_unique)
    with n(2) show False by simp
  qed
  let ?acc = "run_account (hd runs)"
  let ?d = "fst (advance_window E ?acc nxt c now d)"
  obtain new k where new: "d' = ?d\<lparr>t_runs := t_runs ?d @ new, next_id := k\<rparr>"
    "\<forall>r\<in>set new. run_action r = act_id nxt"
    unfolding advance(4)
    using enqueue_advance_batch_rows[of "env_gen E" ?acc "act_id nxt" "act_kind nxt"
        "snd (advance_window E ?acc nxt c now d)" "map (\<lambda>r. (run_watch r, run_item r, run_id r)) runs" ?d]
    by (elim exE conjE) simp
  have "qcount (pending_of (win_account w) (win_action w)) new = 0"
    using new(2) ne by (auto simp: qcount_0_iff pending_of_def)
  then show ?thesis by (simp add: new(1) pend_def digest_pending_count_def)
qed

subsection \<open>Lemmas: the invariant through the steps of a slice\<close>

lemma pipeline_ok_runs:
  assumes "pipeline_ok E d" "d' = d\<lparr>t_runs := t\<rparr>" "runs_ok (env_cfg E) t"
    and "run_id ` set t \<subseteq> run_id ` set (t_runs d)"
    and "\<And>r. r \<in> set t \<Longrightarrow> run_state r = PENDING \<Longrightarrow>
      \<exists>x\<in>set (t_runs d). run_state x = PENDING \<and> run_account x = run_account r \<and> run_action x = run_action r"
  shows "pipeline_ok E d'"
proof -
  have m: "windows_match E d' = windows_match E d" by (rule windows_match_cong) (simp_all add: assms(2))
  have o: "no_orphan d'"
    by (rule no_orphan_runs[of d]) (use assms in \<open>auto simp: pipeline_ok_def\<close>)
  have "run_ids_ok (env_gen E) d'"
    unfolding run_ids_ok_def
  proof
    fix r assume "r \<in> set (t_runs d')"
    then have "run_id r \<in> run_id ` set (t_runs d)" using assms(2,4) by auto
    then obtain x where "x \<in> set (t_runs d)" "run_id x = run_id r" by auto
    with assms(1,2) show "id_used (env_gen E) (next_id d') (run_id r)"
      by (auto simp: pipeline_ok_def db_ok_def run_ids_ok_def)
  qed
  with m o assms(1-3) show ?thesis by (simp add: pipeline_ok_def db_ok_def)
qed

lemma pipeline_ok_complete_batch:
  assumes "pipeline_ok E d" "distinct ids" "oc_state oc \<in> set TERMINAL_STATES"
  shows "pipeline_ok E (fst (complete_batch account ids oc ts d))"
proof (rule pipeline_ok_runs[OF assms(1)])
  show "fst (complete_batch account ids oc ts d) =
      d\<lparr>t_runs := t_runs (fst (complete_batch account ids oc ts d))\<rparr>"
    using assms(2) by (simp add: complete_batch_spec)
  show "runs_ok (env_cfg E) (t_runs (fst (complete_batch account ids oc ts d)))"
    using assms by (intro runs_ok_complete_batch) (simp_all add: pipeline_ok_def db_ok_def)
  show "run_id ` set (t_runs (fst (complete_batch account ids oc ts d))) \<subseteq> run_id ` set (t_runs d)"
    using assms(2) by (auto simp: complete_batch_spec)
  fix r assume "r \<in> set (t_runs (fst (complete_batch account ids oc ts d)))" "run_state r = PENDING"
  moreover from this assms(2,3) have "r \<in> set (t_runs d)"
    by (auto simp: complete_batch_spec split: if_splits)
  ultimately show "\<exists>x\<in>set (t_runs d). run_state x = PENDING \<and> run_account x = run_account r \<and>
      run_action x = run_action r" by blast
qed

lemma pipeline_ok_fail_batch:
  assumes "pipeline_ok E d" "distinct ids"
  shows "pipeline_ok E (fst (fail_batch (env_cfg E) account ids ts d))"
proof (rule pipeline_ok_runs[OF assms(1)])
  let ?d = "fst (fail_batch (env_cfg E) account ids ts d)"
  show "?d = d\<lparr>t_runs := t_runs ?d\<rparr>" using assms(2) by (simp add: fail_batch_spec)
  show "runs_ok (env_cfg E) (t_runs ?d)"
    using assms by (intro runs_ok_fail_batch) (simp_all add: pipeline_ok_def db_ok_def)
  show "run_id ` set (t_runs ?d) \<subseteq> run_id ` set (t_runs d)"
    using assms(2) by (auto simp: fail_batch_spec)
  fix r assume r: "r \<in> set (t_runs ?d)" "run_state r = PENDING"
  with assms(2) obtain x where "x \<in> set (t_runs d)"
    "r = (if in_batch account ids x then fail_row (env_cfg E) ts x else x)"
    by (auto simp: fail_batch_spec)
  with r(2) show "\<exists>x\<in>set (t_runs d). run_state x = PENDING \<and> run_account x = run_account r \<and>
      run_action x = run_action r"
    by (intro bexI[of _ x]) (auto split: if_splits)
qed

lemma pipeline_ok_close:
  assumes "pipeline_ok E d"
  shows "pipeline_ok E (fst (close_if_drained account act d))"
proof -
  let ?d = "fst (close_if_drained account act d)"
  obtain ws where ws: "?d = d\<lparr>t_windows := ws\<rparr>" using close_if_drained_frame by blast
  have acts: "t_actions ?d = t_actions d" using ws by simp
  have "windows_match E ?d \<longleftrightarrow> windows_match E d"
    unfolding windows_match_def has_window_close acts ..
  then show ?thesis using assms ws windows_ok_close[of d account act] no_orphan_close[of d account act]
    by (auto simp: pipeline_ok_def db_ok_def run_ids_ok_def)
qed

subsection \<open>Lemmas: the ways a slice ends\<close>

definition present :: "window \<Rightarrow> db \<Rightarrow> run list \<Rightarrow> run list" where
  "present w d runs = filter (\<lambda>r. find_item (win_account w) d r \<noteq> None) runs"

definition missing_items :: "window \<Rightarrow> db \<Rightarrow> run list \<Rightarrow> run list" where
  "missing_items w d runs = filter (\<lambda>r. find_item (win_account w) d r = None) runs"

definition settle :: "window \<Rightarrow> run list \<Rightarrow> outcome \<Rightarrow> datetime \<Rightarrow> db \<Rightarrow> db" where
  "settle w rs oc now d = fst (complete_batch (win_account w) (map run_id rs) oc now d)"

lemma settle_Nil [simp]: "settle w [] oc now d = d"
  by (simp add: settle_def complete_batch_def)

text \<open>The runs of a slice whose item is gone are settled first.\<close>

definition after_gone :: "env \<Rightarrow> datetime \<Rightarrow> window \<Rightarrow> db \<Rightarrow> db" where
  "after_gone E now w d =
     settle w (missing_items w d (digest_batch (env_cfg E) (win_account w) (win_action w) d))
       (errored_outcome ITEM_GONE) now d"

lemma flush_slice_cases:
  assumes "flush_slice E W now w d = (d', x)"
  obtains (idle) "digest_batch (env_cfg E) (win_account w) (win_action w) d = []"
      "d' = close_window w d" "x = Inr \<lparr>sl_outcome = None, sl_more = False, sl_count = 0\<rparr>"
    | (unresolved) err where
      "resolve_digest_action E W (win_account w) (win_action w) d = Inl err"
      "d' = close_window w (settle w (digest_batch (env_cfg E) (win_account w) (win_action w) d)
              (errored_outcome err) now d)"
      "x = Inr \<lparr>sl_outcome = Some (errored err), sl_more = False,
                sl_count = length (digest_batch (env_cfg E) (win_account w) (win_action w) d)\<rparr>"
    | (all_gone) a impl where
      "resolve_digest_action E W (win_account w) (win_action w) d = Inr (a, impl)"
      "present w d (digest_batch (env_cfg E) (win_account w) (win_action w) d) = []"
      "d' = close_window w (after_gone E now w d)"
      "x = Inr \<lparr>sl_outcome = Some (errored ITEM_GONE), sl_more = False,
                sl_count = length (digest_batch (env_cfg E) (win_account w) (win_action w) d)\<rparr>"
    | (emit) a impl where
      "resolve_digest_action E W (win_account w) (win_action w) d = Inr (a, impl)"
      "present w d (digest_batch (env_cfg E) (win_account w) (win_action w) d) \<noteq> []"
      "emit_slice E W now w (present w d (digest_batch (env_cfg E) (win_account w) (win_action w) d))
         (missing_items w d (digest_batch (env_cfg E) (win_account w) (win_action w) d)) a impl
         (after_gone E now w d) = (d', x)"
proof -
  let ?b = "digest_batch (env_cfg E) (win_account w) (win_action w) d"
  have g: "(if missing_items w d ?b = [] then d
      else fst (complete_batch (win_account w) (map run_id (missing_items w d ?b)) (errored_outcome ITEM_GONE) now d)) =
    after_gone E now w d"
    by (simp add: after_gone_def settle_def[symmetric])
  have u: "flush_slice E W now w d =
     (if ?b = [] then (close_window w d, Inr \<lparr>sl_outcome = None, sl_more = False, sl_count = 0\<rparr>)
      else case resolve_digest_action E W (win_account w) (win_action w) d of
        Inl err \<Rightarrow> (close_window w (settle w ?b (errored_outcome err) now d),
           Inr \<lparr>sl_outcome = Some (errored err), sl_more = False, sl_count = length ?b\<rparr>)
      | Inr (a, impl) \<Rightarrow>
          if present w d ?b = []
          then (close_window w (after_gone E now w d),
                Inr \<lparr>sl_outcome = Some (errored ITEM_GONE), sl_more = False, sl_count = length ?b\<rparr>)
          else emit_slice E W now w (present w d ?b) (missing_items w d ?b) a impl (after_gone E now w d))"
    unfolding g[symmetric]
    unfolding flush_slice_def Let_def present_def missing_items_def settle_def ..
  show thesis
  proof (cases "?b = []")
    case True
    with assms u idle show thesis by simp
  next
    case busy: False
    show thesis
    proof (cases "resolve_digest_action E W (win_account w) (win_action w) d")
      case (Inl err)
      with busy assms u unresolved show thesis by simp
    next
      case (Inr p)
      then obtain a impl where r: "resolve_digest_action E W (win_account w) (win_action w) d = Inr (a, impl)"
        by (cases p) simp
      show thesis
      proof (cases "present w d ?b = []")
        case True
        with busy r assms u all_gone show thesis by simp
      next
        case False
        with busy r assms u emit show thesis by simp
      qed
    qed
  qed
qed

text \<open>An emit raises before the call, fails the slice, or reaches its completion, which
  commits or raises.\<close>

definition slice_inputs ::
  "window \<Rightarrow> run list \<Rightarrow> datetime option \<Rightarrow> datetime option \<Rightarrow> db \<Rightarrow> action_item list \<times> action_context" where
  "slice_inputs w batch since until d =
     build_run_inputs
       (concat (map (\<lambda>r. case find_item (win_account w) d r of None \<Rightarrow> [] | Some i \<Rightarrow> [(r, i)]) batch))
       (run_watch (hd batch)) DIGEST since until d"

definition emit_result ::
  "env \<Rightarrow> world \<Rightarrow> window \<Rightarrow> run list \<Rightarrow> action \<Rightarrow>
   (action \<Rightarrow> action_item list \<Rightarrow> action_context \<Rightarrow> action_result result) \<Rightarrow>
   datetime option \<Rightarrow> datetime option \<Rightarrow> db \<Rightarrow> action_result result" where
  "emit_result E W w batch a impl since until d =
     res_bind (impl a (fst (slice_inputs w batch since until d)) (snd (slice_inputs w batch since until d)))
       (\<lambda>r. Inr (enforce_result_schema W (act_kind a) r))"

lemma emit_slice_cases:
  assumes "emit_slice E W now w batch gone a impl d = (d', x)"
  obtains (refused) e where "d' = d" "x = Inl e"
    | (raised) since until e where "window_bounds E w a = Inr (since, until)"
      "emit_result E W w batch a impl since until d = Inl e"
      "(d', x) = (fst (fail_slice E now w batch gone d), Inr (snd (fail_slice E now w batch gone d)))"
    | (failed) since until res where "window_bounds E w a = Inr (since, until)"
      "emit_result E W w batch a impl since until d = Inr res" "ar_state res = FAILED"
      "(d', x) = (fst (fail_slice E now w batch gone (fst (record_slice E now w batch res d))),
                  Inr (snd (fail_slice E now w batch gone (fst (record_slice E now w batch res d)))))"
    | (rolled_back) since until res e where "window_bounds E w a = Inr (since, until)"
      "emit_result E W w batch a impl since until d = Inr res" "ar_state res \<noteq> FAILED"
      "complete_slice E now w batch a res (snd (record_slice E now w batch res d)) (length batch + length gone)
         (fst (record_slice E now w batch res d)) = Inl e"
      "d' = fst (record_slice E now w batch res d)" "x = Inl e"
    | (completed) since until res s where "window_bounds E w a = Inr (since, until)"
      "emit_result E W w batch a impl since until d = Inr res" "ar_state res \<noteq> FAILED"
      "complete_slice E now w batch a res (snd (record_slice E now w batch res d)) (length batch + length gone)
         (fst (record_slice E now w batch res d)) = Inr (d', s)" "x = Inr s"
proof -
  have u: "emit_slice E W now w batch gone a impl d =
     (if list_ex (\<lambda>r. run_watch r \<noteq> run_watch (hd batch)) batch then (d, Inl RuntimeError)
      else case window_bounds E w a of
        Inl e \<Rightarrow> (d, Inl e)
      | Inr (since, until) \<Rightarrow>
          (case emit_result E W w batch a impl since until d of
             Inl _ \<Rightarrow> (fst (fail_slice E now w batch gone d), Inr (snd (fail_slice E now w batch gone d)))
           | Inr res \<Rightarrow>
               let (d1, i) = record_slice E now w batch res d
               in if ar_state res = FAILED
                  then (fst (fail_slice E now w batch gone d1), Inr (snd (fail_slice E now w batch gone d1)))
                  else (case complete_slice E now w batch a res i (length batch + length gone) d1 of
                          Inl e \<Rightarrow> (d1, Inl e) | Inr (d', s) \<Rightarrow> (d', Inr s))))"
    unfolding emit_slice_def Let_def slice_inputs_def[symmetric] emit_result_def res_bind_def
    by (simp add: case_prod_beta split: sum.split)
  show thesis
  proof (cases "list_ex (\<lambda>r. run_watch r \<noteq> run_watch (hd batch)) batch")
    case True
    with u assms refused show thesis by simp
  next
    case same: False
    show thesis
    proof (cases "window_bounds E w a")
      case (Inl e)
      with same u assms refused show thesis by simp
    next
      case (Inr p)
      then obtain since until where b: "window_bounds E w a = Inr (since, until)" by (cases p) simp
      show thesis
      proof (cases "emit_result E W w batch a impl since until d")
        case (Inl e)
        with same b u assms have "(d', x) =
            (fst (fail_slice E now w batch gone d), Inr (snd (fail_slice E now w batch gone d)))" by simp
        with b Inl raised show thesis by blast
      next
        case (Inr res)
        obtain d1 i where rs: "record_slice E now w batch res d = (d1, i)" by force
        show thesis
        proof (cases "ar_state res = FAILED")
          case True
          with same b u assms Inr rs have "(d', x) =
              (fst (fail_slice E now w batch gone d1), Inr (snd (fail_slice E now w batch gone d1)))" by simp
          with b Inr True rs failed show thesis by simp
        next
          case False
          show thesis
          proof (cases "complete_slice E now w batch a res i (length batch + length gone) d1")
            case (Inl e)
            with same b u assms Inr rs False have "d' = d1" "x = Inl e" by simp_all
            with b Inr False Inl rs rolled_back show thesis by simp
          next
            case c: (Inr q)
            with same b u assms Inr rs False obtain s where
              "complete_slice E now w batch a res i (length batch + length gone) d1 = Inr (d', s)" "x = Inr s"
              by (cases q) simp
            with b Inr False rs completed show thesis by simp
          qed
        qed
      qed
    qed
  qed
qed

subsection \<open>Lemmas: what a slice keeps\<close>

lemma complete_batch_frame [simp]:
  "t_windows (fst (complete_batch acc ids oc ts d)) = t_windows d"
  "t_actions (fst (complete_batch acc ids oc ts d)) = t_actions d"
  "t_items (fst (complete_batch acc ids oc ts d)) = t_items d"
  "t_deliveries (fst (complete_batch acc ids oc ts d)) = t_deliveries d"
  "next_id (fst (complete_batch acc ids oc ts d)) = next_id d"
  by (simp_all add: complete_batch_def case_prod_beta)

lemma fail_batch_frame [simp]:
  "t_actions (fst (fail_batch cfg acc ids ts d)) = t_actions d"
  "t_windows (fst (fail_batch cfg acc ids ts d)) = t_windows d"
  "t_deliveries (fst (fail_batch cfg acc ids ts d)) = t_deliveries d"
  by (simp_all add: fail_batch_def case_prod_beta)

lemma settle_frame [simp]:
  "t_actions (settle w rs oc ts d) = t_actions d" "t_items (settle w rs oc ts d) = t_items d"
  "t_deliveries (settle w rs oc ts d) = t_deliveries d" "t_windows (settle w rs oc ts d) = t_windows d"
  by (simp_all add: settle_def)

lemma close_window_frame [simp]:
  "t_runs (close_window w d) = t_runs d" "t_actions (close_window w d) = t_actions d"
  "t_deliveries (close_window w d) = t_deliveries d"
  using close_if_drained_frame[of "win_account w" "win_action w" d] by (auto simp: close_window_def)

lemma record_slice_frame [simp]:
  "t_runs (fst (record_slice E now w batch res d)) = t_runs d"
  "t_windows (fst (record_slice E now w batch res d)) = t_windows d"
  "t_actions (fst (record_slice E now w batch res d)) = t_actions d"
  "next_id d \<le> next_id (fst (record_slice E now w batch res d))"
  by (simp_all add: record_slice_def split: option.split)

lemma errored_outcome_state [simp]: "oc_state (errored_outcome err) = ERRORED"
  by (simp add: errored_outcome_def)

lemma slice_outcome_simps [simp]:
  "oc_state (slice_outcome a res i) = ar_state res" "oc_result (slice_outcome a res i) = ar_result res"
  "oc_error (slice_outcome a res i) = ar_error res" "oc_delivery (slice_outcome a res i) = i"
  "oc_kind (slice_outcome a res i) = act_kind a"
  by (simp_all add: slice_outcome_def)

lemma settle_row:
  assumes "distinct (map run_id rs)"
  shows "t_runs (settle w rs oc now d) =
    map (\<lambda>r. if in_batch (win_account w) (map run_id rs) r then stamp_outcome oc (Some now) r else r) (t_runs d)"
  using complete_batch_spec[OF assms, of "win_account w" oc now d] by (simp add: settle_def)

lemma pipeline_ids: "pipeline_ok E d \<Longrightarrow> distinct (map run_id (t_runs d))"
  by (simp add: pipeline_ok_def db_ok_def runs_ok_def)

text \<open>The batch of a due window, split into the runs with and without their item.\<close>

definition batch_of :: "env \<Rightarrow> window \<Rightarrow> db \<Rightarrow> run list" where
  "batch_of E w d = digest_batch (env_cfg E) (win_account w) (win_action w) d"

lemma batch_ids:
  assumes "pipeline_ok E d"
  shows "distinct (map run_id (batch_of E w d))" "distinct (map run_id (present w d (batch_of E w d)))"
    "distinct (map run_id (missing_items w d (batch_of E w d)))"
  using digest_batch_distinct[OF pipeline_ids[OF assms], of "env_cfg E" "win_account w" "win_action w"]
  by (simp_all add: batch_of_def present_def missing_items_def distinct_map_filter)

lemma batch_pending:
  "r \<in> set (batch_of E w d) \<Longrightarrow> r \<in> set (t_runs d) \<and> pending_of (win_account w) (win_action w) r"
  by (auto simp: batch_of_def dest: digest_batch_pending)

lemma batch_split_ids:
  assumes "pipeline_ok E d" "r \<in> set (present w d (batch_of E w d))"
  shows "run_id r \<notin> run_id ` set (missing_items w d (batch_of E w d))"
proof
  assume "run_id r \<in> run_id ` set (missing_items w d (batch_of E w d))"
  then obtain x where x: "x \<in> set (missing_items w d (batch_of E w d))" "run_id x = run_id r" by auto
  with assms(2) have "x \<in> set (t_runs d)" "r \<in> set (t_runs d)"
    using batch_pending by (auto simp: present_def missing_items_def)
  with x(2) pipeline_ids[OF assms(1)] have "x = r" by (metis distinct_key_unique)
  with x(1) assms(2) show False by (simp add: present_def missing_items_def)
qed

lemma after_gone_keeps:
  assumes "pipeline_ok E d" "r \<in> set (present w d (batch_of E w d))"
  shows "r \<in> set (t_runs (after_gone E now w d))"
proof -
  have "r \<in> set (t_runs d)" using assms(2) batch_pending by (auto simp: present_def)
  moreover have "\<not> in_batch (win_account w) (map run_id (missing_items w d (batch_of E w d))) r"
    using batch_split_ids[OF assms] by (simp add: in_batch_def)
  ultimately show ?thesis
    using settle_row[OF batch_ids(3)[OF assms(1)]] by (force simp: after_gone_def batch_of_def)
qed

lemma settle_ok:
  "pipeline_ok E d \<Longrightarrow> distinct (map run_id rs) \<Longrightarrow> oc_state oc \<in> set TERMINAL_STATES \<Longrightarrow>
   pipeline_ok E (settle w rs oc now d)"
  unfolding settle_def by (rule pipeline_ok_complete_batch)

lemma errored_terminal [simp]: "ERRORED \<in> set TERMINAL_STATES"
  by (simp add: TERMINAL_STATES_def)

lemma after_gone_ok: "pipeline_ok E d \<Longrightarrow> pipeline_ok E (after_gone E now w d)"
  unfolding after_gone_def by (rule settle_ok) (simp_all add: batch_ids(3)[unfolded batch_of_def])

lemma after_gone_pend: "pipeline_ok E d \<Longrightarrow> pend w (after_gone E now w d) \<le> pend w d"
  unfolding after_gone_def settle_def
  by (rule pend_complete_batch_le) (simp_all add: batch_ids(3)[unfolded batch_of_def])

lemma close_window_ok: "pipeline_ok E d \<Longrightarrow> pipeline_ok E (close_window w d)"
  unfolding close_window_def by (rule pipeline_ok_close)

lemma fail_slice_ok:
  assumes "pipeline_ok E d" "distinct (map run_id batch)"
  shows "pipeline_ok E (fst (fail_slice E now w batch gone d)) \<and>
    pend w (fst (fail_slice E now w batch gone d)) \<le> pend w d"
proof -
  let ?d = "fst (fail_batch (env_cfg E) (win_account w) (map run_id batch) now d)"
  have "qcount (pending_of a b) (map (\<lambda>r. if in_batch a ids r then fail_row (env_cfg E) now r else r) t)
      \<le> qcount (pending_of a b) t" for a b ids t
    by (induction t) (auto simp: pending_of_def)
  then have "pend w ?d \<le> pend w d"
    using assms(2) by (simp add: fail_batch_spec pend_def digest_pending_count_def)
  moreover have "pipeline_ok E ?d" using assms by (rule pipeline_ok_fail_batch)
  ultimately show ?thesis by (simp add: fail_slice_def close_window_ok)
qed

lemma resolve_digest_Inr:
  assumes "resolve_digest_action E W account act d = Inr (a, impl)"
  shows "a \<in> set (t_actions d)" "act_id a = act" "act_account a = account" "executor E W (act_kind a) = Some impl"
  using assms by (auto simp: resolve_digest_action_def get_action_def dest!: qget_Inr split: sum.splits option.splits)

lemma emit_result_terminal:
  assumes "plugins_resolve W" "executor E W (act_kind a) = Some impl"
    and "emit_result E W w batch a impl since until d = Inr res" "ar_state res \<noteq> FAILED"
  shows "ar_state res \<in> set TERMINAL_STATES"
proof -
  from assms(3) obtain r where r: "impl a (fst (slice_inputs w batch since until d))
      (snd (slice_inputs w batch since until d)) = Inr r" "res = enforce_result_schema W (act_kind a) r"
    by (auto simp: emit_result_def res_bind_Inr_iff)
  have "ar_state r \<noteq> PENDING" "ar_state r \<noteq> RUNNING" using executor_states[OF assms(1,2) r(1)] by simp_all
  then show ?thesis using r(2) assms(4) enforce_states[of W "act_kind a" r]
    by (cases "ar_state res") (auto simp: TERMINAL_STATES_def)
qed

lemma complete_slice_Inr:
  assumes "complete_slice E now w batch a res i n d = Inr (d', s)"
  obtains d2 where
    "(if ar_state res = SUCCEEDED
      then enqueue_next_batch E batch a now (settle w batch (slice_outcome a res i) now d)
      else Inr (settle w batch (slice_outcome a res i) now d)) = Inr d2"
    "d' = close_window w d2"
    "s = \<lparr>sl_outcome = Some res, sl_more = \<not> snd (close_if_drained (win_account w) (win_action w) d2),
          sl_count = n\<rparr>"
proof -
  let ?e = "if ar_state res = SUCCEEDED
      then enqueue_next_batch E batch a now (settle w batch (slice_outcome a res i) now d)
      else Inr (settle w batch (slice_outcome a res i) now d)"
  from assms obtain d2 where e: "?e = Inr d2"
    and r: "(case close_if_drained (win_account w) (win_action w) d2 of (d3, c) \<Rightarrow>
             Inr (d3, \<lparr>sl_outcome = Some res, sl_more = \<not> c, sl_count = n\<rparr>)) = (Inr (d', s) :: (db \<times> slice) result)"
    unfolding complete_slice_def Let_def settle_def[symmetric] res_bind_Inr_iff by (elim exE conjE) (rule that)
  obtain d3 closed where cd: "close_if_drained (win_account w) (win_action w) d2 = (d3, closed)" by force
  with r have "d' = close_window w d2"
    "s = \<lparr>sl_outcome = Some res, sl_more = \<not> snd (close_if_drained (win_account w) (win_action w) d2),
          sl_count = n\<rparr>"
    by (simp_all add: close_window_def)
  then show thesis by (rule that[OF e])
qed

lemma complete_slice_ok:
  assumes c: "complete_slice E now w batch a res i n d = Inr (d', s)" and p: "pipeline_ok E d"
    and b: "distinct (map run_id batch)" "batch \<noteq> []" "set batch \<subseteq> set (t_runs d)"
    and pe: "\<forall>r\<in>set batch. pending_of (win_account w) (win_action w) r"
    and a: "a \<in> set (t_actions d)" "act_id a = win_action w"
    and t: "ar_state res \<in> set TERMINAL_STATES"
    and g: "inj (env_gen E)" "0 < WATCH_RUN_MAX_ATTEMPTS (env_cfg E)"
  shows "pipeline_ok E d' \<and> pend w d' < pend w d"
proof -
  let ?d1 = "settle w batch (slice_outcome a res i) now d"
  from c obtain d2 where d2: "(if ar_state res = SUCCEEDED then enqueue_next_batch E batch a now ?d1 else Inr ?d1) = Inr d2"
    and d': "d' = close_window w d2"
    by (rule complete_slice_Inr)
  have ok1: "pipeline_ok E ?d1" by (rule settle_ok[OF p b(1)]) (use t in simp)
  obtain r where r: "r \<in> set batch" using b(2) by (cases batch) auto
  have less: "pend w ?d1 < pend w d"
    unfolding settle_def
    by (rule pend_complete_batch_less[where r = r]) (use b pe r t in \<open>auto simp: TERMINAL_STATES_def\<close>)
  have "pipeline_ok E d2 \<and> pend w d2 = pend w ?d1"
  proof (cases "ar_state res = SUCCEEDED")
    case True
    with d2 have e: "enqueue_next_batch E batch a now ?d1 = Inr d2" by simp
    have "ids_distinct (t_actions ?d1)" using ok1 by (simp add: pipeline_ok_def)
    with e a pipeline_ok_advance[OF ok1 g e] show ?thesis by (simp add: pend_advance)
  next
    case False
    with d2 ok1 show ?thesis by simp
  qed
  with less d' show ?thesis by (simp add: close_window_ok)
qed

lemma present_props:
  assumes "pipeline_ok E d"
  shows "distinct (map run_id (present w d (batch_of E w d)))"
    "set (present w d (batch_of E w d)) \<subseteq> set (t_runs (after_gone E now w d))"
    "\<forall>r\<in>set (present w d (batch_of E w d)). pending_of (win_account w) (win_action w) r"
proof -
  show "distinct (map run_id (present w d (batch_of E w d)))" by (rule batch_ids(2)[OF assms])
  show "set (present w d (batch_of E w d)) \<subseteq> set (t_runs (after_gone E now w d))"
    using after_gone_keeps[OF assms] by blast
  show "\<forall>r\<in>set (present w d (batch_of E w d)). pending_of (win_account w) (win_action w) r"
    by (auto simp: present_def dest: batch_pending)
qed

lemma emit_slice_ok:
  assumes e: "emit_slice E W now w batch gone a impl d = (d', x)" and p: "pipeline_ok E d"
    and b: "distinct (map run_id batch)" "batch \<noteq> []" "set batch \<subseteq> set (t_runs d)"
    and pe: "\<forall>r\<in>set batch. pending_of (win_account w) (win_action w) r"
    and a: "a \<in> set (t_actions d)" "act_id a = win_action w" "executor E W (act_kind a) = Some impl"
    and g: "inj (env_gen E)" "0 < WATCH_RUN_MAX_ATTEMPTS (env_cfg E)" "plugins_resolve W"
  shows "pipeline_ok E d' \<and> pend w d' \<le> pend w d \<and> (\<forall>s. x = Inr s \<longrightarrow> sl_more s \<longrightarrow> pend w d' < pend w d)"
proof -
  have frame: "pipeline_ok E (fst (record_slice E now w batch res d))
      \<and> pend w (fst (record_slice E now w batch res d)) = pend w d" for res
    by (intro conjI pipeline_ok_frame[OF p] pend_cong) simp_all
  have nomore: "\<not> sl_more (snd (fail_slice E now w batch gone d0))" for d0 by (simp add: fail_slice_def)
  from e show ?thesis
  proof (cases rule: emit_slice_cases)
    case (refused e)
    with p show ?thesis by simp
  next
    case (raised since until e)
    with fail_slice_ok[OF p b(1), of now w gone] nomore show ?thesis by auto
  next
    case (failed since until res)
    let ?d1 = "fst (record_slice E now w batch res d)"
    have "pipeline_ok E ?d1" using frame by simp
    from fail_slice_ok[OF this b(1), of now w gone] frame[of res] nomore failed(4) show ?thesis by auto
  next
    case (rolled_back since until res e)
    with frame[of res] show ?thesis by simp
  next
    case (completed since until res s)
    let ?d1 = "fst (record_slice E now w batch res d)"
    have t: "ar_state res \<in> set TERMINAL_STATES"
      by (rule emit_result_terminal[OF g(3) a(3) completed(2,3)])
    have "pipeline_ok E ?d1" using frame by simp
    from complete_slice_ok[OF completed(4) this b(1,2)] b(3) pe a(1,2) t g(1,2) frame[of res]
    show ?thesis by auto
  qed
qed

lemma flush_slice_ok:
  assumes f: "flush_slice E W now w d = (d', x)" and p: "pipeline_ok E d"
    and g: "inj (env_gen E)" "0 < WATCH_RUN_MAX_ATTEMPTS (env_cfg E)" "plugins_resolve W"
  shows "pipeline_ok E d' \<and> pend w d' \<le> pend w d \<and> (\<forall>s. x = Inr s \<longrightarrow> sl_more s \<longrightarrow> pend w d' < pend w d)"
  using f
proof (cases rule: flush_slice_cases)
  case idle
  with p show ?thesis by (simp add: close_window_ok)
next
  case (unresolved err)
  let ?d = "settle w (batch_of E w d) (errored_outcome err) now d"
  have "pipeline_ok E ?d" by (rule settle_ok[OF p batch_ids(1)[OF p]]) simp
  moreover have "pend w ?d \<le> pend w d"
    unfolding settle_def by (rule pend_complete_batch_le) (simp_all add: batch_ids(1)[OF p])
  ultimately show ?thesis using unresolved(2,3) by (simp add: close_window_ok batch_of_def)
next
  case (all_gone a impl)
  with after_gone_ok[OF p, of now w] after_gone_pend[OF p, of w now] show ?thesis by (simp add: close_window_ok)
next
  case (emit a impl)
  note r = resolve_digest_Inr[OF emit(1)]
  note pr = present_props[OF p, of w]
  have q: "pipeline_ok E (after_gone E now w d)" by (rule after_gone_ok[OF p])
  have a: "a \<in> set (t_actions (after_gone E now w d))" using r(1) by (simp add: after_gone_def)
  from emit_slice_ok[OF emit(3)[folded batch_of_def] q pr(1) emit(2)[folded batch_of_def] pr(2,3) a r(2,4) g]
    after_gone_pend[OF p, of w now]
  show ?thesis by auto
qed

subsection \<open>Lemmas: the window over a flush\<close>

definition closes_at :: "window \<Rightarrow> db \<Rightarrow> datetime option" where
  "closes_at w d = close_of (win_account w) (win_action w) d"

lemma closes_at_cong: "t_windows d' = t_windows d \<Longrightarrow> closes_at w d' = closes_at w d"
  by (simp add: closes_at_def close_of_def)

text \<open>A slice that has no next one leaves the window closed and drained, or untouched with
  runs behind it.\<close>

definition window_rested :: "window \<Rightarrow> db \<Rightarrow> db \<Rightarrow> bool" where
  "window_rested w d d' \<longleftrightarrow>
     (pend w d' = 0 \<and> closes_at w d' = None) \<or> (pend w d' \<noteq> 0 \<and> closes_at w d' = closes_at w d)"

lemma close_window_rested:
  assumes "closes_at w d = Some c"
  shows "window_rested w d (close_window w d) \<and>
    (snd (close_if_drained (win_account w) (win_action w) d) \<longleftrightarrow> pend w d = 0)"
proof -
  have h: "has_window (win_account w) (win_action w) (t_windows d)"
    using assms by (auto simp: closes_at_def close_of_def has_window_iff split: option.splits)
  obtain d' b where cd: "close_if_drained (win_account w) (win_action w) d = (d', b)" by force
  show ?thesis
  proof (cases b)
    case True
    with cd close_if_drained_True[of "win_account w" "win_action w" d d'] h pend_close[of w w d] show ?thesis
      by (simp add: window_rested_def close_window_def closes_at_def pend_def)
  next
    case False
    with cd close_if_drained_False[of "win_account w" "win_action w" d d'] show ?thesis
      by (simp add: window_rested_def close_window_def closes_at_def pend_def)
  qed
qed

lemma window_rested_from:
  "closes_at w d0 = closes_at w d \<Longrightarrow> closes_at w d = Some c \<Longrightarrow> window_rested w d (close_window w d0)"
  using close_window_rested[of w d0 c] by (simp add: window_rested_def)

lemma advance_closes_at:
  assumes e: "enqueue_next_batch E runs a now d = Inr d'" and i: "ids_distinct (t_actions d)"
    and a: "a \<in> set (t_actions d)" "act_id a = win_action w"
  shows "closes_at w d' = closes_at w d"
  using e
proof (cases rule: enqueue_next_batch_cases)
  case noop
  then show ?thesis by simp
next
  case (advance nxt c)
  have n: "nxt \<in> set (t_actions d)" "act_rank a < act_rank nxt"
    using next_in_chain_Some[OF advance(2)] by simp_all
  have ne: "act_id nxt \<noteq> win_action w"
  proof
    assume "act_id nxt = win_action w"
    then have "nxt = a" using i a n(1) by (auto simp: ids_distinct_def intro: distinct_key_unique)
    with n(2) show False by simp
  qed
  let ?acc = "run_account (hd runs)"
  have "closes_at w d' = closes_at w (fst (advance_window E ?acc nxt c now d))"
    by (rule closes_at_cong) (simp add: advance(4))
  also have "\<dots> = closes_at w d"
    using open_window_other[of "win_account w" "win_action w" ?acc "act_id nxt"] ne
    by (simp add: closes_at_def advance_window_def)
  finally show ?thesis .
qed

lemma complete_slice_window:
  assumes c: "complete_slice E now w batch a res i n d = Inr (d', s)"
    and i: "ids_distinct (t_actions d)" and a: "a \<in> set (t_actions d)" "act_id a = win_action w"
    and o: "closes_at w d = Some c0"
  shows "if sl_more s then closes_at w d' = closes_at w d else pend w d' = 0 \<and> closes_at w d' = None"
proof -
  let ?d1 = "settle w batch (slice_outcome a res i) now d"
  from c obtain d2 where d2: "(if ar_state res = SUCCEEDED then enqueue_next_batch E batch a now ?d1 else Inr ?d1) = Inr d2"
    and d': "d' = close_window w d2"
    and s: "s = \<lparr>sl_outcome = Some res, sl_more = \<not> snd (close_if_drained (win_account w) (win_action w) d2),
          sl_count = n\<rparr>"
    by (rule complete_slice_Inr)
  have k1: "closes_at w ?d1 = closes_at w d" by (rule closes_at_cong) simp
  have k2: "closes_at w d2 = closes_at w d"
  proof (cases "ar_state res = SUCCEEDED")
    case True
    with d2 have e: "enqueue_next_batch E batch a now ?d1 = Inr d2" by simp
    with advance_closes_at[OF e] i a k1 show ?thesis by simp
  next
    case False
    with d2 k1 show ?thesis by auto
  qed
  with o have "closes_at w d2 = Some c0" by simp
  from close_window_rested[OF this] k2 o d' show ?thesis
    by (auto simp: s window_rested_def)
qed

definition gave_up :: "action_result option \<Rightarrow> bool" where
  "gave_up out = (case out of None \<Rightarrow> False | Some r \<Rightarrow> ar_state r = FAILED \<or> ar_state r = ERRORED)"

lemma fail_slice_window:
  assumes "closes_at w d = closes_at w d0" "closes_at w d0 = Some c"
  shows "window_rested w d0 (fst (fail_slice E now w batch gone d)) \<and>
    gave_up (sl_outcome (snd (fail_slice E now w batch gone d))) \<and> \<not> sl_more (snd (fail_slice E now w batch gone d))"
proof -
  let ?d = "fst (fail_batch (env_cfg E) (win_account w) (map run_id batch) now d)"
  have "closes_at w ?d = closes_at w d0" using assms(1) closes_at_cong[of ?d d w] by simp
  from window_rested_from[OF this assms(2)] show ?thesis
    by (simp add: fail_slice_def gave_up_def plain_result_def)
qed

lemma emit_slice_window:
  assumes e: "emit_slice E W now w batch gone a impl d = (d', Inr s)" and p: "ids_distinct (t_actions d)"
    and a: "a \<in> set (t_actions d)" "act_id a = win_action w" and o: "closes_at w d = Some c"
  shows "if sl_more s then closes_at w d' = closes_at w d
         else (pend w d' = 0 \<and> closes_at w d' = None) \<or> (window_rested w d d' \<and> gave_up (sl_outcome s))"
proof -
  have k: "closes_at w (fst (record_slice E now w batch res d)) = closes_at w d" for res
    by (rule closes_at_cong) simp
  from e show ?thesis
  proof (cases rule: emit_slice_cases)
    case (refused e)
    then show ?thesis by simp
  next
    case (raised since until e)
    with fail_slice_window[OF refl o, of E now batch gone] show ?thesis by simp
  next
    case (failed since until res)
    with fail_slice_window[OF k o, of E now batch gone res] show ?thesis by simp
  next
    case (rolled_back since until res e)
    then show ?thesis by simp
  next
    case (completed since until res s')
    let ?d1 = "fst (record_slice E now w batch res d)"
    from complete_slice_window[OF completed(4), of c] p a o k[of res] completed(5) show ?thesis
      by (auto split: if_splits)
  qed
qed

lemma flush_slice_window:
  assumes f: "flush_slice E W now w d = (d', Inr s)" and i: "ids_distinct (t_actions d)"
    and o: "closes_at w d = Some c" and cap: "0 < DIGEST_MAX_BATCH_ITEMS (env_cfg E)"
  shows "if sl_more s then closes_at w d' = closes_at w d
         else (pend w d' = 0 \<and> closes_at w d' = None) \<or> (window_rested w d d' \<and> gave_up (sl_outcome s))"
  using f
proof (cases rule: flush_slice_cases)
  case idle
  then have "pend w d = 0" using digest_batch_Nil[OF cap] by (simp add: pend_def)
  with idle close_window_rested[OF o] show ?thesis by (auto simp: window_rested_def)
next
  case (unresolved err)
  have "closes_at w (settle w rs oc now d) = closes_at w d" for rs oc by (rule closes_at_cong) simp
  from window_rested_from[OF this o] unresolved(2,3) show ?thesis
    by (simp add: gave_up_def plain_result_def)
next
  case (all_gone a impl)
  have "closes_at w (after_gone E now w d) = closes_at w d"
    by (rule closes_at_cong) (simp add: after_gone_def)
  from window_rested_from[OF this o] all_gone(3,4) show ?thesis
    by (simp add: gave_up_def plain_result_def)
next
  case (emit a impl)
  note r = resolve_digest_Inr[OF emit(1)]
  have k: "closes_at w (after_gone E now w d) = closes_at w d"
    by (rule closes_at_cong) (simp add: after_gone_def)
  have "ids_distinct (t_actions (after_gone E now w d))" "a \<in> set (t_actions (after_gone E now w d))"
    using i r(1) by (simp_all add: after_gone_def)
  from emit_slice_window[OF emit(3) this r(2)] k o show ?thesis
    by (auto simp: window_rested_def split: if_splits)
qed

subsection \<open>Lemmas: the loop\<close>

lemma flush_loop_ends:
  assumes "pipeline_ok E d" "inj (env_gen E)" "0 < WATCH_RUN_MAX_ATTEMPTS (env_cfg E)"
    and "\<And>k. plugins_resolve (W k)" "pend w d < fuel"
  shows "\<exists>d' res. flush_loop E W now w fuel k out d = Some (d', res) \<and> pipeline_ok E d'"
  using assms(1,5)
proof (induction fuel arbitrary: k out d)
  case 0
  then show ?case by simp
next
  case (Suc fuel)
  obtain d1 x where sl: "flush_slice E (W k) now w d = (d1, x)" by force
  note ok = flush_slice_ok[OF sl Suc.prems(1) assms(2,3,4)]
  show ?case
  proof (cases x)
    case (Inl e)
    with sl ok show ?thesis by simp
  next
    case (Inr s)
    show ?thesis
    proof (cases "sl_more s")
      case True
      with Inr ok Suc.prems(2) have "pend w d1 < fuel" by auto
      from Suc.IH[OF conjunct1[OF ok] this] sl Inr True show ?thesis by simp
    next
      case False
      with sl Inr ok show ?thesis by simp
    qed
  qed
qed

lemma flush_slice_actions:
  assumes "flush_slice E W now w d = (d', x)"
  shows "t_actions d' = t_actions d"
  using assms
proof (cases rule: flush_slice_cases)
  case (emit a impl)
  have ag: "t_actions (after_gone E now w d) = t_actions d" by (simp add: after_gone_def)
  have fs: "t_actions (fst (fail_slice E now w b g d0)) = t_actions d0" for b g d0
    by (simp add: fail_slice_def)
  from emit(3) show ?thesis
  proof (cases rule: emit_slice_cases)
    case (completed since until res s)
    let ?b = "present w d (digest_batch (env_cfg E) (win_account w) (win_action w) d)"
    let ?d = "fst (record_slice E now w ?b res (after_gone E now w d))"
    let ?i = "snd (record_slice E now w ?b res (after_gone E now w d))"
    from completed(4) obtain d2 where d2: "(if ar_state res = SUCCEEDED
        then enqueue_next_batch E ?b a now (settle w ?b (slice_outcome a res ?i) now ?d)
        else Inr (settle w ?b (slice_outcome a res ?i) now ?d)) = Inr d2" "d' = close_window w d2"
      by (rule complete_slice_Inr)
    have "t_actions d2 = t_actions (settle w ?b (slice_outcome a res ?i) now ?d)"
    proof (cases "ar_state res = SUCCEEDED")
      case True
      with d2(1) have "enqueue_next_batch E ?b a now (settle w ?b (slice_outcome a res ?i) now ?d) = Inr d2" by simp
      then show ?thesis by (cases rule: enqueue_next_batch_cases) simp_all
    next
      case False
      with d2(1) show ?thesis by simp
    qed
    with d2(2) ag show ?thesis by simp
  qed (use ag fs in simp_all)
qed (simp_all add: after_gone_def)

lemma flush_loop_window:
  assumes "ids_distinct (t_actions d)" "closes_at w d = Some c" "0 < DIGEST_MAX_BATCH_ITEMS (env_cfg E)"
    and "flush_loop E W now w fuel k out d = Some (d', Inr res)"
  shows "(pend w d' = 0 \<and> closes_at w d' = None) \<or>
    (pend w d' \<noteq> 0 \<and> closes_at w d' = Some c \<and> gave_up res)"
  using assms(1,2,4)
proof (induction fuel arbitrary: k out d)
  case 0
  then show ?case by simp
next
  case (Suc fuel)
  obtain d1 x where sl: "flush_slice E (W k) now w d = (d1, x)" by force
  with Suc.prems(3) obtain s where s: "x = Inr s" by (cases x) auto
  note sl' = sl[unfolded s]
  note win = flush_slice_window[OF sl' Suc.prems(1,2) assms(3)]
  show ?case
  proof (cases "sl_more s")
    case True
    have "ids_distinct (t_actions d1)" "closes_at w d1 = Some c"
      using flush_slice_actions[OF sl] Suc.prems(1,2) win True by simp_all
    from Suc.IH[OF this, of "Suc k"] Suc.prems(3) sl' True show ?thesis by (simp add: Let_def)
  next
    case False
    with Suc.prems(3) sl' have "d' = d1" "res = (case sl_outcome s of None \<Rightarrow> out | Some r \<Rightarrow> Some r)"
      by (simp_all add: Let_def)
    with win False Suc.prems(2) show ?thesis
      by (auto simp: window_rested_def gave_up_def split: option.splits)
  qed
qed

subsection \<open>A concrete window\<close>

definition digest_env :: env where
  "digest_env = sample_env\<lparr>env_cfg := default_settings\<lparr>DIGEST_MAX_BATCH_ITEMS := 3\<rparr>\<rparr>"

definition digest_blob :: json where
  "digest_blob = JObj [(''delivery'', JStr ''digest''), (''digest_interval_seconds'', JInt 3600),
     (''url'', JStr ''https://example.com/h'')]"

text \<open>A due window of a webhook digest: three pending runs with their items, one without.\<close>

definition digest_db :: db where
  "digest_db = empty_db\<lparr>next_id := 9,
     t_actions := [(sample_action ''a1'' ''p'' digest_blob 0)\<lparr>act_kind := KIND_WEBHOOK\<rparr>,
                   sample_action ''a2'' ''p'' (log_blob DIGEST 3600) 1],
     t_windows := [\<lparr>win_account = ''acc'', win_action = ''a1'', win_close = Some 40\<rparr>],
     t_items := [sample_item ''i1'', sample_item ''i2'', sample_item ''i3''],
     t_runs := [sample_run (sample_gen 0) ''a1'' ''i1'' PENDING 0, sample_run (sample_gen 1) ''a1'' ''i2'' PENDING 1,
                sample_run (sample_gen 2) ''a1'' ''i3'' PENDING 0, sample_run (sample_gen 3) ''a1'' ''gone'' PENDING 0]\<rparr>"

definition due_window :: window where
  "due_window = \<lparr>win_account = ''acc'', win_action = ''a1'', win_close = Some 40\<rparr>"

definition down_world :: world where
  "down_world = sample_world\<lparr>w_http := \<lambda>_ _ _ _. HttpError\<rparr>"

lemma digest_db_ok: "pipeline_ok digest_env digest_db"
proof -
  have u: "run_ids_ok (env_gen digest_env) digest_db"
    by (simp add: run_ids_ok_def digest_env_def digest_db_def sample_run_def id_used_def)
  have "runs_ok (env_cfg digest_env) (t_runs digest_db)" "windows_ok (t_windows digest_db)"
    "windows_match digest_env digest_db" "ids_distinct (t_actions digest_db)" "no_orphan digest_db"
    by code_simp+
  with u show ?thesis by (simp add: pipeline_ok_def db_ok_def)
qed

lemma flush_result_cases:
  fixes x :: "(db \<times> action_result option result) option"
  assumes "case x of Some (_, Inr (Some r)) \<Rightarrow> P r | _ \<Rightarrow> False"
  obtains d r where "x = Some (d, Inr (Some r))" "P r"
proof (cases x)
  case (Some p)
  obtain d y where p: "p = (d, y)" by force
  with Some assms show thesis
  proof (cases y)
    case (Inr z)
    with Some assms p that show thesis by (cases z) auto
  qed simp
qed (use assms in simp)

lemma plugins_resolve_sample [simp]: "plugins_resolve sample_world" "plugins_resolve down_world"
  by (simp_all add: plugins_resolve_def sample_world_def down_world_def)

subsection \<open>Lemmas: the rows of a slice\<close>

lemma in_batch_iff:
  assumes "pipeline_ok E d" "set rs \<subseteq> set (batch_of E w d)" "x \<in> set (t_runs d)"
  shows "in_batch (win_account w) (map run_id rs) x \<longleftrightarrow> x \<in> set rs"
proof
  assume "in_batch (win_account w) (map run_id rs) x"
  then obtain y where y: "y \<in> set rs" "run_id y = run_id x" by (auto simp: in_batch_def)
  with assms(2) batch_pending have "y \<in> set (t_runs d)" by blast
  with y assms(1,3) have "y = x" using pipeline_ids[OF assms(1)] by (metis distinct_key_unique)
  with y(1) show "x \<in> set rs" by simp
next
  assume x: "x \<in> set rs"
  with assms(2) have "x \<in> set (batch_of E w d)" by blast
  then have "pending_of (win_account w) (win_action w) x" by (auto dest: batch_pending)
  with x show "in_batch (win_account w) (map run_id rs) x" by (simp add: in_batch_def pending_of_def)
qed

lemma present_missing_sub:
  "set (present w d rs) \<subseteq> set rs" "set (missing_items w d rs) \<subseteq> set rs"
  by (auto simp: present_def missing_items_def)

definition gone_row :: "env \<Rightarrow> datetime \<Rightarrow> window \<Rightarrow> db \<Rightarrow> run \<Rightarrow> run" where
  "gone_row E now w d x =
     (if x \<in> set (missing_items w d (batch_of E w d))
      then stamp_outcome (errored_outcome ITEM_GONE) (Some now) x else x)"

lemma after_gone_rows:
  assumes "pipeline_ok E d"
  shows "t_runs (after_gone E now w d) = map (gone_row E now w d) (t_runs d)"
  unfolding after_gone_def batch_of_def[symmetric] settle_row[OF batch_ids(3)[OF assms]]
  by (rule map_cong[OF refl]) (simp add: gone_row_def in_batch_iff[OF assms present_missing_sub(2)])

text \<open>A second update on the runs with their item, after the gone ones were settled.\<close>

lemma slice_rows:
  assumes "pipeline_ok E d" "\<And>r. run_id (f r) = run_id r"
  shows "map (\<lambda>r. if in_batch (win_account w) (map run_id (present w d (batch_of E w d))) r then f r else r)
      (t_runs (after_gone E now w d)) =
    map (\<lambda>x. if x \<in> set (present w d (batch_of E w d)) then f x else gone_row E now w d x) (t_runs d)"
proof -
  let ?P = "present w d (batch_of E w d)" and ?M = "missing_items w d (batch_of E w d)"
  have disj: "x \<notin> set ?P" if "x \<in> set ?M" for x
    using that by (auto simp: present_def missing_items_def)
  have "(if in_batch (win_account w) (map run_id ?P) (gone_row E now w d x) then f (gone_row E now w d x)
      else gone_row E now w d x) = (if x \<in> set ?P then f x else gone_row E now w d x)"
    if x: "x \<in> set (t_runs d)" for x
  proof (cases "x \<in> set ?M")
    case True
    have "\<not> in_batch (win_account w) (map run_id ?P) (gone_row E now w d x)"
      using True by (simp add: gone_row_def in_batch_def)
    with disj[OF True] show ?thesis by simp
  next
    case False
    then have "gone_row E now w d x = x" by (simp add: gone_row_def)
    with in_batch_iff[OF assms(1) present_missing_sub(1) x] show ?thesis by simp
  qed
  then show ?thesis by (simp add: after_gone_rows[OF assms(1)])
qed

lemma fail_slice_rows:
  assumes "pipeline_ok E d" "t_runs d1 = t_runs (after_gone E now w d)"
  shows "t_runs (fst (fail_slice E now w (present w d (batch_of E w d)) gone d1)) =
    map (\<lambda>x. if x \<in> set (present w d (batch_of E w d)) then fail_row (env_cfg E) now x
             else gone_row E now w d x) (t_runs d)"
  using fail_batch_spec[OF batch_ids(2)[OF assms(1)], of "env_cfg E" "win_account w" w now d1]
    slice_rows[OF assms(1), of "fail_row (env_cfg E) now" w now] assms(2)
  by (simp add: fail_slice_def)

text \<open>Only the emit can fail a slice.\<close>

lemma failed_slice_emit:
  assumes "flush_slice E W now w d = (d', Inr s)" "sl_outcome s = Some r" "ar_state r = FAILED"
  obtains d1 gone where "t_runs d1 = t_runs (after_gone E now w d)"
    "d' = fst (fail_slice E now w (present w d (batch_of E w d)) gone d1)"
  using assms(1)
proof (cases rule: flush_slice_cases)
  case (emit a impl)
  from emit(3) show ?thesis
  proof (cases rule: emit_slice_cases)
    case (raised since until e)
    then show ?thesis using that[OF refl] by (simp add: batch_of_def)
  next
    case (failed since until res)
    then show ?thesis using that[OF record_slice_frame(1)] by (simp add: batch_of_def)
  next
    case (completed since until res s')
    from completed(4) have "sl_outcome s' = Some res" by (rule complete_slice_Inr) simp
    with completed(3,5) assms(2,3) show ?thesis by simp
  qed simp_all
qed (use assms(2,3) in \<open>auto simp: plain_result_def\<close>)

subsection \<open>Properties\<close>

text \<open>C7: a flush always ends: over any answers of the outside world, with a database that is
  sound and executors that never report PENDING or RUNNING, the slice loop returns within one
  slice more than the runs pending behind the window, because every slice that asks for
  another one has settled at least one of them and the advance never feeds the window it came
  from. The database it leaves is sound again.\<close>

theorem flush_ends:
  assumes "pipeline_ok E d" "inj (env_gen E)" "0 < WATCH_RUN_MAX_ATTEMPTS (env_cfg E)"
    and "\<And>k. plugins_resolve (W k)"
    and "digest_pending_count (win_account w) (win_action w) d < fuel"
  shows "\<exists>d' res. flush_run E W now w fuel d = Some (d', res) \<and> pipeline_ok E d'"
  using flush_loop_ends[OF assms(1-4), of w fuel] assms(5) by (simp add: flush_run_def pend_def)

theorem flush_ends_witness:
  "\<exists>d' res. flush_run digest_env (\<lambda>k. if k = 0 then sample_world else down_world) 50 due_window 5 digest_db
     = Some (d', res)"
proof -
  have g: "inj (env_gen digest_env)" by (simp add: digest_env_def inj_sample_gen)
  have m: "0 < WATCH_RUN_MAX_ATTEMPTS (env_cfg digest_env)" by code_simp
  have f: "digest_pending_count (win_account due_window) (win_action due_window) digest_db < 5" by code_simp
  have p: "plugins_resolve ((\<lambda>k. if k = 0 then sample_world else down_world) (k::nat))" for k by simp
  from flush_ends[where now = 50 and W = "\<lambda>k. if k = 0 then sample_world else down_world",
      OF digest_db_ok g m p f] show ?thesis by blast
qed

text \<open>C8: a flush that returns leaves its window in one of two ways: closed with nothing pending
  behind it, or still due at the very same time with runs pending, and then the last outcome
  was FAILED or ERRORED. So no pending run is ever left behind a window the next pass will
  not pick up, and a window is not reopened or pushed back by a failing flush.\<close>

theorem flush_closes_iff_drained:
  assumes "ids_distinct (t_actions d)" "close_of (win_account w) (win_action w) d = Some c"
    and "0 < DIGEST_MAX_BATCH_ITEMS (env_cfg E)"
    and "flush_run E W now w fuel d = Some (d', Inr res)"
  shows "(digest_pending_count (win_account w) (win_action w) d' = 0 \<and>
            close_of (win_account w) (win_action w) d' = None) \<or>
         (0 < digest_pending_count (win_account w) (win_action w) d' \<and>
            close_of (win_account w) (win_action w) d' = Some c \<and>
            (\<exists>r. res = Some r \<and> ar_state r \<in> {FAILED, ERRORED}))"
  using flush_loop_window[of d w c E W now fuel 0 None d' res] assms
  by (auto simp: flush_run_def pend_def closes_at_def gave_up_def split: option.splits)

theorem flush_closes_iff_drained_witness:
  "\<exists>d' res. flush_run digest_env (\<lambda>_. sample_world) 50 due_window 5 digest_db = Some (d', Inr res) \<and>
     digest_pending_count ''acc'' ''a1'' d' = 0 \<and> close_of ''acc'' ''a1'' d' = None"
proof -
  let ?F = "flush_run digest_env (\<lambda>_. sample_world) 50 due_window 5 digest_db"
  have i: "ids_distinct (t_actions digest_db)" by code_simp
  have c: "close_of (win_account due_window) (win_action due_window) digest_db = Some 40" by code_simp
  have b: "0 < DIGEST_MAX_BATCH_ITEMS (env_cfg digest_env)" by code_simp
  have "case ?F of Some (_, Inr (Some r)) \<Rightarrow> ar_state r = SUCCEEDED | _ \<Rightarrow> False" by code_simp
  then obtain d' r where f: "?F = Some (d', Inr (Some r))" "ar_state r = SUCCEEDED"
    by (rule flush_result_cases)
  have "win_account due_window = ''acc''" "win_action due_window = ''a1''" by code_simp+
  with flush_closes_iff_drained[OF i c b f(1)] f show ?thesis by auto
qed

text \<open>C10: a failed emit costs every run it carried exactly one attempt and touches no other run
  of the table: a run out of attempts rests FAILED, the others stay pending for the next pass;
  the runs of the slice whose item was gone are ERRORED, not charged.\<close>

theorem failed_emit_costs_one_attempt:
  assumes "flush_slice E W now w d = (d', Inr s)" "sl_outcome s = Some r" "ar_state r = FAILED"
    and "pipeline_ok E d"
  shows "t_runs d' = map (\<lambda>x.
      if x \<in> set (present w d (batch_of E w d)) then fail_row (env_cfg E) now x
      else if x \<in> set (missing_items w d (batch_of E w d))
      then stamp_outcome (errored_outcome ITEM_GONE) (Some now) x else x) (t_runs d)"
proof -
  from assms(1-3) obtain d1 gone where "t_runs d1 = t_runs (after_gone E now w d)"
    "d' = fst (fail_slice E now w (present w d (batch_of E w d)) gone d1)" by (rule failed_slice_emit)
  with fail_slice_rows[OF assms(4)] show ?thesis by (simp add: gone_row_def)
qed

theorem failed_emit_costs_one_attempt_witness:
  "map (\<lambda>r. (run_item r, run_state r, run_attempts r))
     (t_runs (fst (flush_slice digest_env down_world 50 due_window digest_db))) =
   [(''i1'', PENDING, 1), (''i2'', PENDING, 1), (''i3'', PENDING, 1), (''gone'', ERRORED, 0)]"
proof -
  let ?F = "flush_slice digest_env down_world 50 due_window digest_db"
  have "case snd ?F of Inr s \<Rightarrow> map_option ar_state (sl_outcome s) = Some FAILED | _ \<Rightarrow> False" by code_simp
  then obtain d' s r where f: "?F = (d', Inr s)" "sl_outcome s = Some r" "ar_state r = FAILED"
    by (cases ?F) (auto split: sum.splits)
  have "map (\<lambda>r. (run_item r, run_state r, run_attempts r)) (map (\<lambda>x.
      if x \<in> set (present due_window digest_db (batch_of digest_env due_window digest_db))
      then fail_row (env_cfg digest_env) 50 x
      else if x \<in> set (missing_items due_window digest_db (batch_of digest_env due_window digest_db))
      then stamp_outcome (errored_outcome ITEM_GONE) (Some 50) x else x) (t_runs digest_db)) =
    [(''i1'', PENDING, 1), (''i2'', PENDING, 1), (''i3'', PENDING, 1), (''gone'', ERRORED, 0)]"
    by code_simp
  with failed_emit_costs_one_attempt[OF f digest_db_ok] f(1) show ?thesis by simp
qed

text \<open>C9: a slice whose emit resolves gives every run it carried the same outcome and the same
  delivery: one delivery row for the whole slice when there was a call, holding the call's
  payload and status, every run stamped with the outcome and linked to that row, every run's
  successor queued on success, and no attempt spent.\<close>

theorem completed_slice_shares_outcome:
  assumes "flush_slice E W now w d = (d', Inr s)" "sl_outcome s = Some r" "ar_state r \<noteq> FAILED"
    and "pipeline_ok E d" "resolve_digest_action E W (win_account w) (win_action w) d = Inr (a, impl)"
    and "present w d (batch_of E w d) \<noteq> []"
  shows "\<exists>i.
    (\<forall>x\<in>set (present w d (batch_of E w d)). stamp_outcome (slice_outcome a r i) (Some now) x \<in> set (t_runs d')) \<and>
    (ar_state r = SUCCEEDED \<longrightarrow> (\<forall>n. next_in_chain (run_account (hd (present w d (batch_of E w d)))) a (t_actions d) = Some n \<longrightarrow>
       (\<forall>x\<in>set (present w d (batch_of E w d)).
          (run_account (hd (present w d (batch_of E w d))), run_watch x, act_id n, run_item x) \<in> run_key ` set (t_runs d')))) \<and>
    (case ar_outbound r of
       None \<Rightarrow> t_deliveries d' = t_deliveries d
     | Some call \<Rightarrow> \<exists>row. t_deliveries d' = t_deliveries d @ [row] \<and> dl_id row = i \<and>
         dl_payload row = ob_payload call \<and> dl_http_status row = ob_status call \<and>
         dl_state row = outcome_to_delivery (ar_state r) \<and> dl_item_count row = ob_count call)"
proof -
  let ?b = "present w d (batch_of E w d)"
  let ?g = "after_gone E now w d"
  from assms(1) obtain gone where em: "emit_slice E W now w ?b gone a impl ?g = (d', Inr s)"
    by (cases rule: flush_slice_cases) (use assms(2,5,6) in \<open>auto simp: batch_of_def digest_batch_def present_def\<close>)
  from em show ?thesis
  proof (cases rule: emit_slice_cases)
    case (completed since until res s')
    let ?d1 = "fst (record_slice E now w ?b res ?g)" and ?i = "snd (record_slice E now w ?b res ?g)"
    let ?d2 = "settle w ?b (slice_outcome a res ?i) now ?d1"
    from completed(4) have "sl_outcome s' = Some res" by (rule complete_slice_Inr) simp
    with assms(2) completed(5) have r: "res = r" by simp
    from completed(4) obtain d3 where d3: "(if ar_state res = SUCCEEDED
        then enqueue_next_batch E ?b a now ?d2 else Inr ?d2) = Inr d3" "d' = close_window w d3"
      by (rule complete_slice_Inr)
    have rows: "t_runs ?d2 = map (\<lambda>x. if x \<in> set ?b then stamp_outcome (slice_outcome a res ?i) (Some now) x
        else gone_row E now w d x) (t_runs d)"
      using slice_rows[OF assms(4), of "stamp_outcome (slice_outcome a res ?i) (Some now)" w now]
      by (simp add: settle_row[OF batch_ids(2)[OF assms(4)]])
    have sub: "set ?b \<subseteq> set (t_runs d)" using batch_pending by (auto simp: present_def)
    have app: "\<exists>new. t_runs d3 = t_runs ?d2 @ new" and del: "t_deliveries d3 = t_deliveries ?d1"
      using d3(1) enqueue_next_batch_appends[of E ?b a now ?d2 d3] enqueue_next_batch_deliveries[of E ?b a now ?d2 d3]
      by (auto split: if_splits)
    have one: "\<forall>x\<in>set ?b. stamp_outcome (slice_outcome a r ?i) (Some now) x \<in> set (t_runs d')"
    proof
      fix x assume x: "x \<in> set ?b"
      then have "stamp_outcome (slice_outcome a r ?i) (Some now) x \<in> set (t_runs ?d2)"
        using rows sub r by force
      with app d3(2) show "stamp_outcome (slice_outcome a r ?i) (Some now) x \<in> set (t_runs d')" by auto
    qed
    have two: "(run_account (hd ?b), run_watch x, act_id n, run_item x) \<in> run_key ` set (t_runs d')"
      if "ar_state r = SUCCEEDED" "next_in_chain (run_account (hd ?b)) a (t_actions d) = Some n" "x \<in> set ?b" for n x
      using d3 that r enqueue_next_batch_queues[of E ?b a now ?d2 d3 n x] by (simp add: after_gone_def)
    have three: "case ar_outbound r of
       None \<Rightarrow> t_deliveries d' = t_deliveries d
     | Some call \<Rightarrow> \<exists>row. t_deliveries d' = t_deliveries d @ [row] \<and> dl_id row = ?i \<and>
         dl_payload row = ob_payload call \<and> dl_http_status row = ob_status call \<and>
         dl_state row = outcome_to_delivery (ar_state r) \<and> dl_item_count row = ob_count call"
      using d3(2) del r
      by (cases "ar_outbound r") (auto simp: record_slice_def record_delivery_def Let_def after_gone_def)
    from one two three show ?thesis by blast
  next
    case (raised since until e)
    with assms(2,3) show ?thesis by (auto simp: fail_slice_def plain_result_def)
  next
    case (failed since until res)
    with assms(2,3) show ?thesis by (auto simp: fail_slice_def plain_result_def)
  qed simp_all
qed

theorem completed_slice_shares_outcome_witness:
  "\<exists>row. t_deliveries (fst (flush_slice digest_env sample_world 50 due_window digest_db)) = [row] \<and>
     dl_http_status row = Some 200 \<and> dl_item_count row = 2"
proof -
  let ?F = "flush_slice digest_env sample_world 50 due_window digest_db"
  have "case snd ?F of Inr s \<Rightarrow> (case sl_outcome s of Some r \<Rightarrow> ar_state r = SUCCEEDED \<and>
      map_option ob_status (ar_outbound r) = Some (Some 200) \<and>
      map_option ob_count (ar_outbound r) = Some 2 | _ \<Rightarrow> False) | _ \<Rightarrow> False" by code_simp
  then obtain d' s r call where f: "?F = (d', Inr s)" "sl_outcome s = Some r" "ar_state r = SUCCEEDED"
    and call: "ar_outbound r = Some call" "ob_status call = Some 200" "ob_count call = 2"
    by (cases ?F) (auto split: sum.splits option.splits)
  have "case resolve_digest_action digest_env sample_world (win_account due_window) (win_action due_window) digest_db
      of Inl _ \<Rightarrow> False | Inr _ \<Rightarrow> True" by code_simp
  then obtain a impl where r: "resolve_digest_action digest_env sample_world (win_account due_window)
      (win_action due_window) digest_db = Inr (a, impl)" by (auto split: sum.splits)
  have p: "present due_window digest_db (batch_of digest_env due_window digest_db) \<noteq> []" by code_simp
  have "t_deliveries digest_db = []" by code_simp
  with completed_slice_shares_outcome[OF f(1,2) _ digest_db_ok r p] f call show ?thesis by auto
qed

end
