(* ===== verification/Trigger.thy ===== *)
theory Trigger
  imports Watches Flush
begin

text \<open>
  The trigger pass of one watch, \<open>watches/operations/trigger.py\<close>: for each subscribed feed,
  queue a head run for every item past the watermark, then move the watermark. Nothing is
  transactional: an exception leaves every commit made before it, so the result carries the
  database next to the exception, and \<open>trigger_states\<close> lists the databases at the commit
  boundaries. Lemmas: an item at or below a watermark has its run, at each of them; a second pass
  finds nothing; and the tables stay sound. The last property shows the one interleaving with a
  digest flush that leaves pending runs behind a closed window.
\<close>

subsection \<open>The pass\<close>

text \<open>What one iteration needs of the watch's head action.\<close>

record head_info =
  hd_action :: action
  hd_digest :: bool
  hd_interval :: int

text \<open>The window is opened at the first feed with new items; its close time is kept for the
  rest of the pass.\<close>

definition ensure_window ::
  "ulid \<Rightarrow> head_info \<Rightarrow> datetime \<Rightarrow> datetime option \<Rightarrow> db \<Rightarrow> db \<times> datetime option \<times> datetime" where
  "ensure_window account h now opened d =
     (if hd_digest h then
        (case opened of
           Some c \<Rightarrow> (d, Some c, c)
         | None \<Rightarrow> (case open_window account (act_id (hd_action h)) (hd_interval h) now d of
                     (d1, c) \<Rightarrow> (d1, Some c, c)))
      else (d, opened, now))"

text \<open>The enqueue and the watermark move share no transaction: each chunk of
  \<open>enqueue_many\<close> commits on its own, and the watermark's UPDATE after the last of them. The
  pass is therefore a list of commits run in order, of which an exception (or a killed worker)
  leaves the ones before it.\<close>

type_synonym commit = "db \<Rightarrow> (db \<times> nat) result"

fun run_commits :: "commit list \<Rightarrow> db \<Rightarrow> nat \<Rightarrow> db \<times> nat result" where
  "run_commits [] d n = (d, Inr n)"
| "run_commits (c # cs) d n =
     (case c d of
        Inl e \<Rightarrow> (d, Inl e)
      | Inr (d', k) \<Rightarrow> run_commits cs d' (n + k))"

text \<open>The databases a worker killed between two commits can leave: the one after each.\<close>

fun commit_states :: "commit list \<Rightarrow> db \<Rightarrow> db list" where
  "commit_states [] d = []"
| "commit_states (c # cs) d =
     (case c d of
        Inl e \<Rightarrow> []
      | Inr (d', _) \<Rightarrow> d' # commit_states cs d')"

text \<open>The commits of \<open>enqueue_many\<close>, one per chunk of the id stream.\<close>

definition enqueue_commits :: "env \<Rightarrow> watch \<Rightarrow> head_info \<Rightarrow> datetime \<Rightarrow> ulid list \<Rightarrow> commit list" where
  "enqueue_commits E w h scheduled_at ids =
     map (enqueue_chunk (env_gen E) (w_account w) (w_id w) (act_id (hd_action h)) (act_kind (hd_action h)) scheduled_at)
       (batched ENQUEUE_CHUNK ids)"

definition advance_commit :: "watch \<Rightarrow> watch_feed \<Rightarrow> ulid \<Rightarrow> commit" where
  "advance_commit w f through_id d =
     res_bind (advance_watermark (w_account w) f through_id d) (\<lambda>d'. Inr (d', 0))"

definition feed_commits ::
  "env \<Rightarrow> watch \<Rightarrow> head_info \<Rightarrow> watch_feed \<Rightarrow> ulid \<Rightarrow> datetime \<Rightarrow> ulid list \<Rightarrow> commit list" where
  "feed_commits E w h f through_id scheduled_at ids =
     enqueue_commits E w h scheduled_at ids @ [advance_commit w f through_id]"

definition queue_feed ::
  "env \<Rightarrow> watch \<Rightarrow> head_info \<Rightarrow> watch_feed \<Rightarrow> feed \<Rightarrow> ulid \<Rightarrow> ulid \<Rightarrow> datetime \<Rightarrow> db \<Rightarrow> db \<times> nat result" where
  "queue_feed E w h f fd after_id through_id scheduled_at d =
     (case iter_item_ids_in_window (w_account w) fd after_id through_id d of
        Inl e \<Rightarrow> (d, Inl e)
      | Inr ids \<Rightarrow> run_commits (feed_commits E w h f through_id scheduled_at ids) d 0)"

text \<open>One iteration: the opened window, the number of feeds scanned (0 or 1) and of runs
  queued.\<close>

definition trigger_feed ::
  "env \<Rightarrow> watch \<Rightarrow> head_info \<Rightarrow> datetime \<Rightarrow> watch_feed \<Rightarrow> datetime option \<Rightarrow> db \<Rightarrow>
   db \<times> (datetime option \<times> nat \<times> nat) result" where
  "trigger_feed E w h now f opened d =
     (case qfirst (\<lambda>x. feed_id x = wf_feed f) (t_feeds d) of
        None \<Rightarrow> (d, Inr (opened, 0, 0))
      | Some fd \<Rightarrow>
          (case newest_item_id (w_account w) fd d of
             Inl e \<Rightarrow> (d, Inl e)
           | Inr None \<Rightarrow> (d, Inr (opened, 1, 0))
           | Inr (Some through_id) \<Rightarrow>
               let after_id = wf_last_item f in
               if after_id = through_id then (d, Inr (opened, 1, 0))
               else
                 let (d1, opened', scheduled_at) = ensure_window (w_account w) h now opened d
                 in (case queue_feed E w h f fd after_id through_id scheduled_at d1 of
                       (d2, Inl e) \<Rightarrow> (d2, Inl e)
                     | (d2, Inr n) \<Rightarrow> (d2, Inr (opened', 1, n)))))"

fun trigger_feeds ::
  "env \<Rightarrow> watch \<Rightarrow> head_info \<Rightarrow> datetime \<Rightarrow> watch_feed list \<Rightarrow> datetime option \<Rightarrow> nat \<Rightarrow> nat \<Rightarrow> db \<Rightarrow>
   db \<times> (nat \<times> nat) result" where
  "trigger_feeds E w h now [] opened scanned queued d = (d, Inr (scanned, queued))"
| "trigger_feeds E w h now (f # fs) opened scanned queued d =
     (case trigger_feed E w h now f opened d of
        (d', Inl e) \<Rightarrow> (d', Inl e)
      | (d', Inr (opened', s, n)) \<Rightarrow> trigger_feeds E w h now fs opened' (scanned + s) (queued + n) d')"

definition trigger_run :: "env \<Rightarrow> watch \<Rightarrow> datetime \<Rightarrow> db \<Rightarrow> db \<times> (nat \<times> nat) result" where
  "trigger_run E w now d =
     (case initial_actions (w_account w) w d of
        Inl e \<Rightarrow> (d, Inl e)
      | Inr [] \<Rightarrow> (d, Inr (0, 0))
      | Inr (head # _) \<Rightarrow>
          (case load_config E head of
             Inl e \<Rightarrow> (d, Inl e)
           | Inr c \<Rightarrow>
               let h = \<lparr>hd_action = head, hd_digest = is_digest c,
                        hd_interval = (if is_digest c then digest_interval c else 0)\<rparr>
               in (case watch_feeds (w_account w) w d of
                     Inl e \<Rightarrow> (d, Inl e)
                   | Inr fs \<Rightarrow> trigger_feeds E w h now fs None 0 0 d)))"

text \<open>The databases of the pass at its commit boundaries, in order: the window's opening, the
  chunks, the watermark, feed by feed.\<close>

definition feed_states ::
  "env \<Rightarrow> watch \<Rightarrow> head_info \<Rightarrow> datetime \<Rightarrow> watch_feed \<Rightarrow> datetime option \<Rightarrow> db \<Rightarrow> db list" where
  "feed_states E w h now f opened d =
     (case qfirst (\<lambda>x. feed_id x = wf_feed f) (t_feeds d) of
        None \<Rightarrow> []
      | Some fd \<Rightarrow>
          (case newest_item_id (w_account w) fd d of
             Inl e \<Rightarrow> []
           | Inr None \<Rightarrow> []
           | Inr (Some through_id) \<Rightarrow>
               let after_id = wf_last_item f in
               if after_id = through_id then []
               else
                 let (d1, opened', scheduled_at) = ensure_window (w_account w) h now opened d
                 in d1 # (case iter_item_ids_in_window (w_account w) fd after_id through_id d1 of
                            Inl e \<Rightarrow> []
                          | Inr ids \<Rightarrow> commit_states (feed_commits E w h f through_id scheduled_at ids) d1)))"

fun feeds_states ::
  "env \<Rightarrow> watch \<Rightarrow> head_info \<Rightarrow> datetime \<Rightarrow> watch_feed list \<Rightarrow> datetime option \<Rightarrow> db \<Rightarrow> db list" where
  "feeds_states E w h now [] opened d = []"
| "feeds_states E w h now (f # fs) opened d =
     feed_states E w h now f opened d @
     (case trigger_feed E w h now f opened d of
        (d', Inl e) \<Rightarrow> []
      | (d', Inr (opened', s, n)) \<Rightarrow> feeds_states E w h now fs opened' d')"

definition trigger_states :: "env \<Rightarrow> watch \<Rightarrow> datetime \<Rightarrow> db \<Rightarrow> db list" where
  "trigger_states E w now d =
     d # (case initial_actions (w_account w) w d of
            Inl e \<Rightarrow> []
          | Inr [] \<Rightarrow> []
          | Inr (head # _) \<Rightarrow>
              (case load_config E head of
                 Inl e \<Rightarrow> []
               | Inr c \<Rightarrow>
                   let h = \<lparr>hd_action = head, hd_digest = is_digest c,
                            hd_interval = (if is_digest c then digest_interval c else 0)\<rparr>
                   in (case watch_feeds (w_account w) w d of
                         Inl e \<Rightarrow> []
                       | Inr fs \<Rightarrow> feeds_states E w h now fs None d)))"

text \<open>\<open>process_due_watches\<close>: every active watch once; one that raises is counted as failed and
  the pass goes on.\<close>

fun trigger_pass ::
  "env \<Rightarrow> (ulid \<Rightarrow> datetime) \<Rightarrow> watch list \<Rightarrow> nat \<times> nat \<times> nat \<Rightarrow> db \<Rightarrow> db \<times> nat \<times> nat \<times> nat" where
  "trigger_pass E clock [] (watches, queued, failed) d = (d, watches, queued, failed)"
| "trigger_pass E clock (w # ws) (watches, queued, failed) d =
     (case trigger_run E w (clock (w_id w)) d of
        (d', Inl _) \<Rightarrow> trigger_pass E clock ws (watches, queued, failed + 1) d'
      | (d', Inr (_, n)) \<Rightarrow> trigger_pass E clock ws (watches + 1, queued + n, failed) d')"

definition process_due_watches :: "env \<Rightarrow> (ulid \<Rightarrow> datetime) \<Rightarrow> db \<Rightarrow> db \<times> nat \<times> nat \<times> nat" where
  "process_due_watches E clock d = trigger_pass E clock (iter_active d) (0, 0, 0) d"


subsection \<open>Lemmas: one feed\<close>

definition set_mark :: "watch_feed \<Rightarrow> ulid \<Rightarrow> watch_feed list \<Rightarrow> watch_feed list" where
  "set_mark f i t = qupdate (\<lambda>x. wf_id x = wf_id f) (\<lambda>x. x\<lparr>wf_last_item := i\<rparr>) t"

lemma set_mark_maps [simp]:
  "map wf_id (set_mark f i t) = map wf_id t" "map wf_key (set_mark f i t) = map wf_key t"
  unfolding set_mark_def by (rule map_qupdate, simp add: wf_key_def)+

lemma feeds_ok_set_mark [simp]: "feeds_ok (set_mark f i t) = feeds_ok t"
  by (simp add: feeds_ok_def)

lemma in_set_mark:
  "x \<in> set (set_mark f i t) \<longleftrightarrow>
   (\<exists>y\<in>set t. x = (if wf_id y = wf_id f then y\<lparr>wf_last_item := i\<rparr> else y))"
  by (auto simp: set_mark_def set_qupdate)

lemma ensure_window_parts:
  assumes "ensure_window account h now opened d = (d1, opened', sc)"
  shows "\<exists>ws. d1 = d\<lparr>t_windows := ws\<rparr>"
proof (cases "hd_digest h \<and> opened = None")
  case True
  obtain d0 c where o: "open_window account (act_id (hd_action h)) (hd_interval h) now d = (d0, c)" by force
  with True assms have "d1 = fst (open_window account (act_id (hd_action h)) (hd_interval h) now d)"
    by (auto simp: ensure_window_def)
  then show ?thesis using open_window_frame by metis
next
  case False
  with assms have "d1 = d\<lparr>t_windows := t_windows d\<rparr>"
    by (auto simp: ensure_window_def split: if_splits option.splits)
  then show ?thesis by blast
qed

lemma feed_item_ids_cong: "t_items d' = t_items d \<Longrightarrow> feed_item_ids acc f d' = feed_item_ids acc f d"
  by (simp add: feed_item_ids_def)

text \<open>Running the commits of the stream is \<open>enqueue_many\<close>; a run of commits ends in its last
  state.\<close>

lemma run_chunks:
  "enqueue_chunks gen acc w a k sc cs d n = Inr (d', m) \<Longrightarrow>
   run_commits (map (enqueue_chunk gen acc w a k sc) cs @ ws) d n = run_commits ws d' m"
proof (induction cs arbitrary: d n)
  case (Cons c cs)
  then show ?case by (cases "enqueue_chunk gen acc w a k sc c d") auto
qed simp

lemma run_enqueue_commits:
  "enqueue_many (env_gen E) (w_account w) (w_id w) (act_id (hd_action h)) (act_kind (hd_action h)) sc ids d = Inr (d', m) \<Longrightarrow>
   run_commits (enqueue_commits E w h sc ids @ ws) d 0 = run_commits ws d' m"
  unfolding enqueue_commits_def enqueue_many_def by (rule run_chunks)

lemma run_commits_last: "fst (run_commits cs d n) = last (d # commit_states cs d)"
  by (induction cs arbitrary: d n) (auto split: sum.split)

lemma chunk_states_append:
  "x \<in> set (commit_states (map (enqueue_chunk gen acc w a k sc) cs @ [c]) d) \<Longrightarrow>
   (\<exists>new m. x = d\<lparr>t_runs := t_runs d @ new, next_id := m\<rparr>) \<or>
   x = fst (run_commits (map (enqueue_chunk gen acc w a k sc) cs @ [c]) d n)"
proof (induction cs arbitrary: d n)
  case Nil
  then show ?case by (auto split: sum.splits)
next
  case (Cons b cs)
  show ?case
  proof (cases "enqueue_chunk gen acc w a k sc b d")
    case (Inl e)
    with Cons.prems show ?thesis by simp
  next
    case (Inr p)
    then obtain d1 k1 where e: "enqueue_chunk gen acc w a k sc b d = Inr (d1, k1)" by (cases p) auto
    obtain new m where d1: "d1 = d\<lparr>t_runs := t_runs d @ new, next_id := m\<rparr>"
      using enqueue_chunk_frame[OF e] by blast
    from Cons.prems e consider (here) "x = d1"
      | (later) "x \<in> set (commit_states (map (enqueue_chunk gen acc w a k sc) cs @ [c]) d1)" by auto
    then show ?thesis
    proof cases
      case here
      with d1 show ?thesis by blast
    next
      case later
      from Cons.IH[OF later, of "n + k1"] show ?thesis
      proof
        assume "\<exists>new m. x = d1\<lparr>t_runs := t_runs d1 @ new, next_id := m\<rparr>"
        then obtain new' m' where "x = d1\<lparr>t_runs := t_runs d1 @ new', next_id := m'\<rparr>" by blast
        then have "x = d\<lparr>t_runs := t_runs d @ (new @ new'), next_id := m'\<rparr>" by (simp add: d1)
        then show ?thesis by blast
      qed (simp add: e)
    qed
  qed
qed

lemma trigger_feed_last: "fst (trigger_feed E w h now f opened d) = last (d # feed_states E w h now f opened d)"
proof -
  have l: "run_commits cs x n = (y, z) \<Longrightarrow> last (d # x # commit_states cs x) = y" for cs x n y z
    using run_commits_last[of cs x n] by simp
  show ?thesis
    unfolding trigger_feed_def feed_states_def Let_def queue_feed_def
    by (auto split: option.splits sum.splits prod.splits dest: l)
qed

lemma trigger_feeds_last:
  "fst (trigger_feeds E w h now fs opened s n d) = last (d # feeds_states E w h now fs opened d)"
proof (induction fs arbitrary: opened s n d)
  case (Cons f fs)
  obtain d1 r1 where t: "trigger_feed E w h now f opened d = (d1, r1)" by force
  have l: "last (d # feed_states E w h now f opened d) = d1" using trigger_feed_last[of E w h now f opened d] t by simp
  show ?case
  proof (cases r1)
    case (Inl e)
    with t l show ?thesis by simp
  next
    case (Inr q)
    then obtain o1 s1 n1 where r1: "r1 = Inr (o1, s1, n1)" by (cases q) auto
    have "last (d # feed_states E w h now f opened d @ xs) = last (d1 # xs)" for xs
      by (cases "xs = []") (use l in simp_all)
    with t r1 Cons.IH[of o1 "s + s1" "n + n1" d1] show ?thesis by simp
  qed
qed simp

lemma trigger_run_last: "fst (trigger_run E w now d) = last (trigger_states E w now d)"
  unfolding trigger_run_def trigger_states_def Let_def
  using trigger_feeds_last
  by (auto split: sum.splits list.splits)

text \<open>The ids between a watermark and the newest item.\<close>

definition unseen :: "watch \<Rightarrow> watch_feed \<Rightarrow> db \<Rightarrow> ulid set" where
  "unseen w f d = {i \<in> set (feed_item_ids (w_account w) (wf_feed f) d). wf_last_item f < i}"

lemma trigger_feed_cases:
  assumes t: "trigger_feed E w h now f opened d = (d', r)"
    and f: "f \<in> set (t_watch_feeds d)" "subscribed (w_account w) (w_id w) f" and items: "items_ok (t_items d)"
  obtains (refused) e where "d' = d" "r = Inl e"
    | (gone) "d' = d" "r = Inr (opened, 0, 0)" "qfirst (\<lambda>x. feed_id x = wf_feed f) (t_feeds d) = None"
    | (still) "d' = d" "r = Inr (opened, 1, 0)" "qfirst (\<lambda>x. feed_id x = wf_feed f) (t_feeds d) \<noteq> None"
        "feed_item_ids (w_account w) (wf_feed f) d = [] \<or>
         (wf_last_item f \<in> set (feed_item_ids (w_account w) (wf_feed f) d) \<and> unseen w f d = {})"
    | (queued) fd through ids opened' sc d1 new where
        "qfirst (\<lambda>x. feed_id x = wf_feed f) (t_feeds d) = Some fd" "feed_account fd = w_account w"
        "through \<in> set (feed_item_ids (w_account w) (wf_feed f) d)"
        "\<forall>i\<in>set (feed_item_ids (w_account w) (wf_feed f) d). i \<le> through"
        "distinct ids" "set ids = unseen w f d" "wf_last_item f \<noteq> through"
        "ensure_window (w_account w) h now opened d = (d1, opened', sc)"
        "new = new_rows (env_gen E) (w_account w) (w_id w) (act_id (hd_action h)) (act_kind (hd_action h)) sc
                 (next_id d) (missing (w_account w) (w_id w) (act_id (hd_action h)) (t_runs d) ids)"
        "d' = d1\<lparr>t_runs := t_runs d @ new, t_watch_feeds := set_mark f through (t_watch_feeds d),
                 next_id := next_id d + length new\<rparr>"
        "r = Inr (opened', 1, length new)"
proof (cases "qfirst (\<lambda>x. feed_id x = wf_feed f) (t_feeds d)")
  case None
  with t gone show ?thesis by (simp add: trigger_feed_def)
next
  case (Some fd)
  then have fid: "feed_id fd = wf_feed f" by (auto dest: qfirst_Some)
  let ?l = "feed_item_ids (w_account w) (wf_feed f) d"
  show ?thesis
  proof (cases "newest_item_id (w_account w) fd d")
    case (Inl e)
    with t Some have "d' = d" "r = Inl e" by (simp_all add: trigger_feed_def)
    then show ?thesis by (rule refused)
  next
    case (Inr newest)
    then have acc: "feed_account fd = w_account w" by (auto simp: newest_item_id_def split: if_splits)
    show ?thesis
    proof (cases newest)
      case None
      with Inr newest_item_id_None[of "w_account w" fd d] fid have "?l = []" by simp
      with t Some Inr None still show ?thesis by (simp add: trigger_feed_def)
    next
      case through: (Some through)
      with Inr newest_item_id_Some[of "w_account w" fd d through] fid
      have th: "through \<in> set ?l" "\<forall>j\<in>set ?l. j \<le> through" by auto
      show ?thesis
      proof (cases "wf_last_item f = through")
        case True
        with th have "unseen w f d = {}" by (fastforce simp: unseen_def)
        with t Some Inr through True th still show ?thesis by (simp add: trigger_feed_def)
      next
        case False
        obtain d1 opened' sc where e: "ensure_window (w_account w) h now opened d = (d1, opened', sc)"
          by (cases "ensure_window (w_account w) h now opened d") auto
        obtain ws where d1: "d1 = d\<lparr>t_windows := ws\<rparr>" using ensure_window_parts[OF e] by blast
        obtain ids where it: "iter_item_ids_in_window (w_account w) fd (wf_last_item f) through d1 = Inr ids"
          using acc by (simp add: iter_item_ids_in_window_def)
        have l1: "feed_item_ids (w_account w) (wf_feed f) d1 = ?l" by (rule feed_item_ids_cong) (simp add: d1)
        have ids: "distinct ids" "set ids = unseen w f d"
          using iter_item_ids_set[OF _ it] items th l1 fid by (auto simp: d1 unseen_def)
        let ?new = "new_rows (env_gen E) (w_account w) (w_id w) (act_id (hd_action h)) (act_kind (hd_action h)) sc
                 (next_id d) (missing (w_account w) (w_id w) (act_id (hd_action h)) (t_runs d) ids)"
        have enq: "enqueue_many (env_gen E) (w_account w) (w_id w) (act_id (hd_action h)) (act_kind (hd_action h)) sc ids d1 =
            Inr (d1\<lparr>t_runs := t_runs d @ ?new, next_id := next_id d + length ?new\<rparr>, length ?new)"
          unfolding enqueue_many_spec[OF ids(1)] by (simp add: d1 Let_def)
        have "qcount (\<lambda>x. wf_id x = wf_id f) (t_watch_feeds d) \<noteq> 0" using f(1) by (auto simp: qcount_0_iff)
        then have adv: "advance_watermark (w_account w) f through (d1\<lparr>t_runs := t_runs d @ ?new, next_id := next_id d + length ?new\<rparr>) =
            Inr (d1\<lparr>t_runs := t_runs d @ ?new, t_watch_feeds := set_mark f through (t_watch_feeds d),
                    next_id := next_id d + length ?new\<rparr>)"
          using f(2) by (simp add: advance_watermark_def save_row_def set_mark_def subscribed_def d1)
        have "queue_feed E w h f fd (wf_last_item f) through sc d1 =
            (d1\<lparr>t_runs := t_runs d @ ?new, t_watch_feeds := set_mark f through (t_watch_feeds d),
                    next_id := next_id d + length ?new\<rparr>, Inr (length ?new))"
          using it run_enqueue_commits[OF enq] adv by (simp add: queue_feed_def feed_commits_def advance_commit_def)
        with t Some Inr through False e have
          "d' = d1\<lparr>t_runs := t_runs d @ ?new, t_watch_feeds := set_mark f through (t_watch_feeds d),
                    next_id := next_id d + length ?new\<rparr>" "r = Inr (opened', 1, length ?new)"
          by (simp_all add: trigger_feed_def Let_def)
        from queued[OF Some acc th ids False e refl this] show ?thesis .
      qed
    qed
  qed
qed


subsection \<open>Lemmas: the loop\<close>

lemma keeps_other_rows:
  assumes "trigger_feed E w h now f opened d = (d', r)" "f \<in> set (t_watch_feeds d)"
    "subscribed (w_account w) (w_id w) f" "items_ok (t_items d)"
  shows "t_items d' = t_items d \<and> t_feeds d' = t_feeds d \<and> t_actions d' = t_actions d \<and> t_watches d' = t_watches d \<and>
    map wf_id (t_watch_feeds d') = map wf_id (t_watch_feeds d) \<and> map wf_key (t_watch_feeds d') = map wf_key (t_watch_feeds d) \<and>
    (\<forall>x\<in>set (t_watch_feeds d). wf_id x \<noteq> wf_id f \<longrightarrow> x \<in> set (t_watch_feeds d')) \<and>
    (\<exists>new. t_runs d' = t_runs d @ new \<and> (\<forall>x\<in>set new. run_state x = PENDING \<and>
       run_account x = w_account w \<and> run_watch x = w_id w \<and> run_action x = act_id (hd_action h)) \<and>
       (\<forall>o' s k. r = Inr (o', s, k) \<longrightarrow> k = length new))"
  using assms
proof (cases rule: trigger_feed_cases)
  case (queued fd through ids opened' sc d1 new)
  obtain ws where d1: "d1 = d\<lparr>t_windows := ws\<rparr>" using ensure_window_parts[OF queued(8)] by blast
  have "\<forall>x\<in>set new. run_state x = PENDING \<and> run_account x = w_account w \<and> run_watch x = w_id w \<and>
      run_action x = act_id (hd_action h)"
    unfolding queued(9) by (auto elim!: new_rows_cases)
  moreover have "\<forall>x\<in>set (t_watch_feeds d). wf_id x \<noteq> wf_id f \<longrightarrow> x \<in> set (set_mark f through (t_watch_feeds d))"
    by (auto simp: in_set_mark)
  ultimately show ?thesis unfolding queued(10,11) d1 by simp
qed simp_all

lemma trigger_feeds_induct:
  assumes "trigger_feeds E w h now fs opened s n d = (d', r)"
    and "\<forall>f\<in>set fs. f \<in> set (t_watch_feeds d) \<and> subscribed (w_account w) (w_id w) f" "distinct (map wf_id fs)"
    and "items_ok (t_items d)" "Q opened d"
    and step: "\<And>f opened d d1 o1 s k. Q opened d \<Longrightarrow> f \<in> set (t_watch_feeds d) \<Longrightarrow> subscribed (w_account w) (w_id w) f \<Longrightarrow>
      items_ok (t_items d) \<Longrightarrow> trigger_feed E w h now f opened d = (d1, Inr (o1, s, k)) \<Longrightarrow> Q o1 d1"
  shows "\<exists>opened'. Q opened' d'"
  using assms(1-5)
proof (induction fs arbitrary: opened s n d)
  case (Cons f fs)
  obtain d1 r1 where t: "trigger_feed E w h now f opened d = (d1, r1)" by force
  have f: "f \<in> set (t_watch_feeds d)" "subscribed (w_account w) (w_id w) f" using Cons.prems(2) by auto
  note k = keeps_other_rows[OF t f Cons.prems(4)]
  show ?case
  proof (cases r1)
    case (Inl e)
    from t f Cons.prems(4) have "d1 = d" unfolding Inl by (cases rule: trigger_feed_cases) simp_all
    with Cons.prems(1,5) t Inl show ?thesis by auto
  next
    case (Inr p)
    then obtain o' s' k' where r1: "r1 = Inr (o', s', k')" by (cases p) auto
    have q: "Q o' d1" by (rule step[OF Cons.prems(5) f Cons.prems(4) t[unfolded r1]])
    have "\<forall>g\<in>set fs. g \<in> set (t_watch_feeds d1) \<and> subscribed (w_account w) (w_id w) g"
    proof
      fix g assume g: "g \<in> set fs"
      with Cons.prems(3) have "wf_id g \<noteq> wf_id f" by (metis distinct.simps(2) image_eqI list.simps(9) set_map)
      with g Cons.prems(2) k show "g \<in> set (t_watch_feeds d1) \<and> subscribed (w_account w) (w_id w) g" by auto
    qed
    with Cons.IH[of o' "s + s'" "n + k'" d1] Cons.prems(1,3,4) t r1 q k show ?thesis by simp
  qed
qed auto

text \<open>An item at or below a subscription's watermark has its head run.\<close>

definition covered :: "watch \<Rightarrow> action \<Rightarrow> db \<Rightarrow> bool" where
  "covered w a d \<longleftrightarrow>
     (\<forall>f\<in>set (filter (subscribed (w_account w) (w_id w)) (t_watch_feeds d)).
      \<forall>i\<in>set (feed_item_ids (w_account w) (wf_feed f) d). i \<le> wf_last_item f \<longrightarrow>
        (w_account w, w_id w, act_id a, i) \<in> run_key ` set (t_runs d))"

lemma queued_keys:
  assumes "ids' = missing acc w a t ids"
  shows "(acc, w, a, i) \<in> run_key ` set (t @ new_rows gen acc w a k sc n ids') \<longleftrightarrow>
    (acc, w, a, i) \<in> run_key ` set t \<or> i \<in> set ids"
proof -
  have "run_key ` set (new_rows gen acc w a k sc n ids') = (\<lambda>i. (acc, w, a, i)) ` set ids'"
    using map_key_new_rows[of gen acc w a k sc n ids'] by (metis set_map)
  then show ?thesis by (auto simp: image_Un assms missing_def)
qed

lemma trigger_feed_covered:
  assumes c: "covered w (hd_action h) d" and ok: "feeds_ok (t_watch_feeds d)"
    and f: "f \<in> set (t_watch_feeds d)" "subscribed (w_account w) (w_id w) f" and "items_ok (t_items d)"
    and t: "trigger_feed E w h now f opened d = (d', r)"
  shows "covered w (hd_action h) d'"
  using t f assms(5)
proof (cases rule: trigger_feed_cases)
  case (queued fd through ids opened' sc d1 new)
  obtain ws where d1: "d1 = d\<lparr>t_windows := ws\<rparr>" using ensure_window_parts[OF queued(8)] by blast
  have d': "t_runs d' = t_runs d @ new" "t_items d' = t_items d" "t_watch_feeds d' = set_mark f through (t_watch_feeds d)"
    unfolding queued(10) d1 by simp_all
  have key: "(w_account w, w_id w, act_id (hd_action h), i) \<in> run_key ` set (t_runs d') \<longleftrightarrow>
      (w_account w, w_id w, act_id (hd_action h), i) \<in> run_key ` set (t_runs d) \<or> i \<in> unseen w f d" for i
    unfolding d'(1) queued(9) queued_keys[OF refl] queued(6) ..
  have inj: "inj_on wf_id (set (t_watch_feeds d))" using ok by (simp add: feeds_ok_def distinct_map)
  show ?thesis
    unfolding covered_def
  proof (intro ballI impI)
    fix x i assume x: "x \<in> set (filter (subscribed (w_account w) (w_id w)) (t_watch_feeds d'))"
      and i: "i \<in> set (feed_item_ids (w_account w) (wf_feed x) d')" "i \<le> wf_last_item x"
    from x d'(3) obtain y where y: "y \<in> set (t_watch_feeds d)"
      "x = (if wf_id y = wf_id f then y\<lparr>wf_last_item := through\<rparr> else y)" by (auto simp: in_set_mark)
    have i': "i \<in> set (feed_item_ids (w_account w) (wf_feed y) d)"
      using i(1) y(2) feed_item_ids_cong[OF d'(2)] by (auto split: if_splits)
    have sy: "subscribed (w_account w) (w_id w) y" using x y(2) by (auto simp: subscribed_def split: if_splits)
    show "(w_account w, w_id w, act_id (hd_action h), i) \<in> run_key ` set (t_runs d')"
    proof (cases "i \<le> wf_last_item y")
      case True
      with c y(1) sy i' show ?thesis unfolding key by (auto simp: covered_def)
    next
      case False
      with y i(2) have "wf_id y = wf_id f" by (auto split: if_splits)
      with inj y(1) f(1) have "y = f" by (simp add: inj_on_def)
      with False i' show ?thesis unfolding key unseen_def by auto
    qed
  qed
qed (use c in simp_all)


text \<open>The same at every commit boundary of an iteration: opening the window and queueing a
  chunk only add, and the watermark moves last.\<close>

lemma covered_grow:
  assumes "covered w a d" "t_items d' = t_items d" "t_watch_feeds d' = t_watch_feeds d" "t_runs d' = t_runs d @ new"
  shows "covered w a d'"
  using assms(1,3,4) feed_item_ids_cong[OF assms(2)] by (simp add: covered_def image_Un)

lemma feed_states_covered:
  assumes c: "covered w (hd_action h) d" and ok: "feeds_ok (t_watch_feeds d)"
    and f: "f \<in> set (t_watch_feeds d)" "subscribed (w_account w) (w_id w) f" and items: "items_ok (t_items d)"
    and x: "x \<in> set (feed_states E w h now f opened d)"
  shows "covered w (hd_action h) x"
proof -
  obtain fd through where q: "qfirst (\<lambda>x. feed_id x = wf_feed f) (t_feeds d) = Some fd"
    "newest_item_id (w_account w) fd d = Inr (Some through)" "wf_last_item f \<noteq> through"
    using x by (auto simp: feed_states_def Let_def split: option.splits sum.splits if_splits
      dest!: sym[of "Some _"] sym[of "Inr _"])
  obtain d1 o1 sc where e: "ensure_window (w_account w) h now opened d = (d1, o1, sc)"
    by (cases "ensure_window (w_account w) h now opened d") auto
  obtain ws where d1: "d1 = d\<lparr>t_windows := ws\<rparr>" using ensure_window_parts[OF e] by blast
  have c1: "covered w (hd_action h) d1" by (rule covered_grow[OF c, of _ "[]"]) (simp_all add: d1)
  show ?thesis
  proof (cases "x = d1")
    case False
    then obtain ids where ids: "iter_item_ids_in_window (w_account w) fd (wf_last_item f) through d1 = Inr ids"
      "x \<in> set (commit_states (feed_commits E w h f through sc ids) d1)"
      using x q e by (auto simp: feed_states_def split: sum.splits dest!: sym[of "Inr _"])
    have "fst (trigger_feed E w h now f opened d) = fst (run_commits (feed_commits E w h f through sc ids) d1 0)"
      using q e ids(1) by (simp add: trigger_feed_def queue_feed_def Let_def split: prod.split sum.split)
    moreover have "covered w (hd_action h) (fst (trigger_feed E w h now f opened d))"
      by (rule trigger_feed_covered[OF c ok f items prod.collapse[symmetric]])
    ultimately have whole: "covered w (hd_action h) (fst (run_commits (feed_commits E w h f through sc ids) d1 0))" by simp
    from chunk_states_append[OF ids(2)[unfolded feed_commits_def enqueue_commits_def], of 0]
    show ?thesis
    proof
      assume "\<exists>new m. x = d1\<lparr>t_runs := t_runs d1 @ new, next_id := m\<rparr>"
      then obtain new m where g: "x = d1\<lparr>t_runs := t_runs d1 @ new, next_id := m\<rparr>" by blast
      show ?thesis by (rule covered_grow[OF c1, of _ new]) (simp_all add: g)
    qed (use whole in \<open>simp add: feed_commits_def enqueue_commits_def\<close>)
  qed (simp add: c1)
qed

lemma feeds_states_covered:
  assumes "\<forall>f\<in>set fs. f \<in> set (t_watch_feeds d) \<and> subscribed (w_account w) (w_id w) f" "distinct (map wf_id fs)"
    and "covered w (hd_action h) d" "feeds_ok (t_watch_feeds d)" "items_ok (t_items d)"
    and "x \<in> set (feeds_states E w h now fs opened d)"
  shows "covered w (hd_action h) x"
  using assms
proof (induction fs arbitrary: opened d)
  case (Cons f fs)
  have f: "f \<in> set (t_watch_feeds d)" "subscribed (w_account w) (w_id w) f" using Cons.prems(1) by auto
  show ?case
  proof (cases "x \<in> set (feed_states E w h now f opened d)")
    case True
    from feed_states_covered[OF Cons.prems(3,4) f Cons.prems(5) True] show ?thesis .
  next
    case False
    obtain d1 r1 where t: "trigger_feed E w h now f opened d = (d1, r1)" by force
    with False Cons.prems(6) obtain o1 s1 n1 where r1: "r1 = Inr (o1, s1, n1)"
      and x: "x \<in> set (feeds_states E w h now fs o1 d1)" by (auto split: sum.splits)
    note k = keeps_other_rows[OF t f Cons.prems(5)]
    have "\<forall>g\<in>set fs. g \<in> set (t_watch_feeds d1) \<and> subscribed (w_account w) (w_id w) g"
    proof
      fix g assume g: "g \<in> set fs"
      with Cons.prems(2) have "wf_id g \<noteq> wf_id f" by (metis distinct.simps(2) image_eqI list.simps(9) set_map)
      with g Cons.prems(1) k show "g \<in> set (t_watch_feeds d1) \<and> subscribed (w_account w) (w_id w) g" by auto
    qed
    moreover have "covered w (hd_action h) d1" by (rule trigger_feed_covered[OF Cons.prems(3,4) f Cons.prems(5) t])
    moreover have "feeds_ok (t_watch_feeds d1)" using k Cons.prems(4) by (simp add: feeds_ok_def)
    moreover have "items_ok (t_items d1)" using k Cons.prems(5) by simp
    ultimately show ?thesis using Cons.IH[OF _ _ _ _ _ x] Cons.prems(2) by simp
  qed
qed simp

text \<open>A subscription the next pass will leave alone.\<close>

definition settled :: "watch \<Rightarrow> watch_feed \<Rightarrow> db \<Rightarrow> bool" where
  "settled w f d \<longleftrightarrow>
     (case qfirst (\<lambda>x. feed_id x = wf_feed f) (t_feeds d) of
        None \<Rightarrow> True
      | Some fd \<Rightarrow> newest_item_id (w_account w) fd d = Inr None \<or>
                   newest_item_id (w_account w) fd d = Inr (Some (wf_last_item f)))"

lemma settled_feed:
  "settled w f d \<Longrightarrow> \<exists>s. trigger_feed E w h now f opened d = (d, Inr (opened, s, 0))"
  by (auto simp: settled_def trigger_feed_def split: option.splits)

lemma settled_feeds:
  "\<forall>f\<in>set fs. settled w f d \<Longrightarrow> \<exists>s'. trigger_feeds E w h now fs opened s n d = (d, Inr (s', n))"
proof (induction fs arbitrary: s)
  case (Cons f fs)
  obtain k where "trigger_feed E w h now f opened d = (d, Inr (opened, k, 0))"
    using settled_feed[of w f d E h now opened] Cons.prems by auto
  with Cons.IH[of "s + k"] Cons.prems show ?case by simp
qed simp

lemma settled_cong:
  assumes "t_feeds d' = t_feeds d" "t_items d' = t_items d"
  shows "settled w f d' = settled w f d"
proof -
  have "newest_item_id (w_account w) fd d' = newest_item_id (w_account w) fd d" for fd
    using assms(2) by (simp add: newest_item_id_def feed_item_ids_def)
  then show ?thesis unfolding settled_def assms(1) by (simp split: option.split)
qed

lemma newest_of_max:
  assumes "feed_account fd = acc" "i \<in> set (feed_item_ids acc (feed_id fd) d)"
    "\<forall>j\<in>set (feed_item_ids acc (feed_id fd) d). j \<le> i"
  shows "newest_item_id acc fd d = Inr (Some i)"
proof -
  obtain m where m: "newest_item_id acc fd d = Inr m" using assms(1) by (simp add: newest_item_id_def)
  show ?thesis
  proof (cases m)
    case None
    with m assms(2) newest_item_id_None[of acc fd d] show ?thesis by simp
  next
    case (Some j)
    with m newest_item_id_Some[of acc fd d j] assms(2,3) show ?thesis by (simp add: order_antisym)
  qed
qed

text \<open>After an iteration that did not raise, the feed is settled and its new items queued.\<close>

lemma trigger_feed_catches_up:
  assumes t: "trigger_feed E w h now f opened d = (d', Inr q)"
    and f: "f \<in> set (t_watch_feeds d)" "subscribed (w_account w) (w_id w) f" and items: "items_ok (t_items d)"
  shows "(\<exists>x\<in>set (t_watch_feeds d'). wf_id x = wf_id f \<and> settled w x d') \<and>
    (qfirst (\<lambda>x. feed_id x = wf_feed f) (t_feeds d) \<noteq> None \<longrightarrow>
     (\<forall>i\<in>unseen w f d. (w_account w, w_id w, act_id (hd_action h), i) \<in> run_key ` set (t_runs d')))"
  using t f items
proof (cases rule: trigger_feed_cases)
  case gone
  with f show ?thesis by (auto simp: settled_def intro!: bexI[of _ f])
next
  case still
  obtain fd where fd: "qfirst (\<lambda>x. feed_id x = wf_feed f) (t_feeds d) = Some fd" using still(3) by blast
  then have fid: "feed_id fd = wf_feed f" by (auto dest: qfirst_Some)
  have acc: "feed_account fd = w_account w"
    using t fd by (auto simp: trigger_feed_def newest_item_id_def split: if_splits)
  show ?thesis
  proof (cases "feed_item_ids (w_account w) (wf_feed f) d = []")
    case True
    then have "settled w f d" using fd fid acc by (simp add: settled_def newest_item_id_def)
    with True still(1) f(1) show ?thesis by (auto simp: unseen_def intro!: bexI[of _ f])
  next
    case False
    with still(4) have m: "wf_last_item f \<in> set (feed_item_ids (w_account w) (wf_feed f) d)" "unseen w f d = {}" by auto
    then have "\<forall>j\<in>set (feed_item_ids (w_account w) (wf_feed f) d). j \<le> wf_last_item f"
      by (auto simp: unseen_def not_less)
    then have "newest_item_id (w_account w) fd d = Inr (Some (wf_last_item f))"
      using newest_of_max[OF acc] m(1) fid by simp
    then have "settled w f d" using fd by (simp add: settled_def)
    with m still(1) f(1) show ?thesis by (auto intro!: bexI[of _ f])
  qed
next
  case (queued fd through ids opened' sc d1 new)
  obtain ws where d1: "d1 = d\<lparr>t_windows := ws\<rparr>" using ensure_window_parts[OF queued(8)] by blast
  have fid: "feed_id fd = wf_feed f" using queued(1) by (auto dest: qfirst_Some)
  let ?x = "f\<lparr>wf_last_item := through\<rparr>"
  have x: "?x \<in> set (t_watch_feeds d')" unfolding queued(10) using f(1) by (auto simp: in_set_mark)
  have "newest_item_id (w_account w) fd d = Inr (Some through)"
    using newest_of_max[OF queued(2)] queued(3,4) fid by simp
  then have "settled w ?x d" using queued(1) by (simp add: settled_def)
  then have "settled w ?x d'" using settled_cong[of d' d] unfolding queued(10) d1 by simp
  moreover have "(w_account w, w_id w, act_id (hd_action h), i) \<in> run_key ` set (t_runs d')" if "i \<in> unseen w f d" for i
  proof -
    have "t_runs d' = t_runs d @ new" unfolding queued(10) by simp
    with that show ?thesis unfolding queued(9) using queued_keys[OF refl] queued(6) by simp
  qed
  ultimately show ?thesis using x by (auto intro!: bexI[of _ ?x])
qed simp


lemma trigger_feeds_catch_up:
  assumes "trigger_feeds E w h now fs opened s n d = (d', Inr (s', n'))"
    and "\<forall>f\<in>set fs. f \<in> set (t_watch_feeds d) \<and> subscribed (w_account w) (w_id w) f" "distinct (map wf_id fs)"
    and "items_ok (t_items d)"
  shows "t_items d' = t_items d \<and> t_feeds d' = t_feeds d \<and> t_actions d' = t_actions d \<and> t_watches d' = t_watches d \<and>
    map wf_id (t_watch_feeds d') = map wf_id (t_watch_feeds d) \<and> map wf_key (t_watch_feeds d') = map wf_key (t_watch_feeds d) \<and>
    (\<forall>x\<in>set (t_watch_feeds d). wf_id x \<notin> wf_id ` set fs \<longrightarrow> x \<in> set (t_watch_feeds d')) \<and>
    (\<exists>new. t_runs d' = t_runs d @ new \<and> n' = n + length new \<and> (\<forall>x\<in>set new. run_state x = PENDING \<and>
       run_account x = w_account w \<and> run_watch x = w_id w \<and> run_action x = act_id (hd_action h))) \<and>
    (\<forall>f\<in>set fs. (\<exists>x\<in>set (t_watch_feeds d'). wf_id x = wf_id f \<and> settled w x d') \<and>
       (qfirst (\<lambda>x. feed_id x = wf_feed f) (t_feeds d) \<noteq> None \<longrightarrow>
        (\<forall>i\<in>unseen w f d. (w_account w, w_id w, act_id (hd_action h), i) \<in> run_key ` set (t_runs d'))))"
  using assms
proof (induction fs arbitrary: opened s n d)
  case (Cons f fs)
  obtain d1 r1 where t: "trigger_feed E w h now f opened d = (d1, r1)" by force
  have f: "f \<in> set (t_watch_feeds d)" "subscribed (w_account w) (w_id w) f" using Cons.prems(2) by auto
  obtain o1 s1 n1 where r1: "r1 = Inr (o1, s1, n1)"
    using Cons.prems(1) t by (cases r1) auto
  note k = keeps_other_rows[OF t f Cons.prems(4)]
  note c = trigger_feed_catches_up[OF t[unfolded r1] f Cons.prems(4)]
  have ne: "wf_id g \<noteq> wf_id f" if "g \<in> set fs" for g
    using that Cons.prems(3) by (metis distinct.simps(2) image_eqI list.simps(9) set_map)
  have rest: "trigger_feeds E w h now fs o1 (s + s1) (n + n1) d1 = (d', Inr (s', n'))"
    using Cons.prems(1) t r1 by simp
  have fs: "\<forall>g\<in>set fs. g \<in> set (t_watch_feeds d1) \<and> subscribed (w_account w) (w_id w) g"
    using Cons.prems(2) k ne by auto
  have "distinct (map wf_id fs)" "items_ok (t_items d1)" using Cons.prems(3,4) k by simp_all
  note ih = Cons.IH[OF rest fs this]
  from k r1 obtain new1 where new1: "t_runs d1 = t_runs d @ new1" "n1 = length new1"
    "\<forall>x\<in>set new1. run_state x = PENDING \<and> run_account x = w_account w \<and> run_watch x = w_id w \<and>
       run_action x = act_id (hd_action h)" by blast
  from ih obtain new2 where new2: "t_runs d' = t_runs d1 @ new2" "n' = n + n1 + length new2"
    "\<forall>x\<in>set new2. run_state x = PENDING \<and> run_account x = w_account w \<and> run_watch x = w_id w \<and>
       run_action x = act_id (hd_action h)" by blast
  have tables: "t_items d' = t_items d" "t_feeds d' = t_feeds d" "t_items d1 = t_items d" "t_feeds d1 = t_feeds d"
    using ih k by simp_all
  have "\<exists>new. t_runs d' = t_runs d @ new \<and> n' = n + length new \<and> (\<forall>x\<in>set new. run_state x = PENDING \<and>
       run_account x = w_account w \<and> run_watch x = w_id w \<and> run_action x = act_id (hd_action h))"
    by (rule exI[of _ "new1 @ new2"]) (use new1 new2 in auto)
  moreover have "\<forall>x\<in>set (t_watch_feeds d). wf_id x \<notin> wf_id ` set (f # fs) \<longrightarrow> x \<in> set (t_watch_feeds d')"
    using ih k by simp
  moreover have "(\<exists>x\<in>set (t_watch_feeds d'). wf_id x = wf_id g \<and> settled w x d') \<and>
       (qfirst (\<lambda>x. feed_id x = wf_feed g) (t_feeds d) \<noteq> None \<longrightarrow>
        (\<forall>i\<in>unseen w g d. (w_account w, w_id w, act_id (hd_action h), i) \<in> run_key ` set (t_runs d')))"
    if g: "g \<in> set (f # fs)" for g
  proof (cases "g = f")
    case True
    from c obtain x where x: "x \<in> set (t_watch_feeds d1)" "wf_id x = wf_id f" "settled w x d1" by blast
    have "wf_id x \<notin> wf_id ` set fs" using x(2) ne by force
    with ih x(1) have "x \<in> set (t_watch_feeds d')" by blast
    moreover have "settled w x d'" using x(3) settled_cong[of d' d1] tables by simp
    moreover have "(w_account w, w_id w, act_id (hd_action h), i) \<in> run_key ` set (t_runs d')"
      if "qfirst (\<lambda>x. feed_id x = wf_feed f) (t_feeds d) \<noteq> None" "i \<in> unseen w f d" for i
      using c that new2(1) by auto
    ultimately show ?thesis using True x(2) by blast
  next
    case False
    with g have "g \<in> set fs" by simp
    moreover have "unseen w g d1 = unseen w g d" using tables(3) by (simp add: unseen_def feed_item_ids_def)
    ultimately show ?thesis using ih tables by simp
  qed
  ultimately show ?case using ih k by auto
qed simp

lemma watch_feeds_rows:
  assumes "watch_feeds acc w d = Inr fs" "feeds_ok (t_watch_feeds d)"
  shows "set fs = set (filter (subscribed acc (w_id w)) (t_watch_feeds d)) \<and> distinct (map wf_id fs) \<and> w_account w = acc"
proof -
  have "distinct (map wf_id (filter (subscribed acc (w_id w)) (t_watch_feeds d)))"
    using assms(2) by (simp add: feeds_ok_def distinct_map_filter)
  then show ?thesis using assms(1) by (auto simp: watch_feeds_def split: if_splits)
qed

text \<open>A pass that gets as far as the feeds, with its head action named.\<close>

lemma trigger_run_head:
  assumes "list_for_path (w_account w) (w_path w) (t_actions d) = head # rest" "w_path w \<noteq> ''''"
    "load_config E head = Inr c"
  shows "trigger_run E w now d =
    trigger_feeds E w \<lparr>hd_action = head, hd_digest = is_digest c, hd_interval = (if is_digest c then digest_interval c else 0)\<rparr> now
      (order_by wf_id (filter (subscribed (w_account w) (w_id w)) (t_watch_feeds d))) None 0 0 d"
  using assms by (simp add: trigger_run_def initial_actions_def watch_feeds_def Let_def)


subsection \<open>Lemmas: soundness of the tables\<close>

lemma pipeline_ok_open:
  assumes p: "pipeline_ok E d" and a: "a \<in> set (t_actions d)" "load_config E a = Inr c" "is_digest c"
    and o: "open_window (act_account a) (act_id a) n now d = (d1, t)"
  shows "pipeline_ok E d1 \<and> \<not> closed_window (act_account a) (act_id a) d1"
proof -
  have w: "windows_ok (t_windows d)" using p by (simp add: pipeline_ok_def db_ok_def)
  have d1: "d1 = fst (open_window (act_account a) (act_id a) n now d)" using o by simp
  have m: "windows_match E d1"
  proof -
    let ?c = "c"
    have "windows_match E (fst (advance_window E (act_account a) a c now d))"
      by (rule advance_window_match) (use p a in \<open>simp_all add: pipeline_ok_def\<close>)
    moreover have "has_window x y (t_windows (fst (advance_window E (act_account a) a c now d))) =
        has_window x y (t_windows d1)" for x y
      using a(3) by (simp add: advance_window_def d1 has_window_open)
    ultimately show ?thesis
      unfolding windows_match_def list_all_iff d1 by (simp split: sum.splits)
  qed
  have "runs_ok (env_cfg E) (t_runs d1)" "windows_ok (t_windows d1)" "run_ids_ok (env_gen E) d1"
    "ids_distinct (t_actions d1)" "no_orphan d1"
    using p w by (simp_all add: d1 pipeline_ok_def db_ok_def run_ids_ok_def windows_ok_open no_orphan_open)
  with m have "pipeline_ok E d1" by (simp add: pipeline_ok_def db_ok_def)
  then show ?thesis using w by (simp add: d1 closed_window_open)
qed

text \<open>Queueing head runs, on an action whose window is not closed.\<close>

lemma pipeline_ok_queue:
  assumes p: "pipeline_ok E d" and g: "inj (env_gen E)" "0 < WATCH_RUN_MAX_ATTEMPTS (env_cfg E)"
    and "distinct ids" and cw: "\<not> closed_window acc act d"
    and new: "new = new_rows (env_gen E) acc w act k sc (next_id d) (missing acc w act (t_runs d) ids)"
    and d': "d' = d\<lparr>t_runs := t_runs d @ new, t_watch_feeds := t, next_id := next_id d + length new\<rparr>"
  shows "pipeline_ok E d'"
proof -
  have dk: "distinct (map run_key new)" and fresh: "run_key ` set new \<inter> run_key ` set (t_runs d) = {}"
  proof -
    show "distinct (map run_key new)"
      using assms(4) by (simp add: new map_key_new_rows missing_def distinct_map inj_on_def)
    have "map run_key new = map (\<lambda>i. (acc, w, act, i)) (missing acc w act (t_runs d) ids)"
      unfolding new by (rule map_key_new_rows)
    from arg_cong[OF this, of set]
    have "run_key ` set new = (\<lambda>i. (acc, w, act, i)) ` set (missing acc w act (t_runs d) ids)"
      by (simp only: set_map)
    then show "run_key ` set new \<inter> run_key ` set (t_runs d) = {}" by (auto simp: missing_def)
  qed
  have b: "bulk_create_ignore new (t_runs d) = t_runs d @ new" by (rule bulk_create_fresh[OF dk fresh])
  have ids: "map run_id new = fresh_ids (env_gen E) d (length new)" by (simp add: new fresh_ids_def)
  have ok: "list_all (run_ok (env_cfg E)) new"
    unfolding new list_all_iff using new_run_ok[OF g(2)] by (auto elim!: new_rows_cases)
  have "runs_ok (env_cfg E) (t_runs d @ new) \<and> run_ids_ok (env_gen E) (d\<lparr>t_runs := t_runs d @ new, next_id := next_id d + length new\<rparr>)"
    using bulk_new_runs_ok[OF _ _ g ids ok] p b by (simp add: pipeline_ok_def db_ok_def)
  then have r: "runs_ok (env_cfg E) (t_runs d')" "run_ids_ok (env_gen E) d'" by (simp_all add: d' run_ids_ok_def)
  have "no_orphan d'"
  proof (rule no_orphan_runs)
    show "no_orphan d" using p by (simp add: pipeline_ok_def)
    show "t_windows d' = t_windows d" by (simp add: d')
    fix r assume "r \<in> set (t_runs d')" "run_state r = PENDING"
    then show "\<not> closed_window (run_account r) (run_action r) d \<or>
      (\<exists>x\<in>set (t_runs d). run_state x = PENDING \<and> run_account x = run_account r \<and> run_action x = run_action r)"
      using cw by (auto simp: d' new elim!: new_rows_cases)
  qed
  moreover have "windows_match E d' = windows_match E d" by (rule windows_match_cong) (simp_all add: d')
  ultimately show ?thesis using p r by (simp add: d' pipeline_ok_def db_ok_def)
qed

text \<open>The head of the pass: a stored action, digest exactly when its config says so.\<close>

definition head_ok :: "env \<Rightarrow> watch \<Rightarrow> head_info \<Rightarrow> db \<Rightarrow> bool" where
  "head_ok E w h d \<longleftrightarrow> hd_action h \<in> set (t_actions d) \<and> act_account (hd_action h) = w_account w \<and>
     (case load_config E (hd_action h) of Inl _ \<Rightarrow> False | Inr c \<Rightarrow> hd_digest h = is_digest c)"

definition pass_ok :: "env \<Rightarrow> watch \<Rightarrow> head_info \<Rightarrow> datetime option \<Rightarrow> db \<Rightarrow> bool" where
  "pass_ok E w h opened d \<longleftrightarrow> pipeline_ok E d \<and> head_ok E w h d \<and>
     (opened \<noteq> None \<longrightarrow> \<not> closed_window (w_account w) (act_id (hd_action h)) d)"

lemma ensure_window_ok:
  assumes "pass_ok E w h opened d" "ensure_window (w_account w) h now opened d = (d1, opened', sc)"
  shows "pass_ok E w h opened' d1 \<and> \<not> closed_window (w_account w) (act_id (hd_action h)) d1"
proof -
  let ?a = "hd_action h"
  have a: "?a \<in> set (t_actions d)" "act_account ?a = w_account w" and p: "pipeline_ok E d"
    using assms(1) by (auto simp: pass_ok_def head_ok_def)
  obtain c where c: "load_config E ?a = Inr c" "hd_digest h = is_digest c"
    using assms(1) by (auto simp: pass_ok_def head_ok_def split: sum.splits)
  have h1: "head_ok E w h d1"
    using assms ensure_window_parts[OF assms(2)] by (auto simp: pass_ok_def head_ok_def)
  show ?thesis
  proof (cases "hd_digest h")
    case True
    show ?thesis
    proof (cases opened)
      case None
      obtain d0 t where o: "open_window (w_account w) (act_id ?a) (hd_interval h) now d = (d0, t)" by force
      with assms(2) True None have "d1 = d0" by (simp add: ensure_window_def)
      with pipeline_ok_open[OF p a(1) c(1) True[unfolded c(2)] o[folded a(2)]] h1 a(2)
      show ?thesis by (simp add: pass_ok_def)
    next
      case (Some t)
      with assms True show ?thesis by (auto simp: ensure_window_def pass_ok_def)
    qed
  next
    case False
    with assms(2) have d1: "d1 = d" "opened' = opened" by (simp_all add: ensure_window_def)
    have m: "windows_match E d" and w: "windows_ok (t_windows d)" using p by (simp_all add: pipeline_ok_def db_ok_def)
    have "\<not> has_window (w_account w) (act_id ?a) (t_windows d)"
      using windows_matchD[OF m a(1) c(1)] False c(2) a(2) by simp
    then have "\<not> closed_window (w_account w) (act_id ?a) d" using w by (simp add: closed_window_iff)
    with assms(1) d1 show ?thesis by simp
  qed
qed


lemma trigger_feed_ok:
  assumes q: "pass_ok E w h opened d" and g: "inj (env_gen E)" "0 < WATCH_RUN_MAX_ATTEMPTS (env_cfg E)"
    and f: "f \<in> set (t_watch_feeds d)" "subscribed (w_account w) (w_id w) f" "items_ok (t_items d)"
    and t: "trigger_feed E w h now f opened d = (d', Inr (opened', s, k))"
  shows "pass_ok E w h opened' d'"
  using t f
proof (cases rule: trigger_feed_cases)
  case (queued fd through ids o' sc d1 new)
  from ensure_window_ok[OF q queued(8)] have e: "pass_ok E w h o' d1" "\<not> closed_window (w_account w) (act_id (hd_action h)) d1"
    by simp_all
  obtain ws where d1: "d1 = d\<lparr>t_windows := ws\<rparr>" using ensure_window_parts[OF queued(8)] by blast
  have p1: "pipeline_ok E d1" using e(1) by (simp add: pass_ok_def)
  have n: "new = new_rows (env_gen E) (w_account w) (w_id w) (act_id (hd_action h)) (act_kind (hd_action h)) sc
      (next_id d1) (missing (w_account w) (w_id w) (act_id (hd_action h)) (t_runs d1) ids)"
    using queued(9) by (simp add: d1)
  have d': "d' = d1\<lparr>t_runs := t_runs d1 @ new, t_watch_feeds := set_mark f through (t_watch_feeds d),
      next_id := next_id d1 + length new\<rparr>"
    using queued(10) by (simp add: d1)
  have "pipeline_ok E d'" by (rule pipeline_ok_queue[OF p1 g queued(5) e(2) n d'])
  moreover have "closed_window a b d' = closed_window a b d1" for a b
    unfolding queued(10) by (simp add: closed_window_def)
  moreover have "head_ok E w h d'" using e(1) unfolding queued(10) by (simp add: pass_ok_def head_ok_def)
  ultimately show ?thesis using e queued(11) by (simp add: pass_ok_def)
qed (use q in simp_all)


text \<open>What a run of the pass comes down to.\<close>

lemma trigger_run_cases:
  assumes "trigger_run E w now d = (d', r)" "feeds_ok (t_watch_feeds d)"
  obtains (early) "d' = d"
    | (pass) head c fs where
      "head \<in> set (t_actions d)" "act_account head = w_account w" "load_config E head = Inr c"
      "\<forall>f\<in>set fs. f \<in> set (t_watch_feeds d) \<and> subscribed (w_account w) (w_id w) f" "distinct (map wf_id fs)"
      "trigger_feeds E w \<lparr>hd_action = head, hd_digest = is_digest c,
          hd_interval = (if is_digest c then digest_interval c else 0)\<rparr> now fs None 0 0 d = (d', r)"
proof (cases "\<exists>head rest c. initial_actions (w_account w) w d = Inr (head # rest) \<and> load_config E head = Inr c")
  case False
  with assms(1) have "d' = d" by (auto simp: trigger_run_def split: sum.splits list.splits)
  then show ?thesis by (rule early)
next
  case True
  then obtain head rest c where h: "initial_actions (w_account w) w d = Inr (head # rest)" "load_config E head = Inr c"
    by blast
  obtain fs where fs: "watch_feeds (w_account w) w d = Inr fs" by (simp add: watch_feeds_def)
  have l: "list_for_path (w_account w) (w_path w) (t_actions d) = head # rest"
    using h(1) by (auto simp: initial_actions_def split: if_splits)
  have "head \<in> set (list_for_path (w_account w) (w_path w) (t_actions d))" unfolding l by simp
  then have a: "head \<in> set (t_actions d)" "act_account head = w_account w" by (auto simp: on_path_def)
  show ?thesis
    by (rule pass[OF a h(2)])
       (use watch_feeds_rows[OF fs assms(2)] assms(1) h fs in \<open>auto simp: trigger_run_def Let_def\<close>)
qed

lemma same_row:
  assumes "map f xs = map f ys" "map g xs = map g ys" "x \<in> set xs"
  shows "\<exists>y\<in>set ys. f y = f x \<and> g y = g x"
proof -
  obtain i where i: "i < length xs" "xs ! i = x" using assms(3) by (auto simp: in_set_conv_nth)
  have l: "i < length ys" using i(1) map_eq_imp_length_eq[OF assms(1)] by simp
  have "f (ys ! i) = f x" "g (ys ! i) = g x"
    using arg_cong[OF assms(1), of "\<lambda>l. l ! i"] arg_cong[OF assms(2), of "\<lambda>l. l ! i"] i l by simp_all
  with l show ?thesis by (auto intro: bexI[of _ "ys ! i"])
qed

subsection \<open>A concrete watch\<close>

text \<open>A watch on two feeds with three items; the head is a digest log or an instant one.\<close>

definition feed_row :: "ulid \<Rightarrow> feed" where
  "feed_row i = \<lparr>feed_id = i, feed_account = ''acc'', feed_user = ''u'', feed_kind = ''k'', feed_name = ''n'',
     feed_active = True, feed_interval = 60, feed_last_polled = None, feed_next_poll = None, feed_data = JObj []\<rparr>"

definition trigger_watch :: watch where
  "trigger_watch = \<lparr>w_id = ''w'', w_account = ''acc'', w_user = ''u'', w_name = ''n'', w_active = True, w_path = ''p''\<rparr>"

definition sub_row :: "ulid \<Rightarrow> ulid \<Rightarrow> watch_feed" where
  "sub_row i f = \<lparr>wf_id = i, wf_account = ''acc'', wf_watch = ''w'', wf_feed = f, wf_last_item = ''''\<rparr>"

definition trigger_db :: "json \<Rightarrow> db" where
  "trigger_db blob = empty_db\<lparr>t_watches := [trigger_watch], t_actions := [sample_action ''a1'' ''p'' blob 0],
     t_watch_feeds := [sub_row ''s1'' ''f1'', sub_row ''s2'' ''f2''], t_feeds := [feed_row ''f1'', feed_row ''f2''],
     t_items := [(sample_item ''i1'')\<lparr>item_feed := ''f1''\<rparr>, (sample_item ''i2'')\<lparr>item_feed := ''f2''\<rparr>,
                 (sample_item ''i3'')\<lparr>item_feed := ''f1''\<rparr>]\<rparr>"

subsection \<open>Properties\<close>

text \<open>C13: a watermark never moves past an item without a run: if every item at or below a
  subscription's watermark has its head run before a trigger pass, it has at every commit
  boundary of the pass (the window's opening, each chunk of the enqueue, the watermark's
  UPDATE), so wherever an exception or a killed worker stops it, and at its end, whether it
  returned or raised.\<close>

theorem watermark_never_skips:
  assumes "covered w head d" "hd (list_for_path (w_account w) (w_path w) (t_actions d)) = head"
    and "feeds_ok (t_watch_feeds d)" "items_ok (t_items d)"
    and r: "trigger_run E w now d = (d', r)"
  shows "last (trigger_states E w now d) = d' \<and> list_all (covered w head) (trigger_states E w now d) \<and> covered w head d'"
proof -
  have l: "last (trigger_states E w now d) = d'" using trigger_run_last[of E w now d] r by simp
  have "covered w head x" if x: "x \<in> set (trigger_states E w now d)" for x
  proof (cases "x = d")
    case False
    with x obtain a rest where a: "initial_actions (w_account w) w d = Inr (a # rest)"
      unfolding trigger_states_def
      by (cases "initial_actions (w_account w) w d") (auto split: list.splits)
    then have "a = head" using assms(2) by (auto simp: initial_actions_def split: if_splits)
    obtain c where c: "load_config E a = Inr c"
      using x False a unfolding trigger_states_def by (cases "load_config E a") simp_all
    obtain fs where fs: "watch_feeds (w_account w) w d = Inr fs" by (simp add: watch_feeds_def)
    have p: "initial_actions (w_account w) w d = Inr (head # rest)" "load_config E head = Inr c"
      "watch_feeds (w_account w) w d = Inr fs"
      "x \<in> set (feeds_states E w \<lparr>hd_action = head, hd_digest = is_digest c,
         hd_interval = (if is_digest c then digest_interval c else 0)\<rparr> now fs None d)"
      using x False a c fs unfolding \<open>a = head\<close> by (simp_all add: trigger_states_def Let_def)
    have rows: "\<forall>f\<in>set fs. f \<in> set (t_watch_feeds d) \<and> subscribed (w_account w) (w_id w) f" "distinct (map wf_id fs)"
      using watch_feeds_rows[OF p(3) assms(3)] by auto
    from feeds_states_covered[OF rows _ assms(3,4) p(4)] assms(1) show ?thesis by simp
  qed (simp add: assms(1))
  then have "list_all (covered w head) (trigger_states E w now d)" by (simp add: list_all_iff)
  moreover have "d' \<in> set (trigger_states E w now d)"
    unfolding l[symmetric] by (rule last_in_set) (simp add: trigger_states_def)
  ultimately show ?thesis using l by (simp add: list_all_iff)
qed


theorem watermark_never_skips_witness:
  "list_all (covered trigger_watch (sample_action ''a1'' ''p'' (log_blob INSTANT 0) 0))
     (trigger_states sample_env trigger_watch 5 (trigger_db (log_blob INSTANT 0))) \<and>
   length (trigger_states sample_env trigger_watch 5 (trigger_db (log_blob INSTANT 0))) = 7"
proof -
  let ?d = "trigger_db (log_blob INSTANT 0)" and ?a = "sample_action ''a1'' ''p'' (log_blob INSTANT 0) 0"
  have 1: "covered trigger_watch ?a ?d" by code_simp
  have 2: "hd (list_for_path (w_account trigger_watch) (w_path trigger_watch) (t_actions ?d)) = ?a" by code_simp
  have 3: "feeds_ok (t_watch_feeds ?d)" by code_simp
  have 4: "items_ok (t_items ?d)" by code_simp
  have 5: "length (trigger_states sample_env trigger_watch 5 ?d) = 7" by code_simp
  obtain d' r where r: "trigger_run sample_env trigger_watch 5 ?d = (d', r)" by force
  from watermark_never_skips [OF 1 2 3 4 r] 5 show ?thesis by simp
qed

text \<open>C14: a pass that does not raise catches up completely: every item past a subscription's
  watermark gets a PENDING head run, nothing else is queued, the count is the number of runs
  queued, and the next pass finds nothing to do: it queues no run, opens no window and moves
  no watermark.\<close>

theorem trigger_catches_up:
  assumes "list_for_path (w_account w) (w_path w) (t_actions d) = head # rest"
    and "feeds_ok (t_watch_feeds d)" "items_ok (t_items d)"
    and r: "trigger_run E w now d = (d', Inr (s, n))"
  shows "(\<exists>new. t_runs d' = t_runs d @ new \<and> length new = n \<and> (\<forall>x\<in>set new. run_state x = PENDING \<and>
      run_watch x = w_id w \<and> run_action x = act_id head)) \<and>
    (\<forall>f\<in>set (filter (subscribed (w_account w) (w_id w)) (t_watch_feeds d)). \<forall>i\<in>set (t_items d).
      item_account i = w_account w \<longrightarrow> item_feed i = wf_feed f \<longrightarrow> wf_last_item f < item_id i \<longrightarrow>
      wf_feed f \<in> feed_id ` set (t_feeds d) \<longrightarrow>
      (w_account w, w_id w, act_id head, item_id i) \<in> run_key ` set (t_runs d')) \<and>
    (\<exists>s'. trigger_run E w later d' = (d', Inr (s', 0)))"
proof -
  have h: "initial_actions (w_account w) w d = Inr (head # rest)"
    using assms(1) r by (auto simp: initial_actions_def trigger_run_def split: if_splits)
  have p: "w_path w \<noteq> ''''" using h by (auto simp: initial_actions_def split: if_splits)
  obtain c where c: "load_config E head = Inr c" using r h by (auto simp: trigger_run_def split: sum.splits)
  let ?h = "\<lparr>hd_action = head, hd_digest = is_digest c, hd_interval = (if is_digest c then digest_interval c else 0)\<rparr>"
  let ?fs = "order_by wf_id (filter (subscribed (w_account w) (w_id w)) (t_watch_feeds d))"
  let ?fs' = "order_by wf_id (filter (subscribed (w_account w) (w_id w)) (t_watch_feeds d'))"
  have t: "trigger_feeds E w ?h now ?fs None 0 0 d = (d', Inr (s, n))"
    using r trigger_run_head[OF assms(1) p c] by simp
  have fs: "watch_feeds (w_account w) w d = Inr ?fs" by (simp add: watch_feeds_def)
  have rows: "\<forall>f\<in>set ?fs. f \<in> set (t_watch_feeds d) \<and> subscribed (w_account w) (w_id w) f" "distinct (map wf_id ?fs)"
    using watch_feeds_rows[OF fs assms(2)] by auto
  note cu = trigger_feeds_catch_up[OF t rows assms(3)]
  have new: "\<exists>new. t_runs d' = t_runs d @ new \<and> length new = n \<and> (\<forall>x\<in>set new. run_state x = PENDING \<and>
      run_watch x = w_id w \<and> run_action x = act_id head)" using cu by fastforce
  have ids: "map wf_id (t_watch_feeds d') = map wf_id (t_watch_feeds d)"
    and keys: "map wf_key (t_watch_feeds d') = map wf_key (t_watch_feeds d)" using cu by blast+
  have "distinct (map wf_id (t_watch_feeds d'))" unfolding ids using assms(2) unfolding feeds_ok_def by blast
  then have ok': "inj_on wf_id (set (t_watch_feeds d'))" by (simp only: distinct_map)
  have settled: "\<forall>x\<in>set ?fs'. settled w x d'"
  proof
    fix x assume x: "x \<in> set ?fs'"
    then have m: "x \<in> set (t_watch_feeds d')" by simp
    from same_row[OF ids keys m] obtain f where f: "f \<in> set (t_watch_feeds d)" "wf_id f = wf_id x" "wf_key f = wf_key x"
      by blast
    have "f \<in> set ?fs" using f(1,3) x by (auto simp: wf_key_def subscribed_def)
    with cu obtain y where "y \<in> set (t_watch_feeds d')" "wf_id y = wf_id f" "settled w y d'" by blast
    with ok' m f(2) show "settled w x d'" by (metis inj_onD)
  qed
  have again: "\<exists>s'. trigger_run E w later d' = (d', Inr (s', 0))"
  proof -
    have "list_for_path (w_account w) (w_path w) (t_actions d') = head # rest" using assms(1) cu by simp
    from trigger_run_head[OF this p c] settled_feeds[OF settled, of E ?h later None 0 0] show ?thesis by simp
  qed
  have "(w_account w, w_id w, act_id head, item_id i) \<in> run_key ` set (t_runs d')"
    if f: "f \<in> set (filter (subscribed (w_account w) (w_id w)) (t_watch_feeds d))" and i: "i \<in> set (t_items d)"
      "item_account i = w_account w" "item_feed i = wf_feed f" "wf_last_item f < item_id i" "wf_feed f \<in> feed_id ` set (t_feeds d)"
    for f i
  proof -
    have "qfirst (\<lambda>x. feed_id x = wf_feed f) (t_feeds d) \<noteq> None" using i(5) by (auto simp: qfirst_None)
    moreover have "item_id i \<in> unseen w f d" using i by (auto simp: unseen_def feed_item_ids_def)
    moreover have "f \<in> set ?fs" using f by simp
    ultimately show ?thesis using cu by fastforce
  qed
  with new again show ?thesis by blast
qed


theorem trigger_catches_up_witness:
  "\<exists>d'. trigger_run sample_env trigger_watch 5 (trigger_db (log_blob DIGEST 3600)) = (d', Inr (2, 3)) \<and>
     (\<exists>s'. trigger_run sample_env trigger_watch 9 d' = (d', Inr (s', 0)))"
proof -
  let ?d = "trigger_db (log_blob DIGEST 3600)"
  have 1: "list_for_path (w_account trigger_watch) (w_path trigger_watch) (t_actions ?d) =
      sample_action ''a1'' ''p'' (log_blob DIGEST 3600) 0 # []" by code_simp
  have 2: "feeds_ok (t_watch_feeds ?d)" by code_simp
  have 3: "items_ok (t_items ?d)" by code_simp
  have "snd (trigger_run sample_env trigger_watch 5 ?d) = Inr (2, 3)" by code_simp
  then obtain d' where r: "trigger_run sample_env trigger_watch 5 ?d = (d', Inr (2, 3))" by (metis prod.collapse)
  from trigger_catches_up [OF 1 2 3 r, of 9] r show ?thesis by blast
qed

text \<open>Run on its own, a trigger pass keeps the tables sound: unique run keys and ids, one
  window row per action and none on an instant one, and no pending run behind a closed window,
  because a digest head has its window opened before its runs land.\<close>

theorem trigger_keeps_pipeline:
  assumes "pipeline_ok E d" "feeds_ok (t_watch_feeds d)" "items_ok (t_items d)"
    and g: "inj (env_gen E)" "0 < WATCH_RUN_MAX_ATTEMPTS (env_cfg E)"
  shows "pipeline_ok E (fst (trigger_run E w now d))"
proof -
  obtain d' r where t: "trigger_run E w now d = (d', r)" by force
  from t assms(2) have "pipeline_ok E d'"
  proof (cases rule: trigger_run_cases)
    case early
    with assms(1) show ?thesis by simp
  next
    case (pass head c fs)
    let ?h = "\<lparr>hd_action = head, hd_digest = is_digest c, hd_interval = (if is_digest c then digest_interval c else 0)\<rparr>"
    have "pass_ok E w ?h None d"
      using assms(1) pass(1-3) by (simp add: pass_ok_def head_ok_def)
    then have "\<exists>opened'. pass_ok E w ?h opened' d'"
      by (rule trigger_feeds_induct[where Q = "pass_ok E w ?h", OF pass(6,4,5) assms(3)])
         (rule trigger_feed_ok[OF _ g])
    then show ?thesis by (auto simp: pass_ok_def)
  qed
  with t show ?thesis by simp
qed

theorem trigger_keeps_pipeline_witness:
  "pipeline_ok sample_env (fst (trigger_run sample_env trigger_watch 5 (trigger_db (log_blob DIGEST 3600))))"
proof (rule trigger_keeps_pipeline)
  let ?d = "trigger_db (log_blob DIGEST 3600)"
  have u: "run_ids_ok (env_gen sample_env) ?d" by (simp add: run_ids_ok_def trigger_db_def empty_db_def)
  have "runs_ok default_settings (t_runs ?d)" "windows_ok (t_windows ?d)" "windows_match sample_env ?d"
    "ids_distinct (t_actions ?d)" "no_orphan ?d"
    by code_simp+
  with u show "pipeline_ok sample_env ?d" by (simp add: pipeline_ok_def db_ok_def)
  show "feeds_ok (t_watch_feeds ?d)" "items_ok (t_items ?d)" by code_simp+
  show "inj (env_gen sample_env)" by (simp add: inj_sample_gen)
  show "0 < WATCH_RUN_MAX_ATTEMPTS (env_cfg sample_env)" by (simp add: default_settings_def)
qed

text \<open>A closed window hides a run from both passes, at any time.\<close>

lemma closed_window_strands:
  assumes "windows_ok (t_windows d)" "closed_window (run_account r) (run_action r) d"
  shows "r \<notin> set (due_runs cfg ts d) \<and> (\<forall>x\<in>set (iter_due_windows ts d). \<not> is_window (run_account r) (run_action r) x)"
proof -
  have c: "has_window (run_account r) (run_action r) (t_windows d)" "close_of (run_account r) (run_action r) d = None"
    using assms by (simp_all add: closed_window_iff)
  obtain v where v: "v \<in> set (t_windows d)" "is_window (run_account r) (run_action r) v" "win_close v = None"
    using assms(2) by (auto simp: closed_window_def list_ex_iff)
  have "\<forall>x\<in>set (iter_due_windows ts d). \<not> is_window (run_account r) (run_action r) x"
  proof (intro ballI notI)
    fix x assume x: "x \<in> set (iter_due_windows ts d)" and i: "is_window (run_account r) (run_action r) x"
    then have "x = v" using window_unique[OF assms(1) _ v(1) i v(2)] by (simp add: iter_due_windows_def)
    with x v(3) show False by (simp add: iter_due_windows_def)
  qed
  then show ?thesis using c(1) by (simp add: due_runs_def is_due_def)
qed

text \<open>A digest head whose window closes at second 10: the pass, started at second 5, queues its
  first feed, the flush of second 20 drains and closes the window, the pass goes on with its
  second feed and the close time it kept.\<close>

definition race_db :: db where
  "race_db = (trigger_db (log_blob DIGEST 3600))\<lparr>
     t_windows := [\<lparr>win_account = ''acc'', win_action = ''a1'', win_close = Some (seconds 10)\<rparr>]\<rparr>"

definition race_head :: head_info where
  "race_head = \<lparr>hd_action = sample_action ''a1'' ''p'' (log_blob DIGEST 3600) 0, hd_digest = True, hd_interval = 3600\<rparr>"

definition race_first :: "db \<times> (datetime option \<times> nat \<times> nat) result" where
  "race_first = trigger_feed sample_env trigger_watch race_head (seconds 5) (sub_row ''s1'' ''f1'') None race_db"

definition race_flush :: "(db \<times> action_result option result) option" where
  "race_flush = flush_run sample_env (\<lambda>_. sample_world) (seconds 20) (hd (t_windows race_db)) 5 (fst race_first)"

definition race_second :: "db \<times> (datetime option \<times> nat \<times> nat) result" where
  "race_second = (case race_flush of
     Some (d, Inr _) \<Rightarrow> trigger_feed sample_env trigger_watch race_head (seconds 5) (sub_row ''s2'' ''f2'') (Some (seconds 10)) d
   | _ \<Rightarrow> (empty_db, Inl UnexpectedError))"


text \<open>C30: a flush that closes the digest window between two feeds of one trigger pass strands the
  second feed's runs. The pass keeps the close time \<open>c\<close> it read at its first feed and does
  not reopen the window: if the flush of the window the pass opened returns with it closed,
  then every run the pass queues for the next feed is a pending run behind a closed window.
  Neither the drain nor the flush picks it up at any time, and the subscription's watermark
  has reached its item.\<close>

theorem trigger_flush_race_strands:
  assumes p: "pipeline_ok E d0" "head_ok E w h d0" "hd_digest h" "items_ok (t_items d0)"
    and g: "inj (env_gen E)" "0 < WATCH_RUN_MAX_ATTEMPTS (env_cfg E)" "\<And>k. plugins_resolve (W k)"
    and first: "f1 \<in> set (t_watch_feeds d0)" "subscribed (w_account w) (w_id w) f1"
      "trigger_feed E w h now f1 None d0 = (d1, Inr (Some c, s1, n1))"
    and flush: "x \<in> set (iter_due_windows later d1)" "is_window (w_account w) (act_id (hd_action h)) x"
      "digest_pending_count (w_account w) (act_id (hd_action h)) d1 < fuel"
      "flush_run E W later x fuel d1 = Some (d2, Inr res)"
      "closed_window (w_account w) (act_id (hd_action h)) d2"
    and second: "f2 \<in> set (t_watch_feeds d2)" "subscribed (w_account w) (w_id w) f2" "items_ok (t_items d2)"
      "trigger_feed E w h now f2 (Some c) d2 = (d3, Inr (o2, s2, n2))"
  shows "\<exists>new. t_runs d3 = t_runs d2 @ new \<and> length new = n2 \<and>
    (\<forall>r\<in>set new. run_state r = PENDING \<and> run_account r = w_account w \<and> run_action r = act_id (hd_action h) \<and>
       (\<exists>f\<in>set (t_watch_feeds d3). wf_id f = wf_id f2 \<and> run_item r \<le> wf_last_item f) \<and>
       (\<forall>cfg ts. r \<notin> set (due_runs cfg ts d3) \<and>
         (\<forall>v\<in>set (iter_due_windows ts d3). \<not> is_window (run_account r) (run_action r) v)))"
proof -
  let ?a = "hd_action h"
  have "pass_ok E w h None d0" using p by (simp add: pass_ok_def)
  from trigger_feed_ok[OF this g(1,2) first(1,2) p(4) first(3)] have q: "pipeline_ok E d1" by (simp add: pass_ok_def)
  have "pend x d1 < fuel" using flush(2,3) by (simp add: pend_def is_window_def)
  then obtain d2' r2 where "flush_loop E W later x fuel 0 None d1 = Some (d2', r2)" "pipeline_ok E d2'"
    using flush_loop_ends[where W = W and now = later and k = 0 and out = None, OF q g] by blast
  with flush(4) have w: "windows_ok (t_windows d2)" "closed_window (w_account w) (act_id ?a) d2"
    using flush(5) by (simp_all add: flush_run_def pipeline_ok_def db_ok_def)
  from second(4) second(1-3) show ?thesis
  proof (cases rule: trigger_feed_cases)
    case (queued fd through ids o' sc d1' new)
    have d: "d1' = d2" using queued(8) p(3) by (simp add: ensure_window_def)
    have win: "t_windows d3 = t_windows d2" and runs: "t_runs d3 = t_runs d2 @ new"
      and wf: "t_watch_feeds d3 = set_mark f2 through (t_watch_feeds d2)"
      unfolding queued(10) d by simp_all
    have mark: "f2\<lparr>wf_last_item := through\<rparr> \<in> set (t_watch_feeds d3)"
      unfolding wf using second(1) by (auto simp: in_set_mark)
    have w3: "windows_ok (t_windows d3)" "closed_window (w_account w) (act_id ?a) d3"
      using w by (simp_all add: win closed_window_def)
    have "run_state r = PENDING \<and> run_account r = w_account w \<and> run_action r = act_id ?a \<and>
       (\<exists>f\<in>set (t_watch_feeds d3). wf_id f = wf_id f2 \<and> run_item r \<le> wf_last_item f) \<and>
       (\<forall>cfg ts. r \<notin> set (due_runs cfg ts d3) \<and>
         (\<forall>v\<in>set (iter_due_windows ts d3). \<not> is_window (run_account r) (run_action r) v))"
      if r: "r \<in> set new" for r
    proof -
      have n: "run_state r = PENDING" "run_account r = w_account w" "run_action r = act_id ?a"
        using r unfolding queued(9) by (auto elim!: new_rows_cases)
      have "run_item r \<in> set ids" using r unfolding queued(9) by (auto simp: missing_def elim!: new_rows_cases)
      then have "run_item r \<le> through" using queued(4,6) by (simp add: unseen_def)
      with mark have "\<exists>f\<in>set (t_watch_feeds d3). wf_id f = wf_id f2 \<and> run_item r \<le> wf_last_item f"
        by (intro bexI[OF _ mark]) simp
      moreover have "\<forall>cfg ts. r \<notin> set (due_runs cfg ts d3) \<and>
          (\<forall>v\<in>set (iter_due_windows ts d3). \<not> is_window (run_account r) (run_action r) v)"
        by (intro allI closed_window_strands[OF w3(1)]) (use w3(2) n in simp)
      ultimately show ?thesis using n by blast
    qed
    moreover have "length new = n2" using queued(11) by simp
    ultimately show ?thesis using runs by blast
  qed (intro exI[of _ "[]"], simp)+
qed

theorem trigger_flush_race_strands_witness:
  "\<exists>r\<in>set (t_runs (fst race_second)). run_state r = PENDING \<and> run_item r = ''i2'' \<and>
     (\<forall>ts. r \<notin> set (due_runs default_settings ts (fst race_second)))"
proof -
  obtain d1 where 1: "race_first = (d1, Inr (Some (seconds 10), 1, 2))"
  proof -
    have "snd race_first = Inr (Some (seconds 10), 1, 2)" by code_simp
    then show ?thesis by (intro that[of "fst race_first"]) (metis prod.collapse)
  qed
  have "case map_option snd race_flush of Some (Inr out) \<Rightarrow> True | _ \<Rightarrow> False" by code_simp
  then obtain d2 out where 2: "race_flush = Some (d2, Inr out)" by (auto split: option.splits sum.splits)
  have d1: "d1 = fst race_first" unfolding 1 by simp
  let ?d2 = "fst (the race_flush)"
  have d2: "d2 = ?d2" unfolding 2 by simp
  have "snd race_second = Inr (Some (seconds 10), 1, 1)" by code_simp
  then obtain d3 where 3: "race_second = (d3, Inr (Some (seconds 10), 1, 1))" by (metis prod.collapse)
  have u: "run_ids_ok (env_gen sample_env) race_db" by (simp add: run_ids_ok_def race_db_def trigger_db_def empty_db_def)
  have "runs_ok default_settings (t_runs race_db)" "windows_ok (t_windows race_db)" "windows_match sample_env race_db"
    "ids_distinct (t_actions race_db)" "no_orphan race_db"
    by code_simp+
  with u have p: "pipeline_ok sample_env race_db" by (simp add: pipeline_ok_def db_ok_def)
  have h: "head_ok sample_env trigger_watch race_head race_db" "hd_digest race_head" "items_ok (t_items race_db)"
    by code_simp+
  have m: "0 < WATCH_RUN_MAX_ATTEMPTS (env_cfg sample_env)" by code_simp
  have g: "inj (env_gen sample_env)" by (simp add: inj_sample_gen)
  have k: "plugins_resolve ((\<lambda>_. sample_world) (n::nat))" for n by simp
  have f1: "sub_row ''s1'' ''f1'' \<in> set (t_watch_feeds race_db)"
    "subscribed (w_account trigger_watch) (w_id trigger_watch) (sub_row ''s1'' ''f1'')" by code_simp+
  have x: "hd (t_windows race_db) \<in> set (iter_due_windows (seconds 20) d1)"
    "is_window (w_account trigger_watch) (act_id (hd_action race_head)) (hd (t_windows race_db))"
    "digest_pending_count (w_account trigger_watch) (act_id (hd_action race_head)) d1 < 5"
    unfolding d1 by code_simp+
  have dr: "closed_window (w_account trigger_watch) (act_id (hd_action race_head)) d2"
    unfolding d2 by code_simp
  have f2: "sub_row ''s2'' ''f2'' \<in> set (t_watch_feeds d2)"
    "subscribed (w_account trigger_watch) (w_id trigger_watch) (sub_row ''s2'' ''f2'')" "items_ok (t_items d2)"
    unfolding d2 by code_simp+
  have t1: "trigger_feed sample_env trigger_watch race_head (seconds 5) (sub_row ''s1'' ''f1'') None race_db =
      (d1, Inr (Some (seconds 10), 1, 2))" using 1 by (simp add: race_first_def)
  have fl: "flush_run sample_env (\<lambda>_. sample_world) (seconds 20) (hd (t_windows race_db)) 5 d1 = Some (d2, Inr out)"
    using 2 by (simp add: race_flush_def d1)
  have t2: "trigger_feed sample_env trigger_watch race_head (seconds 5) (sub_row ''s2'' ''f2'') (Some (seconds 10)) d2 =
      (d3, Inr (Some (seconds 10), 1, 1))" using 3 by (simp add: race_second_def 2)
  from trigger_flush_race_strands [OF p h g m k f1 t1 x fl dr f2 t2]
  obtain new where new: "t_runs d3 = t_runs d2 @ new" "length new = 1"
    "\<forall>r\<in>set new. run_state r = PENDING \<and> (\<forall>cfg ts. r \<notin> set (due_runs cfg ts d3))" by blast
  have "list_all (\<lambda>r. run_state r = PENDING \<longrightarrow> run_item r = ''i2'') (t_runs (fst race_second))" by code_simp
  then have i: "\<forall>r\<in>set (t_runs d3). run_state r = PENDING \<longrightarrow> run_item r = ''i2''"
    unfolding 3 by (simp add: list_all_iff)
  obtain r where "r \<in> set new" using new(2) by (cases new) auto
  with new i show ?thesis unfolding 3 fst_conv by (intro bexI[of _ r]) simp_all
qed

end
