(* ===== verification/Backfill.thy ===== *)
theory Backfill
  imports Trigger
begin

text \<open>
  Backfill jobs: the queue (\<open>watches/services/backfills.py\<close>), the operation
  (\<open>watches/operations/backfill.py\<close>), the cron pass and the endpoint's preview
  (\<open>views_backfill.py\<close>). The job queue satisfies the contract \<open>cas_queue\<close>. Lemmas: the preview
  computes what the run does, a replace leaves no stale terminal run and exactly one run per
  present item, a retried job does not delete twice. Two last properties show what the code
  does to a reordered chain and to a digest target.

  A subquery and an id stream are functions of the database, since they are evaluated where
  they are used, after the delete phase.
\<close>

subsection \<open>The job queue\<close>

definition new_backfill ::
  "ulid \<Rightarrow> ulid \<Rightarrow> ulid \<Rightarrow> ulid \<Rightarrow> ulid \<Rightarrow> bool \<Rightarrow> string \<Rightarrow> bool \<Rightarrow> run_windows \<Rightarrow> datetime \<Rightarrow> backfill" where
  "new_backfill i account watch target source source_is_head kind replace w scheduled_at =
     \<lparr>bf_id = i, bf_account = account, bf_watch = watch, bf_target = target, bf_source = source,
      bf_source_is_head = source_is_head, bf_kind = kind, bf_replace = replace,
      bf_occurred_since = rw_occurred_since w, bf_occurred_until = rw_occurred_until w,
      bf_completed_since = rw_completed_since w, bf_completed_until = rw_completed_until w,
      bf_state = BACKFILL_PENDING, bf_matched = 0, bf_present = 0, bf_pruned = 0, bf_deleted = 0,
      bf_enqueued = 0, bf_replace_deleted = None, bf_scheduled = Some scheduled_at,
      bf_started = None, bf_completed = None, bf_error = '''', bf_attempts = 0\<rparr>"

definition create_backfill ::
  "(nat \<Rightarrow> ulid) \<Rightarrow> ulid \<Rightarrow> ulid \<Rightarrow> ulid \<Rightarrow> ulid \<Rightarrow> bool \<Rightarrow> string \<Rightarrow> bool \<Rightarrow> run_windows \<Rightarrow> datetime \<Rightarrow>
   db \<Rightarrow> db \<times> backfill" where
  "create_backfill gen account watch target source source_is_head kind replace w scheduled_at d =
     (let j = new_backfill (gen (next_id d)) account watch target source source_is_head kind replace w scheduled_at
      in (d\<lparr>t_backfills := t_backfills d @ [j], next_id := Suc (next_id d)\<rparr>, j))"

definition get_backfill :: "ulid \<Rightarrow> ulid \<Rightarrow> db \<Rightarrow> backfill result" where
  "get_backfill account i d = qget (\<lambda>j. bf_id j = i \<and> bf_account j = account) (t_backfills d)"

definition list_backfills :: "ulid \<Rightarrow> ulid option \<Rightarrow> nat \<Rightarrow> db \<Rightarrow> backfill list" where
  "list_backfills account after limit d =
     take limit (rev (order_by bf_id (filter (\<lambda>j. bf_account j = account \<and>
       (case after of None \<Rightarrow> True | Some a \<Rightarrow> a = '''' \<or> bf_id j < a)) (t_backfills d))))"

definition stale_backfill :: "datetime \<Rightarrow> backfill \<Rightarrow> bool" where
  "stale_backfill cutoff j \<longleftrightarrow> bf_state j = BACKFILL_RUNNING \<and> lt_col (bf_started j) cutoff"

definition reap_backfills :: "settings \<Rightarrow> datetime \<Rightarrow> backfill list \<Rightarrow> backfill list \<times> nat" where
  "reap_backfills cfg ts t =
     (let cutoff = ts - seconds (WATCH_BACKFILL_STALE_SECONDS cfg);
          max_attempts = WATCH_BACKFILL_MAX_ATTEMPTS cfg;
          E = (\<lambda>j. stale_backfill cutoff j \<and> max_attempts \<le> bf_attempts j);
          R = (\<lambda>j. stale_backfill cutoff j \<and> bf_attempts j < max_attempts);
          t1 = qupdate E (\<lambda>j. j\<lparr>bf_state := BACKFILL_FAILED, bf_error := BACKFILL_TIMED_OUT_EXHAUSTED,
                               bf_completed := Some ts\<rparr>) t;
          t2 = qupdate R (\<lambda>j. j\<lparr>bf_state := BACKFILL_FAILED, bf_error := BACKFILL_TIMED_OUT,
                               bf_completed := None\<rparr>) t1
      in (t2, qcount E t + qcount R t1))"

definition backfill_due :: "settings \<Rightarrow> datetime \<Rightarrow> backfill \<Rightarrow> bool" where
  "backfill_due cfg ts j \<longleftrightarrow> bf_state j \<in> set BACKFILL_CLAIMABLE_STATES \<and>
     bf_attempts j < WATCH_BACKFILL_MAX_ATTEMPTS cfg \<and> le_col (bf_scheduled j) ts"

definition backfill_key :: "backfill \<Rightarrow> datetime" where
  "backfill_key j = (case bf_scheduled j of None \<Rightarrow> 0 | Some t \<Rightarrow> t)"

definition backfill_candidates :: "settings \<Rightarrow> datetime \<Rightarrow> db \<Rightarrow> backfill list" where
  "backfill_candidates cfg ts d = order_by backfill_key (filter (backfill_due cfg ts) (t_backfills d))"

definition claim_backfill ::
  "settings \<Rightarrow> datetime \<Rightarrow> backfill \<Rightarrow> backfill list \<Rightarrow> backfill list \<times> backfill option" where
  "claim_backfill cfg ts c t =
     (let P = (\<lambda>x. bf_id x = bf_id c \<and> bf_state x = bf_state c \<and>
                   bf_attempts x < WATCH_BACKFILL_MAX_ATTEMPTS cfg);
          t' = qupdate P (\<lambda>x. x\<lparr>bf_state := BACKFILL_RUNNING, bf_started := Some ts,
                                bf_attempts := bf_attempts x + 1\<rparr>) t
      in if qcount P t = 0 then (t, None)
         else (t', qfirst (\<lambda>x. bf_id x = bf_id c) t'))"

subsection \<open>The source set\<close>

record resolved_present =
  pr_matched :: nat
  pr_count :: nat
  pr_subquery :: "db \<Rightarrow> ulid set"
  pr_stream :: "db \<Rightarrow> ulid list"

text \<open>The two private querysets.\<close>

definition occurred_qs :: "ulid \<Rightarrow> ulid list \<Rightarrow> run_windows \<Rightarrow> db \<Rightarrow> ulid list" where
  "occurred_qs account fids w d =
     map item_id (filter (\<lambda>i. item_account i = account \<and> item_feed i \<in> set fids \<and>
       in_window (rw_occurred_since w) (rw_occurred_until w) (item_occurred i)) (t_items d))"

definition existing_qs :: "ulid \<Rightarrow> ulid \<Rightarrow> run_windows \<Rightarrow> db \<Rightarrow> ulid list" where
  "existing_qs account source w d =
     existing_feed_item_ids account (succeeded_feed_item_ids account source w d) d"

definition resolve_present ::
  "ulid \<Rightarrow> ulid \<Rightarrow> bool \<Rightarrow> ulid \<Rightarrow> run_windows \<Rightarrow> db \<Rightarrow> resolved_present result" where
  "resolve_present account source source_is_head watch w d =
     (if source_is_head then
        res_bind (get_watch account watch d) (\<lambda>x.
        res_bind (feed_ids account x d) (\<lambda>fids.
        res_bind (feed_items_in_occurred_window account fids (rw_occurred_since w) (rw_occurred_until w) d) (\<lambda>ids.
          let n = length ids
          in Inr \<lparr>pr_matched = n, pr_count = n,
                  pr_subquery = (\<lambda>d'. set (occurred_qs account fids w d')),
                  pr_stream = (\<lambda>d'. iter_ids_keyset (occurred_qs account fids w d'))\<rparr>)))
      else
        Inr \<lparr>pr_matched = count_succeeded_feed_items account source w d,
             pr_count = length (existing_qs account source w d),
             pr_subquery = (\<lambda>d'. set (existing_qs account source w d')),
             pr_stream = (\<lambda>d'. iter_ids_keyset (existing_qs account source w d'))\<rparr>)"

text \<open>\<open>chain_from\<close>: the target and everything downstream of it.\<close>

function chain_from :: "ulid \<Rightarrow> action list \<Rightarrow> action \<Rightarrow> action list" where
  "chain_from account t a =
     a # (case next_in_chain account a t of None \<Rightarrow> [] | Some b \<Rightarrow> chain_from account t b)"
  by pat_completeness auto

lemma chain_shrinks:
  assumes "next_in_chain account a t = Some b"
  shows "length (filter (\<lambda>x. on_path account (act_path b) x \<and> act_rank b < act_rank x) t) <
         length (filter (\<lambda>x. on_path account (act_path a) x \<and> act_rank a < act_rank x) t)"
proof -
  from next_in_chain_Some[OF assms] have b: "b \<in> set t" "on_path account (act_path a) b" "act_rank a < act_rank b"
    by auto
  then have p: "act_path b = act_path a" by (simp add: on_path_def)
  let ?up = "filter (\<lambda>x. on_path account (act_path a) x \<and> act_rank a < act_rank x) t"
  have "filter (\<lambda>x. on_path account (act_path b) x \<and> act_rank b < act_rank x) t =
      filter (\<lambda>x. act_rank b < act_rank x) ?up"
    using b(3) p by (auto intro: filter_cong)
  moreover have "length (filter (\<lambda>x. act_rank b < act_rank x) ?up) < length ?up"
    by (rule length_filter_less[of b]) (use b in simp_all)
  ultimately show ?thesis by simp
qed

termination chain_from
  by (relation "measure (\<lambda>(account, t, a).
        length (filter (\<lambda>x. on_path account (act_path a) x \<and> act_rank a < act_rank x) t))")
     (auto simp: chain_shrinks)

declare chain_from.simps [simp del]

subsection \<open>The operation\<close>

record backfill_counts =
  bc_matched :: int
  bc_present :: int
  bc_pruned :: int
  bc_deleted :: int
  bc_enqueued :: int

definition job_windows :: "backfill \<Rightarrow> run_windows" where
  "job_windows j = \<lparr>rw_completed_since = bf_completed_since j, rw_completed_until = bf_completed_until j,
     rw_occurred_since = bf_occurred_since j, rw_occurred_until = bf_occurred_until j\<rparr>"

definition claimed_row :: "backfill \<Rightarrow> backfill \<Rightarrow> bool" where
  "claimed_row j x \<longleftrightarrow> bf_id x = bf_id j \<and> bf_state x = BACKFILL_RUNNING \<and> bf_attempts x = bf_attempts j"

fun delete_chain ::
  "ulid \<Rightarrow> ulid \<Rightarrow> (db \<Rightarrow> ulid set) \<Rightarrow> action list \<Rightarrow> db \<Rightarrow> int \<Rightarrow> db \<times> int" where
  "delete_chain account watch subquery [] d deleted = (d, deleted)"
| "delete_chain account watch subquery (a # as) d deleted =
     (case delete_terminal_for_action account (act_id a) watch (subquery d) d of
        (d', n) \<Rightarrow> delete_chain account watch subquery as d' (deleted + int n))"

definition stamp_deleted :: "backfill \<Rightarrow> datetime \<Rightarrow> int \<Rightarrow> backfill list \<Rightarrow> backfill list" where
  "stamp_deleted j now deleted t =
     qupdate (claimed_row j) (\<lambda>x. x\<lparr>bf_replace_deleted := Some now, bf_deleted := deleted\<rparr>) t"

definition delete_phase :: "backfill \<Rightarrow> datetime \<Rightarrow> action \<Rightarrow> (db \<Rightarrow> ulid set) \<Rightarrow> db \<Rightarrow> db \<times> int" where
  "delete_phase j now target subquery d =
     (if \<not> bf_replace j then (d, 0)
      else if bf_replace_deleted j \<noteq> None then (d, bf_deleted j)
      else
        let (d1, deleted) = delete_chain (bf_account j) (bf_watch j) subquery
              (chain_from (bf_account j) (t_actions d) target) d 0
        in (d1\<lparr>t_backfills := stamp_deleted j now deleted (t_backfills d1)\<rparr>, deleted))"

text \<open>\<open>_finish\<close>: the claim-guarded terminal write.\<close>

record backfill_end =
  be_state :: backfill_state
  be_counts :: "backfill_counts option"
  be_error :: string
  be_exhaust :: bool

definition end_row :: "settings \<Rightarrow> datetime \<Rightarrow> backfill_end \<Rightarrow> backfill \<Rightarrow> backfill" where
  "end_row cfg now e x =
     (let x1 = x\<lparr>bf_state := be_state e, bf_error := be_error e, bf_completed := Some now\<rparr>;
          x2 = (case be_counts e of
                  None \<Rightarrow> x1
                | Some c \<Rightarrow> x1\<lparr>bf_matched := bc_matched c, bf_present := bc_present c, bf_pruned := bc_pruned c,
                                bf_deleted := bc_deleted c, bf_enqueued := bc_enqueued c\<rparr>)
      in if be_exhaust e then x2\<lparr>bf_attempts := WATCH_BACKFILL_MAX_ATTEMPTS cfg\<rparr> else x2)"

definition finish_backfill ::
  "settings \<Rightarrow> datetime \<times> backfill_end \<Rightarrow> backfill \<Rightarrow> backfill list \<Rightarrow> backfill list \<times> bool" where
  "finish_backfill cfg o' j t =
     (if qcount (claimed_row j) t = 0 then (t, False)
      else (qupdate (claimed_row j) (end_row cfg (fst o') (snd o')) t, True))"

definition finish_job :: "settings \<Rightarrow> datetime \<Rightarrow> backfill_end \<Rightarrow> backfill \<Rightarrow> db \<Rightarrow> db" where
  "finish_job cfg now e j d = d\<lparr>t_backfills := fst (finish_backfill cfg (now, e) j (t_backfills d))\<rparr>"

definition fail_job :: "settings \<Rightarrow> datetime \<Rightarrow> string \<Rightarrow> backfill \<Rightarrow> db \<Rightarrow> db" where
  "fail_job cfg now message j d =
     finish_job cfg now \<lparr>be_state = BACKFILL_FAILED, be_counts = None, be_error = message, be_exhaust = True\<rparr> j d"

definition run_backfill ::
  "env \<Rightarrow> datetime \<Rightarrow> backfill \<Rightarrow> db \<Rightarrow> db \<times> backfill_counts option result" where
  "run_backfill E now j d =
     (case get_action (bf_account j) (bf_target j) (t_actions d) of
        Inl _ \<Rightarrow> (fail_job (env_cfg E) now BACKFILL_TARGET_GONE j d, Inr None)
      | Inr target \<Rightarrow>
          (case resolve_present (bf_account j) (bf_source j) (bf_source_is_head j) (bf_watch j) (job_windows j) d of
             Inl e \<Rightarrow> (if e = DoesNotExist
                       then (fail_job (env_cfg E) now BACKFILL_WATCH_GONE j d, Inr None) else (d, Inl e))
           | Inr p \<Rightarrow>
               let (d1, deleted) = delete_phase j now target (pr_subquery p) d
               in (case enqueue_many (env_gen E) (bf_account j) (bf_watch j) (act_id target) (act_kind target) now
                         (pr_stream p d1) d1 of
                     Inl e \<Rightarrow> (d1, Inl e)
                   | Inr (d2, enqueued) \<Rightarrow>
                       let c = \<lparr>bc_matched = int (pr_matched p), bc_present = int (pr_count p),
                                bc_pruned = int (pr_matched p) - int (pr_count p), bc_deleted = deleted,
                                bc_enqueued = int enqueued\<rparr>
                       in (finish_job (env_cfg E) now
                             \<lparr>be_state = BACKFILL_DONE, be_counts = Some c, be_error = '''', be_exhaust = False\<rparr> j d2,
                           Inr (Some c)))))"

text \<open>The cron: reap, then claim and run each candidate of the snapshot. A run that raises
  leaves its job RUNNING.\<close>

fun backfill_pass ::
  "env \<Rightarrow> datetime \<Rightarrow> backfill list \<Rightarrow> nat \<times> nat \<times> nat \<Rightarrow> db \<Rightarrow> db \<times> nat \<times> nat \<times> nat" where
  "backfill_pass E now [] (n_done, failed, infra) d = (d, n_done, failed, infra)"
| "backfill_pass E now (c # cs) (n_done, failed, infra) d =
     (case claim_backfill (env_cfg E) now c (t_backfills d) of
        (t, None) \<Rightarrow> backfill_pass E now cs (n_done, failed, infra) (d\<lparr>t_backfills := t\<rparr>)
      | (t, Some j) \<Rightarrow>
          (case run_backfill E now j (d\<lparr>t_backfills := t\<rparr>) of
             (d', Inl _) \<Rightarrow> backfill_pass E now cs (n_done, failed, infra + 1) d'
           | (d', Inr None) \<Rightarrow> backfill_pass E now cs (n_done, failed + 1, infra) d'
           | (d', Inr (Some _)) \<Rightarrow> backfill_pass E now cs (n_done + 1, failed, infra) d'))"

definition process_due_backfills :: "env \<Rightarrow> datetime \<Rightarrow> db \<Rightarrow> db \<times> nat \<times> nat \<times> nat" where
  "process_due_backfills E now d =
     (let d1 = d\<lparr>t_backfills := fst (reap_backfills (env_cfg E) now (t_backfills d))\<rparr>
      in backfill_pass E now (backfill_candidates (env_cfg E) now d1) (0, 0, 0) d1)"

subsection \<open>The endpoint\<close>

record backfill_preview =
  bp_source :: ulid
  bp_source_is_head :: bool
  bp_replace :: bool
  bp_matched :: int
  bp_present :: int
  bp_pruned :: int
  bp_would_delete :: int
  bp_would_enqueue :: int

definition preview_backfill ::
  "ulid \<Rightarrow> action \<Rightarrow> ulid \<Rightarrow> bool \<Rightarrow> ulid \<Rightarrow> run_windows \<Rightarrow> bool \<Rightarrow> db \<Rightarrow> backfill_preview result" where
  "preview_backfill account target source source_is_head watch w replace d =
     res_bind (resolve_present account source source_is_head watch w d) (\<lambda>p.
       let items = pr_subquery p d;
           existing = int (count_runs_for_action account (act_id target) watch items False d);
           would_delete = (if replace
             then sum_list (map (\<lambda>a. int (count_runs_for_action account (act_id a) watch items True d))
                    (chain_from account (t_actions d) target))
             else 0);
           would_enqueue = (if replace
             then int (pr_count p) - existing + int (count_runs_for_action account (act_id target) watch items True d)
             else int (pr_count p) - existing)
       in Inr \<lparr>bp_source = source, bp_source_is_head = source_is_head, bp_replace = replace,
               bp_matched = int (pr_matched p), bp_present = int (pr_count p),
               bp_pruned = int (pr_matched p) - int (pr_count p),
               bp_would_delete = would_delete, bp_would_enqueue = would_enqueue\<rparr>)"

text \<open>The POST once the body is parsed: the window is required, a head target has no
  completion window. The outer error is an exception, the inner \<open>Inl\<close> a 400.\<close>

datatype backfill_reply = BadWindow | Preview backfill_preview | Queued backfill

definition post_backfill ::
  "env \<Rightarrow> ulid \<Rightarrow> action \<Rightarrow> run_windows \<Rightarrow> bool \<Rightarrow> bool \<Rightarrow> datetime \<Rightarrow> db \<Rightarrow> (db \<times> backfill_reply) result" where
  "post_backfill E account target w replace dry_run now d =
     (if w = no_windows then Inr (d, BadWindow)
      else
        let prev = prev_in_chain account target (t_actions d);
            source_is_head = (prev = None);
            source = (case prev of None \<Rightarrow> '''' | Some a \<Rightarrow> act_id a)
        in if source_is_head \<and> (rw_completed_since w \<noteq> None \<or> rw_completed_until w \<noteq> None)
        then Inr (d, BadWindow)
        else
          res_bind (watch_id_for_path account (act_path target) d) (\<lambda>watch.
            if dry_run
            then map_sum id (\<lambda>p. (d, Preview p)) (preview_backfill account target source source_is_head watch w replace d)
            else case create_backfill (env_gen E) account watch (act_id target) source source_is_head
                        (act_kind target) replace w now d of
                   (d', j) \<Rightarrow> Inr (d', Queued j)))"


subsection \<open>The job queue satisfies the work-queue contract\<close>

lemma end_row_id [simp]:
  "bf_id (end_row cfg now e x) = bf_id x"
  by (simp add: end_row_def Let_def split: option.split)

lemma end_row_state [simp]:
  "bf_state (end_row cfg now e x) = be_state e"
  by (simp add: end_row_def Let_def split: option.split)

lemma end_row_completed [simp]:
  "bf_completed (end_row cfg now e x) = Some now"
  by (simp add: end_row_def Let_def split: option.split)

lemma end_row_attempts [simp]:
  "bf_attempts (end_row cfg now e x) = (if be_exhaust e then WATCH_BACKFILL_MAX_ATTEMPTS cfg else bf_attempts x)"
  by (simp add: end_row_def Let_def split: option.split)

lemma claim_backfill_Some:
  assumes d: "distinct (map bf_id t)" and c: "claim_backfill cfg ts c t = (t', Some j)"
  shows "\<exists>x\<in>set t. bf_id x = bf_id c \<and> bf_state x = bf_state c \<and>
    bf_attempts x < WATCH_BACKFILL_MAX_ATTEMPTS cfg \<and>
    j = x\<lparr>bf_state := BACKFILL_RUNNING, bf_started := Some ts, bf_attempts := bf_attempts x + 1\<rparr> \<and>
    t' = put_row bf_id j t"
proof -
  let ?P = "\<lambda>x. bf_id x = bf_id c \<and> bf_state x = bf_state c \<and> bf_attempts x < WATCH_BACKFILL_MAX_ATTEMPTS cfg"
  let ?f = "\<lambda>x. x\<lparr>bf_state := BACKFILL_RUNNING, bf_started := Some ts, bf_attempts := bf_attempts x + 1\<rparr>"
  from c have n: "qcount ?P t \<noteq> 0" and t': "t' = qupdate ?P ?f t"
    and q: "qfirst (\<lambda>x. bf_id x = bf_id c) t' = Some j"
    by (auto simp: claim_backfill_def Let_def split: if_splits)
  obtain x where x: "x \<in> set t" "?P x" "qupdate ?P ?f t = put_row bf_id (?f x) t"
    "qfirst (\<lambda>x. bf_id x = bf_id c) (qupdate ?P ?f t) = Some (?f x)"
    using cas_update[of bf_id t ?P "bf_id c" ?f, OF d n] by auto
  with t' q have "j = ?f x" by simp
  with x t' show ?thesis by blast
qed

lemma claim_backfill_None:
  assumes d: "distinct (map bf_id t)" and c: "claim_backfill cfg ts c t = (t', None)"
  shows "t' = t"
proof (rule ccontr)
  let ?P = "\<lambda>x. bf_id x = bf_id c \<and> bf_state x = bf_state c \<and> bf_attempts x < WATCH_BACKFILL_MAX_ATTEMPTS cfg"
  let ?f = "\<lambda>x. x\<lparr>bf_state := BACKFILL_RUNNING, bf_started := Some ts, bf_attempts := bf_attempts x + 1\<rparr>"
  assume "t' \<noteq> t"
  with c have n: "qcount ?P t \<noteq> 0" and q: "qfirst (\<lambda>x. bf_id x = bf_id c) (qupdate ?P ?f t) = None"
    by (auto simp: claim_backfill_def Let_def split: if_splits)
  have "\<exists>x. qfirst (\<lambda>x. bf_id x = bf_id c) (qupdate ?P ?f t) = Some (?f x)"
    using cas_update[of bf_id t ?P "bf_id c" ?f, OF d n] by auto
  with q show False by simp
qed

lemma finish_backfill_True:
  assumes "distinct (map bf_id t)" "finish_backfill cfg o' j t = (t', True)"
  shows "\<exists>x\<in>set t. claimed_row j x \<and> t' = put_row bf_id (end_row cfg (fst o') (snd o') x) t"
proof -
  from assms(2) have n: "qcount (claimed_row j) t \<noteq> 0" and t': "t' = qupdate (claimed_row j) (end_row cfg (fst o') (snd o')) t"
    by (auto simp: finish_backfill_def split: if_splits)
  show ?thesis
    using cas_update[of bf_id t "claimed_row j" "bf_id j" "end_row cfg (fst o') (snd o')", OF assms(1) n] unfolding t'
    by (auto simp: claimed_row_def)
qed

text \<open>Writes on busy rows that are not the terminal one: the reaper's and the delete-once
  stamp.\<close>

datatype busy_write = Reap datetime | Stamp backfill datetime int

definition busy_backfills :: "settings \<Rightarrow> busy_write \<Rightarrow> backfill list \<Rightarrow> backfill list" where
  "busy_backfills cfg m t =
     (case m of Reap ts \<Rightarrow> fst (reap_backfills cfg ts t) | Stamp j now n \<Rightarrow> stamp_deleted j now n t)"

definition claimable_backfill :: "backfill \<Rightarrow> bool" where
  "claimable_backfill j \<longleftrightarrow> bf_state j \<in> set BACKFILL_CLAIMABLE_STATES"

definition ends_done :: "datetime \<times> backfill_end \<Rightarrow> bool" where
  "ends_done o' \<longleftrightarrow> be_state (snd o') = BACKFILL_DONE"

lemma reap_backfills_map:
  "fst (reap_backfills cfg ts t) = map (\<lambda>j.
     if stale_backfill (ts - seconds (WATCH_BACKFILL_STALE_SECONDS cfg)) j
     then if WATCH_BACKFILL_MAX_ATTEMPTS cfg \<le> bf_attempts j
       then j\<lparr>bf_state := BACKFILL_FAILED, bf_error := BACKFILL_TIMED_OUT_EXHAUSTED, bf_completed := Some ts\<rparr>
       else j\<lparr>bf_state := BACKFILL_FAILED, bf_error := BACKFILL_TIMED_OUT, bf_completed := None\<rparr>
     else j) t"
  unfolding reap_backfills_def Let_def fst_conv qupdate_def map_map
proof (rule map_cong[OF refl])
  fix j
  let ?c = "ts - seconds (WATCH_BACKFILL_STALE_SECONDS cfg)"
  let ?m = "WATCH_BACKFILL_MAX_ATTEMPTS cfg"
  have failed: "\<not> stale_backfill ?c (j\<lparr>bf_state := BACKFILL_FAILED, bf_error := e, bf_completed := c\<rparr>)" for e c
    by (simp add: stale_backfill_def)
  consider "\<not> stale_backfill ?c j" | "stale_backfill ?c j" "?m \<le> bf_attempts j" | "stale_backfill ?c j" "bf_attempts j < ?m"
    by linarith
  then show "((\<lambda>x. if stale_backfill ?c x \<and> bf_attempts x < ?m
           then x\<lparr>bf_state := BACKFILL_FAILED, bf_error := BACKFILL_TIMED_OUT, bf_completed := None\<rparr> else x) \<circ>
        (\<lambda>x. if stale_backfill ?c x \<and> ?m \<le> bf_attempts x
           then x\<lparr>bf_state := BACKFILL_FAILED, bf_error := BACKFILL_TIMED_OUT_EXHAUSTED, bf_completed := Some ts\<rparr> else x)) j =
      (if stale_backfill ?c j
       then if ?m \<le> bf_attempts j
         then j\<lparr>bf_state := BACKFILL_FAILED, bf_error := BACKFILL_TIMED_OUT_EXHAUSTED, bf_completed := Some ts\<rparr>
         else j\<lparr>bf_state := BACKFILL_FAILED, bf_error := BACKFILL_TIMED_OUT, bf_completed := None\<rparr>
       else j)"
    by cases (simp_all add: failed)
qed

interpretation bq: cas_queue bf_id claimable_backfill "claim_backfill cfg" "finish_backfill cfg" ends_done
    "busy_backfills cfg" bf_attempts "WATCH_BACKFILL_MAX_ATTEMPTS cfg" "\<lambda>j. bf_state j = BACKFILL_RUNNING"
    "\<lambda>j. bf_state j = BACKFILL_DONE"
  for cfg
proof unfold_locales
  fix T c t T' r
  assume "distinct (map bf_id T)" "claimable_backfill c" "claim_backfill cfg t c T = (T', Some r)"
  from claim_backfill_Some[OF this(1,3)] this(2)
  show "\<exists>x\<in>set T. bf_id x = bf_id r \<and> bf_state x \<noteq> BACKFILL_DONE \<and> bf_state x \<noteq> BACKFILL_RUNNING \<and>
      bf_attempts r = Suc (bf_attempts x) \<and> bf_attempts r \<le> WATCH_BACKFILL_MAX_ATTEMPTS cfg \<and>
      bf_state r = BACKFILL_RUNNING \<and> T' = put_row bf_id r T"
    by (fastforce simp: claimable_backfill_def)
next
  fix c t T T' assume "distinct (map bf_id T)" "claim_backfill cfg t c T = (T', None)"
  then show "T' = T" by (rule claim_backfill_None)
next
  fix T r out T' assume "distinct (map bf_id T)" and a: "bf_attempts r \<le> WATCH_BACKFILL_MAX_ATTEMPTS cfg"
    and "finish_backfill cfg out r T = (T', True)"
  from finish_backfill_True[OF this(1,3)] obtain x where x: "x \<in> set T" "claimed_row r x"
    "T' = put_row bf_id (end_row cfg (fst out) (snd out) x) T" by blast
  show "\<exists>x\<in>set T. \<exists>x'. bf_id x = bf_id r \<and> bf_state x = BACKFILL_RUNNING \<and> bf_attempts x = bf_attempts r \<and>
      bf_id x' = bf_id x \<and> bf_attempts x \<le> bf_attempts x' \<and>
      (ends_done out \<longrightarrow> bf_state x' = BACKFILL_DONE) \<and> T' = put_row bf_id x' T"
    by (rule bexI[OF _ x(1)], rule exI[of _ "end_row cfg (fst out) (snd out) x"])
       (use x(2,3) a in \<open>simp add: claimed_row_def ends_done_def\<close>)
next
  fix out r T T' assume "finish_backfill cfg out r T = (T', False)"
  then show "T' = T" by (auto simp: finish_backfill_def split: if_splits)
next
  fix m T
  show "\<exists>f. busy_backfills cfg m T = map f T \<and>
      (\<forall>x. bf_id (f x) = bf_id x \<and> bf_attempts (f x) = bf_attempts x \<and>
           (bf_state x \<noteq> BACKFILL_RUNNING \<longrightarrow> f x = x))"
  proof (cases m)
    case (Reap ts)
    show ?thesis unfolding Reap busy_backfills_def busy_write.case reap_backfills_map
      by (intro exI conjI allI, rule refl) (auto simp: stale_backfill_def)
  next
    case (Stamp j now n)
    show ?thesis unfolding Stamp busy_backfills_def busy_write.case stamp_deleted_def qupdate_def
      by (intro exI conjI allI, rule refl) (auto simp: claimed_row_def)
  qed
qed simp

subsection \<open>Lemmas: the source set\<close>

lemma source_lists_ok:
  assumes "items_ok (t_items d)"
  shows "distinct (occurred_qs account fids w d)" "'''' \<notin> set (occurred_qs account fids w d)"
    "distinct (existing_qs account source w d)" "'''' \<notin> set (existing_qs account source w d)"
  using assms
  by (auto simp: occurred_qs_def existing_qs_def existing_feed_item_ids_def items_ok_ids)
     (auto simp: items_ok_def list_all_iff)

text \<open>A resolved source: its count, subquery and stream agree, and none of them depends on the
  runs of other actions than the source.\<close>

definition keeps_source :: "db \<Rightarrow> ulid \<Rightarrow> db \<Rightarrow> bool" where
  "keeps_source d source d' \<longleftrightarrow> t_items d' = t_items d \<and>
     filter (\<lambda>r. run_action r = source) (t_runs d') = filter (\<lambda>r. run_action r = source) (t_runs d)"

lemma existing_qs_cong:
  assumes "keeps_source d source d'"
  shows "existing_qs account source w d' = existing_qs account source w d"
proof -
  have items: "t_items d' = t_items d" using assms by (simp add: keeps_source_def)
  have "set (succeeded_in_window account source w e) =
      {r \<in> set (filter (\<lambda>r. run_action r = source) (t_runs e)). run_account r = account \<and> run_state r = SUCCEEDED \<and>
         apply_run_windows account w e r}" for e
    by (auto simp: succeeded_in_window_def)
  moreover have "apply_run_windows account w d' = apply_run_windows account w d"
    using items by (simp add: apply_run_windows_def fun_eq_iff)
  ultimately have "set (succeeded_in_window account source w d') = set (succeeded_in_window account source w d)"
    using assms by (simp only: keeps_source_def)
  then show ?thesis
    using items by (simp only: existing_qs_def succeeded_feed_item_ids_def existing_feed_item_ids_def)
qed

lemma resolve_present_parts:
  assumes r: "resolve_present account source source_is_head watch w d = Inr p" and items: "items_ok (t_items d)"
  shows "pr_count p = length (pr_stream p d)" "distinct (pr_stream p d)" "set (pr_stream p d) = pr_subquery p d"
    and "\<And>d'. t_items d' = t_items d \<Longrightarrow> source_is_head \<or> keeps_source d source d' \<Longrightarrow>
      pr_subquery p d' = pr_subquery p d \<and> pr_stream p d' = pr_stream p d"
proof -
  have "pr_count p = length (pr_stream p d) \<and> distinct (pr_stream p d) \<and> set (pr_stream p d) = pr_subquery p d \<and>
    (\<forall>d'. t_items d' = t_items d \<longrightarrow> source_is_head \<or> keeps_source d source d' \<longrightarrow>
      pr_subquery p d' = pr_subquery p d \<and> pr_stream p d' = pr_stream p d)"
  proof (cases source_is_head)
    case True
    with r have "\<exists>fids ids. feed_items_in_occurred_window account fids (rw_occurred_since w) (rw_occurred_until w) d = Inr ids \<and>
        \<lparr>pr_matched = length ids, pr_count = length ids, pr_subquery = (\<lambda>d'. set (occurred_qs account fids w d')),
         pr_stream = (\<lambda>d'. iter_ids_keyset (occurred_qs account fids w d'))\<rparr> = p"
      by (simp only: resolve_present_def Let_def if_True res_bind_Inr_iff sum.inject) blast
    then obtain fids ids where ids: "feed_items_in_occurred_window account fids (rw_occurred_since w) (rw_occurred_until w) d = Inr ids"
      and pe: "\<lparr>pr_matched = length ids, pr_count = length ids, pr_subquery = (\<lambda>d'. set (occurred_qs account fids w d')),
         pr_stream = (\<lambda>d'. iter_ids_keyset (occurred_qs account fids w d'))\<rparr> = p" by blast
    have idq: "ids = occurred_qs account fids w d"
      using ids by (auto simp: feed_items_in_occurred_window_def occurred_qs_def split: if_splits)
    have p: "pr_count p = length (occurred_qs account fids w d)"
      "pr_subquery p = (\<lambda>d'. set (occurred_qs account fids w d'))"
      "pr_stream p = (\<lambda>d'. iter_ids_keyset (occurred_qs account fids w d'))"
      unfolding pe[symmetric] by (simp_all add: idq)
    have s: "iter_ids_keyset (occurred_qs account fids w d) = sort (occurred_qs account fids w d)"
      by (rule iter_ids_keyset_set[OF source_lists_ok(1,2)[OF items]])
    show ?thesis unfolding p s
    proof (intro conjI allI impI)
      fix d' :: db assume "t_items d' = t_items d"
      then have q: "occurred_qs account fids w d' = occurred_qs account fids w d" by (simp add: occurred_qs_def)
      show "set (occurred_qs account fids w d') = set (occurred_qs account fids w d)"
        "iter_ids_keyset (occurred_qs account fids w d') = sort (occurred_qs account fids w d)"
        unfolding q s by (rule refl)+
    qed (simp_all add: source_lists_ok(1)[OF items])
  next
    case False
    with r have p: "pr_count p = length (existing_qs account source w d)"
      "pr_subquery p = (\<lambda>d'. set (existing_qs account source w d'))"
      "pr_stream p = (\<lambda>d'. iter_ids_keyset (existing_qs account source w d'))"
      by (auto simp: resolve_present_def)
    have s: "iter_ids_keyset (existing_qs account source w d) = sort (existing_qs account source w d)"
      by (rule iter_ids_keyset_set[OF source_lists_ok(3,4)[OF items]])
    show ?thesis unfolding p s
    proof (intro conjI allI impI)
      fix d' :: db assume "source_is_head \<or> keeps_source d source d'"
      with False have q: "existing_qs account source w d' = existing_qs account source w d"
        using existing_qs_cong by blast
      show "set (existing_qs account source w d') = set (existing_qs account source w d)"
        "iter_ids_keyset (existing_qs account source w d') = sort (existing_qs account source w d)"
        unfolding q s by (rule refl)+
    qed (simp_all add: source_lists_ok(3)[OF items])
  qed
  note all = this
  show "pr_count p = length (pr_stream p d)" "distinct (pr_stream p d)" "set (pr_stream p d) = pr_subquery p d"
    using all by - (elim conjE, assumption)+
  have last: "\<forall>d'. t_items d' = t_items d \<longrightarrow> source_is_head \<or> keeps_source d source d' \<longrightarrow>
      pr_subquery p d' = pr_subquery p d \<and> pr_stream p d' = pr_stream p d" using all by (elim conjE)
  show "\<And>d'. t_items d' = t_items d \<Longrightarrow> source_is_head \<or> keeps_source d source d' \<Longrightarrow>
      pr_subquery p d' = pr_subquery p d \<and> pr_stream p d' = pr_stream p d" by (rule last[rule_format])
qed

text \<open>Nothing downstream of an action ranks below it.\<close>

lemma in_chain_from:
  "b \<in> set (chain_from account t a) \<longleftrightarrow>
   b = a \<or> (\<exists>c. next_in_chain account a t = Some c \<and> b \<in> set (chain_from account t c))"
  by (subst chain_from.simps) (auto split: option.splits)

lemma chain_from_ranks:
  "b \<in> set (chain_from account t a) \<Longrightarrow> a \<in> set t \<Longrightarrow> on_path account (act_path a) a \<Longrightarrow>
   b \<in> set t \<and> on_path account (act_path a) b \<and> act_rank a \<le> act_rank b"
proof (induction account t a rule: chain_from.induct)
  case (1 account t a)
  show ?case
  proof (cases "b = a")
    case False
    with "1.prems"(1) obtain c where c: "next_in_chain account a t = Some c" "b \<in> set (chain_from account t c)"
      by (auto simp: in_chain_from[of b account t a])
    from next_in_chain_Some[OF c(1)] have c': "c \<in> set t" "on_path account (act_path a) c" "act_rank a < act_rank c"
      by auto
    then have "act_path c = act_path a" by (simp add: on_path_def)
    with "1.IH"[OF c(1) c(2) c'(1)] c' show ?thesis by auto
  qed (use "1.prems" in auto)
qed

lemma chain_from_distinct:
  "actions_ok t \<Longrightarrow> a \<in> set t \<Longrightarrow> on_path account (act_path a) a \<Longrightarrow> distinct (map act_id (chain_from account t a))"
proof (induction account t a rule: chain_from.induct)
  case (1 account t a)
  show ?case
  proof (cases "next_in_chain account a t")
    case None
    then show ?thesis by (subst chain_from.simps) simp
  next
    case (Some c)
    from next_in_chain_Some[OF Some] have c: "c \<in> set t" "on_path account (act_path a) c" "act_rank a < act_rank c" by auto
    then have p: "act_path c = act_path a" by (simp add: on_path_def)
    have "act_id a \<notin> act_id ` set (chain_from account t c)"
    proof
      assume "act_id a \<in> act_id ` set (chain_from account t c)"
      then obtain b where b: "b \<in> set (chain_from account t c)" "act_id b = act_id a" by auto
      from chain_from_ranks[OF b(1) c(1)] c p have "b \<in> set t" "act_rank c \<le> act_rank b" by auto
      with same_id_same[OF "1.prems"(1) _ "1.prems"(2) b(2)] c(3) show False by simp
    qed
    with "1.IH"[OF Some "1.prems"(1) c(1)] c(2) p Some show ?thesis by (subst chain_from.simps) simp
  qed
qed
subsection \<open>Lemmas: the delete phase\<close>

definition doomed :: "ulid \<Rightarrow> ulid \<Rightarrow> ulid set \<Rightarrow> ulid set \<Rightarrow> run \<Rightarrow> bool" where
  "doomed account watch acts items r \<longleftrightarrow> deletable_terminal r \<and> run_account r = account \<and> run_watch r = watch \<and>
     run_action r \<in> acts \<and> run_item r \<in> items"

lemma qdelete_qdelete: "qdelete P (qdelete Q t) = qdelete (\<lambda>x. Q x \<or> P x) t"
  by (auto simp: qdelete_def conj_commute)

lemma qdelete_False [simp]: "qdelete (\<lambda>x. False) t = t"
  by (simp add: qdelete_def)

lemma delete_one:
  "delete_terminal_for_action account act watch items d =
     (d\<lparr>t_runs := qdelete (doomed account watch {act} items) (t_runs d)\<rparr>,
      count_runs_for_action account act watch items True d)"
proof -
  have "(\<lambda>r. deletable_terminal r \<and> run_among account watch act items r) = doomed account watch {act} items"
    by (auto simp: doomed_def run_among_def fun_eq_iff)
  moreover have "(\<lambda>r. run_among account watch act items r \<and> (True \<longrightarrow> deletable_terminal r)) = doomed account watch {act} items"
    by (auto simp: doomed_def run_among_def fun_eq_iff)
  ultimately show ?thesis by (simp add: delete_terminal_for_action_def count_runs_for_action_def Let_def)
qed

lemma delete_chain_spec:
  assumes "distinct (map act_id as)"
    and "\<And>P. (\<And>r. P r \<Longrightarrow> run_action r \<in> act_id ` set as) \<Longrightarrow> q (d\<lparr>t_runs := qdelete P (t_runs d)\<rparr>) = items"
  shows "delete_chain account watch q as d n =
    (d\<lparr>t_runs := qdelete (doomed account watch (act_id ` set as) items) (t_runs d)\<rparr>,
     n + sum_list (map (\<lambda>a. int (count_runs_for_action account (act_id a) watch items True d)) as))"
  using assms
proof (induction as arbitrary: d n)
  case Nil
  have "doomed account watch {} items = (\<lambda>r. False)" by (simp add: doomed_def fun_eq_iff)
  then show ?case by simp
next
  case (Cons a as)
  let ?P0 = "doomed account watch {act_id a} items"
  let ?d = "d\<lparr>t_runs := qdelete ?P0 (t_runs d)\<rparr>"
  have q0: "q d = items" using Cons.prems(2)[of "\<lambda>r. False"] by simp
  have stable: "q (?d\<lparr>t_runs := qdelete P (t_runs ?d)\<rparr>) = items"
    if "\<And>r. P r \<Longrightarrow> run_action r \<in> act_id ` set as" for P
    using Cons.prems(2)[of "\<lambda>r. ?P0 r \<or> P r"] that by (auto simp: qdelete_qdelete doomed_def)
  have ih: "delete_chain account watch q as ?d (n + int (count_runs_for_action account (act_id a) watch items True d)) =
    (?d\<lparr>t_runs := qdelete (doomed account watch (act_id ` set as) items) (t_runs ?d)\<rparr>,
     n + int (count_runs_for_action account (act_id a) watch items True d) +
       sum_list (map (\<lambda>a. int (count_runs_for_action account (act_id a) watch items True ?d)) as))"
    by (rule Cons.IH) (use Cons.prems(1) stable in auto)
  have cnt: "count_runs_for_action account (act_id b) watch items True ?d = count_runs_for_action account (act_id b) watch items True d"
    if "b \<in> set as" for b
  proof -
    have "act_id a \<notin> act_id ` set as" using Cons.prems(1) by simp
    with that have "act_id b \<noteq> act_id a" by (metis imageI)
    then show ?thesis
      unfolding count_runs_for_action_def
      by (simp add: qcount_qdelete) (rule qcount_cong, auto simp: doomed_def run_among_def)
  qed
  have sums: "sum_list (map (\<lambda>a. int (count_runs_for_action account (act_id a) watch items True ?d)) as) =
      sum_list (map (\<lambda>a. int (count_runs_for_action account (act_id a) watch items True d)) as)"
    by (rule arg_cong[where f = sum_list], rule map_cong) (simp_all add: cnt)
  have gone: "qdelete (doomed account watch (act_id ` set as) items) (t_runs ?d) =
      qdelete (doomed account watch (act_id ` set (a # as)) items) (t_runs d)"
    by (simp add: qdelete_qdelete) (rule arg_cong[where f = "\<lambda>P. qdelete P (t_runs d)"], auto simp: doomed_def fun_eq_iff)
  show ?case using ih unfolding sums gone by (simp add: q0 delete_one)
qed

text \<open>With unique run keys, the items of a set that have a run are counted by the runs.\<close>

lemma missing_count:
  assumes k: "distinct (map run_key t)" and ids: "distinct ids"
  shows "length (missing account watch act t ids) + qcount (run_among account watch act (set ids)) t = length ids"
proof -
  let ?R = "filter (run_among account watch act (set ids)) t"
  have "distinct (map run_key ?R)" using k by (rule distinct_map_filter)
  then have "inj_on run_item (set ?R)" and "distinct ?R"
    by (auto simp: distinct_map inj_on_def run_key_def run_among_def)
  then have "length ?R = card (run_item ` set ?R)" by (simp only: card_image distinct_card)
  also have "run_item ` set ?R = set (filter (\<lambda>i. (account, watch, act, i) \<in> run_key ` set t) ids)"
    by (force simp: run_among_def run_key_def)
  also have "card \<dots> = length (filter (\<lambda>i. (account, watch, act, i) \<in> run_key ` set t) ids)"
    by (rule distinct_card) (use ids in simp)
  finally have "length ?R = length (filter (\<lambda>i. (account, watch, act, i) \<in> run_key ` set t) ids)" .
  then show ?thesis
    using sum_length_filter_compl[of "\<lambda>i. (account, watch, act, i) \<in> run_key ` set t" ids]
    by (simp add: qcount_def missing_def)
qed

subsection \<open>Lemmas: one job\<close>

text \<open>What a job deletes: nothing when additive or when a prior attempt has deleted.\<close>

definition deletes_now :: "backfill \<Rightarrow> bool" where
  "deletes_now j \<longleftrightarrow> bf_replace j \<and> bf_replace_deleted j = None"

definition chain_ids :: "backfill \<Rightarrow> action \<Rightarrow> db \<Rightarrow> ulid set" where
  "chain_ids j target d = act_id ` set (chain_from (bf_account j) (t_actions d) target)"

definition replaced :: "backfill \<Rightarrow> action \<Rightarrow> ulid set \<Rightarrow> db \<Rightarrow> run \<Rightarrow> bool" where
  "replaced j target items d r \<longleftrightarrow>
     deletes_now j \<and> doomed (bf_account j) (bf_watch j) (chain_ids j target d) items r"

definition deleted_count :: "backfill \<Rightarrow> action \<Rightarrow> ulid set \<Rightarrow> db \<Rightarrow> int" where
  "deleted_count j target items d =
     (if \<not> bf_replace j then 0
      else if bf_replace_deleted j \<noteq> None then bf_deleted j
      else sum_list (map (\<lambda>a. int (count_runs_for_action (bf_account j) (act_id a) (bf_watch j) items True d))
             (chain_from (bf_account j) (t_actions d) target)))"

text \<open>The source is not among the actions whose runs are deleted.\<close>

definition source_safe :: "backfill \<Rightarrow> action \<Rightarrow> db \<Rightarrow> bool" where
  "source_safe j target d \<longleftrightarrow> bf_source_is_head j \<or> bf_source j \<notin> chain_ids j target d"

lemma get_action_row:
  assumes "get_action account i t = Inr a"
  shows "a \<in> set t \<and> act_id a = i \<and> act_account a = account \<and> on_path account (act_path a) a"
  using assms by (auto simp: get_action_def on_path_def dest: qget_Inr)

lemma delete_phase_spec:
  assumes a: "actions_ok (t_actions d)" and target: "target \<in> set (t_actions d)" "act_account target = bf_account j"
    and stable: "\<And>P. (\<And>r. P r \<Longrightarrow> run_action r \<in> chain_ids j target d) \<Longrightarrow> q (d\<lparr>t_runs := qdelete P (t_runs d)\<rparr>) = items"
  shows "\<exists>b. delete_phase j now target q d =
    (d\<lparr>t_runs := qdelete (replaced j target items d) (t_runs d), t_backfills := b\<rparr>, deleted_count j target items d) \<and>
    map bf_id b = map bf_id (t_backfills d)"
proof (cases "deletes_now j")
  case False
  then have "replaced j target items d = (\<lambda>r. False)" by (simp add: replaced_def fun_eq_iff)
  with False show ?thesis
    by (intro exI[of _ "t_backfills d"]) (auto simp: delete_phase_def deletes_now_def deleted_count_def)
next
  case True
  let ?chain = "chain_from (bf_account j) (t_actions d) target"
  have p: "on_path (bf_account j) (act_path target) target" using target(2) by (simp add: on_path_def)
  have r: "replaced j target items d = doomed (bf_account j) (bf_watch j) (act_id ` set ?chain) items"
    using True by (simp add: replaced_def chain_ids_def fun_eq_iff)
  have "delete_chain (bf_account j) (bf_watch j) q ?chain d 0 =
      (d\<lparr>t_runs := qdelete (doomed (bf_account j) (bf_watch j) (act_id ` set ?chain) items) (t_runs d)\<rparr>,
       0 + sum_list (map (\<lambda>a. int (count_runs_for_action (bf_account j) (act_id a) (bf_watch j) items True d)) ?chain))"
  proof (rule delete_chain_spec)
    show "distinct (map act_id ?chain)" by (rule chain_from_distinct[OF a target(1) p])
    fix P :: "run \<Rightarrow> bool" assume "\<And>r. P r \<Longrightarrow> run_action r \<in> act_id ` set ?chain"
    then show "q (d\<lparr>t_runs := qdelete P (t_runs d)\<rparr>) = items" by (intro stable) (simp add: chain_ids_def)
  qed
  then have "delete_chain (bf_account j) (bf_watch j) q ?chain d 0 =
      (d\<lparr>t_runs := qdelete (replaced j target items d) (t_runs d)\<rparr>, deleted_count j target items d)"
    using True by (simp add: r deleted_count_def deletes_now_def)
  moreover have "map bf_id (stamp_deleted j now n t) = map bf_id t" for n t
    unfolding stamp_deleted_def by (rule map_qupdate) simp
  ultimately show ?thesis
    using True
    by (intro exI[of _ "stamp_deleted j now (deleted_count j target items d) (t_backfills d)"])
       (simp add: delete_phase_def deletes_now_def)
qed

lemma run_backfill_spec:
  assumes get: "get_action (bf_account j) (bf_target j) (t_actions d) = Inr target"
    and res: "resolve_present (bf_account j) (bf_source j) (bf_source_is_head j) (bf_watch j) (job_windows j) d = Inr p"
    and items: "items_ok (t_items d)" and acts: "actions_ok (t_actions d)" and safe: "source_safe j target d"
  shows "\<exists>b. run_backfill E now j d =
    (let t = qdelete (replaced j target (pr_subquery p d) d) (t_runs d);
         fids = missing (bf_account j) (bf_watch j) (act_id target) t (pr_stream p d)
     in (d\<lparr>t_runs := t @ new_rows (env_gen E) (bf_account j) (bf_watch j) (act_id target) (act_kind target) now
                         (next_id d) fids,
           next_id := next_id d + length fids, t_backfills := b\<rparr>,
         Inr (Some \<lparr>bc_matched = int (pr_matched p), bc_present = int (pr_count p),
                    bc_pruned = int (pr_matched p) - int (pr_count p),
                    bc_deleted = deleted_count j target (pr_subquery p d) d, bc_enqueued = int (length fids)\<rparr>)))"
proof -
  note row = get_action_row[OF get]
  note parts = resolve_present_parts[OF res items]
  let ?P = "replaced j target (pr_subquery p d) d"
  have keeps: "bf_source_is_head j \<or> keeps_source d (bf_source j) d'"
    if "t_items d' = t_items d" "t_runs d' = qdelete P (t_runs d)" "\<And>r. P r \<Longrightarrow> run_action r \<in> chain_ids j target d" for d' P
  proof (cases "bf_source_is_head j")
    case False
    then have n: "bf_source j \<notin> chain_ids j target d" using safe by (simp add: source_safe_def)
    have "\<not> P r" if "run_action r = bf_source j" for r
    proof
      assume "P r"
      from \<open>\<And>r. P r \<Longrightarrow> run_action r \<in> chain_ids j target d\<close>[OF this] that n show False by simp
    qed
    then have "filter (\<lambda>r. run_action r = bf_source j) (qdelete P (t_runs d)) = filter (\<lambda>r. run_action r = bf_source j) (t_runs d)"
      by (auto simp: qdelete_def intro: filter_cong)
    with that(1,2) show ?thesis by (simp add: keeps_source_def)
  qed simp
  have "\<exists>b. delete_phase j now target (pr_subquery p) d =
      (d\<lparr>t_runs := qdelete ?P (t_runs d), t_backfills := b\<rparr>, deleted_count j target (pr_subquery p d) d) \<and>
      map bf_id b = map bf_id (t_backfills d)"
  proof (rule delete_phase_spec[OF acts])
    fix P :: "run \<Rightarrow> bool" assume P: "\<And>r. P r \<Longrightarrow> run_action r \<in> chain_ids j target d"
    show "pr_subquery p (d\<lparr>t_runs := qdelete P (t_runs d)\<rparr>) = pr_subquery p d"
      using parts(4)[of "d\<lparr>t_runs := qdelete P (t_runs d)\<rparr>", OF _ keeps[OF _ _ P]] by simp
  qed (use row in simp_all)
  then obtain b where del: "delete_phase j now target (pr_subquery p) d =
      (d\<lparr>t_runs := qdelete ?P (t_runs d), t_backfills := b\<rparr>, deleted_count j target (pr_subquery p d) d)" by blast
  let ?d1 = "d\<lparr>t_runs := qdelete ?P (t_runs d), t_backfills := b\<rparr>"
  have stream: "pr_stream p ?d1 = pr_stream p d"
    using parts(4)[of ?d1, OF _ keeps[of ?d1 ?P]] by (simp add: replaced_def doomed_def)
  let ?fids = "missing (bf_account j) (bf_watch j) (act_id target) (qdelete ?P (t_runs d)) (pr_stream p d)"
  have enq: "enqueue_many (env_gen E) (bf_account j) (bf_watch j) (act_id target) (act_kind target) now (pr_stream p d) ?d1 =
      Inr (?d1\<lparr>t_runs := qdelete ?P (t_runs d) @ new_rows (env_gen E) (bf_account j) (bf_watch j) (act_id target)
             (act_kind target) now (next_id d) ?fids, next_id := next_id d + length ?fids\<rparr>, length ?fids)"
    unfolding enqueue_many_spec[OF parts(2)] by (simp add: Let_def)
  show ?thesis
    unfolding run_backfill_def get res del Let_def sum.case case_prod_conv stream enq
    by (simp add: finish_job_def) (rule exI, rule refl)
qed
lemma prev_source_safe:
  assumes "actions_ok t" "target \<in> set t" "on_path account (act_path target) target"
    and "prev_in_chain account target t = Some a"
  shows "act_id a \<notin> act_id ` set (chain_from account t target)"
proof
  assume "act_id a \<in> act_id ` set (chain_from account t target)"
  then obtain b where b: "b \<in> set (chain_from account t target)" "act_id b = act_id a" by auto
  from chain_from_ranks[OF b(1) assms(2,3)] have "b \<in> set t" "act_rank target \<le> act_rank b" by auto
  moreover from prev_in_chain_Some[OF assms(4)] have "a \<in> set t" "act_rank a < act_rank target" by auto
  ultimately show False using same_id_same[OF assms(1) _ _ b(2)] by simp
qed

lemma get_action_self:
  assumes "actions_ok t" "a \<in> set t" "act_account a = account"
  shows "get_action account (act_id a) t = Inr a"
proof -
  have "qfirst (\<lambda>x. act_id x = act_id a \<and> act_account x = account) t = Some a"
    by (rule qfirst_distinct_key[where k = act_id]) (use assms in \<open>auto simp: actions_ok_def\<close>)
  then show ?thesis by (simp add: get_action_def qget_def)
qed

text \<open>The count a preview announces is the number of runs the job inserts.\<close>

lemma preview_count:
  assumes k: "distinct (map run_key t)" and ids: "distinct ids" and "act_id target \<in> chain"
  shows "int (length (missing acc w (act_id target) (qdelete (doomed acc w chain (set ids)) t) ids)) =
    int (length ids) - int (qcount (run_among acc w (act_id target) (set ids)) t) +
      int (qcount (\<lambda>r. run_among acc w (act_id target) (set ids) r \<and> deletable_terminal r) t)"
proof -
  let ?R = "run_among acc w (act_id target) (set ids)"
  let ?t = "qdelete (doomed acc w chain (set ids)) t"
  have "distinct (map run_key ?t)" using k unfolding qdelete_def by (rule distinct_map_filter)
  from missing_count[OF this ids, of acc w "act_id target"]
  have "length (missing acc w (act_id target) ?t ids) + qcount ?R ?t = length ids" .
  moreover have "qcount ?R ?t = qcount (\<lambda>r. ?R r \<and> \<not> deletable_terminal r) t"
    unfolding qcount_qdelete using assms(3) by (intro qcount_cong) (auto simp: doomed_def run_among_def)
  moreover have "qcount ?R t = qcount (\<lambda>r. ?R r \<and> deletable_terminal r) t + qcount (\<lambda>r. ?R r \<and> \<not> deletable_terminal r) t"
    by (rule qcount_split)
  ultimately show ?thesis by linarith
qed

lemma additive_count:
  assumes "distinct (map run_key t)" "distinct ids"
  shows "int (length (missing acc w act t ids)) = int (length ids) - int (qcount (run_among acc w act (set ids)) t)"
  using missing_count[OF assms, of acc w act] by linarith

text \<open>A preview and a job over the same source agree on every count.\<close>

lemma preview_matches_run:
  assumes pv: "preview_backfill (bf_account j) target (bf_source j) (bf_source_is_head j) (bf_watch j) (job_windows j) (bf_replace j) d = Inr pr"
    and get: "get_action (bf_account j) (bf_target j) (t_actions d) = Inr target"
    and items: "items_ok (t_items d)" and acts: "actions_ok (t_actions d)" and safe: "source_safe j target d"
    and keys: "distinct (map run_key (t_runs d))" and fresh: "bf_replace_deleted j = None"
  shows "\<exists>d'. run_backfill E now j d = (d', Inr (Some \<lparr>bc_matched = bp_matched pr, bc_present = bp_present pr,
    bc_pruned = bp_pruned pr, bc_deleted = bp_would_delete pr, bc_enqueued = bp_would_enqueue pr\<rparr>))"
proof -
  from pv obtain p where res: "resolve_present (bf_account j) (bf_source j) (bf_source_is_head j) (bf_watch j) (job_windows j) d = Inr p"
    unfolding preview_backfill_def res_bind_Inr_iff by blast
  note parts = resolve_present_parts[OF res items]
  let ?acc = "bf_account j" and ?w = "bf_watch j" and ?a = "act_id target" and ?I = "pr_subquery p d"
  have chain: "?a \<in> chain_ids j target d" 
    unfolding chain_ids_def using in_chain_from[of target ?acc "t_actions d" target] by blast
  have del: "bp_would_delete pr = deleted_count j target ?I d"
    using pv fresh by (auto simp: preview_backfill_def res Let_def deleted_count_def)
  have enq: "bp_would_enqueue pr = int (length (missing ?acc ?w ?a (qdelete (replaced j target ?I d) (t_runs d)) (pr_stream p d)))"
  proof (cases "bf_replace j")
    case True
    have r: "replaced j target ?I d = doomed ?acc ?w (chain_ids j target d) ?I"
      using True fresh by (simp add: replaced_def deletes_now_def fun_eq_iff)
    from pv True have "bp_would_enqueue pr = int (length (pr_stream p d)) - int (qcount (run_among ?acc ?w ?a ?I) (t_runs d)) +
        int (qcount (\<lambda>r. run_among ?acc ?w ?a ?I r \<and> deletable_terminal r) (t_runs d))"
      by (auto simp: preview_backfill_def res Let_def count_runs_for_action_def parts(1))
    then show ?thesis
      using preview_count[OF keys parts(2) chain, of ?acc ?w] unfolding r parts(3) by simp
  next
    case False
    then have r: "replaced j target ?I d = (\<lambda>r. False)" by (simp add: replaced_def deletes_now_def fun_eq_iff)
    from pv False have "bp_would_enqueue pr = int (length (pr_stream p d)) - int (qcount (run_among ?acc ?w ?a ?I) (t_runs d))"
      by (auto simp: preview_backfill_def res Let_def count_runs_for_action_def parts(1))
    then show ?thesis using additive_count[OF keys parts(2), of ?acc ?w ?a] unfolding r parts(3) by simp
  qed
  have rest: "bp_matched pr = int (pr_matched p)" "bp_present pr = int (pr_count p)" "bp_pruned pr = int (pr_matched p) - int (pr_count p)"
    using pv by (auto simp: preview_backfill_def res Let_def)
  show ?thesis
    using run_backfill_spec[OF get res items acts safe, of E now] unfolding del enq rest Let_def by blast
qed

lemma resolve_present_cong:
  assumes "t_watches d' = t_watches d" "t_watch_feeds d' = t_watch_feeds d" "t_items d' = t_items d" "t_runs d' = t_runs d"
  shows "resolve_present account source source_is_head watch w d' = resolve_present account source source_is_head watch w d"
proof -
  have "get_watch account watch d' = get_watch account watch d" unfolding get_watch_def assms ..
  moreover have "feed_ids account x d' = feed_ids account x d" for x unfolding feed_ids_def watch_feeds_def assms ..
  moreover have "feed_items_in_occurred_window account fids s u d' = feed_items_in_occurred_window account fids s u d" for fids s u
    unfolding feed_items_in_occurred_window_def assms ..
  moreover have win: "apply_run_windows account w d' = apply_run_windows account w d"
    unfolding apply_run_windows_def fun_eq_iff assms by blast
  have succ: "succeeded_in_window account source w d' = succeeded_in_window account source w d"
    unfolding succeeded_in_window_def assms win ..
  then have "count_succeeded_feed_items account source w d' = count_succeeded_feed_items account source w d"
    by (simp add: count_succeeded_feed_items_def)
  moreover have "existing_qs account source w d' = existing_qs account source w d"
    unfolding existing_qs_def succeeded_feed_item_ids_def existing_feed_item_ids_def succ assms ..
  ultimately show ?thesis by (simp only: resolve_present_def)
qed

lemma preview_backfill_cong:
  assumes "t_watches d' = t_watches d" "t_watch_feeds d' = t_watch_feeds d" "t_items d' = t_items d" "t_runs d' = t_runs d"
    "t_actions d' = t_actions d" and items: "items_ok (t_items d)"
  shows "preview_backfill account target source source_is_head watch w replace d' =
    preview_backfill account target source source_is_head watch w replace d"
proof (cases "resolve_present account source source_is_head watch w d")
  case (Inl e)
  with resolve_present_cong[OF assms(1-4), of account source source_is_head watch w] show ?thesis
    by (simp add: preview_backfill_def)
next
  case (Inr p)
  have "source_is_head \<or> keeps_source d source d'" using assms(3,4) by (simp add: keeps_source_def)
  with resolve_present_parts(4)[OF Inr items assms(3)] have q: "pr_subquery p d' = pr_subquery p d" by blast
  have c: "count_runs_for_action account act watch items b d' = count_runs_for_action account act watch items b d" for act items b
    using assms(4) by (simp add: count_runs_for_action_def)
  have r: "resolve_present account source source_is_head watch w d' = Inr p"
    using resolve_present_cong[OF assms(1-4)] Inr by simp
  show ?thesis unfolding preview_backfill_def Inr r res_bind_simps q c assms(5) ..
qed
lemma claim_new_job:
  assumes d: "distinct (map bf_id (t @ [j]))" and m: "0 < WATCH_BACKFILL_MAX_ATTEMPTS cfg" "bf_attempts j = 0"
  shows "\<exists>t'. claim_backfill cfg ts j (t @ [j]) =
    (t', Some (j\<lparr>bf_state := BACKFILL_RUNNING, bf_started := Some ts, bf_attempts := 1\<rparr>))"
proof (cases "claim_backfill cfg ts j (t @ [j])")
  case (Pair t' r)
  have n: "qcount (\<lambda>x. bf_id x = bf_id j \<and> bf_state x = bf_state j \<and> bf_attempts x < WATCH_BACKFILL_MAX_ATTEMPTS cfg) (t @ [j]) \<noteq> 0"
    using m by (auto simp: qcount_0_iff)
  show ?thesis
  proof (cases r)
    case None
    with Pair n have "qfirst (\<lambda>x. bf_id x = bf_id j) (fst (claim_backfill cfg ts j (t @ [j]))) = None"
      unfolding claim_backfill_def Let_def by (auto split: if_splits)
    moreover have "fst (claim_backfill cfg ts j (t @ [j])) = t @ [j]"
      using claim_backfill_None[OF d] Pair None by fastforce
    ultimately show ?thesis by (simp add: qfirst_None)
  next
    case (Some x)
    from claim_backfill_Some[OF d, of cfg ts j t' x] Pair Some obtain y where
      y: "y \<in> set (t @ [j])" "bf_id y = bf_id j"
      "x = y\<lparr>bf_state := BACKFILL_RUNNING, bf_started := Some ts, bf_attempts := bf_attempts y + 1\<rparr>" by blast
    have "y = j" by (rule distinct_key_unique[OF d y(1) _ y(2)]) simp
    with y(3) m(2) Pair Some show ?thesis by simp
  qed
qed

lemma dry_run_writes_nothing:
  "post_backfill E account target w replace True now d = Inr (d', x) \<Longrightarrow> d' = d"
proof -
  assume a: "post_backfill E account target w replace True now d = Inr (d', x)"
  have m: "map_sum id (\<lambda>p. (d, Preview p)) r = Inr (d', x) \<Longrightarrow> d' = d" for r :: "backfill_preview result"
    by (cases r) auto
  from a show ?thesis
    unfolding post_backfill_def Let_def by (auto simp: res_bind_Inr_iff split: if_splits dest: m)
qed

subsection \<open>Properties\<close>

text \<open>C15: the dry run tells the truth. The counts a backfill preview announces (matched,
  present, pruned, would delete, would enqueue) are exactly what the queued job does when the
  cron runs it on the same tables, additive or replace, head source or predecessor source.\<close>

theorem backfill_preview_is_execution:
  assumes ok: "items_ok (t_items d)" "actions_ok (t_actions d)" "distinct (map run_key (t_runs d))"
    and target: "target \<in> set (t_actions d)" "act_account target = account"
    and ids: "distinct (map bf_id (t_backfills d))" "env_gen E (next_id d) \<notin> set (map bf_id (t_backfills d))"
    and cap: "0 < WATCH_BACKFILL_MAX_ATTEMPTS (env_cfg E)"
    and dry: "post_backfill E account target w replace True now d = Inr (d, Preview p)"
    and post: "post_backfill E account target w replace False now d = Inr (d1, Queued j)"
  shows "\<exists>t j' d'. claim_backfill (env_cfg E) later j (t_backfills d1) = (t, Some j') \<and>
    run_backfill E later j' (d1\<lparr>t_backfills := t\<rparr>) =
      (d', Inr (Some \<lparr>bc_matched = bp_matched p, bc_present = bp_present p, bc_pruned = bp_pruned p,
                     bc_deleted = bp_would_delete p, bc_enqueued = bp_would_enqueue p\<rparr>))"
proof -
  let ?prev = "prev_in_chain account target (t_actions d)"
  let ?head = "?prev = None"
  let ?source = "case ?prev of None \<Rightarrow> '''' | Some a \<Rightarrow> act_id a"
  from post obtain watch where w: "watch_id_for_path account (act_path target) d = Inr watch"
    and win: "w \<noteq> no_windows" "\<not> (?head \<and> (rw_completed_since w \<noteq> None \<or> rw_completed_until w \<noteq> None))"
    by (auto simp: post_backfill_def Let_def res_bind_Inr_iff split: if_splits)
  have pv: "preview_backfill account target ?source ?head watch w replace d = Inr p"
    using dry win w by (cases "preview_backfill account target ?source ?head watch w replace d")
      (auto simp: post_backfill_def Let_def)
  let ?j = "new_backfill (env_gen E (next_id d)) account watch (act_id target) ?source ?head (act_kind target) replace w now"
  have j: "j = ?j" and d1: "d1 = d\<lparr>t_backfills := t_backfills d @ [?j], next_id := Suc (next_id d)\<rparr>"
    using post win w by (auto simp: post_backfill_def Let_def create_backfill_def)
  let ?j' = "?j\<lparr>bf_state := BACKFILL_RUNNING, bf_started := Some later, bf_attempts := 1\<rparr>"
  have "distinct (map bf_id (t_backfills d @ [?j]))" using ids by (simp add: new_backfill_def)
  then obtain t where t: "claim_backfill (env_cfg E) later ?j (t_backfills d @ [?j]) = (t, Some ?j')"
    using claim_new_job[of "t_backfills d" ?j "env_cfg E" later] cap by (auto simp: new_backfill_def)
  define j' where "j' = ?j'"
  have fields: "bf_account j' = account" "bf_watch j' = watch" "bf_target j' = act_id target" "bf_source j' = ?source"
    "bf_source_is_head j' = ?head" "bf_replace j' = replace" "bf_replace_deleted j' = None" "job_windows j' = w"
    by (simp_all add: j'_def new_backfill_def job_windows_def)
  let ?d = "d1\<lparr>t_backfills := t\<rparr>"
  have pv': "preview_backfill account target ?source ?head watch w replace ?d = Inr p"
    unfolding pv[symmetric] d1 by (rule preview_backfill_cong) (simp_all add: ok(1))
  have safe: "source_safe j' target ?d"
  proof (cases ?prev)
    case None
    then show ?thesis by (simp add: source_safe_def fields)
  next
    case (Some a)
    then show ?thesis
      using prev_source_safe[OF ok(2) target(1) _ Some] target(2)
      by (simp add: source_safe_def chain_ids_def fields on_path_def d1)
  qed
  have tables: "items_ok (t_items ?d)" "actions_ok (t_actions ?d)" "distinct (map run_key (t_runs ?d))"
    and get: "get_action account (act_id target) (t_actions ?d) = Inr target"
    using ok get_action_self[OF ok(2) target] by (simp_all add: d1)
  note run = preview_matches_run[of j' target ?d, unfolded fields, OF pv' get tables(1,2) safe tables(3) refl, of E later]
  have "claim_backfill (env_cfg E) later j (t_backfills d1) = (t, Some j')" using t by (simp add: j d1 j'_def)
  with run show ?thesis by blast
qed
subsection \<open>A concrete chain\<close>

text \<open>Two instant log actions; the first passed items i1 and i2, the second has run on i1.\<close>

definition done_run :: "ulid \<Rightarrow> ulid \<Rightarrow> ulid \<Rightarrow> run" where
  "done_run i act it = (sample_run i act it SUCCEEDED 1)\<lparr>run_completed := Some 7\<rparr>"

definition backfill_db :: db where
  "backfill_db = (trigger_db (log_blob INSTANT 0))\<lparr>next_id := 9,
     t_paths := [\<lparr>path_id = ''p'', path_account = ''acc'', path_watch = ''w''\<rparr>],
     t_actions := [sample_action ''a1'' ''p'' (log_blob INSTANT 0) 0, sample_action ''a2'' ''p'' (log_blob INSTANT 0) 1],
     t_runs := [done_run ''r1'' ''a1'' ''i1'', done_run ''r2'' ''a1'' ''i2'', done_run ''r3'' ''a2'' ''i1'']\<rparr>"

definition since_start :: run_windows where
  "since_start = no_windows\<lparr>rw_completed_since := Some 0\<rparr>"

definition second_action :: action where
  "second_action = sample_action ''a2'' ''p'' (log_blob INSTANT 0) 1"

lemma preview_reply:
  "(case r of Inl e \<Rightarrow> False | Inr (d, x) \<Rightarrow> (case x of BadWindow \<Rightarrow> False | Preview p \<Rightarrow> P p | Queued j \<Rightarrow> False)) \<Longrightarrow>
    \<exists>d p. r = Inr (d, Preview p) \<and> P p"
  by (cases r) (auto split: backfill_reply.splits)

lemma queued_reply:
  "(case r of Inl e \<Rightarrow> False | Inr (d, x) \<Rightarrow> (case x of BadWindow \<Rightarrow> False | Preview p \<Rightarrow> False | Queued j \<Rightarrow> P d j)) \<Longrightarrow>
    \<exists>d j. r = Inr (d, Queued j) \<and> P d j"
  by (cases r) (auto split: backfill_reply.splits)

theorem backfill_preview_is_execution_witness:
  "\<exists>p d1 j t j' d'. post_backfill sample_env ''acc'' second_action since_start True True 8 backfill_db = Inr (backfill_db, Preview p) \<and>
     post_backfill sample_env ''acc'' second_action since_start True False 8 backfill_db = Inr (d1, Queued j) \<and>
     claim_backfill default_settings 9 j (t_backfills d1) = (t, Some j') \<and>
     run_backfill sample_env 9 j' (d1\<lparr>t_backfills := t\<rparr>) =
      (d', Inr (Some \<lparr>bc_matched = bp_matched p, bc_present = bp_present p, bc_pruned = bp_pruned p,
                     bc_deleted = bp_would_delete p, bc_enqueued = bp_would_enqueue p\<rparr>)) \<and>
     bp_matched p = 2 \<and> bp_would_delete p = 1 \<and> bp_would_enqueue p = 2"
proof -
  have 1: "items_ok (t_items backfill_db)" by code_simp
  have 2: "actions_ok (t_actions backfill_db)" by code_simp
  have 3: "distinct (map run_key (t_runs backfill_db))" by code_simp
  have 4: "second_action \<in> set (t_actions backfill_db)" by (simp add: second_action_def backfill_db_def)
  have 5: "act_account second_action = ''acc''" by code_simp
  have 6: "distinct (map bf_id (t_backfills backfill_db))" by code_simp
  have 7: "env_gen sample_env (next_id backfill_db) \<notin> set (map bf_id (t_backfills backfill_db))" by code_simp
  have 8: "0 < WATCH_BACKFILL_MAX_ATTEMPTS (env_cfg sample_env)" by code_simp
  have "case post_backfill sample_env ''acc'' second_action since_start True True 8 backfill_db of Inl e \<Rightarrow> False
      | Inr (d, x) \<Rightarrow> (case x of BadWindow \<Rightarrow> False
         | Preview p \<Rightarrow> bp_matched p = 2 \<and> bp_would_delete p = 1 \<and> bp_would_enqueue p = 2 | Queued j \<Rightarrow> False)" by code_simp
  from preview_reply[OF this] obtain d0 p where
    p0: "post_backfill sample_env ''acc'' second_action since_start True True 8 backfill_db = Inr (d0, Preview p)"
    and n: "bp_matched p = 2 \<and> bp_would_delete p = 1 \<and> bp_would_enqueue p = 2" by blast
  have "d0 = backfill_db" using p0 by (rule dry_run_writes_nothing)
  with p0 have p: "post_backfill sample_env ''acc'' second_action since_start True True 8 backfill_db = Inr (backfill_db, Preview p)"
    by simp
  have "case post_backfill sample_env ''acc'' second_action since_start True False 8 backfill_db of Inl e \<Rightarrow> False
      | Inr (d, x) \<Rightarrow> (case x of BadWindow \<Rightarrow> False | Preview p \<Rightarrow> False | Queued j \<Rightarrow> True)" by code_simp
  from queued_reply[OF this] obtain d1 j where
    j: "post_backfill sample_env ''acc'' second_action since_start True False 8 backfill_db = Inr (d1, Queued j)" by blast
  from backfill_preview_is_execution [OF 1 2 3 4 5 6 7 8 p j, of 9] obtain t j' d' where
    c: "claim_backfill default_settings 9 j (t_backfills d1) = (t, Some j')" and
    r: "run_backfill sample_env 9 j' (d1\<lparr>t_backfills := t\<rparr>) =
      (d', Inr (Some \<lparr>bc_matched = bp_matched p, bc_present = bp_present p,
                     bc_pruned = bp_pruned p, bc_deleted = bp_would_delete p, bc_enqueued = bp_would_enqueue p\<rparr>))"
    unfolding sample_env_simps by blast
  show ?thesis
    by (rule exI[of _ p], rule exI[of _ d1], rule exI[of _ j], rule exI[of _ t], rule exI[of _ j'], rule exI[of _ d'])
      (intro conjI p j c r, use n in simp_all)
qed

text \<open>C16: a replace regenerates exactly the matched items. Afterwards every present item has its
  target run; no terminal run of the target or of anything downstream of it survives for a
  present item; every run that is not such a stale one is left alone, so a run in progress is
  not disturbed; and what was added is one PENDING run of the target for each present item
  left without one after the deletion, no item twice and no item that keeps its run.\<close>

theorem replace_regenerates_exactly:
  assumes ok: "items_ok (t_items d)" "actions_ok (t_actions d)"
    and get: "get_action (bf_account j) (bf_target j) (t_actions d) = Inr target"
    and res: "resolve_present (bf_account j) (bf_source j) (bf_source_is_head j) (bf_watch j) (job_windows j) d = Inr p"
    and safe: "source_safe j target d"
    and rep: "bf_replace j" "bf_replace_deleted j = None"
    and run: "run_backfill E now j d = (d', r)"
  shows "(\<forall>i\<in>pr_subquery p d. (bf_account j, bf_watch j, bf_target j, i) \<in> run_key ` set (t_runs d')) \<and>
    (\<forall>a\<in>set (chain_from (bf_account j) (t_actions d) target). \<forall>x\<in>set (t_runs d').
       run_among (bf_account j) (bf_watch j) (act_id a) (pr_subquery p d) x \<longrightarrow> \<not> deletable_terminal x) \<and>
    (\<exists>new. t_runs d' = filter (\<lambda>x. \<not> (deletable_terminal x \<and> (\<exists>a\<in>set (chain_from (bf_account j) (t_actions d) target).
         run_among (bf_account j) (bf_watch j) (act_id a) (pr_subquery p d) x))) (t_runs d) @ new \<and>
       (\<forall>x\<in>set new. run_state x = PENDING \<and> run_account x = bf_account j \<and> run_watch x = bf_watch j \<and> run_action x = bf_target j) \<and>
       distinct (map run_item new) \<and>
       set (map run_item new) = {i \<in> pr_subquery p d. (bf_account j, bf_watch j, bf_target j, i) \<notin>
         run_key ` set (filter (\<lambda>x. \<not> (deletable_terminal x \<and> (\<exists>a\<in>set (chain_from (bf_account j) (t_actions d) target).
           run_among (bf_account j) (bf_watch j) (act_id a) (pr_subquery p d) x))) (t_runs d))})"
proof -
  let ?acc = "bf_account j" and ?w = "bf_watch j" and ?I = "pr_subquery p d"
  let ?chain = "chain_from ?acc (t_actions d) target"
  note row = get_action_row[OF get]
  note parts = resolve_present_parts[OF res ok(1)]
  let ?P = "replaced j target ?I d"
  have P: "?P = (\<lambda>x. deletable_terminal x \<and> (\<exists>a\<in>set ?chain. run_among ?acc ?w (act_id a) ?I x))"
    using rep by (auto simp: replaced_def deletes_now_def doomed_def chain_ids_def run_among_def fun_eq_iff)
  let ?t = "qdelete ?P (t_runs d)"
  let ?fids = "missing ?acc ?w (act_id target) ?t (pr_stream p d)"
  let ?new = "new_rows (env_gen E) ?acc ?w (act_id target) (act_kind target) now (next_id d) ?fids"
  obtain b r0 where "run_backfill E now j d = (d\<lparr>t_runs := ?t @ ?new, next_id := next_id d + length ?fids, t_backfills := b\<rparr>, r0)"
    using run_backfill_spec[OF get res ok safe, of E now] unfolding Let_def by blast
  with run have t': "t_runs d' = ?t @ ?new" by auto
  have new: "run_state x = PENDING \<and> run_account x = ?acc \<and> run_watch x = ?w \<and> run_action x = bf_target j"
    if "x \<in> set ?new" for x
    using that
  proof (rule new_rows_cases)
    fix i fid assume x: "x = new_run i ?acc ?w (act_id target) (act_kind target) fid now ''''" and "fid \<in> set ?fids"
    show ?thesis unfolding x using row by simp
  qed
  have "map (\<lambda>k. snd (snd (snd k))) (map run_key ?new) = ?fids"
    by (simp add: map_key_new_rows o_def)
  then have items: "map run_item ?new = ?fids" by (simp add: o_def run_key_def)
  have one: "distinct (map run_item ?new)" "set (map run_item ?new) = {i \<in> ?I. (?acc, ?w, bf_target j, i) \<notin> run_key ` set ?t}"
    unfolding items missing_def using parts(2,3) row by auto
  have "(?acc, ?w, bf_target j, i) \<in> run_key ` set (t_runs d')" if "i \<in> ?I" for i
    using that row parts(3) queued_keys[of ?fids ?acc ?w "act_id target" ?t "pr_stream p d" i "env_gen E" "act_kind target" now "next_id d"]
    unfolding t' by simp
  moreover have "\<not> deletable_terminal x" if "a \<in> set ?chain" "x \<in> set (t_runs d')" "run_among ?acc ?w (act_id a) ?I x" for a x
  proof (cases "x \<in> set ?new")
    case True
    from new[OF this] show ?thesis by (simp add: deletable_terminal_def)
  next
    case False
    with that(2) have "\<not> ?P x" unfolding t' by simp
    with that(1,3) show ?thesis unfolding P by blast
  qed
  moreover have "t_runs d' = filter (\<lambda>x. \<not> (deletable_terminal x \<and> (\<exists>a\<in>set ?chain. run_among ?acc ?w (act_id a) ?I x))) (t_runs d) @ ?new"
    unfolding t' P qdelete_def ..
  ultimately show ?thesis using new one unfolding P qdelete_def by blast
qed

definition replace_job :: backfill where
  "replace_job = new_backfill ''j1'' ''acc'' ''w'' ''a2'' ''a1'' False ''log'' True since_start 8"

theorem replace_regenerates_exactly_witness:
  "\<exists>d' r. run_backfill sample_env 9 replace_job backfill_db = (d', r) \<and>
     (''acc'', ''w'', ''a2'', ''i1'') \<in> run_key ` set (t_runs d') \<and> (''acc'', ''w'', ''a2'', ''i2'') \<in> run_key ` set (t_runs d')"
proof -
  have job: "bf_account replace_job = ''acc''" "bf_watch replace_job = ''w''" "bf_target replace_job = ''a2''"
    "bf_source replace_job = ''a1''" "\<not> bf_source_is_head replace_job" "job_windows replace_job = since_start"
    "bf_replace replace_job" "bf_replace_deleted replace_job = None"
    by (simp_all add: replace_job_def new_backfill_def job_windows_def)
  have 1: "items_ok (t_items backfill_db)" by code_simp
  have 2: "actions_ok (t_actions backfill_db)" by code_simp
  have 3: "get_action (bf_account replace_job) (bf_target replace_job) (t_actions backfill_db) = Inr second_action"
    unfolding job by code_simp
  obtain p where p: "resolve_present (bf_account replace_job) (bf_source replace_job) (bf_source_is_head replace_job)
      (bf_watch replace_job) (job_windows replace_job) backfill_db = Inr p"
    and items: "pr_subquery p backfill_db = set (existing_qs ''acc'' ''a1'' since_start backfill_db)"
    by (auto simp: resolve_present_def job)
  have "{''i1'', ''i2''} \<subseteq> set (existing_qs ''acc'' ''a1'' since_start backfill_db)" by code_simp
  then have i: "''i1'' \<in> pr_subquery p backfill_db" "''i2'' \<in> pr_subquery p backfill_db" by (simp_all add: items)
  have "bf_source replace_job \<notin> chain_ids replace_job second_action backfill_db" by code_simp
  then have 4: "source_safe replace_job second_action backfill_db" by (simp add: source_safe_def)
  obtain d' r where r: "run_backfill sample_env 9 replace_job backfill_db = (d', r)" by fastforce
  from replace_regenerates_exactly [OF 1 2 3 p 4 job(7,8) r] i r show ?thesis unfolding job by blast
qed

lemma delete_chain_jobs: "t_backfills (fst (delete_chain account watch q as d n)) = t_backfills d"
  by (induction as arbitrary: d n) (simp_all add: delete_terminal_for_action_def Let_def)

text \<open>The delete-once marker of a job, as every row of that id carries it.\<close>

definition stamped_with :: "ulid \<Rightarrow> int \<Rightarrow> backfill list \<Rightarrow> bool" where
  "stamped_with i n t \<longleftrightarrow> (\<forall>x\<in>set t. bf_id x = i \<longrightarrow> bf_replace_deleted x \<noteq> None \<and> bf_deleted x = n \<and> bf_replace x)"

lemma stamped_with_map:
  "stamped_with i n t \<Longrightarrow> (\<And>x. bf_id (f x) = bf_id x) \<Longrightarrow> (\<And>x. bf_replace_deleted (f x) = bf_replace_deleted x) \<Longrightarrow>
    (\<And>x. bf_deleted (f x) = bf_deleted x) \<Longrightarrow> (\<And>x. bf_replace (f x) = bf_replace x) \<Longrightarrow> stamped_with i n (map f t)"
  by (auto simp: stamped_with_def)

lemma stamped_with_reap:
  "stamped_with i n t \<Longrightarrow> stamped_with i n (fst (reap_backfills cfg ts t))"
  unfolding reap_backfills_map by (erule stamped_with_map) simp_all

lemma stamped_with_claim:
  assumes "stamped_with i n t" "distinct (map bf_id t)" "claim_backfill cfg ts c t = (t', Some j)" "bf_id j = i"
  shows "bf_replace_deleted j \<noteq> None \<and> bf_deleted j = n \<and> bf_replace j"
  using claim_backfill_Some[OF assms(2,3)] assms(1,4) by (auto simp: stamped_with_def)

lemma delete_phase_stamps:
  assumes j: "j \<in> set (t_backfills d)" "distinct (map bf_id (t_backfills d))" "bf_state j = BACKFILL_RUNNING" "bf_replace j"
    and del: "delete_phase j now target q d = (d1, n)"
  shows "stamped_with (bf_id j) n (t_backfills d1) \<and> map bf_id (t_backfills d1) = map bf_id (t_backfills d)"
proof (cases "bf_replace_deleted j = None")
  case False
  with del j(4) have "d1 = d" "n = bf_deleted j" by (auto simp: delete_phase_def)
  with False j show ?thesis by (auto simp: stamped_with_def dest: distinct_key_unique[OF j(2,1)])
next
  case True
  let ?r = "delete_chain (bf_account j) (bf_watch j) q (chain_from (bf_account j) (t_actions d) target) d 0"
  from True del j(4) have n: "n = snd ?r" and d1: "t_backfills d1 = stamp_deleted j now n (t_backfills (fst ?r))"
    by (auto simp: delete_phase_def split: prod.splits)
  have t: "t_backfills d1 = stamp_deleted j now n (t_backfills d)" unfolding d1 delete_chain_jobs ..
  have "bf_replace_deleted x \<noteq> None \<and> bf_deleted x = n \<and> bf_replace x"
    if x: "x \<in> set (t_backfills d1)" "bf_id x = bf_id j" for x
  proof -
    from x(1) obtain y where y: "y \<in> set (t_backfills d)"
      and f: "x = (if claimed_row j y then y\<lparr>bf_replace_deleted := Some now, bf_deleted := n\<rparr> else y)"
      unfolding t stamp_deleted_def qupdate_def by auto
    have "bf_id y = bf_id j" using x(2) f by (simp split: if_splits)
    then have "y = j" using distinct_key_unique[OF j(2) y j(1)] by simp
    with f j(3,4) show ?thesis by (simp add: claimed_row_def)
  qed
  moreover have "map bf_id (t_backfills d1) = map bf_id (t_backfills d)"
    unfolding t stamp_deleted_def by (rule map_qupdate) simp
  ultimately show ?thesis by (simp add: stamped_with_def)
qed

text \<open>A replace deletes once. Whatever happens to the worker after the delete phase, when
  the job is reaped and claimed again, possibly several passes later, the second worker's delete
  phase touches no table and reports the first one's count, so runs regenerated in between are
  not lost.\<close>

theorem replace_deletes_once:
  assumes j: "j \<in> set (t_backfills d)" "distinct (map bf_id (t_backfills d))" "bf_state j = BACKFILL_RUNNING" "bf_replace j"
    and del: "delete_phase j now target q d = (d1, n)"
    and again: "claim_backfill cfg ts' c (fst (reap_backfills cfg ts (t_backfills d1))) = (t, Some j')" "bf_id j' = bf_id j"
  shows "delete_phase j' now' target' q' d' = (d', n)"
proof -
  note s = delete_phase_stamps[OF j del]
  have "map bf_id (fst (reap_backfills cfg ts (t_backfills d1))) = map bf_id (t_backfills d1)"
    unfolding reap_backfills_map by simp
  with s j(2) have "distinct (map bf_id (fst (reap_backfills cfg ts (t_backfills d1))))" by simp
  then have "bf_replace_deleted j' \<noteq> None \<and> bf_deleted j' = n \<and> bf_replace j'"
    by (rule stamped_with_claim[OF stamped_with_reap[OF conjunct1[OF s]] _ again])
  then show ?thesis by (auto simp: delete_phase_def)
qed

text \<open>The claimed job of the example, its worker gone after the delete phase.\<close>

definition running_job :: backfill where
  "running_job = replace_job\<lparr>bf_state := BACKFILL_RUNNING, bf_started := Some 9, bf_attempts := 1\<rparr>"

theorem replace_deletes_once_witness:
  "\<exists>d1 t j'. delete_phase running_job 9 second_action (\<lambda>_. {''i1'', ''i2''}) (backfill_db\<lparr>t_backfills := [running_job]\<rparr>) = (d1, 1) \<and>
     claim_backfill default_settings (seconds 100001) (running_job\<lparr>bf_state := BACKFILL_FAILED\<rparr>)
       (fst (reap_backfills default_settings (seconds 100000) (t_backfills d1))) = (t, Some j') \<and>
     delete_phase j' (seconds 100001) second_action (\<lambda>_. {''i1'', ''i2''}) d1 = (d1, 1)"
proof -
  let ?d = "backfill_db\<lparr>t_backfills := [running_job]\<rparr>"
  have 1: "running_job \<in> set (t_backfills ?d)" "distinct (map bf_id (t_backfills ?d))" by simp_all
  have 2: "bf_state running_job = BACKFILL_RUNNING" "bf_replace running_job"
    by (simp_all add: running_job_def replace_job_def new_backfill_def)
  have "snd (delete_phase running_job 9 second_action (\<lambda>_. {''i1'', ''i2''}) ?d) = 1" by code_simp
  then obtain d1 where d: "delete_phase running_job 9 second_action (\<lambda>_. {''i1'', ''i2''}) ?d = (d1, 1)"
    by (metis prod.collapse)
  have "t_backfills (fst (delete_phase running_job 9 second_action (\<lambda>_. {''i1'', ''i2''}) ?d)) =
      [running_job\<lparr>bf_replace_deleted := Some 9, bf_deleted := 1\<rparr>]" by code_simp
  then have t: "t_backfills d1 = [running_job\<lparr>bf_replace_deleted := Some 9, bf_deleted := 1\<rparr>]" by (simp add: d)
  have "(case claim_backfill default_settings (seconds 100001) (running_job\<lparr>bf_state := BACKFILL_FAILED\<rparr>)
      (fst (reap_backfills default_settings (seconds 100000) [running_job\<lparr>bf_replace_deleted := Some 9, bf_deleted := 1\<rparr>])) of
      (t, None) \<Rightarrow> False | (t, Some j') \<Rightarrow> bf_id j' = bf_id running_job)" by code_simp
  then obtain u j' where c: "claim_backfill default_settings (seconds 100001) (running_job\<lparr>bf_state := BACKFILL_FAILED\<rparr>)
      (fst (reap_backfills default_settings (seconds 100000) (t_backfills d1))) = (u, Some j')" "bf_id j' = bf_id running_job"
    unfolding t by (auto split: prod.splits option.splits)
  from replace_deletes_once [OF 1 2 d c] d c(1) show ?thesis by blast
qed

text \<open>A job whose target action or watch is gone fails for good: it writes no run, ends
  FAILED with its message, and no later pass at any time finds it among its candidates, whatever
  the reaper does.\<close>

theorem gone_backfill_is_final:
  assumes j: "j \<in> set (t_backfills d)" "distinct (map bf_id (t_backfills d))" "bf_state j = BACKFILL_RUNNING"
    and gone: "get_action (bf_account j) (bf_target j) (t_actions d) = Inl e \<or>
      resolve_present (bf_account j) (bf_source j) (bf_source_is_head j) (bf_watch j) (job_windows j) d = Inl DoesNotExist"
    and run: "run_backfill E now j d = (d', r)"
  shows "r = Inr None \<and> t_runs d' = t_runs d \<and>
    (\<exists>x\<in>set (t_backfills d'). bf_id x = bf_id j \<and> bf_state x = BACKFILL_FAILED \<and>
       bf_error x \<in> {BACKFILL_TARGET_GONE, BACKFILL_WATCH_GONE}) \<and>
    bf_id j \<notin> bf_id ` set (backfill_candidates (env_cfg E) later
      (d'\<lparr>t_backfills := fst (reap_backfills (env_cfg E) ts (t_backfills d'))\<rparr>))"
proof -
  from gone run obtain m where m: "m \<in> {BACKFILL_TARGET_GONE, BACKFILL_WATCH_GONE}"
    and d': "d' = fail_job (env_cfg E) now m j d" and r: "r = Inr None"
    unfolding run_backfill_def by (cases "get_action (bf_account j) (bf_target j) (t_actions d)") auto
  let ?e = "\<lparr>be_state = BACKFILL_FAILED, be_counts = None, be_error = m, be_exhaust = True\<rparr>"
  let ?x = "end_row (env_cfg E) now ?e j"
  have n: "qcount (claimed_row j) (t_backfills d) \<noteq> 0" using j by (auto simp: qcount_0_iff claimed_row_def)
  have "qupdate (claimed_row j) (end_row (env_cfg E) now ?e) (t_backfills d) = put_row bf_id ?x (t_backfills d)"
    by (rule qupdate_put_row[OF j(2,1)]) (use j(3) in \<open>auto simp: claimed_row_def\<close>)
  then have t: "t_backfills d' = put_row bf_id ?x (t_backfills d)" and runs: "t_runs d' = t_runs d"
    using n by (simp_all add: d' fail_job_def finish_job_def finish_backfill_def)
  have x: "bf_id ?x = bf_id j" "bf_state ?x = BACKFILL_FAILED" "bf_error ?x = m"
    "bf_attempts ?x = WATCH_BACKFILL_MAX_ATTEMPTS (env_cfg E)"
    by (simp_all add: end_row_def)
  have only: "y = ?x" if "y \<in> set (t_backfills d')" "bf_id y = bf_id j" for y
    using that in_put_row[of y bf_id ?x "t_backfills d"] by (auto simp: t x(1))
  have mem: "?x \<in> set (t_backfills d')" unfolding t put_row_def using j(1) x(1) by auto
  have "\<not> backfill_due (env_cfg E) later y"
    if "y \<in> set (fst (reap_backfills (env_cfg E) ts (t_backfills d')))" "bf_id y = bf_id j" for y
  proof -
    from that(1) obtain z where z: "z \<in> set (t_backfills d')" "bf_id y = bf_id z" "bf_attempts y = bf_attempts z"
      unfolding reap_backfills_map by auto
    from only[OF z(1)] that(2) z(2) have "z = ?x" by simp
    with z(3) x(4) show ?thesis by (simp add: backfill_due_def)
  qed
  then have "bf_id j \<notin> bf_id ` set (backfill_candidates (env_cfg E) later
      (d'\<lparr>t_backfills := fst (reap_backfills (env_cfg E) ts (t_backfills d'))\<rparr>))"
    by (auto simp: backfill_candidates_def)
  with r runs m mem x(1,2,3) show ?thesis by blast
qed

definition orphan_job :: backfill where
  "orphan_job = running_job\<lparr>bf_target := ''a9''\<rparr>"

theorem gone_backfill_is_final_witness:
  "\<exists>d'. run_backfill sample_env 9 orphan_job (backfill_db\<lparr>t_backfills := [orphan_job]\<rparr>) = (d', Inr None) \<and>
     ''j1'' \<notin> bf_id ` set (backfill_candidates default_settings (seconds 200000)
       (d'\<lparr>t_backfills := fst (reap_backfills default_settings (seconds 100000) (t_backfills d'))\<rparr>))"
proof -
  let ?d = "backfill_db\<lparr>t_backfills := [orphan_job]\<rparr>"
  have 1: "orphan_job \<in> set (t_backfills ?d)" "distinct (map bf_id (t_backfills ?d))" by simp_all
  have 2: "bf_state orphan_job = BACKFILL_RUNNING" by (simp add: orphan_job_def running_job_def)
  have "get_action (bf_account orphan_job) (bf_target orphan_job) (t_actions ?d) = Inl DoesNotExist" by code_simp
  then have 3: "get_action (bf_account orphan_job) (bf_target orphan_job) (t_actions ?d) = Inl DoesNotExist \<or>
      resolve_present (bf_account orphan_job) (bf_source orphan_job) (bf_source_is_head orphan_job) (bf_watch orphan_job)
        (job_windows orphan_job) ?d = Inl DoesNotExist" ..
  have i: "bf_id orphan_job = ''j1''" by (simp add: orphan_job_def running_job_def replace_job_def new_backfill_def)
  obtain d' r where r: "run_backfill sample_env 9 orphan_job ?d = (d', r)" by fastforce
  from gone_backfill_is_final [OF 1 2 3 r, of "seconds 200000" "seconds 100000"] r show ?thesis
    unfolding i sample_env_simps by blast
qed

subsection \<open>A job over its life\<close>

definition claimed_copy :: "datetime \<Rightarrow> nat \<Rightarrow> backfill" where
  "claimed_copy ts n = replace_job\<lparr>bf_state := BACKFILL_RUNNING, bf_started := Some ts, bf_attempts := n\<rparr>"

text \<open>Claimed, presumed dead and reset, claimed again, and finished by the second worker while the
  first still holds its copy.\<close>

definition finished_job :: "backfill cas_state" where
  "finished_job = \<lparr>cq_tbl = [end_row default_settings 20
        \<lparr>be_state = BACKFILL_DONE, be_counts = None, be_error = '''', be_exhaust = False\<rparr> (claimed_copy (seconds 100001) 2)],
     cq_held = [claimed_copy 9 1], cq_won = [''j1''], cq_taken = [''j1'', ''j1''], cq_used = [''j1'']\<rparr>"

abbreviation job_reach :: "settings \<Rightarrow> backfill cas_state \<Rightarrow> bool" where
  "job_reach cfg \<equiv> cas_reach bf_id claimable_backfill (claim_backfill cfg) (finish_backfill cfg) ends_done (busy_backfills cfg)"

lemma finished_job_reach: "job_reach default_settings finished_job"
proof -
  let ?s1 = "cas_init\<lparr>cq_tbl := [replace_job], cq_used := [''j1'']\<rparr>"
  let ?s2 = "?s1\<lparr>cq_tbl := [claimed_copy 9 1], cq_held := [claimed_copy 9 1], cq_taken := [''j1'']\<rparr>"
  let ?c = "(claimed_copy 9 1)\<lparr>bf_state := BACKFILL_FAILED, bf_error := BACKFILL_TIMED_OUT, bf_completed := None\<rparr>"
  let ?s3 = "?s2\<lparr>cq_tbl := [?c]\<rparr>"
  let ?r = "(claimed_copy (seconds 100001) 2)\<lparr>bf_error := BACKFILL_TIMED_OUT\<rparr>"
  let ?s4 = "?s3\<lparr>cq_tbl := [?r], cq_held := [?r, claimed_copy 9 1], cq_taken := [''j1'', ''j1'']\<rparr>"
  have k: "bf_id replace_job = ''j1''" "bf_id (claimed_copy ts n) = ''j1''" for ts n
    by (simp_all add: replace_job_def claimed_copy_def new_backfill_def)
  note step = cas_reach.step[where key = bf_id and cand = claimable_backfill and claim = "claim_backfill default_settings"
      and finish = "finish_backfill default_settings" and good = ends_done and reap = "busy_backfills default_settings"]
  note claim = cas_step.claim[where key = bf_id and cand = claimable_backfill and claim = "claim_backfill default_settings"
      and finish = "finish_backfill default_settings" and good = ends_done and reap = "busy_backfills default_settings"]
  note commit = cas_step.commit[where key = bf_id and cand = claimable_backfill and claim = "claim_backfill default_settings"
      and finish = "finish_backfill default_settings" and good = ends_done and reap = "busy_backfills default_settings"]
  have 1: "job_reach default_settings ?s1"
    using step[OF cas_reach.start cas_step.enqueue[of bf_id replace_job]] by (simp add: cas_init_def k)
  have "claim_backfill default_settings 9 replace_job (cq_tbl ?s1) = ([claimed_copy 9 1], Some (claimed_copy 9 1))" by code_simp
  from step[OF 1 claim[OF _ this]] have 2: "job_reach default_settings ?s2"
    by (simp add: cas_init_def k claimable_backfill_def replace_job_def new_backfill_def)
  have "busy_backfills default_settings (Reap (seconds 100000)) (cq_tbl ?s2) = [?c]" by code_simp
  with step[OF 2 cas_step.reap[where t = "Reap (seconds 100000)"]] have 3: "job_reach default_settings ?s3" by simp
  have "claim_backfill default_settings (seconds 100001) ?c (cq_tbl ?s3) = ([?r], Some ?r)" by code_simp
  from step[OF 3 claim[OF _ this]] have 4: "job_reach default_settings ?s4"
    by (simp add: cas_init_def k claimable_backfill_def)
  let ?o = "(20, \<lparr>be_state = BACKFILL_DONE, be_counts = None, be_error = '''', be_exhaust = False\<rparr>)"
  have "finish_backfill default_settings ?o ?r (cq_tbl ?s4) = (cq_tbl finished_job, True)" by code_simp
  from step[OF 4 commit[OF _ this]] show ?thesis by (simp add: cas_init_def k ends_done_def finished_job_def)
qed

text \<open>Whatever the interleaving of backfill passes, crashes, reaps and delete-once stamps, a
  job is marked DONE at most once and is handed to a worker at most
  \<open>WATCH_BACKFILL_MAX_ATTEMPTS\<close> times.\<close>

theorem backfill_done_at_most_once:
  assumes "cas_reach bf_id claimable_backfill (claim_backfill cfg) (finish_backfill cfg) ends_done (busy_backfills cfg) s"
  shows "distinct (cq_won s) \<and> count_list (cq_taken s) k \<le> WATCH_BACKFILL_MAX_ATTEMPTS cfg"
  using bq.success_at_most_once [OF assms] bq.claims_bounded [OF assms] by blast

theorem backfill_done_at_most_once_witness:
  "distinct (cq_won finished_job) \<and> count_list (cq_taken finished_job) ''j1'' \<le> WATCH_BACKFILL_MAX_ATTEMPTS default_settings"
  by (rule backfill_done_at_most_once [OF finished_job_reach])

subsection \<open>Two defects\<close>

text \<open>A replace of the second action, claimed before the chain's two actions were swapped.\<close>

definition running_replace :: backfill where
  "running_replace = replace_job\<lparr>bf_state := BACKFILL_RUNNING, bf_started := Some 8, bf_attempts := 1\<rparr>"

definition reordered_db :: db where
  "reordered_db = (case replace_chain sample_env ''acc'' ''p''
     [sample_input (Some ''a2''), sample_input (Some ''a1'')] True (backfill_db\<lparr>t_backfills := [running_replace]\<rparr>) of
     Inl _ \<Rightarrow> empty_db | Inr d \<Rightarrow> d)"

lemma reordered_db_jobs: "t_backfills reordered_db = [running_replace]"
  by code_simp

lemma delete_chain_append:
  "delete_chain account watch q (as @ bs) d n =
     (case delete_chain account watch q as d n of (d', n') \<Rightarrow> delete_chain account watch q bs d' n')"
  by (induction as arbitrary: d n) (auto split: prod.split)

text \<open>Deleting the source's passes over its present items empties the source set, for good.\<close>

lemma existing_qs_empty:
  assumes "t_items d' = t_items d" "set (t_runs d') \<subseteq> set (t_runs d)"
    and "\<forall>x\<in>set (t_runs d'). run_account x = account \<longrightarrow> run_action x = source \<longrightarrow> run_state x = SUCCEEDED \<longrightarrow>
      run_item x \<notin> set (existing_qs account source w d)"
  shows "existing_qs account source w d' = []"
proof -
  have items: "apply_run_windows account w d' = apply_run_windows account w d"
    using assms(1) by (simp add: apply_run_windows_def fun_eq_iff)
  have "item_id i \<notin> succeeded_feed_item_ids account source w d'" if i: "i \<in> set (t_items d')" "item_account i = account" for i
  proof
    assume "item_id i \<in> succeeded_feed_item_ids account source w d'"
    then obtain x where x: "x \<in> set (t_runs d')" "run_account x = account" "run_action x = source"
      "run_state x = SUCCEEDED" "apply_run_windows account w d x" "run_item x = item_id i"
      by (auto simp: succeeded_feed_item_ids_def succeeded_in_window_def items)
    then have "run_item x \<in> set (existing_qs account source w d)"
      using assms(1,2) i
      by (auto simp: existing_qs_def existing_feed_item_ids_def succeeded_feed_item_ids_def succeeded_in_window_def
          intro!: image_eqI[of _ item_id i] image_eqI[of _ run_item x])
    with assms(3) x show False by blast
  qed
  then show ?thesis by (auto simp: existing_qs_def existing_feed_item_ids_def filter_empty_conv)
qed

lemma delete_chain_empty:
  assumes "\<And>P. q (d\<lparr>t_runs := qdelete P (t_runs d)\<rparr>) = {}"
  shows "fst (delete_chain account watch q as d n) = d"
  using assms
proof (induction as arbitrary: n)
  case (Cons a as)
  have "q d = {}" using Cons.prems[of "\<lambda>r. False"] by simp
  then have "delete_terminal_for_action account (act_id a) watch (q d) d =
      (d, count_runs_for_action account (act_id a) watch {} True d)"
    unfolding delete_one by (simp add: doomed_def qdelete_False[unfolded fun_eq_iff] qdelete_def)
  with Cons show ?case by simp
qed simp

text \<open>The delete phase of a replace whose source is in the chain: it deletes down to the source
  and stops finding items there.\<close>

lemma delete_chain_through_source:
  assumes acts: "actions_ok (t_actions d)" and row: "target \<in> set (t_actions d)" "act_account target = bf_account j"
    and src: "bf_source j \<in> chain_ids j target d" and q: "q = (\<lambda>d'. set (existing_qs (bf_account j) (bf_source j) w d'))"
    and one: "\<forall>x\<in>set (t_runs d). run_account x = bf_account j \<longrightarrow> run_action x = bf_source j \<longrightarrow> run_watch x = bf_watch j"
  shows "\<exists>A d1 n. delete_chain (bf_account j) (bf_watch j) q (chain_from (bf_account j) (t_actions d) target) d 0 = (d1, n) \<and>
    d1 = d\<lparr>t_runs := qdelete (doomed (bf_account j) (bf_watch j) A (q d)) (t_runs d)\<rparr> \<and>
    act_id target \<in> A \<and> bf_source j \<in> A \<and> existing_qs (bf_account j) (bf_source j) w d1 = []"
proof -
  let ?acc = "bf_account j" and ?w = "bf_watch j" and ?I = "q d"
  let ?chain = "chain_from ?acc (t_actions d) target"
  have p: "on_path ?acc (act_path target) target" using row(2) by (simp add: on_path_def)
  have dc: "distinct (map act_id ?chain)" by (rule chain_from_distinct[OF acts row(1) p])
  from src have "bf_source j \<in> act_id ` set ?chain" by (simp add: chain_ids_def)
  then obtain pre s post where ch: "?chain = pre @ s # post" and s: "act_id s = bf_source j"
    by (auto dest!: split_list)
  have npre: "bf_source j \<notin> act_id ` set pre" using dc s unfolding ch by auto
  have keep: "q (d\<lparr>t_runs := qdelete P (t_runs d)\<rparr>) = ?I" if "\<And>r. P r \<Longrightarrow> run_action r \<in> act_id ` set pre" for P
  proof -
    have "keeps_source d (bf_source j) (d\<lparr>t_runs := qdelete P (t_runs d)\<rparr>)"
      unfolding keeps_source_def using that npre by (auto simp: qdelete_def intro!: filter_cong) (metis imageE)
    from existing_qs_cong[OF this] show ?thesis by (simp add: q)
  qed
  let ?d0 = "d\<lparr>t_runs := qdelete (doomed ?acc ?w (act_id ` set pre) ?I) (t_runs d)\<rparr>"
  have "distinct (map act_id pre)" using dc unfolding ch by simp
  then obtain n0 where 0: "delete_chain ?acc ?w q pre d 0 = (?d0, n0)"
    using delete_chain_spec[where q = q and d = d, OF _ keep] by blast
  have q0: "q ?d0 = ?I" by (rule keep) (simp add: doomed_def)
  let ?A = "insert (bf_source j) (act_id ` set pre)"
  let ?d1 = "d\<lparr>t_runs := qdelete (doomed ?acc ?w ?A ?I) (t_runs d)\<rparr>"
  have "(\<lambda>x. doomed ?acc ?w (act_id ` set pre) ?I x \<or> doomed ?acc ?w {bf_source j} ?I x) = doomed ?acc ?w ?A ?I"
    by (auto simp: doomed_def fun_eq_iff)
  then obtain n1 where 1: "delete_terminal_for_action ?acc (act_id s) ?w (q ?d0) ?d0 = (?d1, n1)"
    unfolding q0 delete_one s by (simp add: qdelete_qdelete)
  have empty: "existing_qs ?acc (bf_source j) w (?d1\<lparr>t_runs := qdelete P (t_runs ?d1)\<rparr>) = []" for P
  proof (rule existing_qs_empty[where d = d])
    show "\<forall>x\<in>set (t_runs (?d1\<lparr>t_runs := qdelete P (t_runs ?d1)\<rparr>)). run_account x = ?acc \<longrightarrow> run_action x = bf_source j \<longrightarrow>
        run_state x = SUCCEEDED \<longrightarrow> run_item x \<notin> set (existing_qs ?acc (bf_source j) w d)"
      using one by (auto simp: qdelete_def doomed_def deletable_terminal_def TERMINAL_STATES_def q)
  qed (auto simp: qdelete_def)
  have qe: "q x = {}" if "existing_qs ?acc (bf_source j) w x = []" for x using that by (simp add: q)
  have "fst (delete_chain ?acc ?w q post ?d1 m) = ?d1" for m
    by (rule delete_chain_empty) (rule qe, rule empty)
  then obtain n2 where 2: "delete_chain ?acc ?w q post ?d1 (n0 + int n1) = (?d1, n2)" by (metis prod.collapse)
  have "act_id target \<in> ?A"
    using ch s by (subst (asm) chain_from.simps) (cases pre; auto)
  moreover have "existing_qs ?acc (bf_source j) w ?d1 = []" using empty[of "\<lambda>r. False"] by simp
  moreover have "delete_chain ?acc ?w q ?chain d 0 = (?d1, n2)"
    unfolding ch delete_chain_append 0 by (simp add: 1 2)
  ultimately show ?thesis by blast
qed

text \<open>C31: a chain edited between the request and the job can turn a replace into a loss. The
  source is pinned at the request; once a reorder has put it downstream of its target, the
  delete phase deletes the source's passes too. Every matched item had a pass of the source;
  afterwards none has, no terminal run of the target is left for them either, nothing is
  queued in their place, and the job rests DONE.\<close>

theorem reordered_replace_loses_runs:
  assumes ok: "items_ok (t_items d)" "actions_ok (t_actions d)" "distinct (map run_key (t_runs d))"
    and get: "get_action (bf_account j) (bf_target j) (t_actions d) = Inr target"
    and rep: "bf_replace j" "bf_replace_deleted j = None" "\<not> bf_source_is_head j"
    and moved: "bf_source j \<in> chain_ids j target d"
    and one: "\<forall>x\<in>set (t_runs d). run_account x = bf_account j \<longrightarrow> run_action x = bf_source j \<longrightarrow> run_watch x = bf_watch j"
    and row: "j \<in> set (t_backfills d)" "bf_state j = BACKFILL_RUNNING"
    and I: "I = set (existing_qs (bf_account j) (bf_source j) (job_windows j) d)"
    and run: "run_backfill E now j d = (d', r)"
  shows "(\<exists>c. r = Inr (Some c) \<and> bc_present c = int (card I) \<and> bc_enqueued c = 0) \<and>
    (\<exists>x\<in>set (t_backfills d'). bf_id x = bf_id j \<and> bf_state x = BACKFILL_DONE) \<and>
    set (t_runs d') \<subseteq> set (t_runs d) \<and>
    (\<forall>i\<in>I. (bf_account j, bf_watch j, bf_source j, i) \<in> run_key ` set (t_runs d) \<and>
      (bf_account j, bf_watch j, bf_source j, i) \<notin> run_key ` set (t_runs d') \<and>
      (\<forall>x\<in>set (t_runs d'). run_key x = (bf_account j, bf_watch j, bf_target j, i) \<longrightarrow> \<not> deletable_terminal x))"
proof -
  let ?acc = "bf_account j" and ?w = "bf_watch j" and ?src = "bf_source j"
  let ?qs = "existing_qs ?acc ?src (job_windows j)"
  note target = get_action_row[OF get]
  obtain p where p: "resolve_present ?acc ?src (bf_source_is_head j) ?w (job_windows j) d = Inr p"
    and parts: "pr_subquery p = (\<lambda>d'. set (?qs d'))" "pr_stream p = (\<lambda>d'. iter_ids_keyset (?qs d'))" "pr_count p = length (?qs d)"
    using rep(3) by (auto simp: resolve_present_def)
  obtain A d1 n where del: "delete_chain ?acc ?w (pr_subquery p) (chain_from ?acc (t_actions d) target) d 0 = (d1, n)"
    and d1: "d1 = d\<lparr>t_runs := qdelete (doomed ?acc ?w A I) (t_runs d)\<rparr>"
    and A: "act_id target \<in> A" "?src \<in> A" and none: "?qs d1 = []"
    using delete_chain_through_source[OF ok(2) _ _ moved parts(1) one] target unfolding parts(1) I by blast
  let ?d2 = "d1\<lparr>t_backfills := stamp_deleted j now n (t_backfills d1)\<rparr>"
  have ph: "delete_phase j now target (pr_subquery p) d = (?d2, n)"
    using rep by (simp add: delete_phase_def del)
  have "?qs ?d2 = ?qs d1" by (rule existing_qs_cong) (simp add: keeps_source_def)
  then have "pr_stream p ?d2 = iter_ids_keyset []" using none by (simp add: parts(2))
  also have "\<dots> = []" by code_simp
  finally have enq: "enqueue_many (env_gen E) ?acc ?w (act_id target) (act_kind target) now (pr_stream p ?d2) ?d2 = Inr (?d2, 0)"
    by (simp add: enqueue_many_spec missing_def new_rows_def)
  let ?c = "\<lparr>bc_matched = int (pr_matched p), bc_present = int (pr_count p),
      bc_pruned = int (pr_matched p) - int (pr_count p), bc_deleted = n, bc_enqueued = 0\<rparr>"
  have r: "d' = finish_job (env_cfg E) now \<lparr>be_state = BACKFILL_DONE, be_counts = Some ?c, be_error = '''', be_exhaust = False\<rparr> j ?d2"
    "r = Inr (Some ?c)"
    using run by (simp_all add: run_backfill_def get p ph enq Let_def)
  have t: "t_runs d' = qdelete (doomed ?acc ?w A I) (t_runs d)" unfolding r(1) by (simp add: finish_job_def d1)
  have st: "\<exists>x\<in>set (stamp_deleted j now n (t_backfills d)). claimed_row j x"
    by (rule bexI[of _ "j\<lparr>bf_replace_deleted := Some now, bf_deleted := n\<rparr>"])
       (use row in \<open>auto simp: claimed_row_def stamp_deleted_def set_qupdate\<close>)
  then have "qcount (claimed_row j) (stamp_deleted j now n (t_backfills d)) \<noteq> 0" by (auto simp: qcount_0_iff)
  moreover from st have "\<exists>x\<in>set (qupdate (claimed_row j) (end_row (env_cfg E) now
        \<lparr>be_state = BACKFILL_DONE, be_counts = Some ?c, be_error = '''', be_exhaust = False\<rparr>)
        (stamp_deleted j now n (t_backfills d))). bf_id x = bf_id j \<and> bf_state x = BACKFILL_DONE"
    unfolding set_qupdate bex_simps(7) by (elim bexE, rule_tac bexI) (simp_all add: claimed_row_def)
  ultimately have "\<exists>x\<in>set (t_backfills d'). bf_id x = bf_id j \<and> bf_state x = BACKFILL_DONE"
    unfolding r(1) by (simp add: finish_job_def finish_backfill_def d1)
  moreover have "set (t_runs d') \<subseteq> set (t_runs d)" unfolding t by (auto simp: qdelete_def)
  moreover have "bc_present ?c = int (card I)"
    using source_lists_ok(3)[OF ok(1)] by (simp add: parts(3) I distinct_card)
  moreover have "(?acc, ?w, ?src, i) \<in> run_key ` set (t_runs d) \<and> (?acc, ?w, ?src, i) \<notin> run_key ` set (t_runs d') \<and>
      (\<forall>x\<in>set (t_runs d'). run_key x = (?acc, ?w, bf_target j, i) \<longrightarrow> \<not> deletable_terminal x)"
    if i: "i \<in> I" for i
  proof -
    obtain x where x: "x \<in> set (t_runs d)" "run_account x = ?acc" "run_action x = ?src" "run_state x = SUCCEEDED" "run_item x = i"
      using i by (auto simp: I existing_qs_def existing_feed_item_ids_def succeeded_feed_item_ids_def succeeded_in_window_def)
    have k: "run_key x = (?acc, ?w, ?src, i)" using x one by (simp add: run_key_def)
    have gone: "doomed ?acc ?w A I x"
      using x one A i by (simp add: doomed_def deletable_terminal_def TERMINAL_STATES_def)
    have "(?acc, ?w, ?src, i) \<in> run_key ` set (t_runs d)" unfolding k[symmetric] using x(1) by (rule imageI)
    moreover have "run_key y \<noteq> (?acc, ?w, ?src, i)" if y: "y \<in> set (t_runs d')" for y
    proof
      assume "run_key y = (?acc, ?w, ?src, i)"
      with k have e: "run_key y = run_key x" by simp
      have "y \<in> set (t_runs d)" and nd: "\<not> doomed ?acc ?w A I y" using y unfolding t by (auto simp: qdelete_def)
      with ok(3) x(1) e have "y = x" by (auto simp: distinct_map inj_on_def)
      with nd gone show False by simp
    qed
    moreover have "\<forall>x\<in>set (t_runs d'). run_key x = (?acc, ?w, bf_target j, i) \<longrightarrow> \<not> deletable_terminal x"
      unfolding t using A target i by (auto simp: qdelete_def doomed_def run_key_def)
    ultimately show ?thesis by force
  qed
  ultimately show ?thesis using r(2) by (metis backfill_counts.select_convs(5))
qed

theorem reordered_replace_loses_runs_witness:
  "\<exists>d' r c. run_backfill sample_env 9 running_replace reordered_db = (d', r) \<and> r = Inr (Some c) \<and> bc_enqueued c = 0 \<and>
     (''acc'', ''w'', ''a1'', ''i1'') \<in> run_key ` set (t_runs reordered_db) \<and>
     (''acc'', ''w'', ''a1'', ''i1'') \<notin> run_key ` set (t_runs d')"
proof -
  let ?j = "running_replace" and ?d = "reordered_db"
  have 1: "items_ok (t_items ?d)" "actions_ok (t_actions ?d)" "distinct (map run_key (t_runs ?d))" by code_simp+
  have "case get_action (bf_account ?j) (bf_target ?j) (t_actions ?d) of Inl _ \<Rightarrow> False | Inr a \<Rightarrow> bf_source ?j \<in> chain_ids ?j a ?d"
    by code_simp
  then obtain a where 2: "get_action (bf_account ?j) (bf_target ?j) (t_actions ?d) = Inr a" and 4: "bf_source ?j \<in> chain_ids ?j a ?d"
    by (auto split: sum.splits)
  have 3: "bf_replace ?j" "bf_replace_deleted ?j = None" "\<not> bf_source_is_head ?j" by code_simp+
  have 5: "\<forall>x\<in>set (t_runs ?d). run_account x = bf_account ?j \<longrightarrow> run_action x = bf_source ?j \<longrightarrow> run_watch x = bf_watch ?j"
    by code_simp
  have 6: "?j \<in> set (t_backfills ?d)" "bf_state ?j = BACKFILL_RUNNING" by (simp_all add: reordered_db_jobs running_replace_def)
  have i: "''i1'' \<in> set (existing_qs (bf_account ?j) (bf_source ?j) (job_windows ?j) ?d)" by code_simp
  have k: "bf_account ?j = ''acc''" "bf_watch ?j = ''w''" "bf_source ?j = ''a1''" by code_simp+
  obtain d' r where r: "run_backfill sample_env 9 ?j ?d = (d', r)" by force
  from reordered_replace_loses_runs [OF 1 2 3 4 5 6 refl r] i show ?thesis unfolding k using r by blast
qed

text \<open>C32: a backfill of a digest action does not open its window. When the window is closed, every
  item the job queues becomes a pending run that neither the drain nor the flush picks up at
  any time, although the job reports DONE; it moves again only when some later arrival reopens
  the window.\<close>

theorem backfill_strands_digest_runs:
  assumes ok: "items_ok (t_items d)" "actions_ok (t_actions d)" "windows_ok (t_windows d)"
    and get: "get_action (bf_account j) (bf_target j) (t_actions d) = Inr target"
    and res: "resolve_present (bf_account j) (bf_source j) (bf_source_is_head j) (bf_watch j) (job_windows j) d = Inr p"
    and safe: "source_safe j target d"
    and closed: "closed_window (bf_account j) (bf_target j) d"
    and new: "i \<in> pr_subquery p d" "(bf_account j, bf_watch j, bf_target j, i) \<notin> run_key ` set (t_runs d)"
    and run: "run_backfill E now j d = (d', r)"
  shows "(\<exists>c. r = Inr (Some c)) \<and> (\<exists>x\<in>set (t_runs d'). run_item x = i \<and> run_action x = bf_target j \<and> run_state x = PENDING \<and>
    (\<forall>ts. x \<notin> set (due_runs (env_cfg E) ts d') \<and>
      (\<forall>w\<in>set (iter_due_windows ts d'). \<not> is_window (run_account x) (run_action x) w)))"
proof -
  let ?acc = "bf_account j" and ?w = "bf_watch j" and ?I = "pr_subquery p d"
  note row = get_action_row[OF get]
  note parts = resolve_present_parts[OF res ok(1)]
  let ?t = "qdelete (replaced j target ?I d) (t_runs d)"
  let ?fids = "missing ?acc ?w (act_id target) ?t (pr_stream p d)"
  let ?new = "new_rows (env_gen E) ?acc ?w (act_id target) (act_kind target) now (next_id d) ?fids"
  obtain b r0 where "run_backfill E now j d = (d\<lparr>t_runs := ?t @ ?new, next_id := next_id d + length ?fids, t_backfills := b\<rparr>, Inr (Some r0))"
    using run_backfill_spec[OF get res ok(1,2) safe, of E now] unfolding Let_def by blast
  with run have t': "t_runs d' = ?t @ ?new" and w': "t_windows d' = t_windows d" and r: "r = Inr (Some r0)" by auto
  have "i \<in> set ?fids"
    using new row by (auto simp: missing_def parts(3) qdelete_def)
  then have "(?acc, ?w, act_id target, i) \<in> run_key ` set ?new"
    using map_key_new_rows[of "env_gen E" ?acc ?w "act_id target" "act_kind target" now "next_id d" ?fids]
    by (metis (no_types, lifting) image_eqI set_map)
  then obtain x where x: "x \<in> set ?new" "run_key x = (?acc, ?w, act_id target, i)" by auto
  from x(1) have "run_state x = PENDING" by (rule new_rows_cases) simp
  moreover have "run_item x = i" "run_action x = bf_target j" "run_account x = ?acc"
    using x(2) row by (simp_all add: run_key_def)
  moreover have "x \<notin> set (due_runs (env_cfg E) ts d') \<and> (\<forall>w\<in>set (iter_due_windows ts d'). \<not> is_window (run_account x) (run_action x) w)" for ts
  proof (rule closed_window_strands)
    show "windows_ok (t_windows d')" using ok(3) w' by simp
    show "closed_window (run_account x) (run_action x) d'" using closed w' calculation by (simp add: closed_window_def)
  qed
  moreover have "x \<in> set (t_runs d')" using x(1) t' by simp
  ultimately show ?thesis unfolding r by blast
qed

text \<open>A digest head action whose window has closed, and a job over its one item.\<close>

definition closed_digest_db :: db where
  "closed_digest_db = (trigger_db (log_blob DIGEST 3600))\<lparr>
     t_items := [(sample_item ''i3'')\<lparr>item_feed := ''f1'', item_occurred := Some 4\<rparr>],
     t_windows := [\<lparr>win_account = ''acc'', win_action = ''a1'', win_close = None\<rparr>]\<rparr>"

definition head_job :: backfill where
  "head_job = (new_backfill ''j1'' ''acc'' ''w'' ''a1'' '''' True ''log'' False (no_windows\<lparr>rw_occurred_since := Some 0\<rparr>) 8)
     \<lparr>bf_state := BACKFILL_RUNNING, bf_started := Some 9, bf_attempts := 1\<rparr>"

theorem backfill_strands_digest_runs_witness:
  "\<exists>d' c. run_backfill sample_env 9 head_job closed_digest_db = (d', Inr (Some c)) \<and>
     (\<exists>x\<in>set (t_runs d'). run_item x = ''i3'' \<and> run_action x = ''a1'' \<and> run_state x = PENDING \<and>
       (\<forall>ts. x \<notin> set (due_runs default_settings ts d') \<and>
         (\<forall>w\<in>set (iter_due_windows ts d'). \<not> is_window (run_account x) (run_action x) w)))"
proof -
  let ?res = "resolve_present (bf_account head_job) (bf_source head_job) (bf_source_is_head head_job)
    (bf_watch head_job) (job_windows head_job) closed_digest_db"
  have 1: "items_ok (t_items closed_digest_db)" by code_simp
  have 2: "actions_ok (t_actions closed_digest_db)" by code_simp
  have 3: "windows_ok (t_windows closed_digest_db)" by code_simp
  have 4: "get_action (bf_account head_job) (bf_target head_job) (t_actions closed_digest_db) =
      Inr (sample_action ''a1'' ''p'' (log_blob DIGEST 3600) 0)" by code_simp
  have "case ?res of Inl e \<Rightarrow> False | Inr p \<Rightarrow> ''i3'' \<in> pr_subquery p closed_digest_db" by code_simp
  then obtain p where 5: "?res = Inr p" and 8: "''i3'' \<in> pr_subquery p closed_digest_db" by (auto split: sum.splits)
  have "bf_source_is_head head_job" by code_simp
  then have 6: "source_safe head_job (sample_action ''a1'' ''p'' (log_blob DIGEST 3600) 0) closed_digest_db"
    by (simp add: source_safe_def)
  have 7: "closed_window (bf_account head_job) (bf_target head_job) closed_digest_db" by code_simp
  have 9: "(bf_account head_job, bf_watch head_job, bf_target head_job, ''i3'') \<notin> run_key ` set (t_runs closed_digest_db)"
    by (simp add: closed_digest_db_def trigger_db_def empty_db_def)
  have t: "bf_target head_job = ''a1''" by code_simp
  obtain d' r where r: "run_backfill sample_env 9 head_job closed_digest_db = (d', r)" by fastforce
  from backfill_strands_digest_runs [OF 1 2 3 4 5 6 7 8 9 r] r show ?thesis unfolding t sample_env_simps by blast
qed

end
