(* ===== verification/Config_Laws.thy ===== *)
theory Config_Laws
  imports Samples Digest
begin

text \<open>
  Properties of the configuration layer (\<open>Configs\<close>) and of the digest coordinator
  (\<open>Digest\<close>), evaluated on the sample deployment of \<open>Samples\<close>: what a persisted config
  satisfies, how a masked secret travels through an edit, and how a digest window batches.
\<close>

subsection \<open>Configurations\<close>

text \<open>A config that reaches storage through an edit or an add satisfies the server's
  policy whatever was submitted and whatever was stored before, the restored secrets included:
  a digest window within the configured bounds, an engine the server has, and a webhook
  destination that is not blocked.\<close>

theorem stored_config_within_policy:
  assumes "merge_config E kind data prior = Inr c"
  shows "(is_digest c \<longrightarrow> DIGEST_MIN_INTERVAL_SECONDS (env_cfg E) \<le> digest_interval c \<and>
            digest_interval c \<le> DIGEST_MAX_INTERVAL_SECONDS (env_cfg E)) \<and>
         (case engine_of c of None \<Rightarrow> True | Some e \<Rightarrow> engine_registered (en_kind e)) \<and>
         (case c of WebhookConfig w \<Rightarrow> destination_block_reason (env_dns E) (wh_url w)
             (WEBHOOK_REQUIRE_HTTPS (env_cfg E)) (WEBHOOK_BLOCK_PRIVATE_IPS (env_cfg E)) False = None
           | _ \<Rightarrow> True) \<and>
         kind \<in> set (known_kinds E)"
proof -
  have p: "enforce_action_policy E c = Inr c" using assms by (rule merge_config_policy)
  note q = enforce_action_policy_Inr[OF p]
  have k: "kind \<in> set (known_kinds E)"
    using assms by (auto simp: merge_config_def parse_config_def res_bind_Inr_iff split: if_splits)
  have e: "case engine_of c of None \<Rightarrow> True | Some e \<Rightarrow> engine_registered (en_kind e)"
    using q by (auto simp: enforce_engine_registered_def split: option.splits if_splits)
  have w: "case c of WebhookConfig w \<Rightarrow> destination_block_reason (env_dns E) (wh_url w)
             (WEBHOOK_REQUIRE_HTTPS (env_cfg E)) (WEBHOOK_BLOCK_PRIVATE_IPS (env_cfg E)) False = None
           | _ \<Rightarrow> True"
    using q by (cases c) (auto split: option.splits)
  show ?thesis using policy_interval[OF p] k e w by blast
qed

definition sample_webhook_json :: json where
  "sample_webhook_json = JObj [(''delivery'', JStr ''digest''), (''digest_interval_seconds'', JInt 3600),
     (''url'', JStr ''https://example.com/***'')]"

definition sample_prior :: webhook_config where
  "sample_prior = \<lparr>wh_delivery = DIGEST, wh_interval = 60, wh_url = ''https://example.com/tok'', wh_method = POST,
     wh_headers = [(''X-Key'', ''s3cret'')], wh_include = []\<rparr>"

theorem stored_config_within_policy_witness:
  "\<exists>w. merge_config sample_env KIND_WEBHOOK sample_webhook_json (Some (WebhookConfig sample_prior)) =
      Inr (WebhookConfig w) \<and> wh_url w = ''https://example.com/tok'' \<and> 60 \<le> wh_interval w"
proof -
  let ?m = "merge_config sample_env KIND_WEBHOOK sample_webhook_json (Some (WebhookConfig sample_prior))"
  let ?w = "\<lparr>wh_delivery = DIGEST, wh_interval = 3600, wh_url = ''https://example.com/tok'', wh_method = POST,
     wh_headers = [], wh_include = []\<rparr>"
  have m: "?m = Inr (WebhookConfig ?w)" by code_simp
  from stored_config_within_policy [OF m] have "60 \<le> wh_interval ?w"
    by (simp add: is_digest_def digest_interval_def default_settings_def)
  with m show ?thesis by (intro exI[of _ ?w]) simp
qed

text \<open>C33: masking and editing are inverse. What a reader of a webhook action is served hides the
  URL path and every header value; submitting it back, with any other field edited, restores
  exactly the stored URL and headers; and no header is ever stored as the mask unless the
  stored one already was.\<close>

theorem redacted_edit_restores_secrets:
  assumes "distinct (map fst (wh_headers p))"
    and "wh_url e = wh_url (redacted_webhook p)" "wh_headers e = wh_headers (redacted_webhook p)"
  shows "looks_redacted_url (wh_url (redacted_webhook p)) \<and>
    (\<forall>(n, v) \<in> set (wh_headers (redacted_webhook p)). v = REDACTED) \<and>
    merge_webhook e (WebhookConfig p) = Inr (WebhookConfig (e\<lparr>wh_url := wh_url p, wh_headers := wh_headers p\<rparr>))"
proof -
  have h: "merge_headers (wh_headers e) (Some p) = Inr (wh_headers p)"
    using merge_headers_restore[OF assms(1) order_refl] assms(3) by (simp add: redacted_webhook_def)
  have u: "wh_url e = redact_url (wh_url p)" using assms(2) by (simp add: redacted_webhook_def)
  show ?thesis
    using h u redacted_hides[of "wh_url p"] by (auto simp: merge_webhook_def redacted_webhook_def)
qed

theorem redacted_edit_restores_secrets_witness:
  "merge_webhook ((redacted_webhook sample_prior)\<lparr>wh_interval := 120\<rparr>) (WebhookConfig sample_prior) =
     Inr (WebhookConfig (sample_prior\<lparr>wh_interval := 120\<rparr>))"
proof -
  have d: "distinct (map fst (wh_headers sample_prior))" by code_simp
  have "(redacted_webhook sample_prior)\<lparr>wh_interval := 120, wh_url := wh_url sample_prior,
      wh_headers := wh_headers sample_prior\<rparr> = sample_prior\<lparr>wh_interval := 120\<rparr>"
    by (simp add: redacted_webhook_def)
  with redacted_edit_restores_secrets [OF d, of "(redacted_webhook sample_prior)\<lparr>wh_interval := 120\<rparr>"]
  show ?thesis by simp
qed

text \<open>An edit never stores the mask in place of a secret: a header of the merged config
  either carries a value the operator typed, or exactly the stored value of that name; a
  masked header with nothing stored to restore refuses the edit.\<close>

theorem merged_headers_are_typed_or_stored:
  "(\<forall>out. merge_headers hs prior = Inr out \<longrightarrow> map fst out = map fst hs \<and>
      (\<forall>(n, v) \<in> set out. ((n, v) \<in> set hs \<and> v \<noteq> REDACTED) \<or>
         ((n, REDACTED) \<in> set hs \<and> (\<exists>p. prior = Some p \<and> map_of (wh_headers p) n = Some v)))) \<and>
   ((\<exists>e. merge_headers hs prior = Inl e) \<longleftrightarrow>
      (\<exists>n. (n, REDACTED) \<in> set hs \<and> (\<forall>p. prior = Some p \<longrightarrow> map_of (wh_headers p) n = None)))"
proof
  show "\<forall>out. merge_headers hs prior = Inr out \<longrightarrow> map fst out = map fst hs \<and>
      (\<forall>(n, v) \<in> set out. ((n, v) \<in> set hs \<and> v \<noteq> REDACTED) \<or>
         ((n, REDACTED) \<in> set hs \<and> (\<exists>p. prior = Some p \<and> map_of (wh_headers p) n = Some v)))"
    using merge_headers_Inr[of hs prior] by blast
  show "(\<exists>e. merge_headers hs prior = Inl e) \<longleftrightarrow>
      (\<exists>n. (n, REDACTED) \<in> set hs \<and> (\<forall>p. prior = Some p \<longrightarrow> map_of (wh_headers p) n = None))"
    by (rule merge_headers_Inl)
qed

theorem merged_headers_are_typed_or_stored_witness:
  "merge_headers [(''X-Key'', REDACTED), (''A'', ''b'')] (Some sample_prior) =
     Inr [(''X-Key'', ''s3cret''), (''A'', ''b'')] \<and> (''X-Key'', ''s3cret'') \<noteq> (''X-Key'', REDACTED)"
proof -
  have m: "merge_headers [(''X-Key'', REDACTED), (''A'', ''b'')] (Some sample_prior) =
     Inr [(''X-Key'', ''s3cret''), (''A'', ''b'')]" by code_simp
  from merged_headers_are_typed_or_stored
      [of "[(''X-Key'', REDACTED), (''A'', ''b'')]" "Some sample_prior"] m
  show ?thesis by (auto simp: REDACTED_def)
qed

subsection \<open>Digest windows\<close>

text \<open>The window of a digest action opens once and batches: the first arrival fixes the
  close time at its own time plus the interval, every later arrival joins it whatever its own
  time and interval, without moving anything, and no other window or run is touched.\<close>

theorem digest_window_batches:
  assumes "open_window account act n ts d = (d', c)"
  shows "c = (case close_of account act d of None \<Rightarrow> ts + seconds n | Some c0 \<Rightarrow> c0) \<and>
    close_of account act d' = Some c \<and>
    open_window account act n' ts' d' = (d', c) \<and>
    (\<forall>a b. (a, b) \<noteq> (account, act) \<longrightarrow> close_of a b d' = close_of a b d) \<and>
    t_runs d' = t_runs d"
proof -
  have c: "close_of account act d' = Some c" using assms by (rule open_window_close)
  have o: "c = (case close_of account act d of None \<Rightarrow> ts + seconds n | Some c0 \<Rightarrow> c0)"
  proof (cases "close_of account act d")
    case None
    from open_window_opens[OF this, of n ts] assms None show ?thesis by simp
  next
    case (Some c0)
    from open_window_joins[OF this, of n ts] assms Some show ?thesis by simp
  qed
  have "\<forall>a b. (a, b) \<noteq> (account, act) \<longrightarrow> close_of a b d' = close_of a b d"
    using open_window_other[of _ _ account act n ts d] assms by simp
  moreover have "t_runs d' = t_runs d" using t_runs_open[of account act n ts d] assms by simp
  ultimately show ?thesis using c o open_window_joins[OF c] by simp
qed

theorem digest_window_batches_witness:
  "\<exists>d'. open_window ''acc'' ''a'' 60 0 empty_db = (d', seconds 60) \<and>
     open_window ''acc'' ''a'' 5 (seconds 30) d' = (d', seconds 60)"
proof -
  obtain d' c where o: "open_window ''acc'' ''a'' 60 0 empty_db = (d', c)" by force
  have "close_of ''acc'' ''a'' empty_db = None" by code_simp
  with digest_window_batches [OF o, of 5 "seconds 30"] o show ?thesis by simp
qed

text \<open>A slice is a fair cut of what is pending: at most the cap, all of it pending runs of
  the action, and no run left out was tried less often than one taken in, or as often and
  queued earlier. A run that keeps failing therefore never keeps a fresh one waiting.\<close>

theorem digest_slice_is_fair:
  "length (digest_batch cfg account act d) = min (DIGEST_MAX_BATCH_ITEMS cfg) (digest_pending_count account act d) \<and>
   (\<forall>x\<in>set (digest_batch cfg account act d). x \<in> set (t_runs d) \<and> pending_of account act x \<and>
      (\<forall>y\<in>set (t_runs d). pending_of account act y \<longrightarrow> y \<notin> set (digest_batch cfg account act d) \<longrightarrow>
         run_attempts x < run_attempts y \<or> (run_attempts x = run_attempts y \<and> run_id x \<le> run_id y)))"
  using digest_batch_length digest_batch_pending digest_batch_least
  unfolding tried_before_def by blast

definition two_pending :: db where
  "two_pending = empty_db\<lparr>t_runs :=
     [(new_run ''r1'' ''acc'' ''w'' ''a'' ''log'' ''i1'' 0 '''')\<lparr>run_attempts := 1\<rparr>,
      new_run ''r2'' ''acc'' ''w'' ''a'' ''log'' ''i2'' 0 '''']\<rparr>"

theorem digest_slice_is_fair_witness:
  "\<exists>x. digest_batch (default_settings\<lparr>DIGEST_MAX_BATCH_ITEMS := 1\<rparr>) ''acc'' ''a'' two_pending = [x] \<and>
     run_id x = ''r2'' \<and> run_attempts x < 1"
proof -
  let ?cfg = "default_settings\<lparr>DIGEST_MAX_BATCH_ITEMS := 1\<rparr>"
  have m: "map run_id (digest_batch ?cfg ''acc'' ''a'' two_pending) = [''r2'']" by code_simp
  then obtain x where x: "digest_batch ?cfg ''acc'' ''a'' two_pending = [x]" "run_id x = ''r2''"
    by (auto simp: map_eq_Cons_conv)
  let ?y = "(new_run ''r1'' ''acc'' ''w'' ''a'' ''log'' ''i1'' 0 '''')\<lparr>run_attempts := 1\<rparr>"
  have y: "?y \<in> set (t_runs two_pending)" "pending_of ''acc'' ''a'' ?y" "run_attempts ?y = 1" "run_id ?y = ''r1''"
    by (simp_all add: two_pending_def pending_of_def)
  then have ne: "?y \<noteq> x" using x(2) by auto
  from digest_slice_is_fair [of ?cfg "''acc''" "''a''" two_pending] x y(1,2) ne
  have "run_attempts x < run_attempts ?y \<or> (run_attempts x = run_attempts ?y \<and> run_id x \<le> run_id ?y)" by auto
  moreover have "\<not> run_id x \<le> run_id ?y" unfolding x(2) y(4) by code_simp
  ultimately show ?thesis using x y(3) by auto
qed

end
