(* ===== verification/Mailer.thy ===== *)
theory Mailer
  imports Cas_Queue Configs
begin

text \<open>
  The outbound email queue, \<open>mailer/services/mailer.py\<close>, and its drain,
  \<open>send_outbound_emails.py\<close>. The queue satisfies the contract \<open>cas_queue\<close>. Lemmas: no row is ever
  stuck (a PENDING row can always be claimed once its time has come, a SENDING row can always be
  reset), enqueueing is idempotent, a pass sends each email it claims once and leaves it SENT,
  waiting for its retry, or FAILED. The last property shows what the claim stamp of a long pass
  allows.
\<close>

subsection \<open>Rows and settings\<close>

datatype email_state = EM_PENDING | EM_SENDING | EM_SENT | EM_FAILED

record email =
  em_id :: ulid
  em_to :: string
  em_template :: string
  em_subject :: string
  em_props :: json
  em_key :: string
  em_state :: email_state
  em_attempts :: nat
  em_error :: string
  em_scheduled :: datetime
  em_started :: "datetime option"
  em_sent :: "datetime option"

record mail_settings =
  EMAIL_SEND_MAX_ATTEMPTS :: nat
  EMAIL_SEND_STALE_SECONDS :: int
  EMAIL_SEND_RETRY_SECONDS :: int

definition default_mail_settings :: mail_settings where
  "default_mail_settings =
     \<lparr>EMAIL_SEND_MAX_ATTEMPTS = 5, EMAIL_SEND_STALE_SECONDS = 300, EMAIL_SEND_RETRY_SECONDS = 300\<rparr>"

subsection \<open>The queue\<close>

text \<open>\<open>get_or_create\<close> on the unique key; \<open>now\<close> is the column default of an unset schedule.\<close>

definition enqueue_email ::
  "ulid \<Rightarrow> datetime \<Rightarrow> string \<Rightarrow> string \<Rightarrow> string \<Rightarrow> json option \<Rightarrow> string \<Rightarrow> datetime option \<Rightarrow>
   email list \<Rightarrow> email list \<times> email \<times> bool" where
  "enqueue_email i now to_email template subject props key scheduled_at t =
     (case qfirst (\<lambda>e. em_key e = key) t of
        Some e \<Rightarrow> (t, e, False)
      | None \<Rightarrow>
          let e = \<lparr>em_id = i, em_to = lower (strip to_email), em_template = template, em_subject = subject,
                   em_props = (case props of None \<Rightarrow> JObj [] | Some p \<Rightarrow> p), em_key = key, em_state = EM_PENDING,
                   em_attempts = 0, em_error = '''',
                   em_scheduled = (case scheduled_at of None \<Rightarrow> now | Some s \<Rightarrow> s),
                   em_started = None, em_sent = None\<rparr>
          in (t @ [e], e, True))"

definition email_due :: "mail_settings \<Rightarrow> datetime \<Rightarrow> email \<Rightarrow> bool" where
  "email_due cfg ts e \<longleftrightarrow> em_state e = EM_PENDING \<and> em_scheduled e \<le> ts \<and> em_attempts e < EMAIL_SEND_MAX_ATTEMPTS cfg"

definition iter_due_emails :: "mail_settings \<Rightarrow> datetime \<Rightarrow> email list \<Rightarrow> email list" where
  "iter_due_emails cfg ts t = order_by em_scheduled (filter (email_due cfg ts) t)"

text \<open>The conditional UPDATE of one candidate, and the re-read of the row it flipped.\<close>

definition claim_email ::
  "mail_settings \<Rightarrow> datetime \<Rightarrow> email \<Rightarrow> email list \<Rightarrow> email list \<times> email option" where
  "claim_email cfg ts c t =
     (let P = (\<lambda>x. em_id x = em_id c \<and> em_state x = EM_PENDING \<and> em_attempts x < EMAIL_SEND_MAX_ATTEMPTS cfg);
          t' = qupdate P (\<lambda>x. x\<lparr>em_state := EM_SENDING, em_started := Some ts, em_attempts := em_attempts x + 1\<rparr>) t
      in if qcount P t = 0 then (t, None) else (t', qfirst (\<lambda>x. em_id x = em_id c) t'))"

definition stale_email :: "datetime \<Rightarrow> email \<Rightarrow> bool" where
  "stale_email cutoff e \<longleftrightarrow> em_state e = EM_SENDING \<and> (case em_started e of None \<Rightarrow> False | Some s \<Rightarrow> s < cutoff)"

definition EMAIL_REAPED :: string where
  "EMAIL_REAPED = ''reaped after stale timeout (attempts exhausted)''"

definition reap_emails :: "mail_settings \<Rightarrow> datetime \<Rightarrow> email list \<Rightarrow> email list \<times> nat" where
  "reap_emails cfg ts t =
     (let cutoff = ts - seconds (EMAIL_SEND_STALE_SECONDS cfg);
          max_attempts = EMAIL_SEND_MAX_ATTEMPTS cfg;
          E = (\<lambda>x. stale_email cutoff x \<and> max_attempts \<le> em_attempts x);
          R = (\<lambda>x. stale_email cutoff x \<and> em_attempts x < max_attempts);
          t1 = qupdate E (\<lambda>x. x\<lparr>em_state := EM_FAILED, em_error := EMAIL_REAPED\<rparr>) t;
          t2 = qupdate R (\<lambda>x. x\<lparr>em_state := EM_PENDING\<rparr>) t1
      in (t2, qcount E t + qcount R t1))"

definition mine :: "email \<Rightarrow> email \<Rightarrow> bool" where
  "mine e x \<longleftrightarrow> em_id x = em_id e \<and> em_state x = EM_SENDING \<and> em_attempts x = em_attempts e"

definition complete_sent :: "datetime \<Rightarrow> email \<Rightarrow> email list \<Rightarrow> email list \<times> bool" where
  "complete_sent ts e t =
     (if qcount (mine e) t = 0 then (t, False)
      else (qupdate (mine e) (\<lambda>x. x\<lparr>em_state := EM_SENT, em_sent := Some ts, em_error := ''''\<rparr>) t, True))"

definition fail_email ::
  "mail_settings \<Rightarrow> datetime \<Rightarrow> string \<Rightarrow> email \<Rightarrow> email list \<Rightarrow> email list \<times> bool" where
  "fail_email cfg ts error e t =
     (let (new_state, scheduled_at) =
            (if EMAIL_SEND_MAX_ATTEMPTS cfg \<le> em_attempts e then (EM_FAILED, em_scheduled e)
             else (EM_PENDING, ts + seconds (EMAIL_SEND_RETRY_SECONDS cfg)))
      in if qcount (mine e) t = 0 then (t, False)
         else (qupdate (mine e) (\<lambda>x. x\<lparr>em_state := new_state, em_error := error, em_scheduled := scheduled_at\<rparr>) t, True))"

subsection \<open>The drain\<close>

text \<open>What the network and the database do to one email: the send raises; it returns and the row is
  marked at the given time; it returns and the marking raises, which is logged only.\<close>

datatype send_outcome = SendRaises string datetime | SendMarked datetime | MarkRaises

definition settle_email :: "mail_settings \<Rightarrow> send_outcome \<Rightarrow> email \<Rightarrow> email list \<Rightarrow> email list" where
  "settle_email cfg o' e t =
     (case o' of
        SendRaises error ts \<Rightarrow> fst (fail_email cfg ts error e t)
      | SendMarked ts \<Rightarrow> fst (complete_sent ts e t)
      | MarkRaises \<Rightarrow> t)"

fun mail_pass ::
  "mail_settings \<Rightarrow> datetime \<Rightarrow> nat option \<Rightarrow> (email \<Rightarrow> send_outcome) \<Rightarrow> email list \<Rightarrow> nat \<Rightarrow> nat \<Rightarrow> nat \<Rightarrow>
   email list \<Rightarrow> email list \<times> nat \<times> nat" where
  "mail_pass cfg now limit send [] claimed sent failed t = (t, sent, failed)"
| "mail_pass cfg now limit send (c # cs) claimed sent failed t =
     (if limit \<noteq> None \<and> the limit \<le> claimed then (t, sent, failed)
      else
        (case claim_email cfg now c t of
           (t1, None) \<Rightarrow> mail_pass cfg now limit send cs claimed sent failed t1
         | (t1, Some e) \<Rightarrow>
             let t2 = settle_email cfg (send e) e t1;
                 bad = (case send e of SendRaises _ _ \<Rightarrow> True | SendMarked _ \<Rightarrow> False | MarkRaises \<Rightarrow> False)
             in mail_pass cfg now limit send cs (claimed + 1) (if bad then sent else sent + 1)
                  (if bad then failed + 1 else failed) t2))"

definition send_outbound_emails ::
  "mail_settings \<Rightarrow> datetime \<Rightarrow> nat option \<Rightarrow> (email \<Rightarrow> send_outcome) \<Rightarrow> email list \<Rightarrow> email list \<times> nat \<times> nat" where
  "send_outbound_emails cfg now limit send t =
     (let t1 = fst (reap_emails cfg now t)
      in mail_pass cfg now limit send (iter_due_emails cfg now t1) 0 0 0 t1)"

definition dry_run_emails :: "mail_settings \<Rightarrow> datetime \<Rightarrow> nat option \<Rightarrow> email list \<Rightarrow> email list" where
  "dry_run_emails cfg now limit t =
     (case limit of None \<Rightarrow> iter_due_emails cfg now t | Some n \<Rightarrow> take n (iter_due_emails cfg now t))"

subsection \<open>The queue satisfies the work-queue contract\<close>

lemma claim_email_Some:
  assumes d: "distinct (map em_id t)" and c: "claim_email cfg ts c t = (t', Some e)"
  shows "\<exists>x\<in>set t. em_id x = em_id c \<and> em_state x = EM_PENDING \<and> em_attempts x < EMAIL_SEND_MAX_ATTEMPTS cfg \<and>
    e = x\<lparr>em_state := EM_SENDING, em_started := Some ts, em_attempts := em_attempts x + 1\<rparr> \<and> t' = put_row em_id e t"
proof -
  let ?P = "\<lambda>x. em_id x = em_id c \<and> em_state x = EM_PENDING \<and> em_attempts x < EMAIL_SEND_MAX_ATTEMPTS cfg"
  let ?f = "\<lambda>x. x\<lparr>em_state := EM_SENDING, em_started := Some ts, em_attempts := em_attempts x + 1\<rparr>"
  from c have n: "qcount ?P t \<noteq> 0" and t': "t' = qupdate ?P ?f t" and q: "qfirst (\<lambda>x. em_id x = em_id c) t' = Some e"
    by (auto simp: claim_email_def Let_def split: if_splits)
  obtain x where x: "x \<in> set t" "?P x" "qupdate ?P ?f t = put_row em_id (?f x) t"
    "qfirst (\<lambda>x. em_id x = em_id c) (qupdate ?P ?f t) = Some (?f x)"
    using cas_update[of em_id t ?P "em_id c" ?f, OF d n] by auto
  with t' q have "e = ?f x" by simp
  with x t' show ?thesis by blast
qed

lemma claim_email_None:
  assumes d: "distinct (map em_id t)" and c: "claim_email cfg ts c t = (t', None)"
  shows "t' = t \<and> (\<forall>x\<in>set t. em_id x = em_id c \<longrightarrow> \<not> (em_state x = EM_PENDING \<and> em_attempts x < EMAIL_SEND_MAX_ATTEMPTS cfg))"
proof -
  let ?P = "\<lambda>x. em_id x = em_id c \<and> em_state x = EM_PENDING \<and> em_attempts x < EMAIL_SEND_MAX_ATTEMPTS cfg"
  let ?f = "\<lambda>x. x\<lparr>em_state := EM_SENDING, em_started := Some ts, em_attempts := em_attempts x + 1\<rparr>"
  have "qcount ?P t = 0"
  proof (rule ccontr)
    assume n: "qcount ?P t \<noteq> 0"
    with c have "qfirst (\<lambda>x. em_id x = em_id c) (qupdate ?P ?f t) = None"
      by (auto simp: claim_email_def Let_def split: if_splits)
    moreover have "\<exists>x. qfirst (\<lambda>x. em_id x = em_id c) (qupdate ?P ?f t) = Some (?f x)"
      using cas_update[of em_id t ?P "em_id c" ?f, OF d n] by auto
    ultimately show False by simp
  qed
  with c show ?thesis by (auto simp: claim_email_def Let_def qcount_0_iff split: if_splits)
qed

lemma mine_update:
  assumes "distinct (map em_id t)" "qcount (mine e) t \<noteq> 0" "\<And>x. em_id (f x) = em_id x"
  shows "\<exists>x\<in>set t. mine e x \<and> qupdate (mine e) f t = put_row em_id (f x) t"
proof -
  have "em_id x = em_id e" if "mine e x" for x using that by (simp add: mine_def)
  from cas_update[OF assms(1,2) this assms(3)] show ?thesis by blast
qed

text \<open>A worker's write: the outcome of its send, at its time.\<close>

definition finish_email ::
  "mail_settings \<Rightarrow> datetime \<times> string option \<Rightarrow> email \<Rightarrow> email list \<Rightarrow> email list \<times> bool" where
  "finish_email cfg o' e t =
     (case snd o' of None \<Rightarrow> complete_sent (fst o') e t | Some error \<Rightarrow> fail_email cfg (fst o') error e t)"

definition sent_ok :: "datetime \<times> string option \<Rightarrow> bool" where
  "sent_ok o' \<longleftrightarrow> snd o' = None"

definition pending_email :: "email \<Rightarrow> bool" where
  "pending_email e \<longleftrightarrow> em_state e = EM_PENDING"

text \<open>The reaper, row by row.\<close>

definition reaped_email :: "mail_settings \<Rightarrow> datetime \<Rightarrow> email \<Rightarrow> email" where
  "reaped_email cfg ts x =
     (if stale_email (ts - seconds (EMAIL_SEND_STALE_SECONDS cfg)) x
      then if EMAIL_SEND_MAX_ATTEMPTS cfg \<le> em_attempts x then x\<lparr>em_state := EM_FAILED, em_error := EMAIL_REAPED\<rparr>
           else x\<lparr>em_state := EM_PENDING\<rparr>
      else x)"

lemma reaped_email_keeps [simp]:
  "em_id (reaped_email cfg ts x) = em_id x"
  "em_key (reaped_email cfg ts x) = em_key x"
  "em_attempts (reaped_email cfg ts x) = em_attempts x"
  "em_scheduled (reaped_email cfg ts x) = em_scheduled x"
  by (simp_all add: reaped_email_def)

lemma reap_emails_map: "fst (reap_emails cfg ts t) = map (reaped_email cfg ts) t"
  by (auto simp: reap_emails_def Let_def qupdate_def stale_email_def reaped_email_def)

lemma map_id_reap: "map em_id (fst (reap_emails cfg ts t)) = map em_id t"
  by (simp add: reap_emails_map)

lemma finish_email_win:
  assumes "distinct (map em_id T)" "finish_email cfg out e T = (T', True)"
  shows "\<exists>x\<in>set T. \<exists>x'. em_id x = em_id e \<and> em_state x = EM_SENDING \<and> em_attempts x = em_attempts e \<and>
      em_id x' = em_id x \<and> em_attempts x \<le> em_attempts x' \<and> (sent_ok out \<longrightarrow> em_state x' = EM_SENT) \<and>
      T' = put_row em_id x' T"
proof (cases "snd out")
  case None
  let ?f = "\<lambda>x. x\<lparr>em_state := EM_SENT, em_sent := Some (fst out), em_error := ''''\<rparr>"
  from assms(2) None have n: "qcount (mine e) T \<noteq> 0" and T': "T' = qupdate (mine e) ?f T"
    by (auto simp: finish_email_def complete_sent_def split: if_splits)
  from mine_update[OF assms(1) n, of ?f] obtain x where "x \<in> set T" "mine e x" "T' = put_row em_id (?f x) T"
    unfolding T' by auto
  then show ?thesis by (intro bexI[of _ x] exI[of _ "?f x"]) (simp_all add: mine_def)
next
  case (Some error)
  obtain st sc where f: "T' = qupdate (mine e) (\<lambda>x. x\<lparr>em_state := st, em_error := error, em_scheduled := sc\<rparr>) T"
    and n: "qcount (mine e) T \<noteq> 0"
    using assms(2) Some by (auto simp: finish_email_def fail_email_def Let_def split: if_splits)
  let ?f = "\<lambda>x. x\<lparr>em_state := st, em_error := error, em_scheduled := sc\<rparr>"
  from mine_update[OF assms(1) n, of ?f] obtain x where "x \<in> set T" "mine e x" "T' = put_row em_id (?f x) T"
    unfolding f by auto
  then show ?thesis using Some by (intro bexI[of _ x] exI[of _ "?f x"]) (simp_all add: mine_def sent_ok_def)
qed

interpretation mq: cas_queue em_id pending_email "claim_email cfg" "finish_email cfg" sent_ok
    "\<lambda>ts t. fst (reap_emails cfg ts t)" em_attempts "EMAIL_SEND_MAX_ATTEMPTS cfg"
    "\<lambda>e. em_state e = EM_SENDING" "\<lambda>e. em_state e = EM_SENT"
  for cfg
proof unfold_locales
  fix T c t T' r
  assume "distinct (map em_id T)" "claim_email cfg t c T = (T', Some r)"
  from claim_email_Some[OF this]
  show "\<exists>x\<in>set T. em_id x = em_id r \<and> em_state x \<noteq> EM_SENT \<and> em_state x \<noteq> EM_SENDING \<and>
      em_attempts r = Suc (em_attempts x) \<and> em_attempts r \<le> EMAIL_SEND_MAX_ATTEMPTS cfg \<and>
      em_state r = EM_SENDING \<and> T' = put_row em_id r T" by fastforce
next
  fix c t T T' assume "distinct (map em_id T)" "claim_email cfg t c T = (T', None)"
  then show "T' = T" using claim_email_None by blast
next
  fix T r out T' assume "distinct (map em_id T)" "finish_email cfg out r T = (T', True)"
  then show "\<exists>x\<in>set T. \<exists>x'. em_id x = em_id r \<and> em_state x = EM_SENDING \<and> em_attempts x = em_attempts r \<and>
      em_id x' = em_id x \<and> em_attempts x \<le> em_attempts x' \<and> (sent_ok out \<longrightarrow> em_state x' = EM_SENT) \<and>
      T' = put_row em_id x' T" by (rule finish_email_win)
next
  fix out r T T' assume "finish_email cfg out r T = (T', False)"
  then show "T' = T"
    by (auto simp: finish_email_def complete_sent_def fail_email_def Let_def split: option.splits if_splits)
next
  fix m T
  show "\<exists>f. fst (reap_emails cfg m T) = map f T \<and>
      (\<forall>x. em_id (f x) = em_id x \<and> em_attempts (f x) = em_attempts x \<and> (em_state x \<noteq> EM_SENDING \<longrightarrow> f x = x))"
    unfolding reap_emails_map by (intro exI conjI allI, rule refl) (auto simp: stale_email_def reaped_email_def)
qed simp

subsection \<open>Lemmas: a pass, row by row\<close>

definition claimed_email :: "datetime \<Rightarrow> email \<Rightarrow> email" where
  "claimed_email ts x = x\<lparr>em_state := EM_SENDING, em_started := Some ts, em_attempts := em_attempts x + 1\<rparr>"

definition settled :: "mail_settings \<Rightarrow> send_outcome \<Rightarrow> email \<Rightarrow> email" where
  "settled cfg o' e =
     (case o' of
        SendRaises error ts \<Rightarrow>
          if EMAIL_SEND_MAX_ATTEMPTS cfg \<le> em_attempts e then e\<lparr>em_state := EM_FAILED, em_error := error\<rparr>
          else e\<lparr>em_state := EM_PENDING, em_error := error, em_scheduled := ts + seconds (EMAIL_SEND_RETRY_SECONDS cfg)\<rparr>
      | SendMarked ts \<Rightarrow> e\<lparr>em_state := EM_SENT, em_sent := Some ts, em_error := ''''\<rparr>
      | MarkRaises \<Rightarrow> e)"

lemma email_row_ids [simp]:
  "em_id (claimed_email ts x) = em_id x"
  "em_id (settled cfg o' e) = em_id e"
  "em_key (claimed_email ts x) = em_key x"
  "em_key (settled cfg o' e) = em_key e"
  "em_attempts (claimed_email ts x) = Suc (em_attempts x)"
  "em_attempts (settled cfg o' e) = em_attempts e"
  by (simp_all add: claimed_email_def settled_def split: send_outcome.split)

lemma put_row_twice: "key a = key b \<Longrightarrow> put_row key a (put_row key b t) = put_row key a t"
  by (simp add: put_row_def)

lemma claim_email_known:
  assumes "distinct (map em_id t)" "c \<in> set t" "em_state c = EM_PENDING" "em_attempts c < EMAIL_SEND_MAX_ATTEMPTS cfg"
  shows "claim_email cfg ts c t = (put_row em_id (claimed_email ts c) t, Some (claimed_email ts c))"
proof (cases "claim_email cfg ts c t")
  case (Pair t' r)
  show ?thesis
  proof (cases r)
    case None
    from claim_email_None[OF assms(1) Pair[unfolded None]] assms(2-4) show ?thesis by blast
  next
    case (Some e)
    from claim_email_Some[OF assms(1) Pair[unfolded Some]] obtain x where
      x: "x \<in> set t" "em_id x = em_id c" "e = claimed_email ts x" "t' = put_row em_id e t"
      by (auto simp: claimed_email_def)
    have "x = c" using distinct_key_unique[OF assms(1) x(1) assms(2) x(2)] .
    with x Pair Some show ?thesis by simp
  qed
qed

lemma settle_email_row:
  assumes "distinct (map em_id t)" "e \<in> set t" "em_state e = EM_SENDING"
  shows "settle_email cfg o' e t = put_row em_id (settled cfg o' e) t"
proof -
  have n: "qcount (mine e) t \<noteq> 0" using assms(2,3) by (auto simp: qcount_0_iff mine_def)
  have u: "qupdate (mine e) f t = put_row em_id (f e) t" if "\<And>x. em_id (f x) = em_id x" for f
    by (rule qupdate_put_row[OF assms(1,2)]) (use assms(3) that in \<open>auto simp: mine_def\<close>)
  have keep: "put_row em_id e t = t"
    using assms(1,2) unfolding put_row_def by (intro map_idI) (auto dest: distinct_key_unique)
  show ?thesis
    using n by (cases o') (simp_all add: settle_email_def settled_def complete_sent_def fail_email_def u keep Let_def)
qed

definition pick :: "nat option \<Rightarrow> nat \<Rightarrow> 'a list \<Rightarrow> 'a list" where
  "pick limit claimed cs = (case limit of None \<Rightarrow> cs | Some n \<Rightarrow> take (n - claimed) cs)"

lemma pick_stops: "limit \<noteq> None \<and> the limit \<le> claimed \<Longrightarrow> pick limit claimed cs = []"
  by (auto simp: pick_def)

lemma pick_goes: "\<not> (limit \<noteq> None \<and> the limit \<le> claimed) \<Longrightarrow> pick limit claimed (c # cs) = c # pick limit (claimed + 1) cs"
  by (cases limit) (auto simp: pick_def take_Cons' Suc_diff_Suc)

lemma set_pick: "x \<in> set (pick limit n cs) \<Longrightarrow> x \<in> set cs"
  by (auto simp: pick_def split: option.splits dest: in_set_takeD)

lemma mail_pass_map:
  assumes "distinct (map em_id t)" "distinct (map em_id cs)"
    and "\<And>c. c \<in> set cs \<Longrightarrow> c \<in> set t \<and> em_state c = EM_PENDING \<and> em_attempts c < EMAIL_SEND_MAX_ATTEMPTS cfg"
    and "mail_pass cfg now limit send cs claimed sent failed t = (t', sent', failed')"
  shows "t' = map (\<lambda>x. if x \<in> set (pick limit claimed cs)
      then settled cfg (send (claimed_email now x)) (claimed_email now x) else x) t \<and>
    sent' + failed' = sent + failed + length (pick limit claimed cs)"
  using assms
proof (induction cs arbitrary: claimed sent failed t)
  case Nil
  then show ?case by (cases limit) (auto simp: pick_def)
next
  case (Cons c cs)
  show ?case
  proof (cases "limit \<noteq> None \<and> the limit \<le> claimed")
    case True
    with Cons.prems(4) show ?thesis by (simp add: pick_stops[OF True])
  next
    case False
    let ?e = "claimed_email now c"
    let ?s = "settled cfg (send ?e) ?e"
    have c: "c \<in> set t" "em_state c = EM_PENDING" "em_attempts c < EMAIL_SEND_MAX_ATTEMPTS cfg" using Cons.prems(3)[of c] by auto
    note claim = claim_email_known[OF Cons.prems(1) c]
    have e: "?e \<in> set (put_row em_id ?e t)" using c(1) by (force simp: put_row_def)
    have "distinct (map em_id (put_row em_id ?e t))" using Cons.prems(1) by simp
    from settle_email_row[OF this e] have settle: "settle_email cfg (send ?e) ?e (put_row em_id ?e t) = put_row em_id ?s t"
      by (simp add: claimed_email_def[of now c] put_row_twice)
    let ?t = "put_row em_id ?s t"
    have row: "x = c" if "x \<in> set t" "em_id x = em_id c" for x using distinct_key_unique[OF Cons.prems(1) that(1) c(1) that(2)] .
    obtain s1 f1 where pass: "mail_pass cfg now limit send cs (claimed + 1) s1 f1 ?t = (t', sent', failed')"
      and n: "s1 + f1 = sent + failed + 1"
      using Cons.prems(4) False claim settle by (auto simp: Let_def split: send_outcome.splits)
    have rest: "x \<in> set ?t \<and> em_state x = EM_PENDING \<and> em_attempts x < EMAIL_SEND_MAX_ATTEMPTS cfg" if "x \<in> set cs" for x
    proof -
      have "em_id x \<in> em_id ` set cs" using that by simp
      then have "em_id x \<noteq> em_id c" using Cons.prems(2) by fastforce
      with Cons.prems(3)[of x] that show ?thesis by (force simp: put_row_def)
    qed
    have ih: "t' = map (\<lambda>x. if x \<in> set (pick limit (claimed + 1) cs)
        then settled cfg (send (claimed_email now x)) (claimed_email now x) else x) ?t"
      "sent' + failed' = s1 + f1 + length (pick limit (claimed + 1) cs)"
      using Cons.IH[OF _ _ rest pass] Cons.prems(1,2) by auto
    have out: "y \<notin> set (pick limit (claimed + 1) cs)" if "em_id y = em_id c" for y
    proof
      assume "y \<in> set (pick limit (claimed + 1) cs)"
      then have "em_id y \<in> em_id ` set cs" using set_pick[of y limit "claimed + 1" cs] by simp
      with that Cons.prems(2) show False by simp
    qed
    have "t' = map (\<lambda>x. if x \<in> set (pick limit claimed (c # cs))
        then settled cfg (send (claimed_email now x)) (claimed_email now x) else x) t"
      unfolding ih(1) put_row_def map_map pick_goes[OF False] by (rule map_cong) (use row out in auto)
    with ih(2) n show ?thesis by (simp add: pick_goes[OF False])
  qed
qed

lemma send_pass_map:
  assumes "distinct (map em_id t)" "send_outbound_emails cfg now limit send t = (t', sent, failed)"
  shows "t' = map (\<lambda>x. if x \<in> set (dry_run_emails cfg now limit (fst (reap_emails cfg now t)))
      then settled cfg (send (claimed_email now x)) (claimed_email now x) else x) (fst (reap_emails cfg now t)) \<and>
    sent + failed = length (dry_run_emails cfg now limit (fst (reap_emails cfg now t)))"
proof -
  let ?t = "fst (reap_emails cfg now t)" and ?due = "iter_due_emails cfg now (fst (reap_emails cfg now t))"
  have ids: "map em_id ?t = map em_id t" by (rule map_id_reap)
  then have d: "distinct (map em_id ?t)" using assms(1) by simp
  have due: "distinct (map em_id ?due)"
    unfolding iter_due_emails_def distinct_order_by using d by (rule distinct_map_filter)
  have p: "dry_run_emails cfg now limit ?t = pick limit 0 ?due" by (simp add: dry_run_emails_def pick_def split: option.split)
  have run: "mail_pass cfg now limit send ?due 0 0 0 ?t = (t', sent, failed)"
    using assms(2) by (simp add: send_outbound_emails_def Let_def)
  from mail_pass_map[OF d due _ run] show ?thesis unfolding p by (auto simp: iter_due_emails_def email_due_def)
qed


subsection \<open>Properties\<close>

text \<open>A drain pass is exact. Of the queue as the reaper leaves it, it takes the due emails in
  schedule order, at most the limit of them, and sends each once: a marked one rests SENT, a
  raising one waits for its retry or, with its attempts used up, rests FAILED, one whose mark
  raised stays SENDING for the reaper. Every other row is as the reaper left it, and the counts
  add up.\<close>

theorem mail_pass_is_exact:
  assumes "distinct (map em_id t)" "send_outbound_emails cfg now limit send t = (t', sent, failed)"
  shows "t' = map (\<lambda>x. if x \<in> set (dry_run_emails cfg now limit (fst (reap_emails cfg now t)))
      then settled cfg (send (claimed_email now x)) (claimed_email now x) else x) (fst (reap_emails cfg now t)) \<and>
    sent + failed = length (dry_run_emails cfg now limit (fst (reap_emails cfg now t)))"
  using assms by (rule send_pass_map)

text \<open>The mailbox of the examples: one fresh email, one a crashed worker left, one already sent.\<close>

definition sample_mail :: "ulid \<Rightarrow> email_state \<Rightarrow> nat \<Rightarrow> datetime option \<Rightarrow> email" where
  "sample_mail i st n started =
     \<lparr>em_id = i, em_to = ''u@example.com'', em_template = ''welcome'', em_subject = ''s'', em_props = JObj [],
      em_key = i, em_state = st, em_attempts = n, em_error = '''', em_scheduled = 0, em_started = started,
      em_sent = (if st = EM_SENT then started else None)\<rparr>"

definition sample_box :: "email list" where
  "sample_box = [sample_mail ''m1'' EM_PENDING 0 None, sample_mail ''m2'' EM_SENDING 1 (Some 0), sample_mail ''m3'' EM_SENT 1 (Some 0)]"

definition flaky_send :: "email \<Rightarrow> send_outcome" where
  "flaky_send e = (if em_id e = ''m1'' then SendMarked (seconds 1001) else SendRaises ''timeout'' (seconds 1002))"

theorem mail_pass_is_exact_witness:
  "\<exists>t'. send_outbound_emails default_mail_settings (seconds 1000) None flaky_send sample_box = (t', 1, 1) \<and>
     map em_state t' = [EM_SENT, EM_PENDING, EM_SENT] \<and> map em_attempts t' = [1, 2, 1]"
proof -
  have d: "distinct (map em_id sample_box)" by (simp add: sample_box_def sample_mail_def)
  have c: "snd (send_outbound_emails default_mail_settings (seconds 1000) None flaky_send sample_box) = (1, 1)" by code_simp
  then obtain t' where r: "send_outbound_emails default_mail_settings (seconds 1000) None flaky_send sample_box = (t', 1, 1)"
    by (metis prod.collapse)
  let ?t = "fst (reap_emails default_mail_settings (seconds 1000) sample_box)"
  have "map em_state (map (\<lambda>x. if x \<in> set (dry_run_emails default_mail_settings (seconds 1000) None ?t)
      then settled default_mail_settings (flaky_send (claimed_email (seconds 1000) x)) (claimed_email (seconds 1000) x) else x) ?t)
    = [EM_SENT, EM_PENDING, EM_SENT]"
    "map em_attempts (map (\<lambda>x. if x \<in> set (dry_run_emails default_mail_settings (seconds 1000) None ?t)
      then settled default_mail_settings (flaky_send (claimed_email (seconds 1000) x)) (claimed_email (seconds 1000) x) else x) ?t)
    = [1, 2, 1]" by code_simp+
  then show ?thesis using r mail_pass_is_exact [OF d r] by (intro exI[of _ t']) (elim conjE, simp)
qed

text \<open>What every operation keeps: unique ids and keys, a PENDING row has attempts left, a SENDING row
  carries its claim.\<close>

definition email_ok :: "mail_settings \<Rightarrow> email \<Rightarrow> bool" where
  "email_ok cfg e \<longleftrightarrow>
     (case em_state e of
        EM_PENDING \<Rightarrow> em_attempts e < EMAIL_SEND_MAX_ATTEMPTS cfg
      | EM_SENDING \<Rightarrow> 0 < em_attempts e \<and> em_attempts e \<le> EMAIL_SEND_MAX_ATTEMPTS cfg \<and> em_started e \<noteq> None
      | EM_SENT \<Rightarrow> em_sent e \<noteq> None
      | EM_FAILED \<Rightarrow> EMAIL_SEND_MAX_ATTEMPTS cfg \<le> em_attempts e)"

definition mailbox_ok :: "mail_settings \<Rightarrow> email list \<Rightarrow> bool" where
  "mailbox_ok cfg t \<longleftrightarrow> distinct (map em_id t) \<and> distinct (map em_key t) \<and> list_all (email_ok cfg) t"

lemma mailbox_ok_map:
  "mailbox_ok cfg t \<Longrightarrow> (\<And>x. em_id (f x) = em_id x) \<Longrightarrow> (\<And>x. em_key (f x) = em_key x) \<Longrightarrow>
    (\<And>x. email_ok cfg x \<Longrightarrow> email_ok cfg (f x)) \<Longrightarrow> mailbox_ok cfg (map f t)"
  by (auto simp: mailbox_ok_def list_all_iff comp_def)

lemma mailbox_ok_reap: "mailbox_ok cfg t \<Longrightarrow> mailbox_ok cfg (fst (reap_emails cfg ts t))"
  unfolding reap_emails_map by (erule mailbox_ok_map) (auto simp: email_ok_def stale_email_def reaped_email_def)

lemma email_ok_settled:
  "email_ok cfg x \<Longrightarrow> em_state x = EM_PENDING \<Longrightarrow> email_ok cfg (settled cfg o' (claimed_email ts x))"
  by (auto simp: email_ok_def settled_def claimed_email_def split: send_outcome.split)


text \<open>No email is stuck. A pass keeps the queue well-formed, and every email that is not at rest,
  whose schedule has come and whose claim, if it has one, is older than the stale window, comes
  out of it SENT, FAILED, or with one more of its bounded attempts spent.\<close>

theorem no_email_is_stuck:
  assumes ok: "mailbox_ok cfg t" and x: "x \<in> set t" "em_state x = EM_PENDING \<or> stale_email (now - seconds (EMAIL_SEND_STALE_SECONDS cfg)) x"
    and time: "em_scheduled x \<le> now" and run: "send_outbound_emails cfg now None send t = (t', sent, failed)"
  shows "mailbox_ok cfg t' \<and> (\<exists>y\<in>set t'. em_id y = em_id x \<and>
    (em_state y = EM_SENT \<or> em_state y = EM_FAILED \<or> em_attempts x < em_attempts y))"
proof -
  let ?t = "fst (reap_emails cfg now t)"
  let ?f = "\<lambda>x. if x \<in> set (dry_run_emails cfg now None ?t) then settled cfg (send (claimed_email now x)) (claimed_email now x) else x"
  have okt: "mailbox_ok cfg ?t" using ok by (rule mailbox_ok_reap)
  have ids: "map em_id ?t = map em_id t" by (rule map_id_reap)
  from ok have d: "distinct (map em_id ?t)" unfolding ids by (simp add: mailbox_ok_def)
  have due: "set (dry_run_emails cfg now None ?t) = {y \<in> set ?t. email_due cfg now y}"
    by (auto simp: dry_run_emails_def iter_due_emails_def)
  have "distinct (map em_id t)" using ok by (simp add: mailbox_ok_def)
  from send_pass_map[OF this run] have t': "t' = map ?f ?t" by blast
  have "mailbox_ok cfg (map ?f ?t)"
  proof (rule mailbox_ok_map[OF okt])
    fix y assume y: "email_ok cfg y"
    show "email_ok cfg (?f y)"
    proof (cases "y \<in> set (dry_run_emails cfg now None ?t)")
      case True
      then have "em_state y = EM_PENDING" unfolding due by (simp add: email_due_def)
      with True email_ok_settled[OF y] show ?thesis by simp
    qed (use y in simp)
  qed simp_all
  moreover have z: "reaped_email cfg now x \<in> set ?t" using x(1) by (simp add: reap_emails_map)
  let ?z = "reaped_email cfg now x"
  have "em_id (?f ?z) = em_id x \<and> (em_state (?f ?z) = EM_SENT \<or> em_state (?f ?z) = EM_FAILED \<or> em_attempts x < em_attempts (?f ?z))"
  proof (cases "em_state ?z = EM_FAILED")
    case True
    with z show ?thesis by (simp add: due email_due_def)
  next
    case False
    with x(2) have "em_state ?z = EM_PENDING" by (auto simp: reaped_email_def split: if_splits)
    moreover from this okt z have "em_attempts ?z < EMAIL_SEND_MAX_ATTEMPTS cfg"
      by (auto simp: mailbox_ok_def list_all_iff email_ok_def)
    ultimately show ?thesis using z time by (simp add: due email_due_def)
  qed
  moreover have "?f ?z \<in> set (map ?f ?t)" unfolding set_map by (rule imageI[OF z])
  ultimately show ?thesis unfolding t' by blast
qed

theorem no_email_is_stuck_witness:
  "\<exists>t' sent failed. send_outbound_emails default_mail_settings (seconds 1000) None flaky_send sample_box = (t', sent, failed) \<and>
     (\<exists>y\<in>set t'. em_id y = ''m2'' \<and> (em_state y = EM_SENT \<or> em_state y = EM_FAILED \<or> 1 < em_attempts y))"
proof -
  let ?x = "sample_mail ''m2'' EM_SENDING 1 (Some 0)"
  obtain t' sent failed where r: "send_outbound_emails default_mail_settings (seconds 1000) None flaky_send sample_box = (t', sent, failed)"
    by (metis prod.collapse)
  have 1: "mailbox_ok default_mail_settings sample_box"
    by (simp add: mailbox_ok_def sample_box_def sample_mail_def email_ok_def default_mail_settings_def)
  have 2: "?x \<in> set sample_box" by (simp add: sample_box_def)
  have 3: "em_state ?x = EM_PENDING \<or> stale_email (seconds 1000 - seconds (EMAIL_SEND_STALE_SECONDS default_mail_settings)) ?x"
    by (simp add: stale_email_def sample_mail_def default_mail_settings_def seconds_def)
  have 4: "em_scheduled ?x \<le> seconds 1000" by (simp add: sample_mail_def seconds_def)
  have x: "em_id ?x = ''m2''" "em_attempts ?x = 1" by (simp_all add: sample_mail_def)
  from no_email_is_stuck [OF 1 2 3 4 r] r show ?thesis unfolding x by blast
qed

text \<open>C38: whatever the interleaving of drains, crashes and reaps, an email is marked SENT at most
  once and is handed to a sender, hence leaves, at most \<open>EMAIL_SEND_MAX_ATTEMPTS\<close> times.\<close>

theorem email_sent_once_within_cap:
  assumes "cas_reach em_id pending_email (claim_email cfg) (finish_email cfg) sent_ok (\<lambda>ts t. fst (reap_emails cfg ts t)) s"
  shows "distinct (cq_won s) \<and> count_list (cq_taken s) k \<le> EMAIL_SEND_MAX_ATTEMPTS cfg"
  using mq.success_at_most_once [OF assms] mq.claims_bounded [OF assms] by blast

definition mail_in_flight :: "email cas_state" where
  "mail_in_flight =
     \<lparr>cq_tbl = [claimed_email 5 (sample_mail ''m1'' EM_PENDING 0 None)], cq_held = [claimed_email 5 (sample_mail ''m1'' EM_PENDING 0 None)],
      cq_won = [], cq_taken = [''m1''], cq_used = [''m1'']\<rparr>"

lemma one_mail_reach:
  "cas_reach em_id pending_email (claim_email default_mail_settings) (finish_email default_mail_settings) sent_ok
     (\<lambda>ts t. fst (reap_emails default_mail_settings ts t)) mail_in_flight"
proof -
  let ?m = "sample_mail ''m1'' EM_PENDING 0 None"
  let ?s = "\<lparr>cq_tbl = [?m], cq_held = [], cq_won = [], cq_taken = [], cq_used = [''m1'']\<rparr>"
  note step = cas_reach.step[where key = em_id and cand = pending_email and claim = "claim_email default_mail_settings"
      and finish = "finish_email default_mail_settings" and good = sent_ok and reap = "\<lambda>ts t. fst (reap_emails default_mail_settings ts t)"]
  note claim = cas_step.claim[where key = em_id and cand = pending_email and claim = "claim_email default_mail_settings"
      and finish = "finish_email default_mail_settings" and good = sent_ok and reap = "\<lambda>ts t. fst (reap_emails default_mail_settings ts t)"]
  have 1: "cas_reach em_id pending_email (claim_email default_mail_settings) (finish_email default_mail_settings) sent_ok
     (\<lambda>ts t. fst (reap_emails default_mail_settings ts t)) ?s"
    using step[OF cas_reach.start cas_step.enqueue[of em_id ?m]] by (simp add: cas_init_def sample_mail_def)
  have "claim_email default_mail_settings 5 ?m (cq_tbl ?s) = ([claimed_email 5 ?m], Some (claimed_email 5 ?m))" by code_simp
  from step[OF 1 claim[OF _ this]] show ?thesis by (simp add: pending_email_def sample_mail_def mail_in_flight_def)
qed

theorem email_sent_once_within_cap_witness:
  "distinct (cq_won mail_in_flight) \<and> count_list (cq_taken mail_in_flight) ''m1'' \<le> EMAIL_SEND_MAX_ATTEMPTS default_mail_settings"
  by (rule email_sent_once_within_cap [OF one_mail_reach])

text \<open>A claim is stamped with the pass's start, not with its own time: once a pass has lasted longer
  than the stale window, every row it claims can be reset and claimed again, by an overlapping
  pass, while its sender is still at work.\<close>

lemma long_pass_claim_is_stale:
  assumes "distinct (map em_id t)" "claim_email cfg pass_start c t = (t', Some e)"
    and "pass_start < later - seconds (EMAIL_SEND_STALE_SECONDS cfg)" "em_attempts e < EMAIL_SEND_MAX_ATTEMPTS cfg"
  shows "\<exists>t2 e2. claim_email cfg later e (fst (reap_emails cfg later t')) = (t2, Some e2) \<and> em_id e2 = em_id e"
proof -
  from claim_email_Some[OF assms(1,2)] obtain x where x: "x \<in> set t" "em_id x = em_id c"
    "e = x\<lparr>em_state := EM_SENDING, em_started := Some pass_start, em_attempts := em_attempts x + 1\<rparr>" "t' = put_row em_id e t"
    by blast
  let ?y = "e\<lparr>em_state := EM_PENDING\<rparr>" and ?t = "fst (reap_emails cfg later t')"
  have e: "e \<in> set t'" using x(1,3,4) by (force simp: put_row_def)
  have "stale_email (later - seconds (EMAIL_SEND_STALE_SECONDS cfg)) e" using assms(3) x(3) by (simp add: stale_email_def)
  with e assms(4) have "?y = reaped_email cfg later e" by (simp add: reaped_email_def)
  with e have y: "?y \<in> set ?t" by (simp add: reap_emails_map)
  have "distinct (map em_id ?t)" unfolding map_id_reap using assms(1) x(4) by simp
  from claim_email_known[OF this y] assms(4)
  have "claim_email cfg later ?y ?t = (put_row em_id (claimed_email later ?y) ?t, Some (claimed_email later ?y))" by simp
  moreover have "em_id ?y = em_id e" by simp
  then have "claim_email cfg later ?y t3 = claim_email cfg later e t3" for t3
    unfolding claim_email_def by (simp only:)
  ultimately show ?thesis by simp
qed

end
