(* ===== verification/Locks.thy ===== *)
theory Locks
  imports Prelude
begin

text \<open>
  The cache-backed try-locks of \<open>common/locks.py\<close>, the lease renewer of
  \<open>common/lease_renewer.py\<close> and the single-flight commands of \<open>common/commands.py\<close>. The cache is
  Django's, with the documented meaning of get, add, set and delete under a timeout. Lemmas:
  renewal and release are two cache calls each, interleaved as such; while no window
  ends between its holder's read and write, no two holders of a name are live at once and the lock refines a mutex whose owner
  never changes without a free moment in between; a late write breaks both, and a lemma runs one; a
  hung holder's lock frees after the maximal hold and one window.
\<close>

subsection \<open>The cache\<close>

text \<open>An entry carries its expiry; an expired entry is absent.\<close>

type_synonym 'v cache = "string \<Rightarrow> ('v \<times> datetime) option"

definition cache_get :: "string \<Rightarrow> datetime \<Rightarrow> 'v cache \<Rightarrow> 'v option" where
  "cache_get k now c = (case c k of None \<Rightarrow> None | Some (v, until) \<Rightarrow> if now < until then Some v else None)"

definition cache_set :: "string \<Rightarrow> 'v \<Rightarrow> int \<Rightarrow> datetime \<Rightarrow> 'v cache \<Rightarrow> 'v cache" where
  "cache_set k v timeout now c = c(k \<mapsto> (v, now + seconds timeout))"

definition cache_add :: "string \<Rightarrow> 'v \<Rightarrow> int \<Rightarrow> datetime \<Rightarrow> 'v cache \<Rightarrow> 'v cache \<times> bool" where
  "cache_add k v timeout now c =
     (if cache_get k now c = None then (cache_set k v timeout now c, True) else (c, False))"

definition cache_delete :: "string \<Rightarrow> 'v cache \<Rightarrow> 'v cache" where
  "cache_delete k c = c(k := None)"

lemma cache_get_set [simp]:
  "cache_get k now (cache_set k v timeout t c) = (if now < t + seconds timeout then Some v else None)"
  "k' \<noteq> k \<Longrightarrow> cache_get k' now (cache_set k v timeout t c) = cache_get k' now c"
  by (simp_all add: cache_get_def cache_set_def)

lemma cache_get_delete [simp]:
  "cache_get k' now (cache_delete k c) = (if k' = k then None else cache_get k' now c)"
  by (simp add: cache_get_def cache_delete_def)

lemma cache_get_later: "cache_get k t c = Some v \<Longrightarrow> t' \<le> t \<Longrightarrow> cache_get k t' c = Some v"
  by (auto simp: cache_get_def split: option.splits if_splits)

lemma cache_get_lapsed: "cache_get k t c = None \<Longrightarrow> t \<le> t' \<Longrightarrow> cache_get k t' c = None"
  by (auto simp: cache_get_def split: option.splits if_splits)

lemma cache_get_keeps: "cache_get k t c = Some v \<Longrightarrow> cache_get k t' c = Some v \<or> cache_get k t' c = None"
  by (auto simp: cache_get_def split: option.splits if_splits)

subsection \<open>Locks\<close>

record lease =
  ls_name :: string
  ls_token :: string
  ls_timeout :: int
  ls_acquired :: bool

text \<open>\<open>named_lock\<close> up to its yield, and its \<open>finally\<close>, which goes by the outcome of the add.\<close>

definition named_lock_enter ::
  "string \<Rightarrow> string \<Rightarrow> int \<Rightarrow> datetime \<Rightarrow> string cache \<Rightarrow> string cache \<times> lease" where
  "named_lock_enter name token timeout now c =
     (case cache_add name token timeout now c of
        (c', acquired) \<Rightarrow> (c', \<lparr>ls_name = name, ls_token = token, ls_timeout = timeout, ls_acquired = acquired\<rparr>))"

definition named_lock_exit ::
  "string \<Rightarrow> string \<Rightarrow> bool \<Rightarrow> datetime \<Rightarrow> string cache \<Rightarrow> string cache" where
  "named_lock_exit name token acquired now c =
     (if acquired \<and> cache_get name now c = Some token then cache_delete name c else c)"

definition renew :: "datetime \<Rightarrow> lease \<Rightarrow> string cache \<Rightarrow> string cache \<times> lease \<times> bool" where
  "renew now l c =
     (if \<not> ls_acquired l then (c, l, False)
      else if cache_get (ls_name l) now c \<noteq> Some (ls_token l) then (c, l\<lparr>ls_acquired := False\<rparr>, False)
      else (cache_set (ls_name l) (ls_token l) (ls_timeout l) now c, l, True))"

record lock_settings =
  POLL_LOCK_TIMEOUT_SECONDS :: int
  FEED_SET_LOCK_TIMEOUT_SECONDS :: int
  PATH_CHAIN_LOCK_TIMEOUT_SECONDS :: int
  DIGEST_FLUSH_LOCK_TIMEOUT_SECONDS :: int
  JOB_LOCK_LEASE_SECONDS :: int
  JOB_LOCK_MAX_HOLD_SECONDS :: int
  REFRESH_TOKEN_LOCK_TIMEOUT_SECONDS :: int

definition default_lock_settings :: lock_settings where
  "default_lock_settings =
     \<lparr>POLL_LOCK_TIMEOUT_SECONDS = 600, FEED_SET_LOCK_TIMEOUT_SECONDS = 60,
      PATH_CHAIN_LOCK_TIMEOUT_SECONDS = 30, DIGEST_FLUSH_LOCK_TIMEOUT_SECONDS = 600,
      JOB_LOCK_LEASE_SECONDS = 300, JOB_LOCK_MAX_HOLD_SECONDS = 86400,
      REFRESH_TOKEN_LOCK_TIMEOUT_SECONDS = 30\<rparr>"

definition JOB_LOCK_KEY_PREFIX :: string where "JOB_LOCK_KEY_PREFIX = ''job_lock:''"

definition job_lock_key :: "string \<Rightarrow> string" where
  "job_lock_key name = JOB_LOCK_KEY_PREFIX @ name"

text \<open>The wrappers: the key and the timeout of each scope. SHA-256 (hex, \<open>sha\<close>) is the standard
  library's.\<close>

definition poll_lock :: "lock_settings \<Rightarrow> ulid \<Rightarrow> string \<times> int" where
  "poll_lock cfg feed = (''feed_poll_lock:'' @ feed, POLL_LOCK_TIMEOUT_SECONDS cfg)"

definition feed_set_lock :: "lock_settings \<Rightarrow> ulid \<Rightarrow> string \<times> int" where
  "feed_set_lock cfg feed = (''feed_set_lock:'' @ feed, FEED_SET_LOCK_TIMEOUT_SECONDS cfg)"

definition path_chain_lock :: "lock_settings \<Rightarrow> ulid \<Rightarrow> string \<times> int" where
  "path_chain_lock cfg path = (''path_chain_lock:'' @ path, PATH_CHAIN_LOCK_TIMEOUT_SECONDS cfg)"

definition digest_flush_lock :: "lock_settings \<Rightarrow> ulid \<Rightarrow> string \<times> int" where
  "digest_flush_lock cfg act = (''digest_flush_lock:'' @ act, DIGEST_FLUSH_LOCK_TIMEOUT_SECONDS cfg)"

definition job_lock :: "lock_settings \<Rightarrow> string \<Rightarrow> string \<times> int" where
  "job_lock cfg name = (job_lock_key name, JOB_LOCK_LEASE_SECONDS cfg)"

definition refresh_token_lock :: "(string \<Rightarrow> string) \<Rightarrow> lock_settings \<Rightarrow> string \<Rightarrow> string \<times> int" where
  "refresh_token_lock sha cfg refresh_token =
     (''refresh_token_lock:'' @ take 32 (sha refresh_token), REFRESH_TOKEN_LOCK_TIMEOUT_SECONDS cfg)"

subsection \<open>Holders over time\<close>

text \<open>The holders inside a \<open>with named_lock\<close> block that entered it truthy, with the flag of their
  lease. \<open>ho_until\<close> is a ghost: the last stamp of the lease plus its timeout. A renewal and a
  release are each two calls to the cache, a read and, if the read answered the holder's token, a
  write; \<open>ho_call\<close> says which write a holder has yet to make, and the ghost \<open>ho_read\<close> when it read.
  A holder that crashed is gone without its \<open>finally\<close>. \<open>lk_late\<close> is a ghost too: the names on which
  a write landed late, the writer's window having ended between its read and its write.\<close>

datatype lock_call = Working | Renewing | Releasing

record holder =
  ho_name :: string
  ho_token :: string
  ho_timeout :: int
  ho_until :: datetime
  ho_acquired :: bool
  ho_call :: lock_call
  ho_read :: datetime

record 'c lock_state =
  lk_cache :: 'c
  lk_now :: datetime
  lk_holders :: "holder list"
  lk_used :: "string list"
  lk_late :: "string list"

definition late_after :: "holder \<Rightarrow> 'c lock_state \<Rightarrow> string list" where
  "late_after h s = (if ho_read h < ho_until h \<and> ho_until h \<le> lk_now s then ho_name h # lk_late s else lk_late s)"

definition swap_holder :: "holder \<Rightarrow> holder \<Rightarrow> holder list \<Rightarrow> holder list" where
  "swap_holder h h' hs = h' # remove1 h hs"

inductive lock_step ::
  "(string \<Rightarrow> datetime \<Rightarrow> 'c \<Rightarrow> string option) \<Rightarrow>
   (string \<Rightarrow> string \<Rightarrow> int \<Rightarrow> datetime \<Rightarrow> 'c \<Rightarrow> 'c \<times> bool) \<Rightarrow>
   (string \<Rightarrow> string \<Rightarrow> int \<Rightarrow> datetime \<Rightarrow> 'c \<Rightarrow> 'c) \<Rightarrow>
   (string \<Rightarrow> 'c \<Rightarrow> 'c) \<Rightarrow> 'c lock_state \<Rightarrow> 'c lock_state \<Rightarrow> bool"
  for get enter put del
where
  tick: "lk_now s \<le> t \<Longrightarrow> lock_step get enter put del s (s\<lparr>lk_now := t\<rparr>)"
| enter: "k \<notin> set (lk_used s) \<Longrightarrow> enter n k timeout (lk_now s) (lk_cache s) = (c, b) \<Longrightarrow>
    lock_step get enter put del s (s\<lparr>lk_cache := c, lk_used := k # lk_used s,
      lk_holders := (if b then \<lparr>ho_name = n, ho_token = k, ho_timeout = timeout,
                               ho_until = lk_now s + seconds timeout, ho_acquired = True, ho_call = Working,
                               ho_read = lk_now s\<rparr> # lk_holders s
                     else lk_holders s)\<rparr>)"
| renew_read: "h \<in> set (lk_holders s) \<Longrightarrow> ho_call h = Working \<Longrightarrow> ho_acquired h \<Longrightarrow>
    lock_step get enter put del s (s\<lparr>lk_holders :=
      swap_holder h (if get (ho_name h) (lk_now s) (lk_cache s) = Some (ho_token h) then h\<lparr>ho_call := Renewing, ho_read := lk_now s\<rparr>
                     else h\<lparr>ho_acquired := False\<rparr>) (lk_holders s)\<rparr>)"
| renew_write: "h \<in> set (lk_holders s) \<Longrightarrow> ho_call h = Renewing \<Longrightarrow>
    lock_step get enter put del s (s\<lparr>lk_cache := put (ho_name h) (ho_token h) (ho_timeout h) (lk_now s) (lk_cache s),
      lk_holders := swap_holder h (h\<lparr>ho_until := lk_now s + seconds (ho_timeout h), ho_call := Working\<rparr>) (lk_holders s),
      lk_late := late_after h s\<rparr>)"
| exit_read: "h \<in> set (lk_holders s) \<Longrightarrow> ho_call h = Working \<Longrightarrow>
    lock_step get enter put del s (s\<lparr>lk_holders :=
      (if get (ho_name h) (lk_now s) (lk_cache s) = Some (ho_token h)
       then swap_holder h (h\<lparr>ho_call := Releasing, ho_read := lk_now s\<rparr>) (lk_holders s) else remove1 h (lk_holders s))\<rparr>)"
| exit_write: "h \<in> set (lk_holders s) \<Longrightarrow> ho_call h = Releasing \<Longrightarrow>
    lock_step get enter put del s (s\<lparr>lk_cache := del (ho_name h) (lk_cache s), lk_holders := remove1 h (lk_holders s),
      lk_late := late_after h s\<rparr>)"
| crash: "h \<in> set (lk_holders s) \<Longrightarrow>
    lock_step get enter put del s (s\<lparr>lk_holders := remove1 h (lk_holders s)\<rparr>)"

inductive lock_reach ::
  "(string \<Rightarrow> datetime \<Rightarrow> 'c \<Rightarrow> string option) \<Rightarrow>
   (string \<Rightarrow> string \<Rightarrow> int \<Rightarrow> datetime \<Rightarrow> 'c \<Rightarrow> 'c \<times> bool) \<Rightarrow>
   (string \<Rightarrow> string \<Rightarrow> int \<Rightarrow> datetime \<Rightarrow> 'c \<Rightarrow> 'c) \<Rightarrow>
   (string \<Rightarrow> 'c \<Rightarrow> 'c) \<Rightarrow> 'c \<Rightarrow> 'c lock_state \<Rightarrow> bool"
  for get enter put del c0
where
  start: "lock_reach get enter put del c0 \<lparr>lk_cache = c0, lk_now = t, lk_holders = [], lk_used = [], lk_late = []\<rparr>"
| step: "lock_reach get enter put del c0 s \<Longrightarrow> lock_step get enter put del s s' \<Longrightarrow> lock_reach get enter put del c0 s'"

text \<open>Who owns which name, of the names on which every write so far has landed in time.\<close>

definition timely_owners :: "(string \<Rightarrow> datetime \<Rightarrow> 'c \<Rightarrow> string option) \<Rightarrow> string list \<Rightarrow> 'c lock_state \<Rightarrow> string \<Rightarrow> string option" where
  "timely_owners get late s n = (if n \<in> set late then None else get n (lk_now s) (lk_cache s))"

subsection \<open>The specification: a mutex per name\<close>

text \<open>A name is free or owned by a token; it is taken when free, given back by its owner, or
  lapses.\<close>

inductive mutex_step :: "(string \<Rightarrow> string option) \<Rightarrow> (string \<Rightarrow> string option) \<Rightarrow> bool" where
  take: "m n = None \<Longrightarrow> mutex_step m (m(n \<mapsto> k))"
| give_back: "m n = Some k \<Longrightarrow> mutex_step m (m(n := None))"
| lapse: "mutex_step m (\<lambda>n. if n \<in> S then None else m n)"

lemma mutex_stutter: "mutex_step m m"
  using mutex_step.lapse[of m "{}"] by simp

lemma mutex_lapse_one: "mutex_step m (m(n := None))"
  using mutex_step.lapse[of m "{n}"] by (simp add: fun_upd_def)

subsection \<open>The contract of a lease lock\<close>

locale lease_lock =
  fixes get :: "string \<Rightarrow> datetime \<Rightarrow> 'c \<Rightarrow> string option"
    and enter :: "string \<Rightarrow> string \<Rightarrow> int \<Rightarrow> datetime \<Rightarrow> 'c \<Rightarrow> 'c \<times> bool"
    and put :: "string \<Rightarrow> string \<Rightarrow> int \<Rightarrow> datetime \<Rightarrow> 'c \<Rightarrow> 'c"
    and del :: "string \<Rightarrow> 'c \<Rightarrow> 'c"
    and c0 :: 'c
  assumes enter_free: "enter n k timeout t c = (c', True) \<Longrightarrow> get n t c = None"
    and enter_puts: "enter n k timeout t c = (c', True) \<Longrightarrow> c' = put n k timeout t c"
    and enter_missed: "enter n k timeout t c = (c', False) \<Longrightarrow> c' = c"
    and put_stamps: "t' < t + seconds timeout \<Longrightarrow> get n t' (put n k timeout t c) = Some k"
    and put_lapses: "t + seconds timeout \<le> t' \<Longrightarrow> get n t' (put n k timeout t c) = None"
    and put_sets: "get n t' (put n k timeout t c) = Some k \<or> get n t' (put n k timeout t c) = None"
    and put_other: "m \<noteq> n \<Longrightarrow> get m t' (put n k timeout t c) = get m t' c"
    and del_frees: "get n t' (del n c) = None"
    and del_other: "m \<noteq> n \<Longrightarrow> get m t' (del n c) = get m t' c"
    and get_lapses: "get n t c = Some k \<Longrightarrow> get n t' c = Some k \<or> get n t' c = None"
    and get_gone: "get n t c = None \<Longrightarrow> t \<le> t' \<Longrightarrow> get n t' c = None"
    and get_init: "get n t c0 = None"
begin

abbreviation reach :: "'c lock_state \<Rightarrow> bool" where
  "reach \<equiv> lock_reach get enter put del c0"

text \<open>On a name without late writes a holder owns the name exactly within its window, a holder that
  was told its lease is lost never owns it again, and only a holder that read within its window,
  and was not told so, writes.\<close>

definition holder_ok :: "'c lock_state \<Rightarrow> holder \<Rightarrow> bool" where
  "holder_ok s h \<longleftrightarrow> ho_name h \<in> set (lk_late s) \<or>
     (ho_acquired h \<longrightarrow> (\<forall>t<ho_until h. lk_now s \<le> t \<longrightarrow> get (ho_name h) t (lk_cache s) = Some (ho_token h))) \<and>
     (\<not> ho_acquired h \<longrightarrow> (\<forall>t. lk_now s \<le> t \<longrightarrow> get (ho_name h) t (lk_cache s) \<noteq> Some (ho_token h))) \<and>
     (\<forall>t\<ge>ho_until h. lk_now s \<le> t \<longrightarrow> get (ho_name h) t (lk_cache s) \<noteq> Some (ho_token h)) \<and>
     (ho_call h \<noteq> Working \<longrightarrow> ho_acquired h \<and> ho_read h < ho_until h)"

definition own_tokens :: "'c lock_state \<Rightarrow> bool" where
  "own_tokens s \<longleftrightarrow> distinct (map ho_token (lk_holders s)) \<and> ho_token ` set (lk_holders s) \<subseteq> set (lk_used s) \<and>
     (\<forall>n t k. get n t (lk_cache s) = Some k \<longrightarrow> k \<in> set (lk_used s)) \<and> (\<forall>h\<in>set (lk_holders s). holder_ok s h)"

lemma own_tokensI:
  assumes "distinct (map ho_token (lk_holders s))" "ho_token ` set (lk_holders s) \<subseteq> set (lk_used s)"
    and "\<And>n t k. get n t (lk_cache s) = Some k \<Longrightarrow> k \<in> set (lk_used s)" "\<And>h. h \<in> set (lk_holders s) \<Longrightarrow> holder_ok s h"
  shows "own_tokens s"
  using assms by (auto simp: own_tokens_def)

lemma own_tokensD:
  assumes "own_tokens s"
  shows "distinct (map ho_token (lk_holders s))" "h \<in> set (lk_holders s) \<Longrightarrow> ho_token h \<in> set (lk_used s)"
    "get n t (lk_cache s) = Some k \<Longrightarrow> k \<in> set (lk_used s)" "h \<in> set (lk_holders s) \<Longrightarrow> holder_ok s h"
  using assms by (auto simp: own_tokens_def)

lemma holder_okD:
  assumes "holder_ok s h" "ho_name h \<notin> set (lk_late s)"
  shows "ho_acquired h \<Longrightarrow> lk_now s \<le> t \<Longrightarrow> t < ho_until h \<Longrightarrow> get (ho_name h) t (lk_cache s) = Some (ho_token h)"
    "\<not> ho_acquired h \<Longrightarrow> lk_now s \<le> t \<Longrightarrow> get (ho_name h) t (lk_cache s) \<noteq> Some (ho_token h)"
    "ho_call h \<noteq> Working \<Longrightarrow> ho_acquired h"
    "ho_call h \<noteq> Working \<Longrightarrow> ho_read h < ho_until h"
    "get (ho_name h) (lk_now s) (lk_cache s) = Some (ho_token h) \<Longrightarrow> lk_now s < ho_until h"
  using assms unfolding holder_ok_def by (blast | metis not_le order_refl)+

lemma get_earlier: "get n t c = Some k \<Longrightarrow> t' \<le> t \<Longrightarrow> get n t' c = Some k"
  using get_lapses[of n t c k t'] get_gone[of n t' c t] by auto

text \<open>The holders besides one, and the list with one replaced.\<close>

lemma holder_rest:
  assumes "own_tokens s" "h \<in> set (lk_holders s)"
  shows "set (remove1 h (lk_holders s)) = set (lk_holders s) - {h}"
    "g \<in> set (lk_holders s) - {h} \<Longrightarrow> ho_token g \<noteq> ho_token h"
    "distinct (map ho_token (remove1 h (lk_holders s)))"
    "ho_token h' = ho_token h \<Longrightarrow> distinct (map ho_token (swap_holder h h' (lk_holders s)))"
    "set (swap_holder h h' (lk_holders s)) = insert h' (set (lk_holders s) - {h})"
proof -
  have d: "distinct (map ho_token (lk_holders s))" using assms(1) by (rule own_tokensD)
  then have "distinct (lk_holders s)" by (simp add: distinct_map)
  then show r: "set (remove1 h (lk_holders s)) = set (lk_holders s) - {h}" by (rule set_remove1_eq)
  show n: "ho_token g \<noteq> ho_token h" if "g \<in> set (lk_holders s) - {h}" for g
    using d assms(2) that by (auto simp: distinct_map inj_on_def)
  show rd: "distinct (map ho_token (remove1 h (lk_holders s)))"
    using d by (auto simp: distinct_map distinct_remove1 r inj_on_def)
  show "distinct (map ho_token (swap_holder h h' (lk_holders s)))" if "ho_token h' = ho_token h"
  proof -
    have "ho_token h' \<notin> ho_token ` (set (lk_holders s) - {h})" using n that by force
    with rd show ?thesis by (simp add: swap_holder_def r)
  qed
  show "set (swap_holder h h' (lk_holders s)) = insert h' (set (lk_holders s) - {h})" by (simp add: swap_holder_def r)
qed

lemma own_tokens_tick: "own_tokens s \<Longrightarrow> lk_now s \<le> t \<Longrightarrow> own_tokens (s\<lparr>lk_now := t\<rparr>)"
  by (auto simp: own_tokens_def holder_ok_def)

lemma own_tokens_drop:
  assumes "own_tokens s" "h \<in> set (lk_holders s)"
  shows "own_tokens (s\<lparr>lk_holders := remove1 h (lk_holders s)\<rparr>)"
  using assms(1) holder_rest(1,3)[OF assms] by (auto simp: own_tokens_def holder_ok_def)

lemma own_tokens_swap:
  assumes "own_tokens s" "h \<in> set (lk_holders s)" "ho_token h' = ho_token h" "holder_ok s h'"
  shows "own_tokens (s\<lparr>lk_holders := swap_holder h h' (lk_holders s)\<rparr>)"
  using assms(1) holder_rest(4,5)[OF assms(1,2), of h'] assms(2-4) by (auto simp: own_tokens_def holder_ok_def)

lemma own_tokens_enter:
  assumes i: "own_tokens s" and k: "k \<notin> set (lk_used s)" and e: "enter n k timeout (lk_now s) (lk_cache s) = (c, b)"
  shows "own_tokens (s\<lparr>lk_cache := c, lk_used := k # lk_used s,
      lk_holders := (if b then \<lparr>ho_name = n, ho_token = k, ho_timeout = timeout,
        ho_until = lk_now s + seconds timeout, ho_acquired = True, ho_call = Working, ho_read = lk_now s\<rparr> # lk_holders s else lk_holders s)\<rparr>)"
proof (cases b)
  case False
  with e have "c = lk_cache s" using enter_missed[of n k timeout "lk_now s" "lk_cache s" c] by simp
  with False i show ?thesis by (auto simp: own_tokens_def holder_ok_def)
next
  case True
  let ?c = "put n k timeout (lk_now s) (lk_cache s)"
  have e': "enter n k timeout (lk_now s) (lk_cache s) = (c, True)" using e True by simp
  have c: "c = ?c" using enter_puts[OF e'] .
  note free = enter_free[OF e'] and tk = own_tokensD[OF i]
  have used: "x \<in> insert k (set (lk_used s))" if "get m t ?c = Some x" for m t x
    using that put_sets[of n t k timeout "lk_now s" "lk_cache s"] put_other[of m n] tk(3) by (cases "m = n") auto
  have fresh: "ho_token h \<noteq> k" if "h \<in> set (lk_holders s)" for h using k tk(2)[OF that] by auto
  have old: "holder_ok (s\<lparr>lk_cache := ?c, lk_used := u, lk_holders := hs\<rparr>) h" if h: "h \<in> set (lk_holders s)" for h u hs
  proof (cases "ho_name h = n")
    case same: True
    have "get n t ?c \<noteq> Some (ho_token h)" for t using put_sets[of n t k timeout "lk_now s" "lk_cache s"] fresh[OF h] by auto
    moreover have "ho_until h \<le> lk_now s" if "ho_name h \<notin> set (lk_late s)" "ho_acquired h"
      using holder_okD(1)[OF tk(4)[OF h] that, of "lk_now s"] free same by force
    ultimately show ?thesis using tk(4)[OF h] same unfolding holder_ok_def by force
  next
    case False
    then show ?thesis using tk(4)[OF h] put_other[OF False] by (simp add: holder_ok_def)
  qed
  have new: "holder_ok (s\<lparr>lk_cache := ?c, lk_used := u, lk_holders := hs\<rparr>)
      \<lparr>ho_name = n, ho_token = k, ho_timeout = timeout, ho_until = lk_now s + seconds timeout, ho_acquired = True, ho_call = Working,
        ho_read = lk_now s\<rparr>" for u hs
    by (simp add: holder_ok_def put_stamps put_lapses)
  have all: "holder_ok (s\<lparr>lk_cache := ?c, lk_used := u, lk_holders := hs\<rparr>) h"
    if "h \<in> insert \<lparr>ho_name = n, ho_token = k, ho_timeout = timeout, ho_until = lk_now s + seconds timeout, ho_acquired = True,
      ho_call = Working, ho_read = lk_now s\<rparr> (set (lk_holders s))" for h u hs
    using that new old by blast
  show ?thesis
    unfolding c by (rule own_tokensI) (use True used fresh tk(1,2) all in auto)
qed

lemma own_tokens_renew_read:
  assumes i: "own_tokens s" and h: "h \<in> set (lk_holders s)" "ho_call h = Working" "ho_acquired h"
  shows "own_tokens (s\<lparr>lk_holders :=
      swap_holder h (if get (ho_name h) (lk_now s) (lk_cache s) = Some (ho_token h) then h\<lparr>ho_call := Renewing, ho_read := lk_now s\<rparr>
                     else h\<lparr>ho_acquired := False\<rparr>) (lk_holders s)\<rparr>)"
proof (rule own_tokens_swap[OF i h(1)])
  have "holder_ok s h" using own_tokensD(4)[OF i h(1)] .
  moreover have "get (ho_name h) t (lk_cache s) \<noteq> Some (ho_token h)"
    if "get (ho_name h) (lk_now s) (lk_cache s) \<noteq> Some (ho_token h)" "lk_now s \<le> t" for t
    using get_earlier that by blast
  moreover have "lk_now s < ho_until h"
    if "get (ho_name h) (lk_now s) (lk_cache s) = Some (ho_token h)" "ho_name h \<notin> set (lk_late s)"
    using holder_okD(5)[OF own_tokensD(4)[OF i h(1)] that(2,1)] .
  ultimately show "holder_ok s (if get (ho_name h) (lk_now s) (lk_cache s) = Some (ho_token h) then h\<lparr>ho_call := Renewing, ho_read := lk_now s\<rparr>
      else h\<lparr>ho_acquired := False\<rparr>)" using h(2,3) by (auto simp: holder_ok_def)
qed simp

text \<open>A write in time lands while its writer owns the name.\<close>

lemma write_owns:
  assumes "own_tokens s" "h \<in> set (lk_holders s)" "ho_call h \<noteq> Working" "ho_name h \<notin> set (late_after h s)"
  shows "get (ho_name h) (lk_now s) (lk_cache s) = Some (ho_token h)"
  using holder_okD(1)[OF own_tokensD(4)[OF assms(1,2)], of "lk_now s"] holder_okD(3,4)[OF own_tokensD(4)[OF assms(1,2)]] assms(3,4) by (auto simp: late_after_def split: if_splits)

text \<open>After a write on the writer's name the other holders are as before or out of their windows.\<close>

lemma others_after_write:
  assumes i: "own_tokens s" and h: "h \<in> set (lk_holders s)" "ho_call h \<noteq> Working" and g: "g \<in> set (lk_holders s) - {h}"
    and w: "\<And>t. get (ho_name h) t c = Some (ho_token h) \<or> get (ho_name h) t c = None"
    and o': "\<And>m t. m \<noteq> ho_name h \<Longrightarrow> get m t c = get m t (lk_cache s)"
  shows "holder_ok (s\<lparr>lk_cache := c, lk_holders := hs, lk_late := late_after h s\<rparr>) g"
proof (cases "ho_name g = ho_name h")
  case same: True
  note ok = own_tokensD(4)[OF i, of g] and ne = holder_rest(2)[OF i h(1) g]
  show ?thesis
  proof (cases "ho_name h \<in> set (late_after h s)")
    case False
    then have late: "ho_name g \<notin> set (lk_late s)" using same by (auto simp: late_after_def split: if_splits)
    have "ho_until g \<le> lk_now s" if "ho_acquired g"
      using holder_okD(1)[OF ok late that, of "lk_now s"] write_owns[OF i h False] same g ne by force
    moreover have "get (ho_name g) t c \<noteq> Some (ho_token g)" for t using w[of t] same ne by auto
    ultimately show ?thesis using holder_okD(3,4)[OF ok late] g unfolding holder_ok_def by force
  qed (simp add: holder_ok_def same)
next
  case False
  have "set (lk_late s) \<subseteq> set (late_after h s)" by (auto simp: late_after_def)
  then show ?thesis using own_tokensD(4)[OF i, of g] g o'[OF False] by (auto simp: holder_ok_def)
qed

lemma used_after_write:
  assumes i: "own_tokens s" and h: "h \<in> set (lk_holders s)"
    and w: "\<And>t. get (ho_name h) t c = Some (ho_token h) \<or> get (ho_name h) t c = None"
    and o': "\<And>m t. m \<noteq> ho_name h \<Longrightarrow> get m t c = get m t (lk_cache s)" and "get n t c = Some k"
  shows "k \<in> set (lk_used s)"
  using own_tokensD(2)[OF i h] own_tokensD(3)[OF i, of n t k] w[of t] o'[of n t] assms(5) by (cases "n = ho_name h") auto

lemma own_tokens_renew_write:
  assumes i: "own_tokens s" and h: "h \<in> set (lk_holders s)" "ho_call h = Renewing"
  shows "own_tokens (s\<lparr>lk_cache := put (ho_name h) (ho_token h) (ho_timeout h) (lk_now s) (lk_cache s),
      lk_holders := swap_holder h (h\<lparr>ho_until := lk_now s + seconds (ho_timeout h), ho_call := Working\<rparr>) (lk_holders s),
      lk_late := late_after h s\<rparr>)" (is "own_tokens ?s")
proof -
  let ?c = "put (ho_name h) (ho_token h) (ho_timeout h) (lk_now s) (lk_cache s)"
  let ?h = "h\<lparr>ho_until := lk_now s + seconds (ho_timeout h), ho_call := Working\<rparr>"
  have hw: "ho_call h \<noteq> Working" using h(2) by simp
  note rest = holder_rest[OF i h(1)]
  have mine: "holder_ok ?s ?h"
  proof (cases "ho_name h \<in> set (late_after h s)")
    case False
    then have "ho_name h \<notin> set (lk_late s)" by (auto simp: late_after_def split: if_splits)
    then have "ho_acquired h" using holder_okD(3)[OF own_tokensD(4)[OF i h(1)]] hw by blast
    then show ?thesis by (simp add: holder_ok_def put_stamps put_lapses)
  qed (simp add: holder_ok_def)
  have others: "holder_ok ?s g" if "g \<in> set (lk_holders s) - {h}" for g
    by (rule others_after_write[OF i h(1) hw that put_sets put_other])
  show ?thesis
  proof (rule own_tokensI)
    show "distinct (map ho_token (lk_holders ?s))" using rest(4)[of ?h] by simp
    show "ho_token ` set (lk_holders ?s) \<subseteq> set (lk_used ?s)" using own_tokensD(2)[OF i] h(1) by (auto simp: rest(5))
    show "k \<in> set (lk_used ?s)" if "get n t (lk_cache ?s) = Some k" for n t k
    proof -
      have "get n t ?c = Some k" using that by simp
      from used_after_write[OF i h(1) put_sets put_other this] show ?thesis by simp
    qed
    show "holder_ok ?s g" if "g \<in> set (lk_holders ?s)" for g
      using that mine others by (auto simp: rest(5))
  qed
qed

lemma own_tokens_exit_read:
  assumes i: "own_tokens s" and h: "h \<in> set (lk_holders s)" "ho_call h = Working"
  shows "own_tokens (s\<lparr>lk_holders :=
      (if get (ho_name h) (lk_now s) (lk_cache s) = Some (ho_token h)
       then swap_holder h (h\<lparr>ho_call := Releasing, ho_read := lk_now s\<rparr>) (lk_holders s) else remove1 h (lk_holders s))\<rparr>)"
proof (cases "get (ho_name h) (lk_now s) (lk_cache s) = Some (ho_token h)")
  case True
  have ok: "holder_ok s h" using own_tokensD(4)[OF i h(1)] .
  have "ho_acquired h \<and> lk_now s < ho_until h" if "ho_name h \<notin> set (lk_late s)"
    using holder_okD(2)[OF ok that, of "lk_now s"] holder_okD(5)[OF ok that] True by auto
  then have "holder_ok s (h\<lparr>ho_call := Releasing, ho_read := lk_now s\<rparr>)" using ok unfolding holder_ok_def by auto
  with own_tokens_swap[OF i h(1), of "h\<lparr>ho_call := Releasing, ho_read := lk_now s\<rparr>"] True show ?thesis by simp
next
  case False
  then show ?thesis using own_tokens_drop[OF i h(1)] by simp
qed

lemma own_tokens_exit_write:
  assumes i: "own_tokens s" and h: "h \<in> set (lk_holders s)" "ho_call h = Releasing"
  shows "own_tokens (s\<lparr>lk_cache := del (ho_name h) (lk_cache s), lk_holders := remove1 h (lk_holders s),
      lk_late := late_after h s\<rparr>)" (is "own_tokens ?s")
proof -
  have hw: "ho_call h \<noteq> Working" using h(2) by simp
  note rest = holder_rest[OF i h(1)]
  have gone: "get (ho_name h) t (del (ho_name h) (lk_cache s)) = Some (ho_token h) \<or> get (ho_name h) t (del (ho_name h) (lk_cache s)) = None" for t
    using del_frees by simp
  show ?thesis
  proof (rule own_tokensI)
    show "distinct (map ho_token (lk_holders ?s))" using rest(3) by simp
    show "ho_token ` set (lk_holders ?s) \<subseteq> set (lk_used ?s)" using own_tokensD(2)[OF i] by (auto simp: rest(1))
    show "k \<in> set (lk_used ?s)" if "get n t (lk_cache ?s) = Some k" for n t k
    proof -
      have "get n t (del (ho_name h) (lk_cache s)) = Some k" using that by simp
      from used_after_write[OF i h(1) gone del_other this] show ?thesis by simp
    qed
    show "holder_ok ?s g" if "g \<in> set (lk_holders ?s)" for g
      using others_after_write[OF i h(1) hw _ gone del_other, of g] that by (auto simp: rest(1))
  qed
qed

lemma own_tokens_step: "lock_step get enter put del s s' \<Longrightarrow> own_tokens s \<Longrightarrow> own_tokens s'"
  by (induction rule: lock_step.induct)
     (blast intro: own_tokens_tick own_tokens_enter own_tokens_renew_read own_tokens_renew_write own_tokens_exit_read
       own_tokens_exit_write own_tokens_drop)+

lemma reach_own_tokens: "reach s \<Longrightarrow> own_tokens s"
  by (induction rule: lock_reach.induct) (simp add: own_tokens_def get_init, blast intro: own_tokens_step)

text \<open>Two live holders of one name are the same holder.\<close>

lemma live_holder_unique:
  assumes "reach s" "h \<in> set (lk_holders s)" "h' \<in> set (lk_holders s)" "ho_name h = ho_name h'" "ho_name h \<notin> set (lk_late s)"
    and "ho_acquired h" "ho_acquired h'" "lk_now s < ho_until h" "lk_now s < ho_until h'"
  shows "h = h'"
proof -
  have i: "own_tokens s" using assms(1) by (rule reach_own_tokens)
  have "ho_token h = ho_token h'"
    using holder_okD(1)[OF own_tokensD(4)[OF i assms(2)] assms(5,6) order_refl assms(8)]
      holder_okD(1)[OF own_tokensD(4)[OF i assms(3)] assms(5)[unfolded assms(4)] assms(7) order_refl assms(9)] assms(4)
    by simp
  then show ?thesis using own_tokensD(1)[OF i] assms(2,3) by (auto simp: distinct_map inj_on_def)
qed

text \<open>Every step refines a step of the mutex.\<close>

lemma mutex_write:
  assumes "own_tokens s" "h \<in> set (lk_holders s)" "ho_call h \<noteq> Working"
    and w: "get (ho_name h) (lk_now s) c = Some (ho_token h) \<or> get (ho_name h) (lk_now s) c = None"
    and o': "\<And>m. m \<noteq> ho_name h \<Longrightarrow> get m (lk_now s) c = get m (lk_now s) (lk_cache s)"
  shows "mutex_step (timely_owners get (late_after h s) s) (timely_owners get (late_after h s) (s\<lparr>lk_cache := c, lk_holders := hs, lk_late := l\<rparr>))"
proof (cases "ho_name h \<in> set (late_after h s)")
  case True
  then have "timely_owners get (late_after h s) (s\<lparr>lk_cache := c, lk_holders := hs, lk_late := l\<rparr>) n = timely_owners get (late_after h s) s n" for n
    by (cases "n = ho_name h") (simp_all add: timely_owners_def o')
  then have "timely_owners get (late_after h s) (s\<lparr>lk_cache := c, lk_holders := hs, lk_late := l\<rparr>) = timely_owners get (late_after h s) s"
    by (rule ext)
  then show ?thesis by (simp only: mutex_stutter)
next
  case False
  let ?m = "timely_owners get (late_after h s) s"
  have "timely_owners get (late_after h s) (s\<lparr>lk_cache := c, lk_holders := hs, lk_late := l\<rparr>) n =
      (?m(ho_name h := get (ho_name h) (lk_now s) c)) n" for n
    using False by (cases "n = ho_name h") (simp_all add: timely_owners_def o')
  then have eq: "timely_owners get (late_after h s) (s\<lparr>lk_cache := c, lk_holders := hs, lk_late := l\<rparr>) =
      ?m(ho_name h := get (ho_name h) (lk_now s) c)" by (rule ext)
  have "?m (ho_name h) = Some (ho_token h)" using write_owns[OF assms(1-3) False] False by (simp add: timely_owners_def)
  then show ?thesis unfolding eq using w mutex_step.give_back[of ?m "ho_name h"] mutex_stutter[of ?m] by (auto simp: fun_upd_idem)
qed

lemma owners_holders: "timely_owners get l (s\<lparr>lk_holders := hs\<rparr>) = timely_owners get l s"
  by (rule ext) (simp add: timely_owners_def)

lemma refines_mutex:
  assumes "lock_step get enter put del s s'" "own_tokens s"
  shows "mutex_step (timely_owners get (lk_late s') s) (timely_owners get (lk_late s') s')"
  using assms
proof (induction rule: lock_step.induct)
  case (tick s t)
  let ?S = "{n. get n t (lk_cache s) = None}"
  let ?m = "timely_owners get (lk_late s) s"
  have "timely_owners get (lk_late s) (s\<lparr>lk_now := t\<rparr>) n = (if n \<in> ?S then None else ?m n)" for n
    using get_gone[OF _ tick(1), of n "lk_cache s"] get_lapses[of n "lk_now s" "lk_cache s" _ t]
    by (cases "get n (lk_now s) (lk_cache s)") (auto simp: timely_owners_def)
  then have "timely_owners get (lk_late s) (s\<lparr>lk_now := t\<rparr>) = (\<lambda>n. if n \<in> ?S then None else ?m n)" by (rule ext)
  with mutex_step.lapse[of ?m ?S] have "mutex_step ?m (timely_owners get (lk_late s) (s\<lparr>lk_now := t\<rparr>))" by (simp only:)
  then show ?case by simp
next
  case (enter k s n timeout c b)
  let ?m = "timely_owners get (lk_late s) s"
  show ?case
  proof (cases "b \<and> n \<notin> set (lk_late s)")
    case True
    with enter(2) have e: "enter n k timeout (lk_now s) (lk_cache s) = (c, True)" by simp
    note c = enter_puts[OF e]
    have eq: "timely_owners get (lk_late s) (s\<lparr>lk_cache := c, lk_used := u, lk_holders := hs\<rparr>) = ?m(n := get n (lk_now s) c)" for u hs
      unfolding c using True put_other[of _ n] by (auto simp: timely_owners_def)
    have "?m n = None" using enter_free[OF e] by (simp add: timely_owners_def)
    then have "mutex_step ?m (?m(n := get n (lk_now s) c))"
      unfolding c using put_sets[of n "lk_now s" k timeout "lk_now s" "lk_cache s"] mutex_step.take[of ?m n k] mutex_lapse_one[of ?m n] by auto
    moreover have "lk_late (s\<lparr>lk_cache := c, lk_used := u, lk_holders := hs\<rparr>) = lk_late s" for u hs by simp
    ultimately show ?thesis by (simp only: eq)
  next
    case False
    have "c = lk_cache s \<or> c = put n k timeout (lk_now s) (lk_cache s) \<and> n \<in> set (lk_late s)"
      using False enter(2) enter_missed[of n k timeout "lk_now s" "lk_cache s" c] enter_puts[of n k timeout "lk_now s" "lk_cache s" c]
      by (cases b) auto
    moreover have "get m t (put n k timeout (lk_now s) (lk_cache s)) = get m t (lk_cache s)"
      if "m \<notin> set (lk_late s)" "n \<in> set (lk_late s)" for m t using that put_other[of m n] by blast
    ultimately have "timely_owners get (lk_late s) (s\<lparr>lk_cache := c, lk_used := u, lk_holders := hs\<rparr>) = ?m" for u hs
      by (auto simp: timely_owners_def fun_eq_iff)
    then show ?thesis by (simp add: mutex_stutter)
  qed
next
  case (renew_write h s)
  then show ?case using mutex_write[of s h "put (ho_name h) (ho_token h) (ho_timeout h) (lk_now s) (lk_cache s)"] put_sets put_other by simp
next
  case (exit_write h s)
  then show ?case using mutex_write[of s h "del (ho_name h) (lk_cache s)"] del_frees del_other by simp
qed (simp_all add: owners_holders mutex_stutter)

end

subsection \<open>The cache lock keeps the contract\<close>

definition lock_enter :: "string \<Rightarrow> string \<Rightarrow> int \<Rightarrow> datetime \<Rightarrow> string cache \<Rightarrow> string cache \<times> bool" where
  "lock_enter n k timeout t c = (case named_lock_enter n k timeout t c of (c', l) \<Rightarrow> (c', ls_acquired l))"

lemma lock_enter_eq: "lock_enter n k timeout t c = cache_add n k timeout t c"
  by (simp add: lock_enter_def named_lock_enter_def split: prod.split)

interpretation nl: lease_lock cache_get lock_enter cache_set cache_delete Map.empty
proof unfold_locales
  fix n t c k t' assume "cache_get n t (c :: string cache) = Some k"
  then show "cache_get n t' c = Some k \<or> cache_get n t' c = None" by (rule cache_get_keeps)
next
  fix n t c t' assume "cache_get n t (c :: string cache) = None" "t \<le> t'"
  then show "cache_get n t' c = None" by (rule cache_get_lapsed)
qed (auto simp: lock_enter_eq cache_add_def cache_get_def[of _ _ Map.empty] split: if_splits)

abbreviation named_lock_step :: "string cache lock_state \<Rightarrow> string cache lock_state \<Rightarrow> bool" where
  "named_lock_step \<equiv> lock_step cache_get lock_enter cache_set cache_delete"

abbreviation named_lock_reach :: "string cache lock_state \<Rightarrow> bool" where
  "named_lock_reach \<equiv> lock_reach cache_get lock_enter cache_set cache_delete Map.empty"

text \<open>Undisturbed, the read and the write of a renewal are \<open>renew\<close>, those of a release are
  \<open>named_lock_exit\<close>.\<close>

definition lease_of :: "holder \<Rightarrow> lease" where
  "lease_of h = \<lparr>ls_name = ho_name h, ls_token = ho_token h, ls_timeout = ho_timeout h, ls_acquired = ho_acquired h\<rparr>"

lemma renew_is_read_then_write:
  assumes "h \<in> set (lk_holders s)" "ho_call h = Working" "ho_acquired h" "renew (lk_now s) (lease_of h) (lk_cache s) = (c, l, True)"
  defines "h1 \<equiv> h\<lparr>ho_call := Renewing, ho_read := lk_now s\<rparr>"
  shows "\<exists>s1 s2. named_lock_step s s1 \<and> named_lock_step s1 s2 \<and> lk_cache s2 = c \<and>
    lk_holders s2 = swap_holder h1 (h1\<lparr>ho_until := lk_now s + seconds (ho_timeout h), ho_call := Working\<rparr>) (swap_holder h h1 (lk_holders s))"
proof -
  have own: "cache_get (ho_name h) (lk_now s) (lk_cache s) = Some (ho_token h)"
    and c: "c = cache_set (ho_name h) (ho_token h) (ho_timeout h) (lk_now s) (lk_cache s)"
    using assms(4) by (auto simp: renew_def lease_of_def split: if_splits)
  let ?s1 = "s\<lparr>lk_holders := swap_holder h h1 (lk_holders s)\<rparr>"
  have 1: "named_lock_step s ?s1" using lock_step.renew_read[where get = cache_get and enter = lock_enter and put = cache_set and del = cache_delete, OF assms(1-3)] own by (simp add: h1_def)
  have "h1 \<in> set (lk_holders ?s1)" "ho_call h1 = Renewing" by (simp_all add: swap_holder_def h1_def)
  note 2 = lock_step.renew_write[where get = cache_get and enter = lock_enter and put = cache_set and del = cache_delete, OF this]
  show ?thesis by (rule exI[of _ ?s1], rule exI, intro conjI, rule 1, rule 2) (simp_all add: h1_def c)
qed

lemma exit_is_read_then_write:
  assumes "h \<in> set (lk_holders s)" "ho_call h = Working" "named_lock_reach s"
  shows "\<exists>s2. named_lock_reach s2 \<and> lk_now s2 = lk_now s \<and>
    lk_cache s2 = named_lock_exit (ho_name h) (ho_token h) True (lk_now s) (lk_cache s)"
proof (cases "cache_get (ho_name h) (lk_now s) (lk_cache s) = Some (ho_token h)")
  case True
  let ?h1 = "h\<lparr>ho_call := Releasing, ho_read := lk_now s\<rparr>"
  let ?s1 = "s\<lparr>lk_holders := swap_holder h ?h1 (lk_holders s)\<rparr>"
  have 1: "named_lock_step s ?s1"
    using lock_step.exit_read[where get = cache_get and enter = lock_enter and put = cache_set and del = cache_delete, OF assms(1,2)] True by simp
  have "?h1 \<in> set (lk_holders ?s1)" "ho_call ?h1 = Releasing" by (simp_all add: swap_holder_def)
  note 2 = lock_reach.step[OF lock_reach.step[OF assms(3) 1] lock_step.exit_write[OF this]]
  show ?thesis by (rule exI, intro conjI, rule 2) (simp_all add: named_lock_exit_def True)
next
  case False
  with assms(3) show ?thesis by (intro exI[of _ s]) (simp add: named_lock_exit_def)
qed

subsection \<open>The lease renewer\<close>

text \<open>One tick per element: the time the wait returned and whether the cache answered. The
  thread's clock and the cache's are one.\<close>

datatype renewer_end = Stopped | MaxHold | LeaseLost

fun renewer_run ::
  "datetime \<Rightarrow> int \<Rightarrow> int \<Rightarrow> datetime \<Rightarrow> (datetime \<times> bool) list \<Rightarrow> lease \<Rightarrow> string cache \<Rightarrow>
   string cache \<times> lease \<times> renewer_end" where
  "renewer_run started max_hold lease_seconds last_ok [] l c = (c, l, Stopped)"
| "renewer_run started max_hold lease_seconds last_ok ((now, up) # ticks) l c =
     (if seconds max_hold \<le> now - started then (c, l, MaxHold)
      else if up then
        (case renew now l c of
           (c', l', True) \<Rightarrow> renewer_run started max_hold lease_seconds now ticks l' c'
         | (c', l', False) \<Rightarrow> (c', l', LeaseLost))
      else if now - last_ok < seconds lease_seconds
        then renewer_run started max_hold lease_seconds last_ok ticks l c
      else (c, l, LeaseLost))"

text \<open>\<open>SingleFlightCommand.execute\<close>: skip when held, else renew for the length of the body and
  release. \<open>body\<close> runs the command on its state; a raise passes the release.\<close>

definition single_flight ::
  "lock_settings \<Rightarrow> string \<Rightarrow> string \<Rightarrow> datetime \<Rightarrow> (datetime \<times> bool) list \<Rightarrow> datetime \<Rightarrow> ('s \<Rightarrow> 's \<times> 'a result) \<Rightarrow>
   string cache \<times> 's \<Rightarrow> (string cache \<times> 's) \<times> 'a option result" where
  "single_flight cfg name token t0 ticks t1 body s =
     (case job_lock cfg name of (key, timeout) \<Rightarrow>
        case named_lock_enter key token timeout t0 (fst s) of (c1, l) \<Rightarrow>
          if \<not> ls_acquired l then ((named_lock_exit key token False t0 c1, snd s), Inr None)
          else
            (case renewer_run t0 (JOB_LOCK_MAX_HOLD_SECONDS cfg) (JOB_LOCK_LEASE_SECONDS cfg) t0 ticks l c1 of
               (c2, _, _) \<Rightarrow>
                 case body (snd s) of
                   (s', r) \<Rightarrow> ((named_lock_exit key token True t1 c2, s'), map_sum id Some r)))"


subsection \<open>Lemmas: renewals\<close>

lemma renew_entry:
  assumes "renew now l c = (c', l', b)"
  shows "ls_name l' = ls_name l \<and> ls_token l' = ls_token l \<and> ls_timeout l' = ls_timeout l \<and>
    (b \<longrightarrow> c' (ls_name l) = Some (ls_token l, now + seconds (ls_timeout l))) \<and> (\<not> b \<longrightarrow> c' = c)"
  using assms by (auto simp: renew_def cache_set_def split: if_splits)

text \<open>The entry a renewer leaves expires at most one window after the maximal hold.\<close>

lemma renewer_run_entry:
  assumes "renewer_run started max_hold lease_seconds last_ok ticks l c = (c', l', e)"
    and "c (ls_name l) = Some (ls_token l, u)" "u \<le> started + seconds max_hold + seconds (ls_timeout l)"
  shows "\<exists>u'. c' (ls_name l) = Some (ls_token l, u') \<and> u' \<le> started + seconds max_hold + seconds (ls_timeout l)"
  using assms
proof (induction ticks arbitrary: l c last_ok u)
  case (Cons tick ticks)
  obtain now up where t: "tick = (now, up)" by fastforce
  show ?case
  proof (cases "seconds max_hold \<le> now - started \<or> \<not> up")
    case True
    with Cons show ?thesis by (auto simp: t split: if_splits)
  next
    case False
    obtain c1 l1 b where r: "renew now l c = (c1, l1, b)" by (cases "renew now l c") auto
    note e = renew_entry[OF r]
    show ?thesis
    proof (cases b)
      case True
      with False r Cons.prems(1) have "renewer_run started max_hold lease_seconds now ticks l1 c1 = (c', l', e)"
        by (simp add: t)
      from Cons.IH[OF this, of "now + seconds (ls_timeout l)"] e True False show ?thesis by simp
    next
      case b: False
      with False r e Cons.prems show ?thesis by (auto simp: t)
    qed
  qed
qed auto


subsection \<open>A concrete history\<close>

text \<open>A takes the lock of one action's flush and stalls past its window; B takes it over while A
  is still inside its block.\<close>

definition flush_key :: string where
  "flush_key = fst (digest_flush_lock default_lock_settings ''a1'')"

definition stalled :: holder where
  "stalled = \<lparr>ho_name = flush_key, ho_token = ''A'', ho_timeout = 600, ho_until = seconds 600, ho_acquired = True, ho_call = Working,
     ho_read = 0\<rparr>"

definition taker :: holder where
  "taker = \<lparr>ho_name = flush_key, ho_token = ''B'', ho_timeout = 600, ho_until = seconds 1300, ho_acquired = True, ho_call = Working,
     ho_read = seconds 700\<rparr>"

definition overtaken :: "holder \<Rightarrow> string cache lock_state" where
  "overtaken h = \<lparr>lk_cache = Map.empty(flush_key \<mapsto> (''A'', seconds 600), flush_key \<mapsto> (''B'', seconds 1300)),
     lk_now = seconds 700, lk_holders = [taker, h], lk_used = [''B'', ''A''], lk_late = []\<rparr>"

lemmas named_lock_steps = lock_step.intros[where get = cache_get and enter = lock_enter and put = cache_set and del = cache_delete]

lemma taken_reach: "named_lock_reach \<lparr>lk_cache = Map.empty(flush_key \<mapsto> (''A'', seconds 600)), lk_now = 0, lk_holders = [stalled],
    lk_used = [''A''], lk_late = []\<rparr>"
proof -
  let ?s0 = "\<lparr>lk_cache = Map.empty :: string cache, lk_now = 0, lk_holders = [], lk_used = [], lk_late = []\<rparr>"
  have "lock_enter flush_key ''A'' 600 (lk_now ?s0) (lk_cache ?s0) = (Map.empty(flush_key \<mapsto> (''A'', seconds 600)), True)"
    by (simp add: lock_enter_eq cache_add_def cache_get_def cache_set_def)
  from lock_reach.step[OF lock_reach.start named_lock_steps(2)[OF _ this]] show ?thesis by (simp add: stalled_def)
qed

text \<open>B's entry, whatever A has read by then.\<close>

lemma overtake:
  assumes "named_lock_reach \<lparr>lk_cache = Map.empty(flush_key \<mapsto> (''A'', seconds 600)), lk_now = t, lk_holders = [h],
    lk_used = [''A''], lk_late = []\<rparr>" "t \<le> seconds 700"
  shows "named_lock_reach (overtaken h)"
proof -
  let ?s = "\<lparr>lk_cache = Map.empty(flush_key \<mapsto> (''A'', seconds 600)), lk_now = seconds 700, lk_holders = [h], lk_used = [''A''], lk_late = []\<rparr>"
  have r: "named_lock_reach ?s" using lock_reach.step[OF assms(1) named_lock_steps(1)[of _ "seconds 700"]] assms(2) by simp
  have "lock_enter flush_key ''B'' 600 (lk_now ?s) (lk_cache ?s) = (lk_cache (overtaken h), True)"
    by (simp add: lock_enter_eq cache_add_def cache_get_def cache_set_def overtaken_def seconds_def)
  from lock_reach.step[OF r named_lock_steps(2)[OF _ this]] show ?thesis by (simp add: overtaken_def taker_def seconds_def)
qed

lemma overtaken_reach: "named_lock_reach (overtaken stalled)"
  by (rule overtake[OF taken_reach]) (simp add: seconds_def)

subsection \<open>Properties\<close>

definition live_holder :: "string \<Rightarrow> 'c lock_state \<Rightarrow> holder \<Rightarrow> bool" where
  "live_holder n s h \<longleftrightarrow> ho_name h = n \<and> ho_acquired h \<and> lk_now s < ho_until h"

lemma all_equal_length: "distinct xs \<Longrightarrow> (\<And>x y. x \<in> set xs \<Longrightarrow> y \<in> set xs \<Longrightarrow> x = y) \<Longrightarrow> length xs \<le> 1"
proof (induction xs)
  case (Cons x xs)
  then have "y = x" if "y \<in> set xs" for y using that by simp
  with Cons.prems(1) have "xs = []" by (cases xs) force+
  then show ?case by simp
qed simp

text \<open>C35: the lock excludes up to the gap its module documents. As long as no holder's window ends
  between the read and the write of one of its own renewals or releases of the name, then whatever else
  the interleaving of holders, crashes and expiries does, at most one holder of the name is within the
  window of its last stamp: a holder that outran its window neither keeps another out nor, renewing or
  leaving, takes the lock from it. When a window does end in that gap two holders can be, as
  \<open>late_renewal_overlaps\<close> shows.\<close>

theorem named_lock_excludes:
  assumes "lock_reach cache_get lock_enter cache_set cache_delete Map.empty s" "n \<notin> set (lk_late s)"
  shows "length (filter (live_holder n s) (lk_holders s)) \<le> 1"
proof -
  have d: "distinct (lk_holders s)"
    using nl.reach_own_tokens [OF assms(1)] by (simp add: nl.own_tokens_def distinct_map)
  have "h = h'" if "h \<in> set (filter (live_holder n s) (lk_holders s))" "h' \<in> set (filter (live_holder n s) (lk_holders s))" for h h'
    using that nl.live_holder_unique [OF assms(1), of h h'] assms(2) by (simp add: live_holder_def)
  moreover have "distinct (filter (live_holder n s) (lk_holders s))" using d by (rule distinct_filter)
  ultimately show ?thesis by (intro all_equal_length)
qed

theorem named_lock_excludes_witness:
  "length (lk_holders (overtaken stalled)) = 2 \<and>
   length (filter (live_holder flush_key (overtaken stalled)) (lk_holders (overtaken stalled))) \<le> 1"
  using named_lock_excludes [OF overtaken_reach, of flush_key] by (simp add: overtaken_def)

text \<open>The overlap the module accepts. A reads its own token just before its window ends; B takes the
  freed lock; A's write then lands late and puts A's token back: both are within their leases.\<close>

lemma late_renewal_overlaps:
  "\<exists>s. named_lock_reach s \<and> lk_late s = [flush_key] \<and> length (filter (live_holder flush_key s) (lk_holders s)) = 2"
proof -
  let ?h = "stalled\<lparr>ho_call := Renewing, ho_read := seconds 599\<rparr>"
  have t: "named_lock_reach \<lparr>lk_cache = Map.empty(flush_key \<mapsto> (''A'', seconds 600)), lk_now = seconds 599, lk_holders = [stalled],
      lk_used = [''A''], lk_late = []\<rparr>" (is "named_lock_reach ?s1")
    using lock_reach.step[OF taken_reach named_lock_steps(1)[of _ "seconds 599"]] by (simp add: seconds_def)
  have "named_lock_reach (?s1\<lparr>lk_holders := [?h]\<rparr>)"
    using lock_reach.step[OF t named_lock_steps(3)[of stalled]] by (simp add: stalled_def swap_holder_def cache_get_def seconds_def)
  then have r: "named_lock_reach (overtaken ?h)" by (intro overtake[of "seconds 599"]) (simp_all add: seconds_def)
  have "?h \<in> set (lk_holders (overtaken ?h))" "ho_call ?h = Renewing" by (simp_all add: overtaken_def)
  note late = lock_reach.step[OF r named_lock_steps(4)[OF this]]
  show ?thesis
    by (rule exI, rule conjI, rule late)
       (simp add: late_after_def swap_holder_def overtaken_def live_holder_def stalled_def taker_def seconds_def)
qed

text \<open>C36: the cache lock refines a mutex per name, up to the same gap. Read as who owns which name now,
  over the names on which no holder's window has ended between its read and its write, every
  step of the lock is a step of the mutex, each single cache call and the passing of time included: a
  name is taken only when it is free, given back only by its owner, and lapses; no step hands a name
  from one holder to another.\<close>

theorem cache_lock_refines_mutex:
  assumes "lock_reach cache_get lock_enter cache_set cache_delete Map.empty s"
    and "lock_step cache_get lock_enter cache_set cache_delete s s'"
  shows "mutex_step (timely_owners cache_get (lk_late s') s) (timely_owners cache_get (lk_late s') s')"
  using assms(2) nl.reach_own_tokens[OF assms(1)] by (rule nl.refines_mutex)

theorem cache_lock_refines_mutex_witness:
  "mutex_step (timely_owners cache_get [] (overtaken stalled)) (timely_owners cache_get [] ((overtaken stalled)\<lparr>lk_holders := [taker]\<rparr>))"
proof -
  have "named_lock_step (overtaken stalled) ((overtaken stalled)\<lparr>lk_holders := [taker]\<rparr>)"
  proof -
    have h: "stalled \<in> set (lk_holders (overtaken stalled))" "ho_call stalled = Working" by (simp_all add: overtaken_def stalled_def)
    have "(if cache_get (ho_name stalled) (lk_now (overtaken stalled)) (lk_cache (overtaken stalled)) = Some (ho_token stalled)
        then swap_holder stalled (stalled\<lparr>ho_call := Releasing, ho_read := lk_now (overtaken stalled)\<rparr>) (lk_holders (overtaken stalled))
        else remove1 stalled (lk_holders (overtaken stalled))) = [taker]"
      by (simp add: overtaken_def stalled_def taker_def cache_get_def)
    with named_lock_steps(5)[OF h] show ?thesis by (simp only:)
  qed
  from cache_lock_refines_mutex [OF overtaken_reach this] show ?thesis by (simp add: overtaken_def)
qed

text \<open>C37: a pass that hangs cannot strand its job. However long its renewer ticks, with whatever
  cache failures, once the maximal hold and one window have gone by since it started, the next
  pass of the job acquires the lock.\<close>

theorem hung_pass_frees_job_lock:
  assumes enter: "named_lock_enter (fst (job_lock cfg name)) token (snd (job_lock cfg name)) started c = (c1, l)"
    and acquired: "ls_acquired l" and cap: "0 \<le> JOB_LOCK_MAX_HOLD_SECONDS cfg"
    and run: "renewer_run started (JOB_LOCK_MAX_HOLD_SECONDS cfg) (JOB_LOCK_LEASE_SECONDS cfg) started ticks l c1 = (c2, l2, e)"
    and late: "started + seconds (JOB_LOCK_MAX_HOLD_SECONDS cfg) + seconds (JOB_LOCK_LEASE_SECONDS cfg) \<le> now"
  shows "ls_acquired (snd (named_lock_enter (fst (job_lock cfg name)) token' timeout' now c2))"
proof -
  have l: "ls_name l = fst (job_lock cfg name)" "ls_timeout l = JOB_LOCK_LEASE_SECONDS cfg" "ls_token l = token"
    and c1: "c1 (fst (job_lock cfg name)) = Some (token, started + seconds (JOB_LOCK_LEASE_SECONDS cfg))"
    using enter acquired by (auto simp: named_lock_enter_def cache_add_def cache_set_def job_lock_def split: if_splits)
  have "0 \<le> seconds (JOB_LOCK_MAX_HOLD_SECONDS cfg)" using cap by (simp add: seconds_def)
  with renewer_run_entry [OF run, of "started + seconds (JOB_LOCK_LEASE_SECONDS cfg)"] l c1 obtain u where
    "c2 (fst (job_lock cfg name)) = Some (token, u)"
    "u \<le> started + seconds (JOB_LOCK_MAX_HOLD_SECONDS cfg) + seconds (JOB_LOCK_LEASE_SECONDS cfg)" by auto
  with late have "cache_get (fst (job_lock cfg name)) now c2 = None" by (simp add: cache_get_def)
  then show ?thesis by (simp add: named_lock_enter_def cache_add_def)
qed

theorem hung_pass_frees_job_lock_witness:
  "\<exists>c1 l c2 l2 e. named_lock_enter (fst (job_lock default_lock_settings ''feeds.poll_due_feeds'')) ''A''
      (snd (job_lock default_lock_settings ''feeds.poll_due_feeds'')) 0 Map.empty = (c1, l) \<and>
     renewer_run 0 86400 300 0 [(seconds 100, True), (seconds 200, False), (seconds 86400, True)] l c1 = (c2, l2, e) \<and> e = MaxHold \<and>
     ls_acquired (snd (named_lock_enter (fst (job_lock default_lock_settings ''feeds.poll_due_feeds'')) ''B'' 300 (seconds 86700) c2))"
proof -
  let ?k = "fst (job_lock default_lock_settings ''feeds.poll_due_feeds'')"
  let ?l = "\<lparr>ls_name = ?k, ls_token = ''A'', ls_timeout = 300, ls_acquired = True\<rparr>"
  let ?c1 = "Map.empty(?k \<mapsto> (''A'', seconds 300))"
  let ?c2 = "?c1(?k \<mapsto> (''A'', seconds 400))"
  have j: "snd (job_lock default_lock_settings ''feeds.poll_due_feeds'') = 300" "JOB_LOCK_MAX_HOLD_SECONDS default_lock_settings = 86400"
    "JOB_LOCK_LEASE_SECONDS default_lock_settings = 300"
    by (simp_all add: job_lock_def default_lock_settings_def)
  have 1: "named_lock_enter ?k ''A'' (snd (job_lock default_lock_settings ''feeds.poll_due_feeds'')) 0 Map.empty = (?c1, ?l)"
    by (simp add: named_lock_enter_def cache_add_def cache_get_def cache_set_def j)
  have 2: "renewer_run 0 86400 300 0 [(seconds 100, True), (seconds 200, False), (seconds 86400, True)] ?l ?c1 = (?c2, ?l, MaxHold)"
    by (simp add: renew_def cache_get_def cache_set_def seconds_def)
  have "ls_acquired (snd (named_lock_enter ?k ''B'' 300 (seconds 86700) ?c2))"
    by (rule hung_pass_frees_job_lock [OF 1, where ticks = "[(seconds 100, True), (seconds 200, False), (seconds 86400, True)]"])
       (use 2 in \<open>simp_all add: j seconds_def\<close>)
  with 1 2 show ?thesis by blast
qed

end
