(* ===== verification/Device_Sessions.thy ===== *)
theory Device_Sessions
  imports Locks Ssrf Configs
begin

text \<open>
  The device-flow handshake of the command-line client, \<open>auth_api/device_sessions.py\<close> over the
  bag store of \<open>auth_api/device_session_store.py\<close>. Random values (session id, user code, device
  secret), SHA-256 and the minted token pair are parameters; strings are ASCII. Lemmas: whatever
  the order of requests, a token pair is handed out at most once, to a caller that presented the
  session's device secret, after a user typed the session's code; a code read off the terminal is
  accepted however it is typed. The handlers read the bag and write it in two cache calls; the
  last property shows what a denial between the two calls of a completion does.
\<close>

subsection \<open>The bag\<close>

datatype session_status = DS_PENDING | DS_COMPLETED

record session_client =
  sc_name :: string
  sc_version :: string
  sc_hostname :: string

record stored_user =
  us_id :: string
  us_email :: string
  us_account :: string
  us_created :: string

record token_pair =
  tp_access :: string
  tp_refresh :: string
  tp_expires :: int
  tp_type :: string
  tp_user :: stored_user

record session_bag =
  sb_status :: session_status
  sb_created :: string
  sb_code :: string
  sb_secret_hash :: string
  sb_ip :: "string option"
  sb_client :: session_client
  sb_access :: "string option"
  sb_refresh :: "string option"
  sb_expires :: "int option"
  sb_type :: "string option"
  sb_user :: "stored_user option"

text \<open>The truncating validator of the client's self-description.\<close>

definition truncate_client :: "session_client \<Rightarrow> session_client" where
  "truncate_client c = \<lparr>sc_name = take 64 (sc_name c), sc_version = take 32 (sc_version c), sc_hostname = take 128 (sc_hostname c)\<rparr>"

definition is_completed :: "session_bag \<Rightarrow> bool" where
  "is_completed b \<longleftrightarrow> sb_status b = DS_COMPLETED"

definition complete_with :: "token_pair \<Rightarrow> session_bag \<Rightarrow> session_bag" where
  "complete_with p b = b\<lparr>sb_status := DS_COMPLETED, sb_access := Some (tp_access p), sb_refresh := Some (tp_refresh p),
     sb_expires := Some (tp_expires p), sb_type := Some (tp_type p), sb_user := Some (tp_user p)\<rparr>"

text \<open>What a poll and the browser's info page show of a bag.\<close>

record poll_view =
  pv_status :: session_status
  pv_created :: string
  pv_access :: "string option"
  pv_refresh :: "string option"
  pv_expires :: "int option"
  pv_type :: "string option"
  pv_user :: "stored_user option"

definition cli_poll_view :: "session_bag \<Rightarrow> poll_view" where
  "cli_poll_view b = \<lparr>pv_status = sb_status b, pv_created = sb_created b, pv_access = sb_access b,
     pv_refresh = sb_refresh b, pv_expires = sb_expires b, pv_type = sb_type b, pv_user = sb_user b\<rparr>"

definition info_view :: "session_bag \<Rightarrow> session_status \<times> string \<times> string option \<times> session_client" where
  "info_view b = (sb_status b, sb_created b, sb_ip b, sb_client b)"

subsection \<open>The store\<close>

record auth_settings =
  DEVICE_SESSION_PENDING_TTL_SECONDS :: int
  DEVICE_SESSION_COMPLETED_TTL_SECONDS :: int

definition default_auth_settings :: auth_settings where
  "default_auth_settings =
     \<lparr>DEVICE_SESSION_PENDING_TTL_SECONDS = 15 * 60, DEVICE_SESSION_COMPLETED_TTL_SECONDS = 5 * 60\<rparr>"

type_synonym store = "session_bag cache"

definition session_key :: "string \<Rightarrow> string" where
  "session_key session_id = ''device_session:'' @ session_id"

definition store_get :: "string \<Rightarrow> datetime \<Rightarrow> store \<Rightarrow> session_bag option" where
  "store_get session_id now c = cache_get (session_key session_id) now c"

definition store_put :: "auth_settings \<Rightarrow> string \<Rightarrow> session_bag \<Rightarrow> datetime \<Rightarrow> store \<Rightarrow> store" where
  "store_put cfg session_id b now c =
     cache_set (session_key session_id) b
       (if is_completed b then DEVICE_SESSION_COMPLETED_TTL_SECONDS cfg else DEVICE_SESSION_PENDING_TTL_SECONDS cfg) now c"

definition store_delete :: "string \<Rightarrow> store \<Rightarrow> store" where
  "store_delete session_id c = cache_delete (session_key session_id) c"

subsection \<open>Helpers of the views\<close>

definition upper_char :: "char \<Rightarrow> char" where
  "upper_char c = (if is_lower c then char_of (of_char c - (32::nat)) else c)"

definition is_alnum :: "char \<Rightarrow> bool" where
  "is_alnum c \<longleftrightarrow> is_upper c \<or> is_lower c \<or> is_digit c"

definition normalize_user_code :: "string \<Rightarrow> string" where
  "normalize_user_code value = map upper_char (filter is_alnum value)"

definition USER_CODE_ALPHABET :: string where "USER_CODE_ALPHABET = ''BCDFGHJKMNPQRSTVWXZ''"
definition USER_CODE_LENGTH :: nat where "USER_CODE_LENGTH = 8"

text \<open>The eight random letters, shown as two groups.\<close>

definition show_user_code :: "string \<Rightarrow> string" where
  "show_user_code raw = take 4 raw @ ''-'' @ drop 4 raw"

definition device_secret_matches :: "(string \<Rightarrow> string) \<Rightarrow> string \<Rightarrow> string \<Rightarrow> bool" where
  "device_secret_matches sha presented stored_hash \<longleftrightarrow>
     presented \<noteq> '''' \<and> stored_hash \<noteq> '''' \<and> sha presented = stored_hash"

definition client_ip :: "string \<Rightarrow> string option \<Rightarrow> string option" where
  "client_ip fwd remote_addr =
     (let first = strip (takeWhile (\<lambda>c. c \<noteq> CHR '','') fwd)
      in if fwd \<noteq> '''' \<and> first \<noteq> '''' then Some first
         else (case remote_addr of None \<Rightarrow> None | Some a \<Rightarrow> if a = '''' then None else Some a))"

subsection \<open>The views\<close>

datatype session_reply =
    Created string string string int
  | MissingDeviceSecret
  | InvalidDeviceSecret
  | SessionExpired
  | PollView poll_view
  | InfoView "session_status \<times> string \<times> string option \<times> session_client"
  | Denied
  | MissingUserCode
  | AlreadyCompleted
  | CodeMismatch
  | SessionCompleted

definition create_session ::
  "auth_settings \<Rightarrow> (string \<Rightarrow> string) \<Rightarrow> string \<Rightarrow> string \<Rightarrow> string \<Rightarrow> string \<Rightarrow> string option \<Rightarrow> session_client \<Rightarrow>
   datetime \<Rightarrow> store \<Rightarrow> store \<times> session_reply" where
  "create_session cfg sha session_id raw_code device_secret created ip client now c =
     (let user_code = show_user_code raw_code;
          b = \<lparr>sb_status = DS_PENDING, sb_created = created, sb_code = user_code, sb_secret_hash = sha device_secret,
               sb_ip = ip, sb_client = truncate_client client, sb_access = None, sb_refresh = None,
               sb_expires = None, sb_type = None, sb_user = None\<rparr>
      in (store_put cfg session_id b now c,
          Created session_id user_code device_secret (DEVICE_SESSION_PENDING_TTL_SECONDS cfg)))"

text \<open>A poll up to its reply: what it answers, and whether the bag it read is to be deleted.\<close>

definition poll_read ::
  "(string \<Rightarrow> string) \<Rightarrow> string \<Rightarrow> string \<Rightarrow> datetime \<Rightarrow> store \<Rightarrow> session_reply \<times> bool" where
  "poll_read sha session_id presented now c =
     (if presented = '''' then (MissingDeviceSecret, False)
      else case store_get session_id now c of
        None \<Rightarrow> (SessionExpired, False)
      | Some b \<Rightarrow>
          if \<not> device_secret_matches sha presented (sb_secret_hash b) then (InvalidDeviceSecret, False)
          else (PollView (cli_poll_view b), is_completed b))"

definition poll_session ::
  "(string \<Rightarrow> string) \<Rightarrow> string \<Rightarrow> string \<Rightarrow> datetime \<Rightarrow> store \<Rightarrow> store \<times> session_reply" where
  "poll_session sha session_id presented now c =
     (case poll_read sha session_id presented now c of
        (r, drop_bag) \<Rightarrow> (if drop_bag then store_delete session_id c else c, r))"

definition session_info :: "string \<Rightarrow> datetime \<Rightarrow> store \<Rightarrow> session_reply" where
  "session_info session_id now c =
     (case store_get session_id now c of None \<Rightarrow> SessionExpired | Some b \<Rightarrow> InfoView (info_view b))"

definition deny_session :: "string \<Rightarrow> store \<Rightarrow> store \<times> session_reply" where
  "deny_session session_id c = (store_delete session_id c, Denied)"

text \<open>A completion up to its write: the checks on the bag it read, in the code's order, and the
  write. \<open>pair\<close> is what the token service mints.\<close>

definition complete_check :: "string \<Rightarrow> string \<Rightarrow> datetime \<Rightarrow> store \<Rightarrow> session_reply + session_bag" where
  "complete_check session_id user_code now c =
     (let submitted_code = normalize_user_code user_code in
      if submitted_code = '''' then Inl MissingUserCode
      else case store_get session_id now c of
        None \<Rightarrow> Inl SessionExpired
      | Some b \<Rightarrow>
          if is_completed b then Inl AlreadyCompleted
          else
            let stored_code = normalize_user_code (sb_code b)
            in if stored_code = '''' \<or> submitted_code \<noteq> stored_code then Inl CodeMismatch else Inr b)"

definition complete_write :: "auth_settings \<Rightarrow> string \<Rightarrow> token_pair \<Rightarrow> session_bag \<Rightarrow> datetime \<Rightarrow> store \<Rightarrow> store" where
  "complete_write cfg session_id pair b now c = store_put cfg session_id (complete_with pair b) now c"

definition complete_session ::
  "auth_settings \<Rightarrow> string \<Rightarrow> string \<Rightarrow> token_pair \<Rightarrow> datetime \<Rightarrow> store \<Rightarrow> store \<times> session_reply" where
  "complete_session cfg session_id user_code pair now c =
     (case complete_check session_id user_code now c of
        Inl r \<Rightarrow> (c, r)
      | Inr b \<Rightarrow> (complete_write cfg session_id pair b now c, SessionCompleted))"

subsection \<open>Requests over time\<close>

text \<open>The requests of any number of clients and browsers, interleaved at their cache calls: a poll
  answers from the bag it read, its delete and a denial are deletes that land whenever they land
  (\<open>drop\<close>), and a completion writes (\<open>complete_put\<close>) some time after its checks
  (\<open>complete_get\<close>), with the bag it had read. Ghost logs: sessions created with their secret and
  code, completions with the pair they minted, polls that were shown tokens.\<close>

record session_state =
  ss_store :: store
  ss_now :: datetime
  ss_inflight :: "(string \<times> string \<times> session_bag) list"
  ss_issued :: "(string \<times> string \<times> string) list"
  ss_minted :: "(string \<times> string \<times> token_pair) list"
  ss_handed :: "(string \<times> string \<times> poll_view) list"

definition start_sessions :: "datetime \<Rightarrow> session_state" where
  "start_sessions t =
     \<lparr>ss_store = Map.empty, ss_now = t, ss_inflight = [], ss_issued = [], ss_minted = [], ss_handed = []\<rparr>"

definition shows_tokens :: "session_reply \<Rightarrow> poll_view option" where
  "shows_tokens r =
     (case r of PollView v \<Rightarrow> if pv_access v = None \<and> pv_refresh v = None then None else Some v | _ \<Rightarrow> None)"

definition log_handed :: "string \<Rightarrow> string \<Rightarrow> session_reply \<Rightarrow> session_state \<Rightarrow> session_state" where
  "log_handed i presented r s =
     (case shows_tokens r of None \<Rightarrow> s | Some v \<Rightarrow> s\<lparr>ss_handed := (i, presented, v) # ss_handed s\<rparr>)"

inductive session_step :: "auth_settings \<Rightarrow> (string \<Rightarrow> string) \<Rightarrow> session_state \<Rightarrow> session_state \<Rightarrow> bool" for cfg sha where
  tick: "ss_now s \<le> t \<Longrightarrow> session_step cfg sha s (s\<lparr>ss_now := t\<rparr>)"
| create: "i \<notin> fst ` set (ss_issued s) \<Longrightarrow>
    create_session cfg sha i raw secret created ip client (ss_now s) (ss_store s) = (c, r) \<Longrightarrow>
    session_step cfg sha s (s\<lparr>ss_store := c, ss_issued := (i, secret, show_user_code raw) # ss_issued s\<rparr>)"
| poll: "poll_read sha i presented (ss_now s) (ss_store s) = (r, d) \<Longrightarrow>
    session_step cfg sha s (log_handed i presented r s)"
| drop: "session_step cfg sha s (s\<lparr>ss_store := store_delete i (ss_store s)\<rparr>)"
| complete_get: "complete_check i typed (ss_now s) (ss_store s) = Inr b \<Longrightarrow>
    session_step cfg sha s (s\<lparr>ss_inflight := (i, typed, b) # ss_inflight s\<rparr>)"
| complete_put: "(i, typed, b) \<in> set (ss_inflight s) \<Longrightarrow>
    session_step cfg sha s (s\<lparr>ss_store := complete_write cfg i pair b (ss_now s) (ss_store s),
      ss_inflight := remove1 (i, typed, b) (ss_inflight s), ss_minted := (i, typed, pair) # ss_minted s\<rparr>)"

inductive session_reach :: "auth_settings \<Rightarrow> (string \<Rightarrow> string) \<Rightarrow> session_state \<Rightarrow> bool" for cfg sha where
  start: "session_reach cfg sha (start_sessions t)"
| step: "session_reach cfg sha s \<Longrightarrow> session_step cfg sha s s' \<Longrightarrow> session_reach cfg sha s'"

subsection \<open>Lemmas\<close>

lemma session_key_inj [simp]: "session_key i = session_key j \<longleftrightarrow> i = j"
  by (simp add: session_key_def)

lemma store_get_Some: "store_get i now c = Some b \<Longrightarrow> \<exists>u. c (session_key i) = Some (b, u)"
  by (auto simp: store_get_def cache_get_def split: option.splits if_splits)

lemma store_get_delete [simp]: "store_get i now (store_delete i c) = None"
  by (simp add: store_get_def store_delete_def cache_get_def cache_delete_def)

lemma complete_check_Inr:
  assumes "complete_check i typed now c = Inr b"
  shows "store_get i now c = Some b" "\<not> is_completed b"
    "normalize_user_code typed = normalize_user_code (sb_code b)" "normalize_user_code typed \<noteq> ''''"
  using assms by (auto simp: complete_check_def Let_def split: if_splits option.splits)

text \<open>The token fields of a view are those of a pair.\<close>

definition carries :: "token_pair \<Rightarrow> poll_view \<Rightarrow> bool" where
  "carries p v \<longleftrightarrow> pv_access v = Some (tp_access p) \<and> pv_refresh v = Some (tp_refresh p) \<and>
     pv_expires v = Some (tp_expires p) \<and> pv_type v = Some (tp_type p) \<and> pv_user v = Some (tp_user p)"

lemma carries_complete_with: "carries p (cli_poll_view (complete_with p b))"
  by (simp add: carries_def cli_poll_view_def complete_with_def)

text \<open>A bag belongs to a session that was created: with its code, and its secret's digest.\<close>

definition created_as :: "(string \<Rightarrow> string) \<Rightarrow> (string \<times> string \<times> string) list \<Rightarrow> string \<Rightarrow> session_bag \<Rightarrow> bool" where
  "created_as sha issued i b \<longleftrightarrow> (\<exists>secret. (i, secret, sb_code b) \<in> set issued \<and> sb_secret_hash b = sha secret)"

definition authorised :: "(string \<times> string \<times> token_pair) list \<Rightarrow> string \<Rightarrow> string \<Rightarrow> token_pair \<Rightarrow> bool" where
  "authorised minted i code p \<longleftrightarrow>
     (\<exists>typed. (i, typed, p) \<in> set minted \<and> normalize_user_code typed = normalize_user_code code)"

definition tokens_ok :: "(string \<times> string \<times> token_pair) list \<Rightarrow> string \<Rightarrow> session_bag \<Rightarrow> bool" where
  "tokens_ok minted i b \<longleftrightarrow>
     (if is_completed b then \<exists>p. authorised minted i (sb_code b) p \<and> carries p (cli_poll_view b)
      else sb_access b = None \<and> sb_refresh b = None)"

definition handed_ok ::
  "(string \<Rightarrow> string) \<Rightarrow> (string \<times> string \<times> string) list \<Rightarrow> (string \<times> string \<times> token_pair) list \<Rightarrow>
   string \<times> string \<times> poll_view \<Rightarrow> bool" where
  "handed_ok sha issued minted h \<longleftrightarrow> (case h of (i, presented, v) \<Rightarrow>
     \<exists>secret code p. (i, secret, code) \<in> set issued \<and> sha presented = sha secret \<and>
       authorised minted i code p \<and> carries p v)"

definition store_ok where
  "store_ok sha issued minted c \<longleftrightarrow>
     (\<forall>i b u. c (session_key i) = Some (b, u) \<longrightarrow> created_as sha issued i b \<and> tokens_ok minted i b)"

definition inflight_ok where
  "inflight_ok sha issued (fl :: (string \<times> string \<times> session_bag) list) \<longleftrightarrow>
     (\<forall>(i, typed, b)\<in>set fl. created_as sha issued i b \<and> normalize_user_code typed = normalize_user_code (sb_code b))"

definition session_inv :: "(string \<Rightarrow> string) \<Rightarrow> session_state \<Rightarrow> bool" where
  "session_inv sha s \<longleftrightarrow> store_ok sha (ss_issued s) (ss_minted s) (ss_store s) \<and>
     inflight_ok sha (ss_issued s) (ss_inflight s) \<and>
     (\<forall>h\<in>set (ss_handed s). handed_ok sha (ss_issued s) (ss_minted s) h)"

text \<open>The logs only grow.\<close>

lemma created_as_more: "created_as sha l i b \<Longrightarrow> created_as sha (x # l) i b"
  by (auto simp: created_as_def)

lemma authorised_more: "authorised l i code p \<Longrightarrow> authorised (x # l) i code p"
  by (auto simp: authorised_def)

lemma tokens_ok_more: "tokens_ok l i b \<Longrightarrow> tokens_ok (x # l) i b"
  by (auto simp: tokens_ok_def intro: authorised_more split: if_splits)

lemma handed_ok_issued: "handed_ok sha l m h \<Longrightarrow> handed_ok sha (x # l) m h"
  unfolding handed_ok_def by (cases h) (simp, blast)

lemma handed_ok_minted: "handed_ok sha l m h \<Longrightarrow> handed_ok sha l (x # m) h"
  unfolding handed_ok_def by (cases h) (simp, blast intro: authorised_more)

lemma store_ok_issued: "store_ok sha l m c \<Longrightarrow> store_ok sha (x # l) m c"
  by (simp add: store_ok_def created_as_more)

lemma store_ok_minted: "store_ok sha l m c \<Longrightarrow> store_ok sha l (x # m) c"
  by (simp add: store_ok_def tokens_ok_more)

lemma inflight_ok_issued: "inflight_ok sha l fl \<Longrightarrow> inflight_ok sha (x # l) fl"
  by (auto simp: inflight_ok_def intro: created_as_more)

lemma store_ok_delete: "store_ok sha l m c \<Longrightarrow> store_ok sha l m (store_delete i c)"
  by (auto simp: store_ok_def store_delete_def cache_delete_def split: if_splits)

lemma store_ok_put:
  "store_ok sha l m c \<Longrightarrow> created_as sha l i b \<Longrightarrow> tokens_ok m i b \<Longrightarrow> store_ok sha l m (store_put cfg i b now c)"
  by (auto simp: store_ok_def store_put_def cache_set_def split: if_splits)

lemma store_ok_get:
  "store_ok sha l m c \<Longrightarrow> store_get i now c = Some b \<Longrightarrow> created_as sha l i b \<and> tokens_ok m i b"
  using store_get_Some unfolding store_ok_def by blast


text \<open>The created bag, the polled bag and the completed bag.\<close>

lemma create_session_put:
  assumes "create_session cfg sha i raw secret created ip client now c = (c', r)"
  obtains b where "c' = store_put cfg i b now c" "sb_code b = show_user_code raw" "sb_secret_hash b = sha secret"
    "\<not> is_completed b" "sb_access b = None" "sb_refresh b = None"
  using assms by (auto simp: create_session_def Let_def is_completed_def)

lemma poll_read_shows:
  assumes "poll_read sha i presented now c = (r, d)" "shows_tokens r = Some v"
  obtains b where "store_get i now c = Some b" "sha presented = sb_secret_hash b" "v = cli_poll_view b"
    "sb_access b \<noteq> None \<or> sb_refresh b \<noteq> None"
  using assms
  by (auto simp: poll_read_def shows_tokens_def device_secret_matches_def cli_poll_view_def split: if_splits option.splits)

lemma tokens_ok_complete_with:
  "normalize_user_code typed = normalize_user_code (sb_code b) \<Longrightarrow> tokens_ok ((i, typed, p) # m) i (complete_with p b)"
  using carries_complete_with[of p b]
  by (auto simp: tokens_ok_def is_completed_def authorised_def complete_with_def)

lemma created_as_complete_with [simp]: "created_as sha l i (complete_with p b) = created_as sha l i b"
  by (simp add: created_as_def complete_with_def)

lemma session_inv_poll:
  assumes inv: "session_inv sha s" and r: "poll_read sha i presented (ss_now s) (ss_store s) = (r, d)"
  shows "session_inv sha (log_handed i presented r s)"
proof (cases "shows_tokens r")
  case None
  with inv show ?thesis by (simp add: log_handed_def)
next
  case (Some v)
  from r Some obtain b where b: "store_get i (ss_now s) (ss_store s) = Some b" "sha presented = sb_secret_hash b"
    "v = cli_poll_view b" "sb_access b \<noteq> None \<or> sb_refresh b \<noteq> None"
    by (rule poll_read_shows)
  from inv b(1) have bag: "created_as sha (ss_issued s) i b" "tokens_ok (ss_minted s) i b"
    using store_ok_get by (auto simp: session_inv_def)
  then obtain secret p where "(i, secret, sb_code b) \<in> set (ss_issued s)" "sb_secret_hash b = sha secret"
    "authorised (ss_minted s) i (sb_code b) p" "carries p v"
    using b(3,4) by (auto simp: created_as_def tokens_ok_def split: if_splits)
  with b(2) have "handed_ok sha (ss_issued s) (ss_minted s) (i, presented, v)"
    by (auto simp: handed_ok_def)
  with inv Some show ?thesis by (simp add: session_inv_def log_handed_def)
qed

lemma session_inv_create:
  assumes inv: "session_inv sha s"
    and c: "create_session cfg sha i raw secret created ip client now (ss_store s) = (c, r)"
  shows "session_inv sha (s\<lparr>ss_store := c, ss_issued := (i, secret, show_user_code raw) # ss_issued s\<rparr>)"
proof -
  from c obtain b where b: "c = store_put cfg i b now (ss_store s)" "sb_code b = show_user_code raw"
    "sb_secret_hash b = sha secret" "\<not> is_completed b" "sb_access b = None" "sb_refresh b = None"
    by (rule create_session_put)
  then have "created_as sha ((i, secret, show_user_code raw) # ss_issued s) i b" "tokens_ok (ss_minted s) i b"
    by (auto simp: created_as_def tokens_ok_def)
  with inv b(1) show ?thesis
    by (simp add: session_inv_def store_ok_put store_ok_issued inflight_ok_issued handed_ok_issued)
qed

lemma session_inv_put:
  assumes inv: "session_inv sha s" and fl: "(i, typed, b) \<in> set (ss_inflight s)"
  shows "session_inv sha (s\<lparr>ss_store := complete_write cfg i pair b now (ss_store s),
      ss_inflight := remove1 (i, typed, b) (ss_inflight s), ss_minted := (i, typed, pair) # ss_minted s\<rparr>)"
proof -
  from inv have infl: "inflight_ok sha (ss_issued s) (ss_inflight s)" by (simp add: session_inv_def)
  with fl have b: "created_as sha (ss_issued s) i b" "normalize_user_code typed = normalize_user_code (sb_code b)"
    by (auto simp: inflight_ok_def)
  from infl have "inflight_ok sha (ss_issued s) (remove1 (i, typed, b) (ss_inflight s))"
    using set_remove1_subset by (fastforce simp: inflight_ok_def)
  moreover have "store_ok sha (ss_issued s) ((i, typed, pair) # ss_minted s)
      (complete_write cfg i pair b now (ss_store s))"
    using inv b by (simp add: session_inv_def complete_write_def store_ok_put store_ok_minted tokens_ok_complete_with)
  ultimately show ?thesis using inv by (simp add: session_inv_def handed_ok_minted)
qed

lemma session_inv_get:
  assumes inv: "session_inv sha s" and c: "complete_check i typed (ss_now s) (ss_store s) = Inr b"
  shows "session_inv sha (s\<lparr>ss_inflight := (i, typed, b) # ss_inflight s\<rparr>)"
  using inv store_ok_get[OF _ complete_check_Inr(1)[OF c]] complete_check_Inr(3)[OF c]
  by (auto simp: session_inv_def inflight_ok_def)

lemma session_inv_step: "session_step cfg sha s s' \<Longrightarrow> session_inv sha s \<Longrightarrow> session_inv sha s'"
proof (induction rule: session_step.induct)
  case (tick s t)
  then show ?case by (simp add: session_inv_def)
next
  case (create i s raw secret created ip client c r)
  from create(3,2) show ?case by (rule session_inv_create)
next
  case (poll i presented s r d)
  from poll(2,1) show ?case by (rule session_inv_poll)
next
  case (drop s i)
  then show ?case by (simp add: session_inv_def store_ok_delete)
next
  case (complete_get i typed s b)
  from complete_get(2,1) show ?case by (rule session_inv_get)
next
  case (complete_put i typed b s pair)
  from complete_put(2,1) show ?case by (rule session_inv_put)
qed

lemma session_inv_start: "session_inv sha (start_sessions t)"
  by (simp add: session_inv_def start_sessions_def store_ok_def inflight_ok_def)

lemma session_reach_inv: "session_reach cfg sha s \<Longrightarrow> session_inv sha s"
proof (induction rule: session_reach.induct)
  case (start t)
  show ?case by (rule session_inv_start)
next
  case (step s s')
  from step(2,3) show ?case by (rule session_inv_step)
qed


subsection \<open>Properties\<close>

text \<open>C39: whatever the order in which the requests of clients and browsers reach the cache, tokens
  shown by a poll are the whole pair of a completion of that session whose typed code matched the
  session's code, and the poller presented a secret with the digest of the one the session was
  created with.\<close>

theorem tokens_reach_only_their_cli:
  assumes "session_reach cfg sha s" and "(i, presented, v) \<in> set (ss_handed s)"
  shows "\<exists>secret code typed p. (i, secret, code) \<in> set (ss_issued s) \<and> sha presented = sha secret \<and>
     (i, typed, p) \<in> set (ss_minted s) \<and> normalize_user_code typed = normalize_user_code code \<and> carries p v"
proof -
  from session_reach_inv[OF assms(1)] assms(2) have "handed_ok sha (ss_issued s) (ss_minted s) (i, presented, v)"
    by (auto simp: session_inv_def)
  then show ?thesis by (auto simp: handed_ok_def authorised_def)
qed

definition sample_pair :: token_pair where
  "sample_pair = \<lparr>tp_access = ''acc'', tp_refresh = ''ref'', tp_expires = 900, tp_type = ''bearer'',
     tp_user = \<lparr>us_id = ''u'', us_email = ''u@x'', us_account = ''a'', us_created = ''t''\<rparr>\<rparr>"

definition sample_client :: session_client where
  "sample_client = \<lparr>sc_name = ''magpie'', sc_version = ''1'', sc_hostname = ''host''\<rparr>"

definition sample_bag :: session_bag where
  "sample_bag = \<lparr>sb_status = DS_PENDING, sb_created = ''t'', sb_code = ''BCDF-GHJK'', sb_secret_hash = ''sec'',
     sb_ip = None, sb_client = sample_client, sb_access = None, sb_refresh = None, sb_expires = None,
     sb_type = None, sb_user = None\<rparr>"

text \<open>The run of the witness: a session is created, completed and polled.\<close>

definition sample_created :: session_state where
  "sample_created = (start_sessions 0)\<lparr>ss_store := store_put default_auth_settings ''s'' sample_bag 0 Map.empty,
     ss_issued := [(''s'', ''sec'', ''BCDF-GHJK'')]\<rparr>"

definition sample_completed :: session_state where
  "sample_completed = sample_created\<lparr>
     ss_store := complete_write default_auth_settings ''s'' sample_pair sample_bag 0 (ss_store sample_created),
     ss_minted := [(''s'', ''bcdf ghjk'', sample_pair)]\<rparr>"

lemma sample_created_reach: "session_reach default_auth_settings id sample_created"
proof (rule session_reach.step[OF session_reach.start[of _ _ 0]])
  have "create_session default_auth_settings id ''s'' ''BCDFGHJK'' ''sec'' ''t'' None sample_client
        (ss_now (start_sessions 0)) (ss_store (start_sessions 0)) =
      (store_put default_auth_settings ''s'' sample_bag 0 Map.empty,
       Created ''s'' ''BCDF-GHJK'' ''sec'' (DEVICE_SESSION_PENDING_TTL_SECONDS default_auth_settings))"
    by (simp add: create_session_def Let_def start_sessions_def sample_bag_def show_user_code_def truncate_client_def sample_client_def)
  from session_step.create[OF _ this]
  show "session_step default_auth_settings id (start_sessions 0) sample_created"
    by (simp add: sample_created_def start_sessions_def show_user_code_def)
qed

lemma sample_code:
  "normalize_user_code ''bcdf ghjk'' = ''BCDFGHJK''" "normalize_user_code ''BCDF-GHJK'' = ''BCDFGHJK''"
  by code_simp+

lemma sample_bag_simps [simp]:
  "sb_code sample_bag = ''BCDF-GHJK''" "sb_secret_hash sample_bag = ''sec''" "\<not> is_completed sample_bag"
  by (simp_all add: sample_bag_def is_completed_def)

lemma sample_check: "complete_check ''s'' ''bcdf ghjk'' 0 (ss_store sample_created) = Inr sample_bag"
  by (simp add: sample_created_def store_put_def store_get_def complete_check_def Let_def sample_code
    default_auth_settings_def seconds_def)

lemma sample_completed_reach: "session_reach default_auth_settings id sample_completed"
proof -
  let ?cfg = default_auth_settings and ?f = "(''s'', ''bcdf ghjk'', sample_bag)"
  have now: "ss_now sample_created = 0" by (simp add: sample_created_def start_sessions_def)
  have get: "session_reach ?cfg id (sample_created\<lparr>ss_inflight := ?f # ss_inflight sample_created\<rparr>)"
    by (rule session_reach.step[OF sample_created_reach], rule session_step.complete_get)
      (simp add: now sample_check)
  have "session_step ?cfg id (sample_created\<lparr>ss_inflight := ?f # ss_inflight sample_created\<rparr>) sample_completed"
    using session_step.complete_put[of "''s''" "''bcdf ghjk''" sample_bag
        "sample_created\<lparr>ss_inflight := ?f # ss_inflight sample_created\<rparr>" ?cfg id sample_pair]
    by (simp add: sample_completed_def sample_created_def start_sessions_def)
  with get show ?thesis by (rule session_reach.step)
qed

lemma sample_poll:
  "poll_read id ''s'' ''sec'' 0 (ss_store sample_completed) =
     (PollView (cli_poll_view (complete_with sample_pair sample_bag)), True)"
  by (simp add: poll_read_def sample_completed_def complete_write_def store_put_def store_get_def complete_with_def
    is_completed_def default_auth_settings_def seconds_def device_secret_matches_def)

lemma sample_handed_reach:
  "session_reach default_auth_settings id
     (sample_completed\<lparr>ss_handed := [(''s'', ''sec'', cli_poll_view (complete_with sample_pair sample_bag))]\<rparr>)"
proof (rule session_reach.step[OF sample_completed_reach])
  have now: "ss_now sample_completed = 0" "ss_handed sample_completed = []"
    by (simp_all add: sample_completed_def sample_created_def start_sessions_def)
  have "shows_tokens (PollView (cli_poll_view (complete_with sample_pair sample_bag))) =
      Some (cli_poll_view (complete_with sample_pair sample_bag))"
    by (simp add: shows_tokens_def cli_poll_view_def complete_with_def)
  with session_step.poll[of id "''s''" "''sec''" sample_completed, OF sample_poll[folded now(1)]]
  show "session_step default_auth_settings id sample_completed
     (sample_completed\<lparr>ss_handed := [(''s'', ''sec'', cli_poll_view (complete_with sample_pair sample_bag))]\<rparr>)"
    by (simp add: log_handed_def now)
qed

theorem tokens_reach_only_their_cli_witness:
  "\<exists>secret code typed p.
     (''s'', secret, code) \<in> set (ss_issued sample_completed) \<and> id ''sec'' = id secret \<and>
     (''s'', typed, p) \<in> set (ss_minted sample_completed) \<and> normalize_user_code typed = normalize_user_code code \<and>
     carries p (cli_poll_view (complete_with sample_pair sample_bag))"
  using tokens_reach_only_their_cli[OF sample_handed_reach,
      of "''s''" "''sec''" "cli_poll_view (complete_with sample_pair sample_bag)"] by simp


text \<open>The random code shown on the terminal reads back as the letters it was drawn from, so a
  completion of a live session with that code succeeds exactly when the typed code, separators and
  case aside, is those letters; every other outcome is an error that leaves the store as it was.\<close>

theorem completion_outcomes:
  assumes "set raw \<subseteq> set USER_CODE_ALPHABET" and "raw \<noteq> []"
    and "store_get i now c = Some b" and "sb_code b = show_user_code raw"
  shows "complete_session cfg i typed pair now c =
     (if normalize_user_code typed = '''' then (c, MissingUserCode)
      else if is_completed b then (c, AlreadyCompleted)
      else if normalize_user_code typed \<noteq> raw then (c, CodeMismatch)
      else (complete_write cfg i pair b now c, SessionCompleted))"
proof -
  have letter: "is_alnum x \<and> upper_char x = x" if "x \<in> set USER_CODE_ALPHABET" for x
    using that by (auto simp: USER_CODE_ALPHABET_def is_alnum_def is_upper_def is_lower_def is_digit_def
      upper_char_def less_eq_char_def)
  have dash: "\<not> is_alnum CHR ''-''" by (simp add: is_alnum_def is_upper_def is_lower_def is_digit_def less_eq_char_def)
  have part: "normalize_user_code xs = xs" if "set xs \<subseteq> set USER_CODE_ALPHABET" for xs
    using that letter by (induction xs) (auto simp: normalize_user_code_def)
  have split: "normalize_user_code (xs @ ys) = normalize_user_code xs @ normalize_user_code ys" for xs ys
    by (simp add: normalize_user_code_def)
  have "set (take 4 raw) \<subseteq> set USER_CODE_ALPHABET" "set (drop 4 raw) \<subseteq> set USER_CODE_ALPHABET"
    using assms(1) set_take_subset set_drop_subset by fastforce+
  then have "normalize_user_code (show_user_code raw) = take 4 raw @ drop 4 raw"
    unfolding show_user_code_def split by (simp only: part) (simp add: normalize_user_code_def dash)
  with assms(2-4) show ?thesis by (simp add: complete_session_def complete_check_def Let_def)
qed

theorem completion_outcomes_witness:
  "complete_session default_auth_settings ''s'' ''bcdf ghjk'' sample_pair 0 (ss_store sample_created) =
     (complete_write default_auth_settings ''s'' sample_pair sample_bag 0 (ss_store sample_created), SessionCompleted)"
proof -
  have "store_get ''s'' 0 (ss_store sample_created) = Some sample_bag" using sample_check complete_check_Inr(1) by blast
  moreover have "sb_code sample_bag = show_user_code ''BCDFGHJK''" by (simp add: show_user_code_def)
  moreover have "set ''BCDFGHJK'' \<subseteq> set USER_CODE_ALPHABET" by (simp add: USER_CODE_ALPHABET_def)
  ultimately show ?thesis
    using completion_outcomes[of "''BCDFGHJK''" "''s''" 0 "ss_store sample_created" sample_bag
      default_auth_settings "''bcdf ghjk''" sample_pair] by (simp add: sample_code)
qed

text \<open>A poll that is shown tokens leaves no bag behind, so no later poll, info page or completion
  finds the session again.\<close>

theorem tokens_are_shown_once:
  assumes "session_reach cfg sha s"
    and "poll_session sha i presented (ss_now s) (ss_store s) = (c, r)" and "shows_tokens r \<noteq> None"
  shows "poll_session sha i presented' t c = (c, if presented' = '''' then MissingDeviceSecret else SessionExpired) \<and>
     session_info i t c = SessionExpired \<and>
     complete_session cfg i typed pair t c = (c, if normalize_user_code typed = '''' then MissingUserCode else SessionExpired)"
proof -
  obtain d where r: "poll_read sha i presented (ss_now s) (ss_store s) = (r, d)"
    using assms(2) by (auto simp: poll_session_def split: prod.splits)
  from assms(3) obtain v where "shows_tokens r = Some v" by auto
  with r obtain b where b: "store_get i (ss_now s) (ss_store s) = Some b" "sb_access b \<noteq> None \<or> sb_refresh b \<noteq> None"
    by (rule poll_read_shows)
  from session_reach_inv[OF assms(1)] b(1) have "tokens_ok (ss_minted s) i b"
    using store_ok_get by (auto simp: session_inv_def)
  with b(2) have "is_completed b" by (auto simp: tokens_ok_def split: if_splits)
  with r b(1) have "d \<or> shows_tokens r = None" by (auto simp: poll_read_def shows_tokens_def split: if_splits)
  with assms(2,3) r have c: "c = store_delete i (ss_store s)" by (auto simp: poll_session_def)
  show ?thesis
    by (simp add: c poll_session_def poll_read_def session_info_def complete_session_def complete_check_def Let_def)
qed

theorem tokens_are_shown_once_witness:
  "poll_session id ''s'' ''sec'' 5 (store_delete ''s'' (ss_store sample_completed)) =
     (store_delete ''s'' (ss_store sample_completed), SessionExpired)"
proof -
  have now: "ss_now sample_completed = 0" by (simp add: sample_completed_def sample_created_def start_sessions_def)
  have "poll_session id ''s'' ''sec'' (ss_now sample_completed) (ss_store sample_completed) =
      (store_delete ''s'' (ss_store sample_completed), PollView (cli_poll_view (complete_with sample_pair sample_bag)))"
    by (simp add: now poll_session_def sample_poll)
  moreover have "shows_tokens (PollView (cli_poll_view (complete_with sample_pair sample_bag))) \<noteq> None"
    by (simp add: shows_tokens_def cli_poll_view_def complete_with_def)
  ultimately show ?thesis using tokens_are_shown_once[OF sample_completed_reach, of "''s''" "''sec''"] by simp
qed

text \<open>C40: A denial that lands between the checks and the write of a completion is undone by that
  write: the session it had dropped is back, completed, and its client is handed the tokens.\<close>

theorem completion_outlives_denial:
  assumes "complete_check i typed t0 c = Inr b" and "deny_session i c' = (c'', Denied)"
    and "presented \<noteq> ''''" "sha presented = sb_secret_hash b" "sb_secret_hash b \<noteq> ''''"
    and "t1 \<le> t2" "t2 < t1 + seconds (DEVICE_SESSION_COMPLETED_TTL_SECONDS cfg)"
  shows "snd (poll_session sha i presented t2 c'') = SessionExpired \<and>
     (\<exists>v. snd (poll_session sha i presented t2 (complete_write cfg i pair b t1 c'')) = PollView v \<and> carries pair v)"
proof -
  have "store_get i t2 (complete_write cfg i pair b t1 c'') = Some (complete_with pair b)"
    using assms(7) by (simp add: complete_write_def store_put_def store_get_def is_completed_def complete_with_def)
  moreover have "device_secret_matches sha presented (sb_secret_hash (complete_with pair b))"
    using assms(3-5) by (simp add: device_secret_matches_def complete_with_def)
  moreover have "store_get i t2 c'' = None" using assms(2) by (auto simp: deny_session_def)
  ultimately show ?thesis
    using assms(3) carries_complete_with[of pair b] by (auto simp: poll_session_def poll_read_def)
qed

theorem completion_outlives_denial_witness:
  "snd (poll_session id ''s'' ''sec'' 1 (store_delete ''s'' (ss_store sample_created))) = SessionExpired \<and>
   (\<exists>v. snd (poll_session id ''s'' ''sec'' 1
        (complete_write default_auth_settings ''s'' sample_pair sample_bag 0 (store_delete ''s'' (ss_store sample_created))))
      = PollView v \<and> carries sample_pair v)"
  by (rule completion_outlives_denial[OF sample_check, of "ss_store sample_created"])
    (simp_all add: deny_session_def default_auth_settings_def seconds_def)

end
