(* ===== verification/Source_Specs.thy ===== *)
theory Source_Specs
  imports Tables Configs
begin

text \<open>
  The typed source specs (\<open>openmagpie_schema/configs.py\<close>): the built-in members of the union, the
  plugin fallback, their validators, and \<open>canonical_spec\<close>, the text the server hashes to tell
  sources apart. \<open>json.dumps\<close> is written out; only the text of a float (\<open>ftext\<close>) is a parameter.
  Lemmas: a validated spec validates to itself, and the canonical text of two validated specs is
  the same exactly when they are the same source.
\<close>

subsection \<open>The union\<close>

datatype hn_match = HN_ALL | HN_ANY
datatype hn_feed = HN_NEW | HN_SHOW | HN_ASK
datatype twitter_mode = TW_LATEST | TW_TOP

datatype source_spec =
    RedditSubredditSourceSpec string
  | RssSourceSpec string string
  | HackerNewsFeedSourceSpec string hn_match hn_feed
  | HackerNewsCommentSourceSpec string hn_match
  | TwitterSearchSourceSpec string twitter_mode int string
  | YouTubeSearchSourceSpec string int
  | PluginSourceSpec string "(string \<times> json) list"

fun spec_kind :: "source_spec \<Rightarrow> string" where
  "spec_kind (RedditSubredditSourceSpec subreddit) = ''reddit_subreddit''"
| "spec_kind (RssSourceSpec url name) = ''rss''"
| "spec_kind (HackerNewsFeedSourceSpec query m f) = ''hn_feed''"
| "spec_kind (HackerNewsCommentSourceSpec query m) = ''hn_comment''"
| "spec_kind (TwitterSearchSourceSpec query mode cnt lang) = ''twitter_search''"
| "spec_kind (YouTubeSearchSourceSpec query cnt) = ''youtube_search''"
| "spec_kind (PluginSourceSpec kind extra) = kind"

definition BUILTIN_SOURCE_KINDS :: "string list" where
  "BUILTIN_SOURCE_KINDS =
     [''reddit_subreddit'', ''rss'', ''hn_feed'', ''hn_comment'', ''twitter_search'', ''youtube_search'']"

definition KIND_MAX_LENGTH :: nat where "KIND_MAX_LENGTH = 32"
definition MAX_SUBREDDIT_LENGTH :: nat where "MAX_SUBREDDIT_LENGTH = 21"

subsection \<open>Validators\<close>

text \<open>\<open>re.sub(r"^/?r/", "", v, flags=re.IGNORECASE)\<close>.\<close>

definition strip_r_prefix :: "string \<Rightarrow> string" where
  "strip_r_prefix v =
     (let t = (if take 1 v = ''/'' then drop 1 v else v)
      in if lower (take 2 t) = ''r/'' then drop 2 t else v)"

definition slug_char :: "char \<Rightarrow> bool" where
  "slug_char c \<longleftrightarrow> is_upper c \<or> is_lower c \<or> is_digit c \<or> c = CHR ''_''"

definition validate_subreddit :: "string \<Rightarrow> string option" where
  "validate_subreddit v =
     (let slug = strip_r_prefix (strip v)
      in if slug \<noteq> '''' \<and> length slug \<le> MAX_SUBREDDIT_LENGTH \<and> list_all slug_char slug then Some (lower slug) else None)"

definition validate_url_structural :: "string \<Rightarrow> string option" where
  "validate_url_structural v =
     (case urlsplit v of
        None \<Rightarrow> None
      | Some parts \<Rightarrow>
          if scheme parts \<notin> {''http'', ''https''} then None
          else if netloc parts = '''' then None else Some v)"

definition query_not_blank :: "string \<Rightarrow> string option" where
  "query_not_blank v = (if strip v = '''' then None else Some (strip v))"

definition lang_normalize :: "string \<Rightarrow> string" where
  "lang_normalize v = lower (strip v)"

definition reject_builtin_kind :: "string \<Rightarrow> string list \<Rightarrow> string option" where
  "reject_builtin_kind kind builtin_kinds =
     (if kind \<noteq> strip kind then None else if kind \<in> set builtin_kinds then None else Some kind)"

text \<open>A member with its fields typed, through its bounds and validators.\<close>

fun validate_spec :: "source_spec \<Rightarrow> source_spec option" where
  "validate_spec (RedditSubredditSourceSpec subreddit) =
     map_option RedditSubredditSourceSpec (validate_subreddit subreddit)"
| "validate_spec (RssSourceSpec url name) = map_option (\<lambda>u. RssSourceSpec u name) (validate_url_structural url)"
| "validate_spec (HackerNewsFeedSourceSpec query m f) = Some (HackerNewsFeedSourceSpec query m f)"
| "validate_spec (HackerNewsCommentSourceSpec query m) =
     map_option (\<lambda>q. HackerNewsCommentSourceSpec q m) (query_not_blank query)"
| "validate_spec (TwitterSearchSourceSpec query mode cnt lang) =
     (if 1 \<le> cnt \<and> cnt \<le> 100
      then map_option (\<lambda>q. TwitterSearchSourceSpec q mode cnt (lang_normalize lang)) (query_not_blank query) else None)"
| "validate_spec (YouTubeSearchSourceSpec query cnt) =
     (if 1 \<le> cnt \<and> cnt \<le> 50 then map_option (\<lambda>q. YouTubeSearchSourceSpec q cnt) (query_not_blank query) else None)"
| "validate_spec (PluginSourceSpec kind extra) =
     (if kind \<noteq> '''' \<and> length kind \<le> KIND_MAX_LENGTH
      then map_option (\<lambda>k. PluginSourceSpec k extra) (reject_builtin_kind kind BUILTIN_SOURCE_KINDS) else None)"

subsection \<open>Display\<close>

definition json_truthy :: "json \<Rightarrow> bool" where
  "json_truthy j = (case j of JNull \<Rightarrow> False | JBool b \<Rightarrow> b | JInt n \<Rightarrow> n \<noteq> 0 | JFloat r \<Rightarrow> r \<noteq> 0
     | JStr s \<Rightarrow> s \<noteq> '''' | JArr xs \<Rightarrow> xs \<noteq> [] | JObj fs \<Rightarrow> fs \<noteq> [])"

text \<open>\<open>pystr\<close> is Python's \<open>str\<close> of a value that is not a string.\<close>

definition json_str :: "(json \<Rightarrow> string) \<Rightarrow> json \<Rightarrow> string" where
  "json_str pystr j = (case j of JStr s \<Rightarrow> s | _ \<Rightarrow> pystr j)"

fun display :: "(json \<Rightarrow> string) \<Rightarrow> source_spec \<Rightarrow> string" where
  "display pystr (RedditSubredditSourceSpec subreddit) = ''r/'' @ subreddit"
| "display pystr (RssSourceSpec url name) = (if name = '''' then url else name)"
| "display pystr (HackerNewsFeedSourceSpec query m f) =
     (case f of HN_NEW \<Rightarrow> ''Hacker News (new)'' | HN_SHOW \<Rightarrow> ''Show HN'' | HN_ASK \<Rightarrow> ''Ask HN'')"
| "display pystr (HackerNewsCommentSourceSpec query m) = ''HN comments: \"'' @ query @ ''\"''"
| "display pystr (TwitterSearchSourceSpec query mode cnt lang) = ''X search: \"'' @ query @ ''\"''"
| "display pystr (YouTubeSearchSourceSpec query cnt) = ''YouTube search: \"'' @ query @ ''\"''"
| "display pystr (PluginSourceSpec kind extra) =
     (case map_of extra ''name'' of
        Some l \<Rightarrow> if json_truthy l then json_str pystr l
                  else (case map_of extra ''label'' of Some l' \<Rightarrow> if json_truthy l' then json_str pystr l' else kind | None \<Rightarrow> kind)
      | None \<Rightarrow> (case map_of extra ''label'' of Some l' \<Rightarrow> if json_truthy l' then json_str pystr l' else kind | None \<Rightarrow> kind))"

subsection \<open>The canonical text\<close>

text \<open>\<open>model_dump(mode="json")\<close>.\<close>

fun spec_dump :: "source_spec \<Rightarrow> json" where
  "spec_dump (RedditSubredditSourceSpec subreddit) =
     JObj [(''kind'', JStr ''reddit_subreddit''), (''subreddit'', JStr subreddit)]"
| "spec_dump (RssSourceSpec url name) = JObj [(''kind'', JStr ''rss''), (''url'', JStr url), (''name'', JStr name)]"
| "spec_dump (HackerNewsFeedSourceSpec query m f) =
     JObj [(''query'', JStr query), (''match'', JStr (case m of HN_ALL \<Rightarrow> ''all'' | HN_ANY \<Rightarrow> ''any'')),
           (''kind'', JStr ''hn_feed''), (''feed'', JStr (case f of HN_NEW \<Rightarrow> ''new'' | HN_SHOW \<Rightarrow> ''show'' | HN_ASK \<Rightarrow> ''ask''))]"
| "spec_dump (HackerNewsCommentSourceSpec query m) =
     JObj [(''query'', JStr query), (''match'', JStr (case m of HN_ALL \<Rightarrow> ''all'' | HN_ANY \<Rightarrow> ''any'')),
           (''kind'', JStr ''hn_comment'')]"
| "spec_dump (TwitterSearchSourceSpec query mode cnt lang) =
     JObj [(''kind'', JStr ''twitter_search''), (''query'', JStr query),
           (''mode'', JStr (case mode of TW_LATEST \<Rightarrow> ''latest'' | TW_TOP \<Rightarrow> ''top'')),
           (''count'', JInt cnt), (''lang'', JStr lang)]"
| "spec_dump (YouTubeSearchSourceSpec query cnt) =
     JObj [(''kind'', JStr ''youtube_search''), (''query'', JStr query), (''count'', JInt cnt)]"
| "spec_dump (PluginSourceSpec kind extra) = JObj ((''kind'', JStr kind) # extra)"

definition hex_digit :: "nat \<Rightarrow> char" where
  "hex_digit n = (if n < 10 then char_of (48 + n) else char_of (87 + n))"

text \<open>A character in a JSON string; one outside ASCII is below U+0100 here.\<close>

definition json_char :: "char \<Rightarrow> string" where
  "json_char c =
     (if c = CHR 0x22 then [CHR 0x5C, CHR 0x22] else if c = CHR 0x5C then [CHR 0x5C, CHR 0x5C]
      else if c = CHR 0x0A then [CHR 0x5C, CHR ''n''] else if c = CHR 0x0D then [CHR 0x5C, CHR ''r'']
      else if c = CHR 0x09 then [CHR 0x5C, CHR ''t''] else if c = CHR 0x0C then [CHR 0x5C, CHR ''f'']
      else if c = CHR 0x08 then [CHR 0x5C, CHR ''b'']
      else let n = of_char c :: nat
           in if 32 \<le> n \<and> n < 127 then [c]
              else [CHR 0x5C, CHR ''u'', CHR ''0'', CHR ''0'', hex_digit (n div 16), hex_digit (n mod 16)])"

definition json_string :: "string \<Rightarrow> string" where
  "json_string s = CHR 0x22 # concat (map json_char s) @ [CHR 0x22]"

definition show_int :: "int \<Rightarrow> string" where
  "show_int n = (if n < 0 then CHR ''-'' # show_nat (nat (- n)) else show_nat (nat n))"

fun json_text :: "(rat \<Rightarrow> string) \<Rightarrow> json \<Rightarrow> string"
  and json_elems :: "(rat \<Rightarrow> string) \<Rightarrow> json list \<Rightarrow> string"
  and json_fields :: "(rat \<Rightarrow> string) \<Rightarrow> (string \<times> json) list \<Rightarrow> string" where
  "json_text ftext JNull = ''null''"
| "json_text ftext (JBool b) = (if b then ''true'' else ''false'')"
| "json_text ftext (JInt n) = show_int n"
| "json_text ftext (JFloat r) = ftext r"
| "json_text ftext (JStr s) = json_string s"
| "json_text ftext (JArr []) = ''[]''"
| "json_text ftext (JArr (x # xs)) = ''['' @ json_text ftext x @ json_elems ftext xs"
| "json_text ftext (JObj []) = ''{}''"
| "json_text ftext (JObj ((k, x) # fs)) = ''{'' @ json_string k @ '':'' @ json_text ftext x @ json_fields ftext fs"
| "json_elems ftext [] = '']''"
| "json_elems ftext (x # xs) = '','' @ json_text ftext x @ json_elems ftext xs"
| "json_fields ftext [] = ''}''"
| "json_fields ftext ((k, x) # fs) = '','' @ json_string k @ '':'' @ json_text ftext x @ json_fields ftext fs"

text \<open>\<open>sort_keys\<close>, at every level.\<close>

fun sort_fields :: "json \<Rightarrow> json" where
  "sort_fields (JArr xs) = JArr (map sort_fields xs)"
| "sort_fields (JObj fs) = JObj (sort_key fst (map (\<lambda>(k, x). (k, sort_fields x)) fs))"
| "sort_fields JNull = JNull"
| "sort_fields (JBool b) = JBool b"
| "sort_fields (JInt n) = JInt n"
| "sort_fields (JFloat r) = JFloat r"
| "sort_fields (JStr s) = JStr s"

definition json_dumps :: "(rat \<Rightarrow> string) \<Rightarrow> json \<Rightarrow> string" where
  "json_dumps ftext j = json_text ftext (sort_fields j)"

definition canonical_spec :: "(rat \<Rightarrow> string) \<Rightarrow> source_spec \<Rightarrow> string" where
  "canonical_spec ftext spec = json_dumps ftext (spec_dump spec)"

record source_ident =
  si_spec :: string
  si_meta :: str_dict
  si_field_map :: str_dict

definition source_identity :: "(rat \<Rightarrow> string) \<Rightarrow> source_spec \<Rightarrow> str_dict \<Rightarrow> str_dict \<Rightarrow> source_ident" where
  "source_identity ftext spec meta field_map =
     \<lparr>si_spec = canonical_spec ftext spec, si_meta = sort_key fst meta, si_field_map = sort_key fst field_map\<rparr>"


subsection \<open>The canonical text determines the source\<close>

text \<open>Reading one character back from the text of a string.\<close>

definition hex_val :: "char \<Rightarrow> nat" where
  "hex_val c = (if of_char c < (58 :: nat) then of_char c - 48 else of_char c - 87)"

fun read_char :: "string \<Rightarrow> (char \<times> string) option" where
  "read_char (b # e # s) =
     (if b \<noteq> CHR 0x5C then Some (b, e # s)
      else if e = CHR 0x22 then Some (CHR 0x22, s) else if e = CHR 0x5C then Some (CHR 0x5C, s)
      else if e = CHR ''n'' then Some (CHR 0x0A, s) else if e = CHR ''r'' then Some (CHR 0x0D, s)
      else if e = CHR ''t'' then Some (CHR 0x09, s) else if e = CHR ''f'' then Some (CHR 0x0C, s)
      else if e = CHR ''b'' then Some (CHR 0x08, s)
      else (case s of
              _ # _ # h # l # s' \<Rightarrow> Some (char_of (16 * hex_val h + hex_val l), s')
            | _ \<Rightarrow> None))"
| "read_char [b] = Some (b, [])"
| "read_char [] = None"

lemma hex_val_hex_digit: "n < 16 \<Longrightarrow> hex_val (hex_digit n) = n"
  by (auto simp: hex_val_def hex_digit_def)

lemma of_char_less: "of_char (c :: char) < (256 :: nat)"
  by (metis char_of_mod_256 mod_less_divisor nat_of_char_less_256)

lemma read_json_char: "x \<noteq> [] \<Longrightarrow> read_char (json_char c @ x) = Some (c, x)"
proof (cases x)
  case (Cons e s)
  have "of_char c div 16 < (16 :: nat)" using of_char_less[of c] by linarith
  then have "char_of (16 * hex_val (hex_digit (of_char c div 16)) + hex_val (hex_digit (of_char c mod 16))) = c"
    by (simp add: hex_val_hex_digit)
  with Cons show ?thesis by (auto simp: json_char_def Let_def)
qed simp

lemma json_char_head: "\<exists>b r. json_char c = b # r \<and> b \<noteq> CHR 0x22"
  by (auto simp: json_char_def Let_def)

lemma json_chars_inj:
  "concat (map json_char s) @ CHR 0x22 # x = concat (map json_char t) @ CHR 0x22 # y \<Longrightarrow> s = t \<and> x = y"
proof (induction s arbitrary: t)
  case Nil
  show ?case
  proof (cases t)
    case (Cons d t')
    with Nil json_char_head[of d] show ?thesis by auto
  qed (use Nil in simp)
next
  case (Cons c s)
  show ?case
  proof (cases t)
    case Nil
    with Cons.prems json_char_head[of c] show ?thesis by auto
  next
    case t: (Cons d t')
    let ?l = "concat (map json_char s) @ CHR 0x22 # x" and ?r = "concat (map json_char t') @ CHR 0x22 # y"
    have "json_char c @ ?l = json_char d @ ?r" using Cons.prems t by simp
    moreover have "read_char (json_char c @ ?l) = Some (c, ?l)" "read_char (json_char d @ ?r) = Some (d, ?r)"
      by (rule read_json_char, simp)+
    ultimately have "Some (c, ?l) = Some (d, ?r)" by metis
    then have "c = d" "?l = ?r" by auto
    from Cons.IH[OF this(2)] \<open>c = d\<close> t show ?thesis by blast
  qed
qed

lemma json_string_inj:
  assumes "json_string s @ x = json_string t @ y"
  shows "s = t \<and> x = y"
proof (rule json_chars_inj)
  show "concat (map json_char s) @ CHR 0x22 # x = concat (map json_char t) @ CHR 0x22 # y"
    using assms by (simp add: json_string_def)
qed

text \<open>Numbers end where the digits end.\<close>

lemma is_digit_48: "n < 10 \<Longrightarrow> is_digit (char_of (48 + n :: nat)) \<and> digit_val (char_of (48 + n)) = int n"
  using of_nat_of_char[of "char_of (48 + n)", where ?'a = int]
  by (simp add: is_digit_def digit_val_def less_eq_char_def of_nat_of_char[symmetric, where ?'a = int])

lemma show_nat_digits: "list_all is_digit (show_nat n) \<and> num_of 10 (show_nat n) = int n"
proof (induction n rule: show_nat.induct)
  case (1 n)
  show ?case
  proof (cases "n < 10")
    case True
    then show ?thesis using is_digit_48[of n] by (subst (1 2) show_nat.simps) (simp add: num_of_def)
  next
    case False
    have "int n = int (n div 10) * 10 + int (n mod 10)" by presburger
    with 1[OF False] False is_digit_48[of "n mod 10"] show ?thesis
      by (subst (1 2) show_nat.simps) (simp add: num_of_def)
  qed
qed

lemma show_nat_head: "\<exists>c r. show_nat n = c # r \<and> is_digit c"
proof -
  have "show_nat n \<noteq> []" by (subst show_nat.simps) simp
  with show_nat_digits[of n] show ?thesis by (cases "show_nat n") auto
qed

definition stop :: "string \<Rightarrow> bool" where
  "stop x \<longleftrightarrow> (case x of [] \<Rightarrow> True | c # _ \<Rightarrow> \<not> is_digit c)"

lemma show_nat_inj:
  assumes "stop x" "stop y" "show_nat n @ x = show_nat m @ y"
  shows "n = m \<and> x = y"
proof -
  have t: "takeWhile is_digit (show_nat k @ z) = show_nat k" if "stop z" for k z
  proof -
    have "takeWhile is_digit z = []" using that by (cases z) (auto simp: stop_def)
    moreover have "\<And>c. c \<in> set (show_nat k) \<Longrightarrow> is_digit c" using show_nat_digits[of k] by (simp add: list_all_iff)
    ultimately show ?thesis by (simp add: takeWhile_append2)
  qed
  have "show_nat n = show_nat m" by (metis t assms)
  moreover from this have "int n = int m" by (metis show_nat_digits)
  ultimately show ?thesis using assms(3) by (metis append_same_eq of_nat_eq_iff same_append_eq)
qed

lemma minus_no_digit: "\<not> is_digit CHR ''-''" by (simp add: is_digit_def less_eq_char_def)

lemma show_int_cases:
  obtains (neg) "n < 0" "show_int n = CHR ''-'' # show_nat (nat (- n))"
  | (pos) c r where "0 \<le> n" "show_int n = show_nat (nat n)" "show_nat (nat n) = c # r" "is_digit c"
proof (cases "n < 0")
  case True
  then show ?thesis by (intro neg) (simp_all add: show_int_def)
next
  case False
  from show_nat_head[of "nat n"] obtain c r where "show_nat (nat n) = c # r" "is_digit c" by blast
  with False show ?thesis by (intro pos[of c r]) (simp_all add: show_int_def)
qed

lemma show_int_inj:
  assumes "stop x" "stop y" "show_int n @ x = show_int m @ y"
  shows "n = m \<and> x = y"
proof (cases n rule: show_int_cases)
  case neg
  show ?thesis
  proof (cases m rule: show_int_cases)
    case m: neg
    then have "show_nat (nat (- n)) @ x = show_nat (nat (- m)) @ y" using assms(3) neg by simp
    from show_nat_inj[OF assms(1,2) this] m(1) neg(1) show ?thesis by arith
  next
    case (pos c r)
    then show ?thesis using assms(3) neg minus_no_digit by auto
  qed
next
  case n: (pos c r)
  show ?thesis
  proof (cases m rule: show_int_cases)
    case neg
    then show ?thesis using assms(3) n minus_no_digit by auto
  next
    case (pos c' r')
    then have "show_nat (nat n) @ x = show_nat (nat m) @ y" using assms(3) n by simp
    from show_nat_inj[OF assms(1,2) this] pos(1) n(1) show ?thesis by arith
  qed
qed


text \<open>The text of a value with no float in it, up to the character that follows it.\<close>

fun no_float :: "json \<Rightarrow> bool" where
  "no_float (JFloat r) \<longleftrightarrow> False"
| "no_float (JArr xs) \<longleftrightarrow> list_all no_float xs"
| "no_float (JObj fs) \<longleftrightarrow> list_all (\<lambda>(k, x). no_float x) fs"
| "no_float JNull \<longleftrightarrow> True"
| "no_float (JBool b) \<longleftrightarrow> True"
| "no_float (JInt n) \<longleftrightarrow> True"
| "no_float (JStr s) \<longleftrightarrow> True"

definition json_head :: "json \<Rightarrow> char \<Rightarrow> bool" where
  "json_head j c \<longleftrightarrow> (case j of JNull \<Rightarrow> c = CHR ''n'' | JBool b \<Rightarrow> c = (if b then CHR ''t'' else CHR ''f'')
     | JInt n \<Rightarrow> c = CHR ''-'' \<or> is_digit c | JFloat r \<Rightarrow> True | JStr s \<Rightarrow> c = CHR 0x22
     | JArr xs \<Rightarrow> c = CHR ''['' | JObj fs \<Rightarrow> c = CHR ''{'')"

lemma show_int_head: "\<exists>c r. show_int n = c # r \<and> (c = CHR ''-'' \<or> is_digit c)"
  by (cases n rule: show_int_cases) auto

lemma json_text_head: "no_float j \<Longrightarrow> \<exists>c r. json_text ftext j = c # r \<and> json_head j c"
proof (cases j)
  case (JInt n)
  with show_int_head[of n] show ?thesis by (auto simp: json_head_def)
next
  case (JArr xs)
  then show ?thesis by (cases xs) (auto simp: json_head_def)
next
  case (JObj fs)
  then show ?thesis by (cases fs) (auto simp: json_head_def)
qed (auto simp: json_head_def json_string_def)

lemma stop_simps [simp]:
  "stop (CHR '','' # x)" "stop (CHR '']'' # x)" "stop (CHR ''}'' # x)"
  by (simp_all add: stop_def is_digit_def less_eq_char_def)

lemma stop_elems [simp]: "stop (json_elems ftext xs @ x)" by (cases xs) auto
lemma stop_fields [simp]: "stop (json_fields ftext fs @ x)" by (cases fs) auto

lemma no_digits:
  "\<not> is_digit CHR ''n''" "\<not> is_digit CHR ''t''" "\<not> is_digit CHR ''f''" "\<not> is_digit CHR 0x22" "\<not> is_digit CHR ''[''"
  "\<not> is_digit CHR ''{''" "\<not> is_digit CHR '']''" "\<not> is_digit CHR ''}''" "\<not> is_digit CHR ''-''"
  by (simp_all add: is_digit_def less_eq_char_def)

text \<open>Two values that start alike are of one kind.\<close>

lemma json_same_kind:
  assumes "no_float a" "no_float b" "json_text ftext a @ x = json_text ftext b @ y"
  shows "case a of JNull \<Rightarrow> b = JNull | JBool p \<Rightarrow> b = JBool p | JInt n \<Rightarrow> \<exists>m. b = JInt m
    | JFloat r \<Rightarrow> False | JStr s \<Rightarrow> \<exists>t. b = JStr t | JArr xs \<Rightarrow> \<exists>ys. b = JArr ys | JObj fs \<Rightarrow> \<exists>gs. b = JObj gs"
proof -
  obtain c r where a: "json_text ftext a = c # r" "json_head a c" using json_text_head[OF assms(1)] by blast
  obtain d s where b: "json_text ftext b = d # s" "json_head b d" using json_text_head[OF assms(2)] by blast
  from a(1) b(1) assms(3) have "c = d" by simp
  with a(2) b(2) have "json_head a d" "json_head b d" by simp_all
  with assms(1,2) show ?thesis
    by (cases a; cases b) (auto simp: json_head_def no_digits split: if_splits)
qed


lemma json_head_not_close: "json_head a c \<Longrightarrow> no_float a \<Longrightarrow> c \<noteq> CHR '']''"
  by (cases a) (auto simp: json_head_def no_digits split: if_splits)

lemma json_text_open:
  assumes "no_float a"
  obtains c r where "json_text ftext a = c # r" "c \<noteq> CHR '']''"
  using json_text_head[OF assms, of ftext] json_head_not_close[OF _ assms] by blast

lemma json_text_inj_aux:
  "no_float a \<Longrightarrow> no_float b \<Longrightarrow> stop x \<Longrightarrow> stop y \<Longrightarrow> json_text ftext a @ x = json_text ftext b @ y \<Longrightarrow> a = b \<and> x = y"
  "list_all no_float xs \<Longrightarrow> list_all no_float ys \<Longrightarrow> json_elems ftext xs @ x = json_elems ftext ys @ y \<Longrightarrow> xs = ys \<and> x = y"
  "list_all (\<lambda>(k, v). no_float v) fs \<Longrightarrow> list_all (\<lambda>(k, v). no_float v) gs \<Longrightarrow>
     json_fields ftext fs @ x = json_fields ftext gs @ y \<Longrightarrow> fs = gs \<and> x = y"
proof (induction ftext a and ftext xs and ftext fs arbitrary: b x y and ys x y and gs x y
    rule: json_text_json_elems_json_fields.induct)
  case (1 ftext)
  with json_same_kind[OF 1(1,2,5)] show ?case by simp
next
  case (2 ftext p)
  with json_same_kind[OF 2(1,2,5)] show ?case by simp
next
  case (3 ftext n)
  from json_same_kind[OF 3(1,2,5)] obtain m where "b = JInt m" by auto
  with 3(5) show_int_inj[OF 3(3,4), of n m] show ?case by simp
next
  case (4 ftext r)
  then show ?case by simp
next
  case (5 ftext s)
  from json_same_kind[OF 5(1,2,5)] obtain t where "b = JStr t" by auto
  with 5(5) json_string_inj[of s x t y] show ?case by simp
next
  case (6 ftext)
  from json_same_kind[OF 6(1,2,5)] obtain ys where b: "b = JArr ys" by auto
  show ?case
  proof (cases ys)
    case (Cons z zs)
    with 6(2) b have "no_float z" by simp
    then obtain c r where "json_text ftext z = c # r" "c \<noteq> CHR '']''" by (rule json_text_open)
    with 6(5) b Cons show ?thesis by simp
  qed (use 6 b in simp)
next
  case (7 ftext z zs)
  from json_same_kind[OF 7(3,4,7)] obtain ys where b: "b = JArr ys" by auto
  show ?case
  proof (cases ys)
    case Nil
    from 7(3) have "no_float z" by simp
    then obtain c r where "json_text ftext z = c # r" "c \<noteq> CHR '']''" by (rule json_text_open)
    with 7(7) b Nil show ?thesis by simp
  next
    case (Cons w ws)
    have "z = w \<and> json_elems ftext zs @ x = json_elems ftext ws @ y"
      by (rule 7(1)) (use 7(3,4,7) b Cons in simp_all)
    with 7(2)[of ws x y] 7(3,4) b Cons show ?thesis by simp
  qed
next
  case (8 ftext)
  from json_same_kind[OF 8(1,2,5)] obtain gs where b: "b = JObj gs" by auto
  show ?case
  proof (cases gs)
    case (Cons z zs)
    with 8(2) b 8(5) show ?thesis by (cases z) (simp add: json_string_def)
  qed (use 8 b in simp)
next
  case (9 ftext k v fs)
  from json_same_kind[OF 9(3,4,7)] obtain gs where b: "b = JObj gs" by auto
  show ?case
  proof (cases gs)
    case Nil
    with b 9(7) show ?thesis by (simp add: json_string_def)
  next
    case (Cons g hs)
    obtain l w where g: "g = (l, w)" by (cases g)
    have "k = l \<and> CHR '':'' # json_text ftext v @ json_fields ftext fs @ x = CHR '':'' # json_text ftext w @ json_fields ftext hs @ y"
      by (rule json_string_inj) (use 9(7) b Cons g in simp)
    moreover from this have "v = w \<and> json_fields ftext fs @ x = json_fields ftext hs @ y"
      by (intro 9(1)) (use 9(3,4) b Cons g in simp_all)
    ultimately show ?thesis using 9(2)[of hs x y] 9(3,4) b Cons g by simp
  qed
next
  case (10 ftext)
  then show ?case by (cases ys) auto
next
  case (11 ftext z zs)
  show ?case
  proof (cases ys)
    case (Cons w ws)
    have "z = w \<and> json_elems ftext zs @ x = json_elems ftext ws @ y"
      by (rule 11(1)) (use 11(3-5) Cons in simp_all)
    with 11(2)[of ws x y] 11(3,4) Cons show ?thesis by simp
  qed (use 11(5) in simp)
next
  case (12 ftext)
  show ?case
  proof (cases gs)
    case (Cons g hs)
    with 12(3) show ?thesis by (cases g) simp
  qed (use 12(3) in simp)
next
  case (13 ftext k v fs)
  show ?case
  proof (cases gs)
    case (Cons g hs)
    obtain l w where g: "g = (l, w)" by (cases g)
    have "k = l \<and> CHR '':'' # json_text ftext v @ json_fields ftext fs @ x = CHR '':'' # json_text ftext w @ json_fields ftext hs @ y"
      by (rule json_string_inj) (use 13(5) Cons g in simp)
    moreover from this have "v = w \<and> json_fields ftext fs @ x = json_fields ftext hs @ y"
      by (intro 13(1)) (use 13(3,4) Cons g in simp_all)
    ultimately show ?thesis using 13(2)[of hs x y] 13(3,4) Cons g by simp
  qed (use 13(5) in simp)
qed

lemma json_text_inj: "no_float a \<Longrightarrow> no_float b \<Longrightarrow> json_text ftext a = json_text ftext b \<Longrightarrow> a = b"
  using json_text_inj_aux(1)[of a b "[]" "[]" ftext] by (simp add: stop_def)


lemma no_float_sort_fields [simp]: "no_float (sort_fields j) = no_float j"
proof (induction j rule: sort_fields.induct)
  case (2 fs)
  have "list_all (\<lambda>(k, x). no_float x) (map (\<lambda>(k, x). (k, sort_fields x)) fs) = list_all (\<lambda>(k, x). no_float x) fs"
    using 2 by (auto simp: list_all_iff)
  then show ?case by (simp add: list_all_iff)
qed (auto simp: list_all_iff)

lemma json_dumps_inj:
  "no_float a \<Longrightarrow> no_float b \<Longrightarrow> json_dumps ftext a = json_dumps ftext b \<longleftrightarrow> sort_fields a = sort_fields b"
  using json_text_inj[of "sort_fields a" "sort_fields b" ftext] by (auto simp: json_dumps_def)

lemma sorted_fields_at:
  assumes "sort_fields (JObj fs) = sort_fields (JObj gs)"
  shows "map (\<lambda>(k, x). (k, sort_fields x)) (filter (\<lambda>y. fst y = k) fs) =
    map (\<lambda>(k, x). (k, sort_fields x)) (filter (\<lambda>y. fst y = k) gs)"
proof -
  let ?f = "\<lambda>(k, x). (k, sort_fields x)"
  have "filter (\<lambda>y. fst y = k) (sort_key fst (map ?f fs)) = filter (\<lambda>y. fst y = k) (sort_key fst (map ?f gs))"
    using assms by simp
  then have "filter (\<lambda>y. fst y = k) (map ?f fs) = filter (\<lambda>y. fst y = k) (map ?f gs)" by (simp add: sort_key_stable)
  moreover have "filter (\<lambda>y. fst y = k) (map ?f l) = map ?f (filter (\<lambda>y. fst y = k) l)" for l
    by (induction l) auto
  ultimately show ?thesis by simp
qed

lemma dump_kind_first:
  "\<exists>fs rest. spec_dump s = JObj fs \<and> map (\<lambda>(k, x). (k, sort_fields x)) (filter (\<lambda>y. fst y = ''kind'') fs) = (''kind'', JStr (spec_kind s)) # rest"
  by (cases s) auto

lemma builtin_of_kind:
  assumes "\<forall>k e. t = PluginSourceSpec k e \<longrightarrow> k \<notin> set BUILTIN_SOURCE_KINDS"
  shows "spec_kind t = ''reddit_subreddit'' \<Longrightarrow> \<exists>a. t = RedditSubredditSourceSpec a"
    "spec_kind t = ''rss'' \<Longrightarrow> \<exists>a b. t = RssSourceSpec a b"
    "spec_kind t = ''hn_feed'' \<Longrightarrow> \<exists>a b c. t = HackerNewsFeedSourceSpec a b c"
    "spec_kind t = ''hn_comment'' \<Longrightarrow> \<exists>a b. t = HackerNewsCommentSourceSpec a b"
    "spec_kind t = ''twitter_search'' \<Longrightarrow> \<exists>a b c e. t = TwitterSearchSourceSpec a b c e"
    "spec_kind t = ''youtube_search'' \<Longrightarrow> \<exists>a b. t = YouTubeSearchSourceSpec a b"
  using assms by (cases t; simp add: BUILTIN_SOURCE_KINDS_def)+

lemma same_fields_same_spec:
  assumes "sort_fields (spec_dump s) = sort_fields (spec_dump t)"
    and b: "spec_kind s \<in> set BUILTIN_SOURCE_KINDS" and pt: "\<And>k e. t = PluginSourceSpec k e \<Longrightarrow> k \<notin> set BUILTIN_SOURCE_KINDS"
    and ps: "\<And>k e. s = PluginSourceSpec k e \<Longrightarrow> k \<notin> set BUILTIN_SOURCE_KINDS"
  shows "s = t"
proof -
  from dump_kind_first[of s] obtain fs r where s: "spec_dump s = JObj fs"
    "map (\<lambda>(k, x). (k, sort_fields x)) (filter (\<lambda>y. fst y = ''kind'') fs) = (''kind'', JStr (spec_kind s)) # r" by (elim exE conjE)
  from dump_kind_first[of t] obtain gs r' where t: "spec_dump t = JObj gs"
    "map (\<lambda>(k, x). (k, sort_fields x)) (filter (\<lambda>y. fst y = ''kind'') gs) = (''kind'', JStr (spec_kind t)) # r'" by (elim exE conjE)
  note at = sorted_fields_at[of fs gs, OF assms(1)[unfolded s(1) t(1)]]
  have k: "spec_kind t = spec_kind s" using at[of "''kind''"] unfolding s(2) t(2) by simp
  have "\<forall>k e. t = PluginSourceSpec k e \<longrightarrow> k \<notin> set BUILTIN_SOURCE_KINDS" using pt by blast
  note b' = builtin_of_kind[OF this, unfolded k]
  show ?thesis
  proof (cases s)
    case (RedditSubredditSourceSpec a)
    with b'(1) s(1) t(1) at[of "''subreddit''"] show ?thesis by auto
  next
    case (RssSourceSpec a b)
    with b'(2) s(1) t(1) at[of "''url''"] at[of "''name''"] show ?thesis by auto
  next
    case (HackerNewsFeedSourceSpec a b c)
    with b'(3) obtain x y z where "t = HackerNewsFeedSourceSpec x y z" by auto
    with HackerNewsFeedSourceSpec s(1) t(1) at[of "''query''"] at[of "''match''"] at[of "''feed''"] show ?thesis
      by (auto split: hn_match.splits hn_feed.splits)
  next
    case (HackerNewsCommentSourceSpec a b)
    with b'(4) obtain x y where "t = HackerNewsCommentSourceSpec x y" by auto
    with HackerNewsCommentSourceSpec s(1) t(1) at[of "''query''"] at[of "''match''"] show ?thesis by (auto split: hn_match.splits)
  next
    case (TwitterSearchSourceSpec a b c d)
    with b'(5) obtain x y z w where "t = TwitterSearchSourceSpec x y z w" by auto
    with TwitterSearchSourceSpec s(1) t(1) at[of "''query''"] at[of "''mode''"] at[of "''count''"] at[of "''lang''"] show ?thesis
      by (auto split: twitter_mode.splits)
  next
    case (YouTubeSearchSourceSpec a b)
    with b'(6) s(1) t(1) at[of "''query''"] at[of "''count''"] show ?thesis by auto
  next
    case (PluginSourceSpec k e)
    with b ps show ?thesis by simp
  qed
qed

subsection \<open>Validators settle\<close>

lemma dropWhile_settled: "dropWhile P (dropWhile P xs) = dropWhile P xs"
  by (induction xs) auto

lemma strip_ends: "strip v = [] \<or> (\<not> py_space (hd (strip v)) \<and> \<not> py_space (last (strip v)))"
proof (cases "strip v = []")
  case False
  let ?m = "dropWhile py_space v"
  have r: "strip v = rev (dropWhile py_space (rev ?m))" by (simp add: strip_def)
  with False have ne: "dropWhile py_space (rev ?m) \<noteq> []" by simp
  from hd_dropWhile[OF ne] have "\<not> py_space (last (strip v))" using r False by (simp add: last_rev)
  moreover have "\<exists>ys. rev ?m = ys @ dropWhile py_space (rev ?m)" by (metis takeWhile_dropWhile_id)
  then obtain ys where "rev ?m = ys @ rev (strip v)" using r by auto
  then have "?m = strip v @ rev ys" by (metis rev_append rev_rev_ident)
  then have "hd ?m = hd (strip v)" "?m \<noteq> []" using False by auto
  then have "\<not> py_space (hd (strip v))" using hd_dropWhile[of py_space v] by metis
  ultimately show ?thesis by blast
qed simp

lemma strip_id: "s = [] \<or> (\<not> py_space (hd s) \<and> \<not> py_space (last s)) \<Longrightarrow> strip s = s"
proof (cases "s = []")
  case False
  assume "s = [] \<or> (\<not> py_space (hd s) \<and> \<not> py_space (last s))"
  with False have h: "\<not> py_space (hd s)" "\<not> py_space (hd (rev s))" by (auto simp: hd_rev)
  have "dropWhile py_space s = s" using h(1) False by (cases s) auto
  moreover have "dropWhile py_space (rev s) = rev s" using h(2) False by (cases "rev s") auto
  ultimately show ?thesis by (simp add: strip_def)
qed (simp add: strip_def)

lemma strip_strip [simp]: "strip (strip v) = strip v"
  using strip_id strip_ends by blast


lemma lower_char_facts:
  "lower_char (lower_char c) = lower_char c" "py_space (lower_char c) = py_space c"
  "slug_char c \<Longrightarrow> slug_char (lower_char c)" "slug_char c \<Longrightarrow> \<not> py_space c" "slug_char c \<Longrightarrow> c \<noteq> CHR ''/''"
proof -
  have u: "of_char c + (32 :: nat) < 256 \<and> 65 \<le> (of_char c :: nat) \<and> (of_char c :: nat) \<le> 90" if "is_upper c"
    using that by (auto simp: is_upper_def less_eq_char_def)
  have l: "of_char (lower_char c) = (of_char c + 32 :: nat)" if "is_upper c"
    using u[OF that] that by (simp add: lower_char_def)
  have n: "\<not> is_upper (lower_char c)"
    using u l by (cases "is_upper c") (auto simp: is_upper_def less_eq_char_def lower_char_def)
  show "lower_char (lower_char c) = lower_char c" using n by (simp add: lower_char_def[of "lower_char c"])
  show "py_space (lower_char c) = py_space c"
    using u l by (cases "is_upper c") (auto simp: py_space_def lower_char_def)
  show "slug_char (lower_char c)" if "slug_char c"
    using that u l by (cases "is_upper c") (auto simp: slug_char_def is_lower_def less_eq_char_def lower_char_def)
  show "\<not> py_space c" if "slug_char c"
    using that by (auto simp: slug_char_def py_space_def is_upper_def is_lower_def is_digit_def less_eq_char_def)
  show "c \<noteq> CHR ''/''" if "slug_char c"
    using that by (auto simp: slug_char_def is_upper_def is_lower_def is_digit_def less_eq_char_def)
qed

lemma lower_lower [simp]: "lower (lower s) = lower s"
  by (simp add: lower_def lower_char_facts)

lemma strip_lower_strip [simp]: "strip (lower (strip v)) = lower (strip v)"
proof (rule strip_id)
  show "lower (strip v) = [] \<or> \<not> py_space (hd (lower (strip v))) \<and> \<not> py_space (last (lower (strip v)))"
    using strip_ends[of v] by (cases "strip v = []") (auto simp: lower_def hd_map last_map lower_char_facts)
qed

lemma lang_normalize_settled: "lang_normalize (lang_normalize v) = lang_normalize v"
  by (simp add: lang_normalize_def)

lemma slug_no_prefix: "list_all slug_char s \<Longrightarrow> strip_r_prefix s = s"
proof -
  assume s: "list_all slug_char s"
  have "take 1 s \<noteq> ''/''" using s lower_char_facts(5) by (cases s) auto
  moreover have "lower (take 2 s) \<noteq> ''r/''"
  proof
    assume a: "lower (take 2 s) = ''r/''"
    then obtain c d r where "s = c # d # r" "lower_char d = CHR ''/''"
      by (cases s; cases "tl s") (auto simp: lower_def)
    with s lower_char_facts(3,5) show False by auto
  qed
  ultimately show ?thesis by (simp add: strip_r_prefix_def)
qed

lemma validate_subreddit_settled:
  assumes "validate_subreddit v = Some s"
  shows "validate_subreddit s = Some s"
proof -
  obtain slug where slug: "slug \<noteq> ''''" "length slug \<le> MAX_SUBREDDIT_LENGTH" "list_all slug_char slug" "s = lower slug"
    using assms by (auto simp: validate_subreddit_def Let_def split: if_splits)
  have s: "list_all slug_char s" using slug(3,4) lower_char_facts(3) by (auto simp: lower_def list_all_iff)
  have "s \<noteq> []" using slug(1,4) by (simp add: lower_def)
  then have "hd s \<in> set s" "last s \<in> set s" by simp_all
  with s have "\<not> py_space (hd s)" "\<not> py_space (last s)"
    using lower_char_facts(4) by (simp_all add: list_all_iff)
  then have "strip s = s" by (intro strip_id) simp
  moreover have "strip_r_prefix s = s" using s by (rule slug_no_prefix)
  ultimately show ?thesis using s slug by (simp add: validate_subreddit_def Let_def lower_def lower_char_facts)
qed

lemma spec_kind_validate: "validate_spec r = Some s \<Longrightarrow> spec_kind s = spec_kind r"
  by (cases r) (auto split: if_splits simp: reject_builtin_kind_def)

lemma validate_plugin_kind: "validate_spec r = Some (PluginSourceSpec k e) \<Longrightarrow> k \<notin> set BUILTIN_SOURCE_KINDS"
  by (cases r) (auto split: if_splits simp: reject_builtin_kind_def)

subsection \<open>Properties\<close>

text \<open>C28: a spec that passed its validators passes them unchanged, so what is stored reads back as the
  source that was written; subreddit names, queries and languages are in their normal form.\<close>

theorem validated_spec_is_settled:
  assumes "validate_spec r = Some s"
  shows "validate_spec s = Some s \<and> spec_kind s = spec_kind r"
proof -
  have "validate_spec s = Some s"
    using assms validate_subreddit_settled
    by (cases r) (auto simp: query_not_blank_def lang_normalize_settled validate_url_structural_def reject_builtin_kind_def
      split: if_splits option.splits)
  with spec_kind_validate[OF assms] show ?thesis by simp
qed

theorem validated_spec_is_settled_witness:
  "validate_spec (RedditSubredditSourceSpec '' R/Python '') = Some (RedditSubredditSourceSpec ''python'') \<and>
   validate_spec (RedditSubredditSourceSpec ''python'') = Some (RedditSubredditSourceSpec ''python'')"
proof -
  have "validate_spec (RedditSubredditSourceSpec '' R/Python '') = Some (RedditSubredditSourceSpec ''python'')" by code_simp
  with validated_spec_is_settled[OF this] show ?thesis by blast
qed

text \<open>C29: the canonical form, and so the hash the server stores, tells sources apart: two validated
  specs, one of them of a built-in kind, have one form only when they are one spec; and the form of a
  plugin spec does not depend on the order its fields were submitted in.\<close>

theorem canonical_spec_identifies:
  assumes "validate_spec r = Some s" "validate_spec r' = Some t"
    and "no_float (spec_dump s)" "no_float (spec_dump t)"
  shows "(canonical_spec ftext s = canonical_spec ftext t \<longleftrightarrow> sort_fields (spec_dump s) = sort_fields (spec_dump t)) \<and>
    (spec_kind s \<in> set BUILTIN_SOURCE_KINDS \<longrightarrow> canonical_spec ftext s = canonical_spec ftext t \<longrightarrow> s = t)"
  using assms json_dumps_inj[of "spec_dump s" "spec_dump t" ftext] same_fields_same_spec[of s t]
    validate_plugin_kind[of r] validate_plugin_kind[of r']
  by (auto simp: canonical_spec_def)

theorem canonical_spec_identifies_witness:
  "canonical_spec (\<lambda>_. ''0.0'') (RedditSubredditSourceSpec ''python'') \<noteq>
   canonical_spec (\<lambda>_. ''0.0'') (RssSourceSpec ''https://x.y/'' ''python'')"
proof
  let ?s = "RedditSubredditSourceSpec ''python''" and ?t = "RssSourceSpec ''https://x.y/'' ''python''"
  assume eq: "canonical_spec (\<lambda>_. ''0.0'') ?s = canonical_spec (\<lambda>_. ''0.0'') ?t"
  have v: "validate_spec ?s = Some ?s" "validate_spec ?t = Some ?t" by code_simp+
  have n: "no_float (spec_dump ?s)" "no_float (spec_dump ?t)" by simp_all
  have "spec_kind ?s \<in> set BUILTIN_SOURCE_KINDS" by (simp add: BUILTIN_SOURCE_KINDS_def)
  with canonical_spec_identifies[OF v n] eq show False by blast
qed

end
