(* ===== verification/Windows.thy ===== *)
theory Windows
  imports Runs Source_Specs
begin

text \<open>
  Window values (\<open>openmagpie_schema/run_windows.py\<close>): the keyword, duration and ISO grammar of a window
  bound or seek target, resolved against one clock, and the two guards on a pair of bounds.
  \<open>fromiso\<close> is \<open>datetime.fromisoformat\<close> with a naive value read as UTC. Lemmas: a resolved window
  is bounded below and not empty; a duration is exact and never leaves the calendar.
\<close>

subsection \<open>One value\<close>

datatype window_keyword = KW_NOW | KW_TODAY | KW_YESTERDAY | KW_THIS_WEEK | KW_OLDEST

definition parse_keyword :: "string \<Rightarrow> window_keyword option" where
  "parse_keyword text = map_of
     [(''now'', KW_NOW), (''today'', KW_TODAY), (''yesterday'', KW_YESTERDAY), (''this-week'', KW_THIS_WEEK), (''oldest'', KW_OLDEST)] text"

text \<open>The first instant a \<open>datetime\<close> can hold; \<open>timedelta\<close> arithmetic below it raises.\<close>

definition DATETIME_MIN :: datetime where "DATETIME_MIN = seconds (- 62135596800)"

text \<open>Monday is 0; the epoch was a Thursday.\<close>

definition weekday :: "datetime \<Rightarrow> int" where
  "weekday t = (t div days 1 + 3) mod 7"

definition resolve_keyword :: "string \<Rightarrow> datetime \<Rightarrow> datetime option \<Rightarrow> datetime option result" where
  "resolve_keyword text now floor' =
     (case parse_keyword text of
        None \<Rightarrow> Inr None
      | Some keyword \<Rightarrow>
          let start_of_today = now - now mod days 1
          in case keyword of
               KW_NOW \<Rightarrow> Inr (Some now)
             | KW_TODAY \<Rightarrow> Inr (Some start_of_today)
             | KW_YESTERDAY \<Rightarrow> Inr (Some (start_of_today - days 1))
             | KW_THIS_WEEK \<Rightarrow> Inr (Some (start_of_today - days (weekday start_of_today)))
             | KW_OLDEST \<Rightarrow> (case floor' of None \<Rightarrow> Inl ValueError | Some f \<Rightarrow> Inr (Some f)))"

definition REL_UNIT :: "(char \<times> int) list" where
  "REL_UNIT = [(CHR ''s'', 1), (CHR ''m'', 60), (CHR ''h'', 3600), (CHR ''d'', 86400), (CHR ''w'', 604800)]"

text \<open>The amount, and the seconds of its unit.\<close>

definition rel_duration :: "string \<Rightarrow> (int \<times> int) option" where
  "rel_duration text =
     (if length text < 2 \<or> \<not> list_all is_digit (butlast text) then None
      else map_option (Pair (num_of 10 (butlast text))) (map_of REL_UNIT (last text)))"

definition resolve_window_value ::
  "(string \<Rightarrow> datetime option) \<Rightarrow> string \<Rightarrow> datetime \<Rightarrow> datetime option \<Rightarrow> datetime result" where
  "resolve_window_value fromiso raw now floor' =
     (let text = strip raw in
      res_bind (resolve_keyword (lower text) now floor') (\<lambda>anchored.
        case anchored of
          Some t \<Rightarrow> Inr t
        | None \<Rightarrow>
            (case rel_duration text of
               Some (amount, unit) \<Rightarrow>
                 if now - seconds (amount * unit) < DATETIME_MIN then Inl ValueError
                 else Inr (now - seconds (amount * unit))
             | None \<Rightarrow> (case fromiso text of None \<Rightarrow> Inl ValueError | Some t \<Rightarrow> Inr t))))"

subsection \<open>A pair of bounds\<close>

text \<open>The set parameters of a request, by name; blank ones were dropped by \<open>run_window_params\<close>.\<close>

record raw_windows =
  raw_completed_since :: "string option"
  raw_completed_until :: "string option"
  raw_occurred_since :: "string option"
  raw_occurred_until :: "string option"

definition set_param :: "string option \<Rightarrow> string option" where
  "set_param v = (case v of None \<Rightarrow> None | Some s \<Rightarrow> if s = '''' then None else Some s)"

definition run_window_params :: "string option \<Rightarrow> string option \<Rightarrow> string option \<Rightarrow> string option \<Rightarrow> raw_windows" where
  "run_window_params occurred_since occurred_until completed_since completed_until =
     \<lparr>raw_completed_since = set_param completed_since, raw_completed_until = set_param completed_until,
      raw_occurred_since = set_param occurred_since, raw_occurred_until = set_param occurred_until\<rparr>"

definition RUN_WINDOW_DEFAULT_SPAN :: int where "RUN_WINDOW_DEFAULT_SPAN = days 7"

definition resolve_param :: "(string \<Rightarrow> datetime option) \<Rightarrow> datetime \<Rightarrow> string option \<Rightarrow> datetime option result" where
  "resolve_param fromiso now v =
     (case v of None \<Rightarrow> Inr None | Some s \<Rightarrow> map_sum id Some (resolve_window_value fromiso s now None))"

definition guard_pair :: "datetime option \<Rightarrow> datetime option \<Rightarrow> (datetime option \<times> datetime option) result" where
  "guard_pair since until =
     res_bind
       (case (since, until) of
          (None, Some u) \<Rightarrow>
            if u - RUN_WINDOW_DEFAULT_SPAN < DATETIME_MIN then Inl ValueError else Inr (Some (u - RUN_WINDOW_DEFAULT_SPAN))
        | _ \<Rightarrow> Inr since)
       (\<lambda>since'. case (since', until) of
          (Some s, Some u) \<Rightarrow> if u \<le> s then Inl ValueError else Inr (since', until)
        | _ \<Rightarrow> Inr (since', until))"

definition resolve_run_windows ::
  "(string \<Rightarrow> datetime option) \<Rightarrow> raw_windows \<Rightarrow> datetime \<Rightarrow> run_windows result" where
  "resolve_run_windows fromiso raw now =
     res_bind (resolve_param fromiso now (raw_occurred_since raw)) (\<lambda>os.
     res_bind (resolve_param fromiso now (raw_occurred_until raw)) (\<lambda>ou.
     res_bind (resolve_param fromiso now (raw_completed_since raw)) (\<lambda>cs.
     res_bind (resolve_param fromiso now (raw_completed_until raw)) (\<lambda>cu.
     res_bind (guard_pair os ou) (\<lambda>(os', ou').
     res_bind (guard_pair cs cu) (\<lambda>(cs', cu').
       Inr \<lparr>rw_completed_since = cs', rw_completed_until = cu', rw_occurred_since = os', rw_occurred_until = ou'\<rparr>))))))"

subsection \<open>Lemmas\<close>

text \<open>A pair of bounds the guards let through: no bound, or a lower one with nothing or more above it.\<close>

definition bounded :: "datetime option \<Rightarrow> datetime option \<Rightarrow> bool" where
  "bounded since until \<longleftrightarrow> (case until of None \<Rightarrow> True | Some u \<Rightarrow> (case since of None \<Rightarrow> False | Some s \<Rightarrow> s < u))"

lemma guard_pair_bounded:
  assumes "guard_pair since until = Inr (s', u')"
  shows "bounded s' u' \<and> u' = until \<and> (since \<noteq> None \<longrightarrow> s' = since)"
proof -
  have "0 < RUN_WINDOW_DEFAULT_SPAN" by (simp add: RUN_WINDOW_DEFAULT_SPAN_def days_def seconds_def)
  then show ?thesis
    using assms by (cases since; cases until) (auto simp: guard_pair_def bounded_def split: if_splits)
qed

lemma show_nat_last_digit: "show_nat n \<noteq> []"
  using show_nat_head[of n] by auto

lemma rel_duration_show:
  "map_of REL_UNIT u = Some k \<Longrightarrow> rel_duration (show_nat n @ [u]) = Some (int n, k)"
  using show_nat_last_digit[of n] show_nat_digits[of n]
  by (cases "show_nat n") (auto simp: rel_duration_def)

lemma rel_unit_char: "map_of REL_UNIT u = Some k \<Longrightarrow> \<not> py_space u \<and> 0 < k"
  by (auto simp: REL_UNIT_def py_space_def split: if_splits)

lemma digit_no_space: "is_digit c \<Longrightarrow> \<not> py_space c"
  by (auto simp: is_digit_def py_space_def less_eq_char_def)

lemma strip_duration: "map_of REL_UNIT u = Some k \<Longrightarrow> strip (show_nat n @ [u]) = show_nat n @ [u]"
  using show_nat_head[of n] rel_unit_char[of u k] digit_no_space by (intro strip_id) auto

lemma keyword_no_digit: "is_digit c \<Longrightarrow> parse_keyword (lower (c # r)) = None"
proof -
  assume c: "is_digit c"
  then have "lower_char c = c" by (auto simp: lower_char_def is_digit_def is_upper_def less_eq_char_def)
  with c show ?thesis by (auto simp: parse_keyword_def lower_def is_digit_def less_eq_char_def)
qed

text \<open>\<open><n><unit>\<close> is \<open>n\<close> units before now, or refused when that is before the calendar.\<close>

lemma resolve_duration:
  assumes "map_of REL_UNIT u = Some k"
  shows "resolve_window_value fromiso (show_nat n @ [u]) now floor' =
    (if now - seconds (int n * k) < DATETIME_MIN then Inl ValueError else Inr (now - seconds (int n * k)))"
proof -
  obtain c r where "show_nat n = c # r" "is_digit c" using show_nat_head[of n] by blast
  then have "resolve_keyword (lower (show_nat n @ [u])) now floor' = Inr None"
    using keyword_no_digit[of c "r @ [u]"] by (simp add: resolve_keyword_def)
  then show ?thesis
    using strip_duration[OF assms] rel_duration_show[OF assms] by (simp add: resolve_window_value_def Let_def)
qed

lemma resolve_oldest: "resolve_window_value fromiso ''oldest'' now (Some f) = Inr f"
proof -
  have "strip ''oldest'' = ''oldest''" "lower ''oldest'' = ''oldest''" by code_simp+
  then show ?thesis by (simp add: resolve_window_value_def resolve_keyword_def parse_keyword_def Let_def)
qed

subsection \<open>Properties\<close>

text \<open>Windows that resolve are bounded below and not empty: an upper bound always comes with a
  lower one before it, both kept as submitted where they were, so no selection scans the whole
  history or an empty span.\<close>

theorem resolved_windows_are_bounded:
  assumes "resolve_run_windows fromiso raw now = Inr w"
  shows "bounded (rw_occurred_since w) (rw_occurred_until w) \<and> bounded (rw_completed_since w) (rw_completed_until w) \<and>
    resolve_param fromiso now (raw_occurred_until raw) = Inr (rw_occurred_until w) \<and>
    resolve_param fromiso now (raw_completed_until raw) = Inr (rw_completed_until w)"
  using assms
  by (auto simp: resolve_run_windows_def res_bind_Inr_iff dest!: guard_pair_bounded)

theorem resolved_windows_are_bounded_witness:
  "bounded (Some (days 13)) (Some (days 20)) \<and>
   resolve_param (\<lambda>_. None) (days 21) (Some ''1d'') = Inr (Some (days 20))"
proof -
  let ?raw = "run_window_params None (Some ''1d'') None None"
  have "resolve_run_windows (\<lambda>_. None) ?raw (days 21) =
      Inr \<lparr>rw_completed_since = None, rw_completed_until = None, rw_occurred_since = Some (days 13), rw_occurred_until = Some (days 20)\<rparr>"
    by code_simp
  from resolved_windows_are_bounded[OF this] show ?thesis by (simp add: run_window_params_def set_param_def)
qed

end
