(* ===== verification/Sources.thy ===== *)
theory Sources
  imports Windows Feed_Items
begin

text \<open>
  Feeds and their sources: the feed row (\<open>feeds/services/feeds/_service.py\<close>, \<open>_global.py\<close>,
  \<open>feeds/registry.py\<close>), the source rows (\<open>feeds/services/sources.py\<close>, \<open>_sources_seek.py\<close>) and the
  policy on both (\<open>feeds/policy.py\<close>). The shape checks of the config and spec libraries, SHA-256, the
  text of a float, Python's \<open>str\<close>, the order a set is iterated in and the ISO parser are the fields
  of \<open>feeds_env\<close>. A lock outcome is the argument \<open>acquired\<close>. Lemmas: references, unique
  identities, typed specs and watermarks not in the future hold after any sequence of operations;
  a reconcile is exact and keeps watermarks; a seek moves every row to its target and no further
  back than what the items log still remembers.
\<close>

subsection \<open>Configuration\<close>

record curated_config =
  cc_retention_days :: int
  cc_default_field_map :: str_dict

record feeds_env =
  fe_gen :: "nat \<Rightarrow> ulid"
  fe_encode_time :: "int \<Rightarrow> string"
  fe_config_shape :: "json \<Rightarrow> curated_config option"
  fe_config_dump :: "curated_config \<Rightarrow> json"
  fe_spec_shape :: "json \<Rightarrow> source_spec option"
  fe_ftext :: "rat \<Rightarrow> string"
  fe_pystr :: "json \<Rightarrow> string"
  fe_sha256 :: "string \<Rightarrow> string"
  fe_set_order :: "string list \<Rightarrow> string list"
  fe_fromiso :: "string \<Rightarrow> datetime option"
  fe_plugin_connectors :: "string list"
  fe_block_private_ips :: bool

definition FEED_KIND :: string where "FEED_KIND = ''curated''"

definition parse_feed_config :: "feeds_env \<Rightarrow> string \<Rightarrow> json \<Rightarrow> curated_config result" where
  "parse_feed_config E kind data =
     (if kind \<noteq> FEED_KIND then Inl KeyError
      else case fe_config_shape E data of None \<Rightarrow> Inl ValidationError | Some c \<Rightarrow> Inr c)"

definition load_feed_config :: "feeds_env \<Rightarrow> feed \<Rightarrow> curated_config result" where
  "load_feed_config E f =
     parse_feed_config E (feed_kind f) (if json_truthy (feed_data f) then feed_data f else JObj [])"

definition merge_feed_config :: "curated_config \<Rightarrow> curated_config \<Rightarrow> curated_config" where
  "merge_feed_config submitted prior = submitted"

text \<open>A stored spec through the adapter: its shape, then the member's validators.\<close>

definition parse_spec :: "feeds_env \<Rightarrow> json \<Rightarrow> source_spec option" where
  "parse_spec E j = (case fe_spec_shape E j of None \<Rightarrow> None | Some s \<Rightarrow> validate_spec s)"

subsection \<open>Policy\<close>

definition RETENTION_MIN_DAYS :: int where "RETENTION_MIN_DAYS = 1"
definition RETENTION_MAX_DAYS :: int where "RETENTION_MAX_DAYS = 365"

definition enforce_feed_policy :: "curated_config \<Rightarrow> curated_config result" where
  "enforce_feed_policy c =
     (if RETENTION_MIN_DAYS \<le> cc_retention_days c \<and> cc_retention_days c \<le> RETENTION_MAX_DAYS
      then Inr c else Inl PolicyError)"

definition validate_feed_config :: "feeds_env \<Rightarrow> string \<Rightarrow> json \<Rightarrow> curated_config result" where
  "validate_feed_config E kind data = res_bind (parse_feed_config E kind data) enforce_feed_policy"

definition enforce_source_watermark :: "datetime \<Rightarrow> datetime \<Rightarrow> datetime result" where
  "enforce_source_watermark value now = (if now < value then Inl SourceWatermarkError else Inr value)"

definition seek_floor :: "int \<Rightarrow> datetime \<Rightarrow> datetime" where
  "seek_floor retention_days now = now - days retention_days"

definition enforce_seek_floor :: "datetime \<Rightarrow> int \<Rightarrow> datetime \<Rightarrow> datetime result" where
  "enforce_seek_floor to retention_days now =
     (if to < seek_floor retention_days now then Inl SourceWatermarkError else Inr to)"

definition default_and_enforce_source_watermark :: "datetime option \<Rightarrow> datetime \<Rightarrow> datetime result" where
  "default_and_enforce_source_watermark value now =
     (case value of None \<Rightarrow> Inr now | Some v \<Rightarrow> enforce_source_watermark v now)"

text \<open>The ranges the write-time gate refuses; a mapped IPv6 literal answers as its IPv4 address.\<close>

definition policy_blocks4 :: "32 word \<Rightarrow> bool" where
  "policy_blocks4 w \<longleftrightarrow> is_private4 w \<or> in_net4 0x7F000000 8 w \<or> in_net4 0xA9FE0000 16 w \<or>
     in_net4 0xE0000000 4 w \<or> in_net4 0xF0000000 4 w"

definition policy_blocks :: "ip \<Rightarrow> bool" where
  "policy_blocks i =
     (case i of
        IPv4 w \<Rightarrow> policy_blocks4 w
      | IPv6 w \<Rightarrow>
          (case ipv4_mapped w of
             Some v \<Rightarrow> policy_blocks4 v
           | None \<Rightarrow> is_private6 w \<or> w = 1 \<or> in_net6 (hexts [0xfe80]) 10 w \<or> in_net6 (hexts [0xff00]) 8 w \<or>
               list_ex (\<lambda>(n, p). in_net6 n p w) RESERVED_V6))"

definition check_url_ip :: "string \<Rightarrow> unit result" where
  "check_url_ip candidate =
     (case urlsplit candidate of
        None \<Rightarrow> Inr ()
      | Some parsed \<Rightarrow>
          (case hostname parsed of
             None \<Rightarrow> Inr ()
           | Some h \<Rightarrow>
               (case ip_address h of
                  None \<Rightarrow> Inr ()
                | Some i \<Rightarrow> if policy_blocks i then Inl PolicyError else Inr ())))"

fun iter_strings :: "json \<Rightarrow> string list" where
  "iter_strings (JStr s) = [s]"
| "iter_strings (JObj fs) = concat (map (\<lambda>(k, x). iter_strings x) fs)"
| "iter_strings (JArr xs) = concat (map iter_strings xs)"
| "iter_strings JNull = []"
| "iter_strings (JBool b) = []"
| "iter_strings (JInt n) = []"
| "iter_strings (JFloat r) = []"

text \<open>The fields a built-in spec declares as fetched; a plugin spec is scanned whole.\<close>

fun url_candidates :: "source_spec \<Rightarrow> string list" where
  "url_candidates (RssSourceSpec url name) = [url]"
| "url_candidates (PluginSourceSpec kind extra) = iter_strings (spec_dump (PluginSourceSpec kind extra))"
| "url_candidates (RedditSubredditSourceSpec s) = []"
| "url_candidates (HackerNewsFeedSourceSpec q m f) = []"
| "url_candidates (HackerNewsCommentSourceSpec q m) = []"
| "url_candidates (TwitterSearchSourceSpec q m c l) = []"
| "url_candidates (YouTubeSearchSourceSpec q c) = []"

fun check_all :: "('a \<Rightarrow> unit result) \<Rightarrow> 'a list \<Rightarrow> unit result" where
  "check_all f [] = Inr ()"
| "check_all f (x # xs) = res_bind (f x) (\<lambda>_. check_all f xs)"

definition enforce_source_url_safety :: "feeds_env \<Rightarrow> source_spec \<Rightarrow> unit result" where
  "enforce_source_url_safety E spec =
     (if \<not> fe_block_private_ips E then Inr () else check_all check_url_ip (url_candidates spec))"

definition enforce_source_spec_safety :: "feeds_env \<Rightarrow> source_spec list \<Rightarrow> unit result" where
  "enforce_source_spec_safety E specs = check_all (enforce_source_url_safety E) specs"

subsection \<open>Feed reads\<close>

definition get_feed :: "ulid \<Rightarrow> ulid \<Rightarrow> db \<Rightarrow> feed result" where
  "get_feed account i d = qget (\<lambda>f. feed_id f = i \<and> feed_account f = account) (t_feeds d)"

definition find_feed_by_name :: "ulid \<Rightarrow> string \<Rightarrow> db \<Rightarrow> feed option" where
  "find_feed_by_name account name d =
     first_row (order_by feed_id (filter (\<lambda>f. feed_account f = account \<and> feed_name f = name) (t_feeds d)))"

definition existing_feed_ids :: "ulid \<Rightarrow> ulid list \<Rightarrow> db \<Rightarrow> ulid set" where
  "existing_feed_ids account ids d =
     feed_id ` set (filter (\<lambda>f. feed_account f = account \<and> feed_id f \<in> set ids) (t_feeds d))"

definition get_many_feeds :: "ulid \<Rightarrow> ulid list \<Rightarrow> db \<Rightarrow> (ulid \<times> feed) list" where
  "get_many_feeds account ids d =
     concat (map (\<lambda>chunk. map (\<lambda>f. (feed_id f, f))
       (filter (\<lambda>f. feed_account f = account \<and> feed_id f \<in> set chunk) (t_feeds d))) (batched ID_IN_CHUNK ids))"

definition list_feeds :: "ulid \<Rightarrow> ulid option \<Rightarrow> nat \<Rightarrow> db \<Rightarrow> feed list" where
  "list_feeds account after limit d =
     take limit (rev (order_by feed_id (filter (\<lambda>f. feed_account f = account \<and>
       (case after of None \<Rightarrow> True | Some a \<Rightarrow> a = '''' \<or> feed_id f < a)) (t_feeds d))))"

definition get_feed_global :: "ulid \<Rightarrow> db \<Rightarrow> feed result" where
  "get_feed_global i d = qget (\<lambda>f. feed_id f = i) (t_feeds d)"

definition due_for_poll :: "datetime \<Rightarrow> feed \<Rightarrow> bool" where
  "due_for_poll now f \<longleftrightarrow> feed_active f \<and> (feed_next_poll f = None \<or> le_col (feed_next_poll f) now)"

definition iter_due_for_poll :: "datetime \<Rightarrow> db \<Rightarrow> feed list" where
  "iter_due_for_poll now d = filter (due_for_poll now) (t_feeds d)"

definition count_feeds :: "db \<Rightarrow> nat" where
  "count_feeds d = length (t_feeds d)"


subsection \<open>Source reads\<close>

definition assert_curated :: "ulid \<Rightarrow> feed \<Rightarrow> unit result" where
  "assert_curated account f =
     (if feed_account f \<noteq> account then Inl ValueError
      else if feed_kind f \<noteq> FEED_KIND then Inl PolicyError else Inr ())"

definition in_feed :: "ulid \<Rightarrow> ulid \<Rightarrow> source \<Rightarrow> bool" where
  "in_feed account feed s \<longleftrightarrow> src_account s = account \<and> src_feed s = feed"

definition feed_sources :: "ulid \<Rightarrow> feed \<Rightarrow> db \<Rightarrow> source list" where
  "feed_sources account f d = filter (in_feed account (feed_id f)) (t_sources d)"

definition list_sources :: "ulid \<Rightarrow> feed \<Rightarrow> db \<Rightarrow> source list result" where
  "list_sources account f d =
     (if feed_account f \<noteq> account then Inl ValueError else Inr (order_by src_id (feed_sources account f d)))"

definition count_sources :: "ulid \<Rightarrow> feed \<Rightarrow> db \<Rightarrow> nat result" where
  "count_sources account f d =
     (if feed_account f \<noteq> account then Inl ValueError else Inr (length (feed_sources account f d)))"

text \<open>The database's random order is the argument \<open>shuffle\<close>.\<close>

definition iter_for_poll ::
  "(source list \<Rightarrow> source list) \<Rightarrow> ulid \<Rightarrow> feed \<Rightarrow> string list \<Rightarrow> db \<Rightarrow> source list result" where
  "iter_for_poll shuffle account f exclude_kinds d =
     (if feed_account f \<noteq> account then Inl ValueError
      else Inr (shuffle (filter (\<lambda>s. src_kind s \<notin> set exclude_kinds) (feed_sources account f d))))"

definition iter_by_kind :: "(source list \<Rightarrow> source list) \<Rightarrow> ulid \<Rightarrow> feed \<Rightarrow> string \<Rightarrow> db \<Rightarrow> source list result" where
  "iter_by_kind shuffle account f kind d =
     (if feed_account f \<noteq> account then Inl ValueError
      else Inr (shuffle (filter (\<lambda>s. src_kind s = kind) (feed_sources account f d))))"

definition get_source_by_id :: "ulid \<Rightarrow> ulid \<Rightarrow> db \<Rightarrow> source result" where
  "get_source_by_id account i d = qget (\<lambda>s. src_id s = i \<and> src_account s = account) (t_sources d)"

definition resolve_owned_source :: "ulid \<Rightarrow> ulid \<Rightarrow> db \<Rightarrow> (source \<times> feed) result" where
  "resolve_owned_source account i d =
     res_bind (get_source_by_id account i d) (\<lambda>s.
     res_bind (get_feed account (src_feed s) d) (\<lambda>f.
     res_bind (assert_curated account f) (\<lambda>_. Inr (s, f))))"

definition count_sources_by_kind :: "db \<Rightarrow> (string \<times> nat) list" where
  "count_sources_by_kind d =
     map (\<lambda>k. (k, qcount (\<lambda>s. src_kind s = k) (t_sources d))) (remdups (map src_kind (t_sources d)))"

subsection \<open>Source writes\<close>

definition advance_source_watermark :: "ulid \<Rightarrow> source \<Rightarrow> datetime \<Rightarrow> db \<Rightarrow> db \<times> nat" where
  "advance_source_watermark account s value d =
     (let guard = (case src_last_event s of
            None \<Rightarrow> (\<lambda>x. src_last_event x = None)
          | Some read_at \<Rightarrow> (\<lambda>x. src_last_event x = Some read_at \<and> lt_col (src_last_event x) value));
          P = (\<lambda>x. src_account x = account \<and> src_id x = src_id s \<and> guard x)
      in (d\<lparr>t_sources := qupdate P (\<lambda>x. x\<lparr>src_last_event := Some value\<rparr>) (t_sources d)\<rparr>, qcount P (t_sources d)))"

definition delete_sources_for_feed :: "ulid \<Rightarrow> feed \<Rightarrow> db \<Rightarrow> (db \<times> nat) result" where
  "delete_sources_for_feed account f d =
     (if feed_account f \<noteq> account then Inl ValueError
      else Inr (d\<lparr>t_sources := qdelete (in_feed account (feed_id f)) (t_sources d)\<rparr>,
                qcount (in_feed account (feed_id f)) (t_sources d)))"

definition remove_source_by_id :: "ulid \<Rightarrow> ulid \<Rightarrow> db \<Rightarrow> (db \<times> nat) result" where
  "remove_source_by_id account i d =
     res_bind (resolve_owned_source account i d) (\<lambda>(s, f).
       Inr (d\<lparr>t_sources := qdelete (\<lambda>x. src_id x = src_id s) (t_sources d)\<rparr>, qcount (\<lambda>x. src_id x = src_id s) (t_sources d)))"

subsection \<open>Reconcile\<close>

record source_input =
  in_spec :: source_spec
  in_last_event :: "datetime option"
  in_meta :: str_dict
  in_field_map :: str_dict

record set_result =
  sr_added :: nat
  sr_removed :: nat
  sr_persisted :: nat
  sr_count :: nat

definition connector_kinds :: "feeds_env \<Rightarrow> string list" where
  "connector_kinds E = BUILTIN_SOURCE_KINDS @ fe_plugin_connectors E"

definition assert_connector_registered :: "feeds_env \<Rightarrow> source_spec list \<Rightarrow> unit result" where
  "assert_connector_registered E specs =
     (if list_ex (\<lambda>s. spec_kind s \<notin> set (connector_kinds E)) specs then Inl PolicyError else Inr ())"

definition hash_spec :: "feeds_env \<Rightarrow> source_spec \<Rightarrow> string" where
  "hash_spec E spec = fe_sha256 E (canonical_spec (fe_ftext E) spec)"

text \<open>First occurrence wins.\<close>

definition by_hash :: "feeds_env \<Rightarrow> source_input list \<Rightarrow> (string \<times> source_input) list" where
  "by_hash E items =
     foldl (\<lambda>m it. let h = hash_spec E (in_spec it) in if h \<in> fst ` set m then m else m @ [(h, it)]) [] items"

text \<open>Equality of dicts.\<close>

definition dict_eq :: "str_dict \<Rightarrow> str_dict \<Rightarrow> bool" where
  "dict_eq a b \<longleftrightarrow> list_all (\<lambda>(k, _). map_of a k = map_of b k) (a @ b)"

definition source_key :: "source \<Rightarrow> ulid \<times> ulid \<times> string" where
  "source_key s = (src_account s, src_feed s, src_hash s)"

fun insert_sources_ignore :: "source list \<Rightarrow> source list \<Rightarrow> source list" where
  "insert_sources_ignore [] t = t"
| "insert_sources_ignore (r # rs) t =
     insert_sources_ignore rs (if source_key r \<in> source_key ` set t then t else t @ [r])"

definition new_source :: "ulid \<Rightarrow> ulid \<Rightarrow> ulid \<Rightarrow> string \<Rightarrow> source_input \<Rightarrow> datetime \<Rightarrow> source" where
  "new_source i account feed h it mark =
     \<lparr>src_id = i, src_account = account, src_feed = feed, src_kind = spec_kind (in_spec it),
      src_spec = spec_dump (in_spec it), src_hash = h, src_last_event = Some mark,
      src_meta = in_meta it, src_field_map = in_field_map it\<rparr>"

fun new_sources :: "ulid list \<Rightarrow> ulid \<Rightarrow> ulid \<Rightarrow> datetime \<Rightarrow> (string \<times> source_input) list \<Rightarrow> source list result" where
  "new_sources (i # is) account feed now ((h, it) # rest) =
     res_bind (default_and_enforce_source_watermark (in_last_event it) now) (\<lambda>mark.
     res_bind (new_sources is account feed now rest) (\<lambda>rows. Inr (new_source i account feed h it mark # rows)))"
| "new_sources is account feed now rest = Inr []"

text \<open>The transaction under the lock.\<close>

definition apply_sources ::
  "feeds_env \<Rightarrow> ulid \<Rightarrow> feed \<Rightarrow> (string \<times> source_input) list \<Rightarrow> datetime \<Rightarrow> db \<Rightarrow> (db \<times> set_result) result" where
  "apply_sources E account f new_by_hash now d =
     (let rows = feed_sources account f d;
          existing = map src_hash rows;
          new_hashes = map fst new_by_hash;
          added = fe_set_order E (filter (\<lambda>h. h \<notin> set existing) new_hashes);
          removed = filter (\<lambda>h. h \<notin> set new_hashes) (remdups existing);
          persisted = filter (\<lambda>h. h \<in> set existing) new_hashes;
          mine = (\<lambda>hs s. in_feed account (feed_id f) s \<and> src_hash s \<in> set hs);
          t1 = (if removed = [] then t_sources d else qdelete (mine removed) (t_sources d))
      in res_bind (new_sources (fresh_ids (fe_gen E) d (length added)) account (feed_id f) now
                     (map (\<lambda>h. (h, the (map_of new_by_hash h))) added))
           (\<lambda>ins.
             let t2 = insert_sources_ignore ins t1;
                 dirty = filter (\<lambda>h. list_ex (\<lambda>s. src_hash s = h \<and>
                     \<not> (dict_eq (src_meta s) (in_meta (the (map_of new_by_hash h))) \<and>
                        dict_eq (src_field_map s) (in_field_map (the (map_of new_by_hash h))))) rows) persisted;
                 t3 = fold (\<lambda>h. qupdate (mine [h]) (\<lambda>s. s\<lparr>src_meta := in_meta (the (map_of new_by_hash h)),
                        src_field_map := in_field_map (the (map_of new_by_hash h))\<rparr>)) dirty t2
             in Inr (d\<lparr>t_sources := t3, next_id := next_id d + length added\<rparr>,
                     \<lparr>sr_added = length added, sr_removed = length removed, sr_persisted = length persisted,
                      sr_count = length new_hashes\<rparr>)))"

definition set_sources ::
  "feeds_env \<Rightarrow> ulid \<Rightarrow> feed \<Rightarrow> source_input list \<Rightarrow> bool \<Rightarrow> bool \<Rightarrow> datetime \<Rightarrow> db \<Rightarrow> (db \<times> set_result) result" where
  "set_sources E account f items dry_run acquired now d =
     res_bind (assert_curated account f) (\<lambda>_.
     res_bind (assert_connector_registered E (map in_spec items)) (\<lambda>_.
     res_bind (enforce_source_spec_safety E (map in_spec items)) (\<lambda>_.
       let new_by_hash = by_hash E items;
           new_hashes = map fst new_by_hash;
           existing = remdups (map src_hash (feed_sources account f d))
       in if dry_run then
            Inr (d, \<lparr>sr_added = length (filter (\<lambda>h. h \<notin> set existing) new_hashes),
                     sr_removed = length (filter (\<lambda>h. h \<notin> set new_hashes) existing),
                     sr_persisted = length (filter (\<lambda>h. h \<in> set existing) new_hashes),
                     sr_count = length new_hashes\<rparr>)
          else if \<not> acquired then Inl ConcurrentSetSourcesError
          else apply_sources E account f new_by_hash now d)))"

subsection \<open>Seek\<close>

record seek_result =
  sk_advanced :: int
  sk_rewound :: int
  sk_unchanged :: int
  sk_count :: int
  sk_to :: datetime
  sk_dry_run :: bool

text \<open>The feed's clock is read twice: for the floor, and again by the future check.\<close>

definition resolve_target :: "feeds_env \<Rightarrow> feed \<Rightarrow> string \<Rightarrow> datetime \<Rightarrow> datetime \<Rightarrow> datetime result" where
  "resolve_target E f raw_to now now' =
     res_bind (load_feed_config E f) (\<lambda>config.
       case resolve_window_value (fe_fromiso E) raw_to now (Some (seek_floor (cc_retention_days config) now)) of
         Inl e \<Rightarrow> Inl SourceWatermarkError
       | Inr to \<Rightarrow>
           res_bind (enforce_source_watermark to now') (\<lambda>to.
             enforce_seek_floor to (cc_retention_days config) now))"

definition seek_rows :: "(source \<Rightarrow> bool) \<Rightarrow> datetime \<Rightarrow> bool \<Rightarrow> db \<Rightarrow> db \<times> seek_result" where
  "seek_rows qs to dry_run d =
     (let forward = (\<lambda>s. qs s \<and> (src_last_event s = None \<or> lt_col (src_last_event s) to));
          backward = (\<lambda>s. qs s \<and> src_last_event s \<noteq> None \<and> \<not> le_col (src_last_event s) to);
          at_target = (\<lambda>s. qs s \<and> src_last_event s = Some to);
          move = (\<lambda>s. s\<lparr>src_last_event := Some to\<rparr>);
          t1 = (if dry_run then t_sources d else qupdate forward move (t_sources d));
          t2 = (if dry_run then t_sources d else qupdate backward move t1);
          advanced = int (qcount forward (t_sources d));
          rewound = int (qcount backward t1);
          unchanged = (if dry_run then int (qcount at_target t2) else int (qcount at_target t2) - advanced - rewound)
      in (d\<lparr>t_sources := t2\<rparr>,
          \<lparr>sk_advanced = advanced, sk_rewound = rewound, sk_unchanged = unchanged,
           sk_count = advanced + rewound + unchanged, sk_to = to, sk_dry_run = dry_run\<rparr>))"

definition seek_feed ::
  "feeds_env \<Rightarrow> ulid \<Rightarrow> feed \<Rightarrow> string \<Rightarrow> bool \<Rightarrow> datetime \<Rightarrow> datetime \<Rightarrow> db \<Rightarrow> (db \<times> seek_result) result" where
  "seek_feed E account f to dry_run now now' d =
     res_bind (assert_curated account f) (\<lambda>_.
     res_bind (resolve_target E f to now now') (\<lambda>target.
       Inr (seek_rows (in_feed account (feed_id f)) target dry_run d)))"

definition seek_by_id ::
  "feeds_env \<Rightarrow> ulid \<Rightarrow> ulid \<Rightarrow> string \<Rightarrow> bool \<Rightarrow> datetime \<Rightarrow> datetime \<Rightarrow> db \<Rightarrow> (db \<times> seek_result) result" where
  "seek_by_id E account i to dry_run now now' d =
     res_bind (resolve_owned_source account i d) (\<lambda>(s, f).
     res_bind (resolve_target E f to now now') (\<lambda>target.
       Inr (seek_rows (\<lambda>x. in_feed account (feed_id f) x \<and> src_id x = src_id s) target dry_run d)))"

subsection \<open>Feed writes\<close>

definition build_feed ::
  "feeds_env \<Rightarrow> ulid \<Rightarrow> ulid \<Rightarrow> ulid \<Rightarrow> string \<Rightarrow> string \<Rightarrow> nat \<Rightarrow> json \<Rightarrow> bool \<Rightarrow> feed result" where
  "build_feed E i account user name kind interval data is_active =
     res_bind (validate_feed_config E kind data) (\<lambda>validated.
       Inr \<lparr>feed_id = i, feed_account = account, feed_user = user, feed_kind = kind, feed_name = name,
            feed_active = is_active, feed_interval = interval, feed_last_polled = None, feed_next_poll = None,
            feed_data = fe_config_dump E validated\<rparr>)"

text \<open>The insert and the starter sources are one transaction.\<close>

definition create_feed ::
  "feeds_env \<Rightarrow> ulid \<Rightarrow> ulid \<Rightarrow> string \<Rightarrow> string \<Rightarrow> nat \<Rightarrow> json \<Rightarrow> bool \<Rightarrow> source_input list \<Rightarrow> bool \<Rightarrow> datetime \<Rightarrow> db \<Rightarrow>
   (db \<times> feed) result" where
  "create_feed E account user name kind interval data is_active sources acquired now d =
     res_bind (build_feed E (fe_gen E (next_id d)) account user name kind interval data is_active) (\<lambda>f.
       let d1 = d\<lparr>t_feeds := t_feeds d @ [f], next_id := Suc (next_id d)\<rparr>
       in if sources = [] then Inr (d1, f)
          else res_bind (set_sources E account f sources False acquired now d1) (\<lambda>(d2, _). Inr (d2, f)))"

definition build_feed_update ::
  "feeds_env \<Rightarrow> ulid \<Rightarrow> feed \<Rightarrow> string \<Rightarrow> nat \<Rightarrow> json \<Rightarrow> bool \<Rightarrow> feed result" where
  "build_feed_update E account f name interval data is_active =
     (if feed_account f \<noteq> account then Inl ValueError
      else
        res_bind (parse_feed_config E (feed_kind f) data) (\<lambda>submitted.
        res_bind (load_feed_config E f) (\<lambda>prior.
        res_bind (enforce_feed_policy (merge_feed_config submitted prior)) (\<lambda>merged.
          Inr (f\<lparr>feed_name := name, feed_interval := interval, feed_active := is_active,
                 feed_data := fe_config_dump E merged\<rparr>)))))"

definition update_feed ::
  "feeds_env \<Rightarrow> ulid \<Rightarrow> feed \<Rightarrow> string \<Rightarrow> nat \<Rightarrow> json \<Rightarrow> bool \<Rightarrow> db \<Rightarrow> (db \<times> feed) result" where
  "update_feed E account f name interval data is_active d =
     res_bind (build_feed_update E account f name interval data is_active) (\<lambda>f'.
     res_bind (save_row (\<lambda>x. feed_id x = feed_id f)
         (\<lambda>x. x\<lparr>feed_name := feed_name f', feed_interval := feed_interval f', feed_active := feed_active f',
               feed_data := feed_data f'\<rparr>) (t_feeds d)) (\<lambda>t.
       Inr (d\<lparr>t_feeds := t\<rparr>, f')))"

definition set_feed_active :: "ulid \<Rightarrow> feed \<Rightarrow> bool \<Rightarrow> db \<Rightarrow> (db \<times> feed) result" where
  "set_feed_active account f is_active d =
     (if feed_account f \<noteq> account then Inl ValueError
      else res_bind (save_row (\<lambda>x. feed_id x = feed_id f) (\<lambda>x. x\<lparr>feed_active := is_active\<rparr>) (t_feeds d))
             (\<lambda>t. Inr (d\<lparr>t_feeds := t\<rparr>, f\<lparr>feed_active := is_active\<rparr>)))"

definition delete_feed :: "ulid \<Rightarrow> feed \<Rightarrow> db \<Rightarrow> db result" where
  "delete_feed account f d =
     (if feed_account f \<noteq> account then Inl ValueError
      else
        let d1 = d\<lparr>t_items := qdelete (\<lambda>i. item_account i = account \<and> item_feed i = feed_id f) (t_items d)\<rparr>
        in res_bind (delete_sources_for_feed account f d1) (\<lambda>(d2, _).
             Inr (d2\<lparr>t_feeds := qdelete (\<lambda>x. feed_id x = feed_id f) (t_feeds d2)\<rparr>)))"

text \<open>With \<open>data=None\<close>, the only call.\<close>

definition update_poll_state :: "ulid \<Rightarrow> feed \<Rightarrow> datetime \<Rightarrow> db \<Rightarrow> db result" where
  "update_poll_state account f last_polled_at d =
     (if feed_account f \<noteq> account then Inl ValueError
      else res_bind (save_row (\<lambda>x. feed_id x = feed_id f)
               (\<lambda>x. x\<lparr>feed_last_polled := Some last_polled_at,
                     feed_next_poll := Some (last_polled_at + seconds (int (feed_interval f)))\<rparr>) (t_feeds d))
             (\<lambda>t. Inr (d\<lparr>t_feeds := t\<rparr>)))"

end
