(* ===== verification/Source_Laws.thy ===== *)
theory Source_Laws
  imports Sources
begin

text \<open>
  What the feed and source services keep: unique rows, references that hold, typed specs under
  their own hash, a watermark on every row and a retention within policy, over any sequence of
  operations; then the exact effect of a reconcile and of a seek.
\<close>

subsection \<open>The invariant\<close>

text \<open>What is assumed of the parameters: the config library reads back what it dumped, a set is
  iterated over its elements once each, identifiers are not repeated.\<close>

definition feeds_env_ok :: "feeds_env \<Rightarrow> bool" where
  "feeds_env_ok E \<longleftrightarrow> inj (fe_gen E) \<and>
     (\<forall>c. fe_config_shape E (fe_config_dump E c) = Some c \<and> json_truthy (fe_config_dump E c)) \<and>
     (\<forall>xs. distinct xs \<longrightarrow> distinct (fe_set_order E xs) \<and> set (fe_set_order E xs) = set xs)"

definition feed_ok :: "feeds_env \<Rightarrow> feed \<Rightarrow> bool" where
  "feed_ok E f \<longleftrightarrow> (\<exists>c. load_feed_config E f = Inr c \<and>
     RETENTION_MIN_DAYS \<le> cc_retention_days c \<and> cc_retention_days c \<le> RETENTION_MAX_DAYS)"

definition source_typed :: "feeds_env \<Rightarrow> source \<Rightarrow> bool" where
  "source_typed E s \<longleftrightarrow> src_last_event s \<noteq> None \<and>
     (\<exists>spec. validate_spec spec = Some spec \<and> src_spec s = spec_dump spec \<and> src_kind s = spec_kind spec \<and>
        src_hash s = hash_spec E spec)"

definition owned :: "feed list \<Rightarrow> source \<Rightarrow> bool" where
  "owned fs s \<longleftrightarrow> (\<exists>f\<in>set fs. feed_id f = src_feed s \<and> feed_account f = src_account s)"

definition feeds_ok :: "feeds_env \<Rightarrow> db \<Rightarrow> bool" where
  "feeds_ok E d \<longleftrightarrow>
     distinct (map feed_id (t_feeds d)) \<and> distinct (map src_id (t_sources d)) \<and>
     distinct (map source_key (t_sources d)) \<and>
     list_all (\<lambda>f. feed_ok E f \<and> id_used (fe_gen E) (next_id d) (feed_id f)) (t_feeds d) \<and>
     list_all (\<lambda>s. source_typed E s \<and> owned (t_feeds d) s \<and> id_used (fe_gen E) (next_id d) (src_id s)) (t_sources d)"

definition input_ok :: "source_input \<Rightarrow> bool" where
  "input_ok it \<longleftrightarrow> validate_spec (in_spec it) = Some (in_spec it)"

lemma feeds_okD:
  assumes "feeds_ok E d"
  shows "distinct (map feed_id (t_feeds d))" "distinct (map src_id (t_sources d))" "distinct (map source_key (t_sources d))"
    "f \<in> set (t_feeds d) \<Longrightarrow> feed_ok E f" "f \<in> set (t_feeds d) \<Longrightarrow> id_used (fe_gen E) (next_id d) (feed_id f)"
    "s \<in> set (t_sources d) \<Longrightarrow> source_typed E s" "s \<in> set (t_sources d) \<Longrightarrow> owned (t_feeds d) s"
    "s \<in> set (t_sources d) \<Longrightarrow> id_used (fe_gen E) (next_id d) (src_id s)"
  using assms by (auto simp: feeds_ok_def list_all_iff)

lemma feeds_ok_empty: "feeds_ok E empty_db"
  by (simp add: feeds_ok_def empty_db_def)

lemma feeds_ok_cong:
  "feeds_ok E d \<Longrightarrow> t_feeds d' = t_feeds d \<Longrightarrow> t_sources d' = t_sources d \<Longrightarrow> next_id d' = next_id d \<Longrightarrow> feeds_ok E d'"
  by (simp add: feeds_ok_def)

text \<open>Rewriting source rows without touching what identifies them.\<close>

definition keeps_identity :: "(source \<Rightarrow> source) \<Rightarrow> bool" where
  "keeps_identity g \<longleftrightarrow> (\<forall>s. src_id (g s) = src_id s \<and> source_key (g s) = source_key s \<and> src_spec (g s) = src_spec s \<and>
     src_kind (g s) = src_kind s \<and> (src_last_event s \<noteq> None \<longrightarrow> src_last_event (g s) \<noteq> None))"

lemma keeps_identityD:
  assumes "keeps_identity g"
  shows "src_id (g s) = src_id s" "source_key (g s) = source_key s" "src_feed (g s) = src_feed s" "src_account (g s) = src_account s"
    "src_hash (g s) = src_hash s"
  using assms by (auto simp: keeps_identity_def source_key_def)

lemma keeps_identity_typed: "keeps_identity g \<Longrightarrow> source_typed E s \<Longrightarrow> source_typed E (g s)"
  by (auto simp: keeps_identity_def source_typed_def source_key_def)

lemma keeps_identity_owned: "keeps_identity g \<Longrightarrow> owned fs (g s) = owned fs s"
  by (simp add: owned_def keeps_identityD)

lemma keeps_identity_simps [simp]:
  "keeps_identity (\<lambda>s. s\<lparr>src_last_event := Some t\<rparr>)" "keeps_identity (\<lambda>s. s\<lparr>src_meta := m, src_field_map := fm\<rparr>)"
  by (simp_all add: keeps_identity_def source_key_def)

lemma feeds_ok_update_sources:
  assumes ok: "feeds_ok E d" and g: "keeps_identity g"
  shows "feeds_ok E (d\<lparr>t_sources := qupdate P g (t_sources d)\<rparr>)"
proof -
  have "map src_id (qupdate P g (t_sources d)) = map src_id (t_sources d)"
    "map source_key (qupdate P g (t_sources d)) = map source_key (t_sources d)"
    using keeps_identityD[OF g] by (auto intro: map_qupdate)
  moreover have "source_typed E s \<and> owned (t_feeds d) s \<and> id_used (fe_gen E) (next_id d) (src_id s)"
    if "s \<in> set (qupdate P g (t_sources d))" for s
  proof -
    from that obtain x where x: "x \<in> set (t_sources d)" "s = (if P x then g x else x)" by (auto simp: set_qupdate)
    show ?thesis
      using feeds_okD(6-8)[OF ok x(1)] keeps_identity_typed[OF g, of E x] keeps_identity_owned[OF g, of "t_feeds d" x]
        keeps_identityD(1)[OF g, of x] x(2) by simp
  qed
  ultimately show ?thesis using ok by (simp add: feeds_ok_def list_all_iff)
qed

lemma distinct_map_qdelete: "distinct (map k t) \<Longrightarrow> distinct (map k (qdelete P t))"
  by (simp add: qdelete_def distinct_map_filter)

lemma feeds_ok_delete_sources:
  assumes "feeds_ok E d"
  shows "feeds_ok E (d\<lparr>t_sources := qdelete P (t_sources d)\<rparr>)"
  using assms by (auto simp: feeds_ok_def list_all_iff distinct_map_qdelete)

text \<open>Rewriting feed rows: their id and account stay, and so does the sanity of their config.\<close>

lemma owned_update:
  assumes "\<And>f. feed_id (g f) = feed_id f" "\<And>f. feed_account (g f) = feed_account f"
  shows "owned (qupdate P g fs) s = owned fs s"
proof -
  have "(\<lambda>f. (feed_id f, feed_account f)) ` set (qupdate P g fs) = (\<lambda>f. (feed_id f, feed_account f)) ` set fs"
    unfolding set_qupdate image_image by (intro image_cong) (simp_all add: assms)
  moreover have "owned l s \<longleftrightarrow> (src_feed s, src_account s) \<in> (\<lambda>f. (feed_id f, feed_account f)) ` set l" for l
    unfolding owned_def image_iff prod.inject by metis
  ultimately show ?thesis by simp
qed

lemma feeds_ok_update_feeds:
  assumes ok: "feeds_ok E d" and g: "\<And>f. feed_id (g f) = feed_id f" "\<And>f. feed_account (g f) = feed_account f"
    and c: "\<And>f. f \<in> set (t_feeds d) \<Longrightarrow> P f \<Longrightarrow> feed_ok E f \<Longrightarrow> feed_ok E (g f)"
  shows "feeds_ok E (d\<lparr>t_feeds := qupdate P g (t_feeds d)\<rparr>)"
proof -
  have "map feed_id (qupdate P g (t_feeds d)) = map feed_id (t_feeds d)" using g by (auto intro: map_qupdate)
  moreover have "feed_ok E f \<and> id_used (fe_gen E) (next_id d) (feed_id f)" if "f \<in> set (qupdate P g (t_feeds d))" for f
  proof -
    from that obtain x where x: "x \<in> set (t_feeds d)" "f = (if P x then g x else x)" by (auto simp: set_qupdate)
    with feeds_okD(4,5)[OF ok x(1)] c[OF x(1)] g show ?thesis by auto
  qed
  ultimately show ?thesis using ok by (simp add: feeds_ok_def list_all_iff owned_update[OF g])
qed

subsection \<open>Inserting sources\<close>

lemma insert_sources_split:
  "\<exists>new. insert_sources_ignore rs t = t @ new \<and> set new \<subseteq> set rs \<and>
     (distinct (map source_key t) \<longrightarrow> distinct (map source_key (t @ new))) \<and> (distinct rs \<longrightarrow> distinct new) \<and>
     (distinct (map src_id rs) \<longrightarrow> distinct (map src_id new))"
proof (induction rs arbitrary: t)
  case (Cons r rs)
  show ?case
  proof (cases "source_key r \<in> source_key ` set t")
    case True
    with Cons.IH[of t] show ?thesis by force
  next
    case False
    from Cons.IH[of "t @ [r]"] obtain new where n: "insert_sources_ignore rs (t @ [r]) = (t @ [r]) @ new" "set new \<subseteq> set rs"
      "distinct (map source_key (t @ [r])) \<longrightarrow> distinct (map source_key ((t @ [r]) @ new))" "distinct rs \<longrightarrow> distinct new"
      "distinct (map src_id rs) \<longrightarrow> distinct (map src_id new)" by blast
    from False n show ?thesis by (intro exI[of _ "r # new"]) (auto simp: image_iff)
  qed
qed simp

lemma insert_sources_fresh:
  "distinct (map source_key (t @ rs)) \<Longrightarrow> insert_sources_ignore rs t = t @ rs"
proof (induction rs arbitrary: t)
  case (Cons r rs)
  then have "source_key r \<notin> source_key ` set t" by auto
  with Cons.IH[of "t @ [r]"] Cons.prems show ?case by simp
qed simp


lemma new_sources_spec:
  assumes "new_sources is account feed now hits = Inr rows" "length is = length hits"
  shows "length rows = length hits \<and> map src_id rows = is \<and> map src_hash rows = map fst hits \<and>
    (\<forall>s\<in>set rows. src_account s = account \<and> src_feed s = feed) \<and>
    (\<forall>s\<in>set rows. \<exists>(h, it)\<in>set hits. src_hash s = h \<and> src_kind s = spec_kind (in_spec it) \<and>
       src_spec s = spec_dump (in_spec it) \<and> src_meta s = in_meta it \<and> src_field_map s = in_field_map it \<and>
       src_last_event s = Some (case in_last_event it of None \<Rightarrow> now | Some m \<Rightarrow> m) \<and>
       (case in_last_event it of None \<Rightarrow> True | Some m \<Rightarrow> m \<le> now))"
  using assms
proof (induction "is" account feed now hits arbitrary: rows rule: new_sources.induct)
  case (1 i "is" account feed now h it rest)
  from 1(2) obtain mark rs where m: "default_and_enforce_source_watermark (in_last_event it) now = Inr mark"
    and rs: "new_sources is account feed now rest = Inr rs" and rows: "rows = new_source i account feed h it mark # rs"
    by (auto simp: res_bind_Inr_iff)
  have "mark = (case in_last_event it of None \<Rightarrow> now | Some m \<Rightarrow> m) \<and> (case in_last_event it of None \<Rightarrow> True | Some m \<Rightarrow> m \<le> now)"
    using m by (auto simp: default_and_enforce_source_watermark_def enforce_source_watermark_def split: option.splits if_splits)
  moreover from 1(3) have l: "length is = length rest" by simp
  note IH = 1(1)[OF rs l]
  ultimately show ?case unfolding rows using IH by (auto simp: new_source_def)
qed auto

lemma by_hash_spec:
  shows "distinct (map fst (by_hash E items)) \<and>
    fst ` set (by_hash E items) = (\<lambda>it. hash_spec E (in_spec it)) ` set items \<and>
    (\<forall>(h, it)\<in>set (by_hash E items). it \<in> set items \<and> hash_spec E (in_spec it) = h)"
proof (induction items rule: rev_induct)
  case (snoc it items)
  then show ?case by (auto simp: by_hash_def Let_def image_iff)
qed (simp add: by_hash_def)


subsection \<open>A reconcile in one piece\<close>

text \<open>The row a reconcile keeps: its tags follow the input where they differ, the rest stays.\<close>

definition refreshed :: "(string \<times> source_input) list \<Rightarrow> ulid \<Rightarrow> ulid \<Rightarrow> source \<Rightarrow> source" where
  "refreshed new account feed s =
     (if in_feed account feed s \<and> src_hash s \<in> fst ` set new
      then let it = the (map_of new (src_hash s))
           in if dict_eq (src_meta s) (in_meta it) \<and> dict_eq (src_field_map s) (in_field_map it) then s
              else s\<lparr>src_meta := in_meta it, src_field_map := in_field_map it\<rparr>
      else s)"

lemma keeps_identity_refreshed: "keeps_identity (refreshed new account feed)"
  by (simp add: keeps_identity_def refreshed_def Let_def source_key_def)

lemma refreshed_simps [simp]:
  "src_id (refreshed new account feed s) = src_id s" "source_key (refreshed new account feed s) = source_key s"
  "src_hash (refreshed new account feed s) = src_hash s" "in_feed a g (refreshed new account feed s) = in_feed a g s"
  "src_last_event (refreshed new account feed s) = src_last_event s" "src_spec (refreshed new account feed s) = src_spec s"
  by (simp_all add: refreshed_def Let_def source_key_def in_feed_def)

lemma refreshed_others:
  "filter (\<lambda>s. \<not> in_feed a f s) (map (refreshed new a f) (qdelete (\<lambda>s. in_feed a f s \<and> Q s) t)) = filter (\<lambda>s. \<not> in_feed a f s) t"
proof (induction t)
  case (Cons s t)
  have "\<not> in_feed a f s \<Longrightarrow> refreshed new a f s = s" by (simp add: refreshed_def)
  with Cons show ?case by (simp add: qdelete_def)
qed (simp add: qdelete_def)

lemma fold_keyed_updates:
  assumes "distinct hs" "\<And>h s. k (u h s) = k s" "\<And>h s. R (u h s) = R s"
  shows "fold (\<lambda>h. qupdate (\<lambda>s. R s \<and> k s = h) (u h)) hs t = map (\<lambda>s. if R s \<and> k s \<in> set hs then u (k s) s else s) t"
  using assms(1)
proof (induction hs arbitrary: t)
  case (Cons h hs)
  then show ?case using assms(2,3) by (auto simp: qupdate_def)
qed simp

lemma same_key_same_row:
  assumes "distinct (map source_key t)" "s \<in> set t" "x \<in> set t" "in_feed account feed s" "in_feed account feed x"
    "src_hash s = src_hash x"
  shows "s = x"
  using assms distinct_key_unique[of source_key t s x] by (simp add: source_key_def in_feed_def)

lemma apply_sources_eq:
  assumes env: "feeds_env_ok E" and new: "distinct (map fst new)" and keys: "distinct (map source_key (t_sources d))"
    and r: "apply_sources E account f new now d = Inr (d', r)"
  defines "existing \<equiv> map src_hash (feed_sources account f d)"
  defines "added \<equiv> fe_set_order E (filter (\<lambda>h. h \<notin> set existing) (map fst new))"
  obtains ins where
    "new_sources (fresh_ids (fe_gen E) d (length added)) account (feed_id f) now (map (\<lambda>h. (h, the (map_of new h))) added) = Inr ins"
    "d' = d\<lparr>t_sources := map (refreshed new account (feed_id f))
       (qdelete (\<lambda>s. in_feed account (feed_id f) s \<and> src_hash s \<notin> fst ` set new) (t_sources d)) @ ins,
       next_id := next_id d + length added\<rparr>"
    "r = \<lparr>sr_added = length added, sr_removed = length (filter (\<lambda>h. h \<notin> fst ` set new) (remdups existing)),
          sr_persisted = length (filter (\<lambda>h. h \<in> set existing) (map fst new)), sr_count = length new\<rparr>"
proof -
  let ?in = "in_feed account (feed_id f)" and ?rows = "feed_sources account f d" and ?fs = "set (map fst new)"
  let ?removed = "filter (\<lambda>h. h \<notin> ?fs) (remdups existing)"
  let ?differs = "\<lambda>s it. \<not> (dict_eq (src_meta s) (in_meta it) \<and> dict_eq (src_field_map s) (in_field_map it))"
  let ?dirty = "filter (\<lambda>h. list_ex (\<lambda>s. src_hash s = h \<and> ?differs s (the (map_of new h))) ?rows)
    (filter (\<lambda>h. h \<in> set existing) (map fst new))"
  let ?u = "\<lambda>h s. s\<lparr>src_meta := in_meta (the (map_of new h)), src_field_map := in_field_map (the (map_of new h))\<rparr>"
  let ?t1 = "qdelete (\<lambda>s. ?in s \<and> src_hash s \<notin> ?fs) (t_sources d)"
  have del: "(if ?removed = [] then t_sources d else qdelete (\<lambda>s. ?in s \<and> src_hash s \<in> set ?removed) (t_sources d)) = ?t1"
  proof -
    have "(?in s \<and> src_hash s \<in> set ?removed) = (?in s \<and> src_hash s \<notin> ?fs)" if "s \<in> set (t_sources d)" for s
      using that by (auto simp: existing_def feed_sources_def)
    then have "qdelete (\<lambda>s. ?in s \<and> src_hash s \<in> set ?removed) (t_sources d) = ?t1"
      by (rule qdelete_cong)
    moreover have "?t1 = t_sources d" if "?removed = []"
      using that by (intro qdelete_none) (auto simp: existing_def feed_sources_def filter_empty_conv)
    ultimately show ?thesis by simp
  qed
  let ?out = "\<lambda>ins. (d\<lparr>t_sources := fold (\<lambda>h. qupdate (\<lambda>s. ?in s \<and> src_hash s \<in> set [h]) (?u h)) ?dirty (insert_sources_ignore ins ?t1),
       next_id := next_id d + length added\<rparr>,
     \<lparr>sr_added = length added, sr_removed = length ?removed,
      sr_persisted = length (filter (\<lambda>h. h \<in> set existing) (map fst new)), sr_count = length (map fst new)\<rparr>)"
  have "apply_sources E account f new now d =
      res_bind (new_sources (fresh_ids (fe_gen E) d (length added)) account (feed_id f) now
        (map (\<lambda>h. (h, the (map_of new h))) added)) (\<lambda>ins. Inr (?out ins))"
    by (simp only: apply_sources_def Let_def del[unfolded existing_def] existing_def added_def)
  with r obtain ins where ins: "new_sources (fresh_ids (fe_gen E) d (length added)) account (feed_id f) now
      (map (\<lambda>h. (h, the (map_of new h))) added) = Inr ins" and out: "(d', r) = ?out ins"
    by (auto simp: res_bind_Inr_iff simp del: list.set)
  have len: "length (fresh_ids (fe_gen E) d (length added)) = length (map (\<lambda>h. (h, the (map_of new h))) added)" by simp
  note spec = new_sources_spec[OF ins len]
  have set_added: "distinct added" "set added = {h \<in> ?fs. h \<notin> set existing}"
    using env new by (auto simp: feeds_env_ok_def added_def)
  have ins_keys: "map source_key ins = map (\<lambda>h. (account, feed_id f, h)) added"
  proof -
    have "map source_key ins = map (\<lambda>s. (account, feed_id f, src_hash s)) ins" using spec by (simp add: source_key_def)
    also have "\<dots> = map (\<lambda>h. (account, feed_id f, h)) (map src_hash ins)" by simp
    also have "map src_hash ins = added" using spec by (simp add: comp_def)
    finally show ?thesis .
  qed
  have disj: "source_key x \<notin> source_key ` set ?t1" if "x \<in> set ins" for x
  proof
    assume "source_key x \<in> source_key ` set ?t1"
    then obtain y where y: "y \<in> set (t_sources d)" "source_key y = source_key x" by auto
    have "source_key x \<in> set (map source_key ins)" using that by simp
    then have "source_key x \<in> (\<lambda>h. (account, feed_id f, h)) ` set added" unfolding ins_keys by simp
    with y have "?in y" "src_hash y \<in> set added" by (auto simp: source_key_def in_feed_def)
    with y(1) set_added show False by (auto simp: existing_def feed_sources_def)
  qed
  have "set (map source_key ?t1) \<inter> set (map source_key ins) = {}"
  proof -
    have "k \<notin> source_key ` set ?t1" if k: "k \<in> set (map source_key ins)" for k
      using k disj by (metis (no_types, lifting) imageE list.set_map)
    then show ?thesis by (simp only: set_map disjoint_iff) blast
  qed
  moreover have "distinct (map source_key ins)" unfolding ins_keys using set_added(1) by (simp add: distinct_map inj_on_def)
  moreover have "distinct (map source_key ?t1)" using keys by (rule distinct_map_qdelete)
  ultimately have "distinct (map source_key (?t1 @ ins))" unfolding map_append distinct_append by blast
  then have t2: "insert_sources_ignore ins ?t1 = ?t1 @ ins" by (rule insert_sources_fresh)
  have "distinct ?dirty" using new by simp
  from fold_keyed_updates[OF this, of src_hash ?u ?in "?t1 @ ins"]
  have t3: "fold (\<lambda>h. qupdate (\<lambda>s. ?in s \<and> src_hash s = h) (?u h)) ?dirty (?t1 @ ins) =
      map (\<lambda>s. if ?in s \<and> src_hash s \<in> set ?dirty then ?u (src_hash s) s else s) (?t1 @ ins)"
    by (simp add: in_feed_def)
  have old: "(if ?in s \<and> src_hash s \<in> set ?dirty then ?u (src_hash s) s else s) = refreshed new account (feed_id f) s"
    if s: "s \<in> set ?t1" for s
  proof (cases "?in s")
    case True
    with s have st: "s \<in> set ?rows" "src_hash s \<in> ?fs" by (auto simp: feed_sources_def)
    have "x = s" if "x \<in> set ?rows" "src_hash x = src_hash s" for x
      using same_key_same_row[OF keys, of x s account "feed_id f"] that st(1) by (auto simp: feed_sources_def)
    then have "src_hash s \<in> set ?dirty \<longleftrightarrow> ?differs s (the (map_of new (src_hash s)))"
      using st by (auto simp: list_ex_iff existing_def)
    with True st show ?thesis by (simp add: refreshed_def Let_def)
  qed (simp add: refreshed_def)
  have new_rows: "(if ?in s \<and> src_hash s \<in> set ?dirty then ?u (src_hash s) s else s) = s" if s: "s \<in> set ins" for s
  proof -
    have "src_hash s \<in> set (map src_hash ins)" using s by simp
    then have "src_hash s \<in> set added" using spec by (simp add: comp_def)
    with set_added(2) show ?thesis by auto
  qed
  have "fold (\<lambda>h. qupdate (\<lambda>s. ?in s \<and> src_hash s = h) (?u h)) ?dirty (insert_sources_ignore ins ?t1) =
      map (refreshed new account (feed_id f)) ?t1 @ ins"
    unfolding t2 t3 map_append using old new_rows by (intro arg_cong2[where f = append] map_cong map_idI) auto
  with ins out show ?thesis by (intro that) (simp_all add: comp_def)
qed


lemma by_hash_at:
  assumes "h \<in> fst ` set (by_hash E items)"
  shows "the (map_of (by_hash E items) h) \<in> set items \<and> hash_spec E (in_spec (the (map_of (by_hash E items) h))) = h"
proof -
  from assms obtain it where "map_of (by_hash E items) h = Some it" by (auto simp: map_of_eq_None_iff dest: weak_map_of_SomeI)
  then have "(h, it) \<in> set (by_hash E items)" by (rule map_of_SomeD)
  with by_hash_spec[of E items] \<open>map_of _ h = Some it\<close> show ?thesis by auto
qed

text \<open>What a reconcile inserts, and what it leaves of the table.\<close>

lemma apply_sources_rows:
  assumes env: "feeds_env_ok E" and ok: "feeds_ok E d" and items: "list_all input_ok items"
    and r: "apply_sources E account f (by_hash E items) now d = Inr (d', r)"
  obtains ins where
    "t_sources d' = map (refreshed (by_hash E items) account (feed_id f))
       (qdelete (\<lambda>s. in_feed account (feed_id f) s \<and> src_hash s \<notin> fst ` set (by_hash E items)) (t_sources d)) @ ins"
    "d' = d\<lparr>t_sources := t_sources d', next_id := next_id d + length ins\<rparr>"
    "map src_id ins = fresh_ids (fe_gen E) d (length ins)"
    "distinct (map src_hash ins)" "set (map src_hash ins) = fst ` set (by_hash E items) - src_hash ` set (feed_sources account f d)"
    "\<And>s. s \<in> set ins \<Longrightarrow> in_feed account (feed_id f) s \<and> source_typed E s \<and>
       (\<exists>it\<in>set items. hash_spec E (in_spec it) = src_hash s \<and> it = the (map_of (by_hash E items) (src_hash s)) \<and>
          src_meta s = in_meta it \<and> src_field_map s = in_field_map it \<and>
          src_last_event s = Some (case in_last_event it of None \<Rightarrow> now | Some m \<Rightarrow> m)) \<and>
       (case src_last_event s of None \<Rightarrow> False | Some m \<Rightarrow> m \<le> now)"
    "sr_added r = length ins" "sr_count r = length (by_hash E items)"
    "sr_removed r = card (src_hash ` set (feed_sources account f d) - fst ` set (by_hash E items))"
    "sr_persisted r = card (fst ` set (by_hash E items) \<inter> src_hash ` set (feed_sources account f d))"
proof -
  let ?new = "by_hash E items" and ?ex = "map src_hash (feed_sources account f d)"
  let ?added = "fe_set_order E (filter (\<lambda>h. h \<notin> set ?ex) (map fst ?new))"
  have dn: "distinct (map fst ?new)" using by_hash_spec by blast
  obtain ins where ins: "new_sources (fresh_ids (fe_gen E) d (length ?added)) account (feed_id f) now
      (map (\<lambda>h. (h, the (map_of ?new h))) ?added) = Inr ins"
    and d': "d' = d\<lparr>t_sources := map (refreshed ?new account (feed_id f))
       (qdelete (\<lambda>s. in_feed account (feed_id f) s \<and> src_hash s \<notin> fst ` set ?new) (t_sources d)) @ ins,
       next_id := next_id d + length ?added\<rparr>"
    and res: "r = \<lparr>sr_added = length ?added, sr_removed = length (filter (\<lambda>h. h \<notin> fst ` set ?new) (remdups ?ex)),
          sr_persisted = length (filter (\<lambda>h. h \<in> set ?ex) (map fst ?new)), sr_count = length ?new\<rparr>"
    by (rule apply_sources_eq[OF env dn feeds_okD(3)[OF ok] r])
  have "length (fresh_ids (fe_gen E) d (length ?added)) = length (map (\<lambda>h. (h, the (map_of ?new h))) ?added)" by simp
  note spec = new_sources_spec[OF ins this]
  have added: "distinct ?added" "set ?added = fst ` set ?new - set ?ex" using env dn by (auto simp: feeds_env_ok_def)
  have hashes: "map src_hash ins = ?added" using spec by (simp add: comp_def)
  have len: "length ?added = length ins" using spec by simp
  have row: "in_feed account (feed_id f) s \<and> source_typed E s \<and>
       (\<exists>it\<in>set items. hash_spec E (in_spec it) = src_hash s \<and> it = the (map_of ?new (src_hash s)) \<and>
          src_meta s = in_meta it \<and> src_field_map s = in_field_map it \<and>
          src_last_event s = Some (case in_last_event it of None \<Rightarrow> now | Some m \<Rightarrow> m)) \<and>
       (case src_last_event s of None \<Rightarrow> False | Some m \<Rightarrow> m \<le> now)" if s: "s \<in> set ins" for s
  proof -
    have acc: "in_feed account (feed_id f) s" using spec s by (simp add: in_feed_def)
    from spec s obtain h it where hit: "(h, it) \<in> set (map (\<lambda>h. (h, the (map_of ?new h))) ?added)" "src_hash s = h"
      "src_kind s = spec_kind (in_spec it)" "src_spec s = spec_dump (in_spec it)" "src_meta s = in_meta it"
      "src_field_map s = in_field_map it" "src_last_event s = Some (case in_last_event it of None \<Rightarrow> now | Some m \<Rightarrow> m)"
      "case in_last_event it of None \<Rightarrow> True | Some m \<Rightarrow> m \<le> now" by blast
    from hit(1) have h: "h \<in> set ?added" "it = the (map_of ?new h)" by auto
    with added(2) have "h \<in> fst ` set ?new" by blast
    from by_hash_at[OF this] h(2) have it: "it \<in> set items" "hash_spec E (in_spec it) = h" by auto
    with items have "validate_spec (in_spec it) = Some (in_spec it)" by (auto simp: list_all_iff input_ok_def)
    with hit it have "source_typed E s" by (auto simp: source_typed_def)
    moreover have "case src_last_event s of None \<Rightarrow> False | Some m \<Rightarrow> m \<le> now"
      using hit(7,8) by (auto split: option.splits)
    ultimately show ?thesis using acc hit it h(2) by blast
  qed
  have removed: "length (filter (\<lambda>h. h \<notin> fst ` set ?new) (remdups ?ex)) = card (src_hash ` set (feed_sources account f d) - fst ` set ?new)"
  proof -
    have "distinct (filter (\<lambda>h. h \<notin> fst ` set ?new) (remdups ?ex))" by simp
    moreover have "set (filter (\<lambda>h. h \<notin> fst ` set ?new) (remdups ?ex)) = src_hash ` set (feed_sources account f d) - fst ` set ?new"
      by auto
    ultimately show ?thesis by (metis distinct_card)
  qed
  have persisted: "length (filter (\<lambda>h. h \<in> set ?ex) (map fst ?new)) = card (fst ` set ?new \<inter> src_hash ` set (feed_sources account f d))"
  proof -
    have "distinct (filter (\<lambda>h. h \<in> set ?ex) (map fst ?new))" using dn by simp
    moreover have "set (filter (\<lambda>h. h \<in> set ?ex) (map fst ?new)) = fst ` set ?new \<inter> src_hash ` set (feed_sources account f d)"
      by auto
    ultimately show ?thesis by (metis distinct_card)
  qed
  show thesis
  proof (rule that[of ins])
    show "distinct (map src_hash ins)" "set (map src_hash ins) = fst ` set ?new - src_hash ` set (feed_sources account f d)"
      unfolding hashes using added by simp_all
  qed (use d' res spec len row removed persisted in \<open>simp_all\<close>)
qed

lemma feeds_ok_apply_sources:
  assumes env: "feeds_env_ok E" and ok: "feeds_ok E d" and items: "list_all input_ok items"
    and f: "g \<in> set (t_feeds d)" "feed_id g = feed_id f" "feed_account g = account"
    and r: "apply_sources E account f (by_hash E items) now d = Inr (d', r)"
  shows "feeds_ok E d'"
proof -
  let ?new = "by_hash E items"
  let ?P = "\<lambda>s. in_feed account (feed_id f) s \<and> src_hash s \<notin> fst ` set ?new"
  obtain ins where t: "t_sources d' = map (refreshed ?new account (feed_id f)) (qdelete ?P (t_sources d)) @ ins"
    and d': "d' = d\<lparr>t_sources := t_sources d', next_id := next_id d + length ins\<rparr>"
    and ids: "map src_id ins = fresh_ids (fe_gen E) d (length ins)" and dh: "distinct (map src_hash ins)"
    and hs: "set (map src_hash ins) = fst ` set ?new - src_hash ` set (feed_sources account f d)"
    and rows: "\<And>s. s \<in> set ins \<Longrightarrow> in_feed account (feed_id f) s \<and> source_typed E s"
    by (rule apply_sources_rows[OF env ok items r]) blast
  let ?old = "map (refreshed ?new account (feed_id f)) (qdelete ?P (t_sources d))"
  have feeds: "t_feeds d' = t_feeds d" by (subst d') simp
  have nid: "next_id d' = next_id d + length ins" by (subst d') simp
  have inj: "inj (fe_gen E)" using env by (simp add: feeds_env_ok_def)
  have old: "source_typed E s \<and> owned (t_feeds d) s \<and> id_used (fe_gen E) (next_id d) (src_id s)" if "s \<in> set ?old" for s
    using that feeds_okD(6-8)[OF ok] keeps_identity_typed[OF keeps_identity_refreshed]
      keeps_identity_owned[OF keeps_identity_refreshed] by auto
  have new: "source_typed E s \<and> owned (t_feeds d) s \<and> id_used (fe_gen E) (next_id d + length ins) (src_id s)" if s: "s \<in> set ins" for s
  proof -
    have "src_id s \<in> set (map src_id ins)" using s by simp
    then have "id_used (fe_gen E) (next_id d + length ins) (src_id s)" unfolding ids by (rule fresh_ids_used)
    moreover have "owned (t_feeds d) s" using rows[OF s] f by (auto simp: owned_def in_feed_def)
    ultimately show ?thesis using rows[OF s] by simp
  qed
  have "distinct (map src_id (?old @ ins))"
  proof -
    have "distinct (map src_id ?old)" using distinct_map_qdelete[OF feeds_okD(2)[OF ok]] by (simp add: comp_def)
    moreover have "distinct (map src_id ins)" unfolding ids by (rule distinct_fresh_ids[OF inj])
    moreover have "i \<notin> set (map src_id ins)" if "i \<in> set (map src_id ?old)" for i
    proof
      assume "i \<in> set (map src_id ins)"
      then have "\<not> id_used (fe_gen E) (next_id d) i" unfolding ids by (rule fresh_ids_unused[OF inj])
      moreover from that obtain s where s: "s \<in> set ?old" "i = src_id s" unfolding set_map by blast
      from old[OF s(1)] s(2) have "id_used (fe_gen E) (next_id d) i" by blast
      ultimately show False by blast
    qed
    ultimately show ?thesis unfolding map_append distinct_append by blast
  qed
  moreover have "distinct (map source_key (?old @ ins))"
  proof -
    have "distinct (map source_key ?old)" using distinct_map_qdelete[OF feeds_okD(3)[OF ok]] by (simp add: comp_def)
    moreover have "distinct (map source_key ins)"
    proof -
      have "map source_key ins = map (\<lambda>h. (account, feed_id f, h)) (map src_hash ins)"
        using rows by (simp add: source_key_def in_feed_def)
      with dh show ?thesis by (simp add: distinct_map inj_on_def)
    qed
    moreover have "k \<notin> set (map source_key ins)" if "k \<in> set (map source_key ?old)" for k
    proof
      assume "k \<in> set (map source_key ins)"
      then obtain x where x: "x \<in> set ins" "k = source_key x" by auto
      from that obtain y where y: "y \<in> set (t_sources d)" "k = source_key y" by auto
      have "src_hash y \<in> set (map src_hash ins)" "in_feed account (feed_id f) y"
        using x y rows[OF x(1)] by (auto simp: source_key_def in_feed_def)
      with hs y(1) show False by (auto simp: feed_sources_def)
    qed
    ultimately show ?thesis unfolding map_append distinct_append by blast
  qed
  moreover have "list_all (\<lambda>f. feed_ok E f \<and> id_used (fe_gen E) (next_id d') (feed_id f)) (t_feeds d')"
    unfolding feeds list_all_iff nid using feeds_okD(4,5)[OF ok] by (blast intro: id_used_mono le_add1)
  moreover have "list_all (\<lambda>s. source_typed E s \<and> owned (t_feeds d') s \<and> id_used (fe_gen E) (next_id d') (src_id s)) (?old @ ins)"
    unfolding feeds list_all_iff nid set_append using old new by (blast intro: id_used_mono le_add1)
  ultimately show ?thesis using feeds_okD(1)[OF ok] by (simp add: feeds_ok_def t feeds)
qed


subsection \<open>Sequences of operations\<close>

text \<open>One call of a service, as the views and the poller make it: the feed is the row the scoped
  lookup returns. A poll writes back through the snapshots it read, which may be stale.\<close>

datatype feed_op =
    CreateFeed ulid ulid string string nat json bool "source_input list" bool datetime
  | UpdateFeed ulid ulid string nat json bool
  | SetFeedActive ulid ulid bool
  | DeleteFeed ulid ulid
  | SetSources ulid ulid "source_input list" bool bool datetime
  | RemoveSource ulid ulid
  | SeekFeed ulid ulid string bool datetime datetime
  | SeekSource ulid ulid string bool datetime datetime
  | AdvanceWatermark ulid source datetime
  | UpdatePollState ulid feed datetime

fun apply_feed_op :: "feeds_env \<Rightarrow> feed_op \<Rightarrow> db \<Rightarrow> db result" where
  "apply_feed_op E (CreateFeed a user name kind interval data active items acquired now) d =
     res_bind (create_feed E a user name kind interval data active items acquired now d) (\<lambda>(d', _). Inr d')"
| "apply_feed_op E (UpdateFeed a i name interval data active) d =
     res_bind (get_feed a i d) (\<lambda>f. res_bind (update_feed E a f name interval data active d) (\<lambda>(d', _). Inr d'))"
| "apply_feed_op E (SetFeedActive a i active) d =
     res_bind (get_feed a i d) (\<lambda>f. res_bind (set_feed_active a f active d) (\<lambda>(d', _). Inr d'))"
| "apply_feed_op E (DeleteFeed a i) d = res_bind (get_feed a i d) (\<lambda>f. delete_feed a f d)"
| "apply_feed_op E (SetSources a i items dry acquired now) d =
     res_bind (get_feed a i d) (\<lambda>f. res_bind (set_sources E a f items dry acquired now d) (\<lambda>(d', _). Inr d'))"
| "apply_feed_op E (RemoveSource a i) d = res_bind (remove_source_by_id a i d) (\<lambda>(d', _). Inr d')"
| "apply_feed_op E (SeekFeed a i to dry now now') d =
     res_bind (get_feed a i d) (\<lambda>f. res_bind (seek_feed E a f to dry now now' d) (\<lambda>(d', _). Inr d'))"
| "apply_feed_op E (SeekSource a i to dry now now') d =
     res_bind (seek_by_id E a i to dry now now' d) (\<lambda>(d', _). Inr d')"
| "apply_feed_op E (AdvanceWatermark a s t) d = Inr (fst (advance_source_watermark a s t d))"
| "apply_feed_op E (UpdatePollState a f t) d = update_poll_state a f t d"

definition after_feed_ops :: "feeds_env \<Rightarrow> feed_op list \<Rightarrow> db \<Rightarrow> db" where
  "after_feed_ops E ops d = fold (\<lambda>p d. case apply_feed_op E p d of Inl e \<Rightarrow> d | Inr d' \<Rightarrow> d') ops d"

text \<open>What the serializers validated before the call.\<close>

fun op_inputs :: "feed_op \<Rightarrow> source_input list" where
  "op_inputs (CreateFeed a user name kind interval data active items acquired now) = items"
| "op_inputs (SetSources a i items dry acquired now) = items"
| "op_inputs _ = []"

lemma get_feedD: "get_feed a i d = Inr f \<Longrightarrow> f \<in> set (t_feeds d) \<and> feed_id f = i \<and> feed_account f = a"
  by (auto simp: get_feed_def dest: qget_Inr)

lemma load_dumped:
  assumes "feeds_env_ok E" "feed_kind f = FEED_KIND" "feed_data f = fe_config_dump E c"
  shows "load_feed_config E f = Inr c"
  using assms by (simp add: load_feed_config_def parse_feed_config_def feeds_env_ok_def)

lemma parse_feed_config_Inr: "parse_feed_config E kind data = Inr c \<Longrightarrow> kind = FEED_KIND"
  by (auto simp: parse_feed_config_def split: if_splits)

lemma enforce_feed_policy_Inr:
  "enforce_feed_policy c = Inr c' \<longleftrightarrow> c' = c \<and> RETENTION_MIN_DAYS \<le> cc_retention_days c \<and> cc_retention_days c \<le> RETENTION_MAX_DAYS"
  by (auto simp: enforce_feed_policy_def)

lemma built_feed_ok:
  assumes env: "feeds_env_ok E" and b: "build_feed E i a user name kind interval data active = Inr f"
  shows "feed_ok E f \<and> feed_id f = i \<and> feed_account f = a"
proof -
  from b obtain c where c: "parse_feed_config E kind data = Inr c" "enforce_feed_policy c = Inr c"
    and f: "feed_kind f = kind" "feed_data f = fe_config_dump E c" "feed_id f = i" "feed_account f = a"
    by (auto simp: build_feed_def validate_feed_config_def res_bind_Inr_iff enforce_feed_policy_Inr)
  have "load_feed_config E f = Inr c"
    by (rule load_dumped[OF env _ f(2)]) (use f(1) parse_feed_config_Inr[OF c(1)] in simp)
  with c(2) f(3,4) show ?thesis unfolding feed_ok_def enforce_feed_policy_Inr by blast
qed

lemma feeds_ok_set_sources:
  assumes env: "feeds_env_ok E" and ok: "feeds_ok E d" and items: "list_all input_ok items"
    and f: "g \<in> set (t_feeds d)" "feed_id g = feed_id f" "feed_account g = a"
    and r: "set_sources E a f items dry acquired now d = Inr (d', r)"
  shows "feeds_ok E d'"
proof (cases dry)
  case True
  with r ok show ?thesis by (auto simp: set_sources_def res_bind_Inr_iff Let_def)
next
  case False
  with r have "apply_sources E a f (by_hash E items) now d = Inr (d', r)"
    by (auto simp: set_sources_def res_bind_Inr_iff Let_def split: if_splits)
  then show ?thesis by (rule feeds_ok_apply_sources[OF env ok items f])
qed

lemma feeds_ok_seek_rows: "feeds_ok E d \<Longrightarrow> feeds_ok E (fst (seek_rows qs to dry d))"
proof (cases dry)
  case False
  assume ok: "feeds_ok E d"
  let ?m = "\<lambda>s. s\<lparr>src_last_event := Some to\<rparr>"
  let ?f = "\<lambda>s. qs s \<and> (src_last_event s = None \<or> lt_col (src_last_event s) to)"
  let ?b = "\<lambda>s. qs s \<and> src_last_event s \<noteq> None \<and> \<not> le_col (src_last_event s) to"
  let ?d1 = "d\<lparr>t_sources := qupdate ?f ?m (t_sources d)\<rparr>"
  have "fst (seek_rows qs to dry d) = ?d1\<lparr>t_sources := qupdate ?b ?m (t_sources ?d1)\<rparr>"
    using False by (simp add: seek_rows_def Let_def)
  moreover have "feeds_ok E (?d1\<lparr>t_sources := qupdate ?b ?m (t_sources ?d1)\<rparr>)"
    by (intro feeds_ok_update_sources ok keeps_identity_simps)
  ultimately show ?thesis by simp
qed (simp add: seek_rows_def Let_def)


lemma save_row_Inr: "save_row P g t = Inr t' \<Longrightarrow> t' = qupdate P g t"
  by (auto simp: save_row_def split: if_splits)

lemma feeds_ok_create_feed:
  assumes env: "feeds_env_ok E" and ok: "feeds_ok E d" and items: "list_all input_ok items"
    and r: "create_feed E a user name kind interval data active items acquired now d = Inr (d', f)"
  shows "feeds_ok E d'"
proof -
  let ?d1 = "d\<lparr>t_feeds := t_feeds d @ [f], next_id := Suc (next_id d)\<rparr>"
  from r have b: "build_feed E (fe_gen E (next_id d)) a user name kind interval data active = Inr f"
    by (auto simp: create_feed_def res_bind_Inr_iff Let_def split: if_splits prod.splits)
  from built_feed_ok[OF env b] have f: "feed_ok E f" "feed_id f = fe_gen E (next_id d)" "feed_account f = a" by auto
  have new: "\<not> id_used (fe_gen E) (next_id d) (feed_id f)" and used: "id_used (fe_gen E) (Suc (next_id d)) (feed_id f)"
    using env f(2) by (auto simp: id_used_def feeds_env_ok_def dest: injD)
  have later: "id_used (fe_gen E) (next_id d) i \<Longrightarrow> id_used (fe_gen E) (Suc (next_id d)) i" for i
    by (erule id_used_mono) simp
  have "feed_id f \<notin> feed_id ` set (t_feeds d)" using new feeds_okD(5)[OF ok] by (auto simp: image_iff)
  moreover have "owned (t_feeds d @ [f]) s" if "owned (t_feeds d) s" for s using that by (auto simp: owned_def)
  ultimately have ok1: "feeds_ok E ?d1"
    using ok f(1) used later by (auto simp: feeds_ok_def list_all_iff)
  show ?thesis
  proof (cases "items = []")
    case True
    with r b ok1 show ?thesis by (simp add: create_feed_def)
  next
    case False
    with r b obtain res where "set_sources E a f items False acquired now ?d1 = Inr (d', res)"
      by (auto simp: create_feed_def res_bind_Inr_iff)
    from feeds_ok_set_sources[OF env ok1 items _ _ _ this, where g = f] f show ?thesis by simp
  qed
qed

lemma feeds_ok_update_feed:
  assumes env: "feeds_env_ok E" and ok: "feeds_ok E d" and g: "get_feed a i d = Inr f"
    and r: "update_feed E a f name interval data active d = Inr (d', f')"
  shows "feeds_ok E d'"
proof -
  from r obtain c where c: "parse_feed_config E (feed_kind f) data = Inr c" "enforce_feed_policy c = Inr c"
    and f': "f' = f\<lparr>feed_name := name, feed_interval := interval, feed_active := active, feed_data := fe_config_dump E c\<rparr>"
    and d': "d' = d\<lparr>t_feeds := qupdate (\<lambda>x. feed_id x = feed_id f)
        (\<lambda>x. x\<lparr>feed_name := feed_name f', feed_interval := feed_interval f', feed_active := feed_active f',
               feed_data := feed_data f'\<rparr>) (t_feeds d)\<rparr>"
    by (auto simp: update_feed_def build_feed_update_def res_bind_Inr_iff merge_feed_config_def enforce_feed_policy_Inr
        split: if_splits dest!: save_row_Inr)
  show ?thesis unfolding d'
  proof (rule feeds_ok_update_feeds[OF ok])
    fix x assume x: "x \<in> set (t_feeds d)" "feed_id x = feed_id f"
    then have "x = f" using get_feedD[OF g] distinct_key_unique[OF feeds_okD(1)[OF ok]] by blast
    let ?x = "x\<lparr>feed_name := feed_name f', feed_interval := feed_interval f', feed_active := feed_active f',
               feed_data := feed_data f'\<rparr>"
    have "load_feed_config E ?x = Inr c"
      by (rule load_dumped[OF env]) (use \<open>x = f\<close> f' parse_feed_config_Inr[OF c(1)] in simp_all)
    then show "feed_ok E ?x" using c(2) unfolding feed_ok_def enforce_feed_policy_Inr by blast
  qed simp_all
qed

lemma feed_ok_cong: "feed_kind g = feed_kind f \<Longrightarrow> feed_data g = feed_data f \<Longrightarrow> feed_ok E g = feed_ok E f"
  by (simp add: feed_ok_def load_feed_config_def)

lemma feeds_ok_save_feed:
  assumes ok: "feeds_ok E d" and s: "save_row P g (t_feeds d) = Inr t"
    and g: "\<And>f. feed_id (g f) = feed_id f" "\<And>f. feed_account (g f) = feed_account f"
      "\<And>f. feed_kind (g f) = feed_kind f" "\<And>f. feed_data (g f) = feed_data f"
  shows "feeds_ok E (d\<lparr>t_feeds := t\<rparr>)"
  unfolding save_row_Inr[OF s] using g(1,2) by (rule feeds_ok_update_feeds[OF ok]) (simp add: feed_ok_cong[OF g(3,4)])

lemma feeds_ok_delete_feed:
  assumes ok: "feeds_ok E d" and g: "get_feed a i d = Inr f" and r: "delete_feed a f d = Inr d'"
  shows "feeds_ok E d'"
proof -
  let ?S = "qdelete (in_feed a (feed_id f)) (t_sources d)" and ?F = "qdelete (\<lambda>x. feed_id x = feed_id f) (t_feeds d)"
  note f = get_feedD[OF g]
  have t: "t_feeds d' = ?F" "t_sources d' = ?S" "next_id d' = next_id d"
    using r f by (auto simp: delete_feed_def delete_sources_for_feed_def Let_def)
  have "owned ?F s" if s: "s \<in> set ?S" for s
  proof -
    from s feeds_okD(7)[OF ok, of s] obtain h where h: "h \<in> set (t_feeds d)" "feed_id h = src_feed s" "feed_account h = src_account s"
      by (auto simp: owned_def)
    have "feed_id h \<noteq> feed_id f"
    proof
      assume "feed_id h = feed_id f"
      then have "h = f" using h(1) f distinct_key_unique[OF feeds_okD(1)[OF ok]] by blast
      with s h f show False by (simp add: in_feed_def)
    qed
    with h show ?thesis by (auto simp: owned_def)
  qed
  with ok show ?thesis by (auto simp: feeds_ok_def list_all_iff t distinct_map_qdelete)
qed

lemma feeds_ok_op:
  assumes env: "feeds_env_ok E" and ok: "feeds_ok E d" and items: "list_all input_ok (op_inputs p)"
    and r: "apply_feed_op E p d = Inr d'"
  shows "feeds_ok E d'"
proof (cases p)
  case (CreateFeed a user name kind interval data active items acquired now)
  with r items show ?thesis by (auto simp: res_bind_Inr_iff intro: feeds_ok_create_feed[OF env ok])
next
  case (UpdateFeed a i name interval data active)
  with r show ?thesis by (auto simp: res_bind_Inr_iff intro: feeds_ok_update_feed[OF env ok])
next
  case (SetFeedActive a i active)
  with r show ?thesis
    by (auto simp: res_bind_Inr_iff set_feed_active_def split: if_splits intro: feeds_ok_save_feed[OF ok])
next
  case (DeleteFeed a i)
  with r show ?thesis by (auto simp: res_bind_Inr_iff intro: feeds_ok_delete_feed[OF ok])
next
  case (SetSources a i its dry acquired now)
  with r obtain f res where f: "get_feed a i d = Inr f" "set_sources E a f its dry acquired now d = Inr (d', res)"
    by (auto simp: res_bind_Inr_iff)
  from feeds_ok_set_sources[OF env ok _ _ _ _ f(2), where g = f] get_feedD[OF f(1)] items SetSources
  show ?thesis by simp
next
  case (RemoveSource a i)
  with r show ?thesis by (auto simp: res_bind_Inr_iff remove_source_by_id_def intro: feeds_ok_delete_sources[OF ok])
next
  case (SeekFeed a i to dry now now')
  with r show ?thesis using feeds_ok_seek_rows[OF ok] by (auto simp: res_bind_Inr_iff seek_feed_def) (metis fst_conv)
next
  case (SeekSource a i to dry now now')
  with r show ?thesis using feeds_ok_seek_rows[OF ok] by (auto simp: res_bind_Inr_iff seek_by_id_def) (metis fst_conv)
next
  case (AdvanceWatermark a s t)
  with r have "d' = fst (advance_source_watermark a s t d)" by simp
  then show ?thesis unfolding advance_source_watermark_def Let_def fst_conv
    by (simp only: feeds_ok_update_sources[OF ok keeps_identity_simps(1)])
next
  case (UpdatePollState a f t)
  with r show ?thesis
    by (auto simp: res_bind_Inr_iff update_poll_state_def split: if_splits intro: feeds_ok_save_feed[OF ok])
qed

lemma feeds_ok_ops:
  assumes "feeds_env_ok E" "list_all (\<lambda>p. list_all input_ok (op_inputs p)) ops" "feeds_ok E d"
  shows "feeds_ok E (after_feed_ops E ops d)"
  using assms(2,3)
proof (induction ops arbitrary: d)
  case (Cons p ops)
  then have "feeds_ok E (case apply_feed_op E p d of Inl e \<Rightarrow> d | Inr d' \<Rightarrow> d')"
    using feeds_ok_op[OF assms(1), of d p] by (auto split: sum.splits)
  with Cons show ?case by (simp add: after_feed_ops_def)
qed (simp add: after_feed_ops_def)


subsection \<open>What a reconcile leaves\<close>

definition input_hashes :: "feeds_env \<Rightarrow> source_input list \<Rightarrow> string set" where
  "input_hashes E items = (\<lambda>it. hash_spec E (in_spec it)) ` set items"

lemma by_hash_find: "map_of (by_hash E items) h = List.find (\<lambda>it. hash_spec E (in_spec it) = h) items"
proof (induction items rule: rev_induct)
  case (snoc it items)
  have f: "List.find P (xs @ [x]) = (case List.find P xs of None \<Rightarrow> if P x then Some x else None | r \<Rightarrow> r)" for P xs and x :: 'x
    by (induction xs) auto
  show ?case
  proof (cases "hash_spec E (in_spec it) \<in> fst ` set (by_hash E items)")
    case True
    then have "by_hash E (items @ [it]) = by_hash E items" by (simp add: by_hash_def Let_def)
    moreover have "List.find (\<lambda>it. hash_spec E (in_spec it) = h) items \<noteq> None" if "hash_spec E (in_spec it) = h"
      using True that snoc.IH by (metis map_of_eq_None_iff)
    ultimately show ?thesis unfolding f using snoc.IH by (auto split: option.splits)
  next
    case False
    then have "by_hash E (items @ [it]) = by_hash E items @ [(hash_spec E (in_spec it), it)]" by (simp add: by_hash_def Let_def)
    moreover have "map_of (by_hash E items) (hash_spec E (in_spec it)) = None" using False by (simp add: map_of_eq_None_iff)
    ultimately show ?thesis unfolding f using snoc.IH by (auto simp: map_add_def split: option.splits)
  qed
qed (simp add: by_hash_def)

lemma by_hash_keys: "fst ` set (by_hash E items) = input_hashes E items"
  using by_hash_spec by (simp add: input_hashes_def)

lemma length_by_hash: "length (by_hash E items) = card (input_hashes E items)"
  using by_hash_spec[of E items] distinct_card[of "map fst (by_hash E items)"] by (simp add: by_hash_keys)

lemma dict_eq_refl: "dict_eq a a"
  by (simp add: dict_eq_def list_all_iff)

lemma refreshed_tags:
  assumes "in_feed a f s" "src_hash s \<in> input_hashes E items"
  shows "dict_eq (src_meta (refreshed (by_hash E items) a f s)) (in_meta (the (List.find (\<lambda>it. hash_spec E (in_spec it) = src_hash s) items))) \<and>
    dict_eq (src_field_map (refreshed (by_hash E items) a f s)) (in_field_map (the (List.find (\<lambda>it. hash_spec E (in_spec it) = src_hash s) items)))"
  using assms by (simp add: refreshed_def Let_def by_hash_keys by_hash_find dict_eq_refl)

lemma card_diff_int: "finite A \<Longrightarrow> card (A - B) + card (B \<inter> A) = card A"
  by (subst card_Un_disjoint[symmetric]) (auto intro: arg_cong[of _ _ card])

lemma hashes_of_feed_distinct:
  assumes "distinct (map source_key (t_sources d))"
  shows "distinct (map src_hash (feed_sources a f d))"
proof -
  have "distinct (map source_key (feed_sources a f d))"
    using assms by (simp add: feed_sources_def distinct_map_filter)
  moreover have "map source_key (feed_sources a f d) = map (\<lambda>h. (a, feed_id f, h)) (map src_hash (feed_sources a f d))"
    by (simp add: feed_sources_def source_key_def in_feed_def)
  ultimately show ?thesis by (metis distinct_map)
qed

text \<open>A dry run over a feed whose hashes are already those of the input.\<close>

lemma settled_dry_run:
  assumes s: "src_hash ` set (feed_sources a f d) = input_hashes E items"
    and c: "assert_curated a f = Inr ()" "assert_connector_registered E (map in_spec items) = Inr ()"
      "enforce_source_spec_safety E (map in_spec items) = Inr ()"
  shows "set_sources E a f items True acquired now d =
    Inr (d, \<lparr>sr_added = 0, sr_removed = 0, sr_persisted = card (input_hashes E items), sr_count = card (input_hashes E items)\<rparr>)"
proof -
  have k: "set (map fst (by_hash E items)) = input_hashes E items" "set (map src_hash (feed_sources a f d)) = input_hashes E items"
    using by_hash_keys s by simp_all
  have e: "filter (\<lambda>h. h \<notin> set (remdups (map src_hash (feed_sources a f d)))) (map fst (by_hash E items)) = []"
    "filter (\<lambda>h. h \<notin> set (map fst (by_hash E items))) (remdups (map src_hash (feed_sources a f d))) = []"
    "filter (\<lambda>h. h \<in> set (remdups (map src_hash (feed_sources a f d)))) (map fst (by_hash E items)) = map fst (by_hash E items)"
    by (simp_all only: filter_empty_conv filter_id_conv set_remdups k) simp_all
  show ?thesis unfolding set_sources_def c res_bind_simps Let_def if_True e by (simp add: length_by_hash)
qed

subsection \<open>What a seek leaves\<close>

lemma seek_rows_eq:
  fixes qs :: "source \<Rightarrow> bool" and to :: datetime and d :: db
  assumes qs: "\<And>s t. qs (s\<lparr>src_last_event := t\<rparr>) = qs s"
  defines "a \<equiv> int (qcount (\<lambda>s. qs s \<and> (src_last_event s = None \<or> lt_col (src_last_event s) to)) (t_sources d))"
    and "b \<equiv> int (qcount (\<lambda>s. qs s \<and> src_last_event s \<noteq> None \<and> \<not> le_col (src_last_event s) to) (t_sources d))"
    and "u \<equiv> int (qcount (\<lambda>s. qs s \<and> src_last_event s = Some to) (t_sources d))"
  shows "seek_rows qs to dry d =
      (if dry then d else d\<lparr>t_sources := qupdate qs (\<lambda>s. s\<lparr>src_last_event := Some to\<rparr>) (t_sources d)\<rparr>,
       \<lparr>sk_advanced = a, sk_rewound = b, sk_unchanged = u, sk_count = a + b + u, sk_to = to, sk_dry_run = dry\<rparr>)"
    and "a + b + u = int (qcount qs (t_sources d))"
proof -
  let ?f = "\<lambda>s. qs s \<and> (src_last_event s = None \<or> lt_col (src_last_event s) to)"
  let ?b = "\<lambda>s. qs s \<and> src_last_event s \<noteq> None \<and> \<not> le_col (src_last_event s) to"
  let ?u = "\<lambda>s. qs s \<and> src_last_event s = Some to"
  let ?m = "\<lambda>s. s\<lparr>src_last_event := Some to\<rparr>"
  have row: "(if ?b (if ?f s then ?m s else s) then ?m (if ?f s then ?m s else s) else if ?f s then ?m s else s) =
      (if qs s then ?m s else s) \<and> ?b (if ?f s then ?m s else s) = ?b s" for s
  proof (cases "src_last_event s")
    case (Some x)
    then show ?thesis by (cases x to rule: linorder_cases) (simp_all add: qs)
  qed (simp add: qs)
  have sum: "qcount ?f t + qcount ?b t + qcount ?u t = qcount qs t" for t
  proof (induction t)
    case (Cons s t)
    then show ?case
    proof (cases "src_last_event s")
      case (Some x)
      with Cons show ?thesis by (cases x to rule: linorder_cases) simp_all
    qed simp
  qed simp
  show s: "a + b + u = int (qcount qs (t_sources d))" unfolding a_def b_def u_def using sum[of "t_sources d"] by linarith
  have t2: "qupdate ?b ?m (qupdate ?f ?m t) = qupdate qs ?m t" for t
    unfolding qupdate_def map_map comp_def using row by (intro map_cong refl) blast
  have b1: "qcount ?b (qupdate ?f ?m t) = qcount ?b t" for t
  proof -
    have "(if ?f s then ?b (?m s) else ?b s) = ?b s" for s
      by (cases "src_last_event s") (simp_all add: qs)
    then show ?thesis unfolding qcount_qupdate by presburger
  qed
  have u2: "qcount ?u (qupdate qs ?m t) = qcount qs t" for t
    unfolding qcount_qupdate by (intro qcount_cong) (simp add: qs)
  show "seek_rows qs to dry d =
      (if dry then d else d\<lparr>t_sources := qupdate qs ?m (t_sources d)\<rparr>,
       \<lparr>sk_advanced = a, sk_rewound = b, sk_unchanged = u, sk_count = a + b + u, sk_to = to, sk_dry_run = dry\<rparr>)"
    using s by (cases dry) (simp_all add: seek_rows_def Let_def t2 b1 u2 a_def b_def u_def del: not_None_eq)
qed

lemma resolve_target_bounds:
  assumes "resolve_target E f raw now now' = Inr to" "load_feed_config E f = Inr c"
  shows "seek_floor (cc_retention_days c) now \<le> to \<and> to \<le> now'"
  using assms by (auto simp: resolve_target_def enforce_source_watermark_def enforce_seek_floor_def split: sum.splits if_splits)

lemma resolve_target_floor:
  assumes c: "load_feed_config E f = Inr c" "1 \<le> cc_retention_days c" and n: "now \<le> now'"
    and cal: "DATETIME_MIN \<le> seek_floor (cc_retention_days c) now"
  shows "resolve_target E f ''oldest'' now now' = Inr (seek_floor (cc_retention_days c) now) \<and>
    resolve_target E f (show_nat (nat (cc_retention_days c)) @ ''d'') now now' = Inr (seek_floor (cc_retention_days c) now)"
proof -
  let ?fl = "seek_floor (cc_retention_days c) now"
  have past: "enforce_source_watermark ?fl now' = Inr ?fl"
    using c(2) n by (simp add: enforce_source_watermark_def seek_floor_def days_def seconds_def)
  have "map_of REL_UNIT (CHR ''d'') = Some 86400" by (simp add: REL_UNIT_def)
  then have "resolve_window_value (fe_fromiso E) (show_nat (nat (cc_retention_days c)) @ ''d'') now (Some ?fl) = Inr ?fl"
    using resolve_duration[of "CHR ''d''" 86400 "fe_fromiso E" "nat (cc_retention_days c)" now "Some ?fl"] c(2) cal
    by (simp add: seek_floor_def days_def seconds_def)
  then show ?thesis
    using c(1) past by (simp add: resolve_target_def resolve_oldest enforce_seek_floor_def)
qed

end
