(* ===== verification/Polling.thy ===== *)
theory Polling
  imports Source_Laws Locks
begin

text \<open>
  A poll cycle: \<open>feeds/services/polling.py\<close>, \<open>_reddit_batch.py\<close>, \<open>_poll_common.py\<close> and the two
  commands. A connector answers through \<open>poll_world\<close>: the payloads its generator yielded and the
  exception it ended with, if any. So do the lease (the outcome of each renewal), the random order
  of a query, and the other processes: \<open>pw_others k j\<close> is what they have written by the time of the
  \<open>j\<close>-th write of the \<open>k\<close>-th source or chunk (its recording or its advance). Every write commits alone, so a cycle that raises
  returns the database next to the exception.
\<close>

subsection \<open>What a cycle is given\<close>

record poll_world =
  pw_fetch :: "source_spec \<Rightarrow> datetime option \<Rightarrow> str_dict \<Rightarrow> source_payload list \<times> exn option"
  pw_combined :: "string list \<Rightarrow> datetime option \<Rightarrow> (string \<times> source_payload) list \<times> exn option"
  pw_lease :: "nat \<Rightarrow> bool"
  pw_shuffle :: "source list \<Rightarrow> source list"
  pw_others :: "nat \<Rightarrow> nat \<Rightarrow> db \<Rightarrow> db"

text \<open>The last step of a fetch, \<open>RssConnector.fetch\<close>'s loop over the entries its parser read and
  could map: an entry dated before the mark is dropped, the rest is yielded in the feed's order.\<close>

fun rss_entries :: "datetime option \<Rightarrow> source_payload list \<Rightarrow> source_payload list" where
  "rss_entries since [] = []"
| "rss_entries since (payload # rest) =
     (if since \<noteq> None \<and> sp_occurred payload < the since then rss_entries since rest
      else payload # rss_entries since rest)"

definition RECOVERABLE_ERRORS :: "exn list" where
  "RECOVERABLE_ERRORS = [HTTPError, ValidationError, ConnectionError, ConnectorParseError, KeyError]"

definition recoverable :: "exn \<Rightarrow> bool" where
  "recoverable e \<longleftrightarrow> e \<in> set RECOVERABLE_ERRORS"

record poll_result =
  fp_observed :: nat
  fp_recorded :: nat
  fp_pruned :: nat

text \<open>What the sources of a cycle have added up to: observed, recorded, succeeded.\<close>

record poll_tally =
  pt_observed :: nat
  pt_recorded :: nat
  pt_succeeded :: nat

definition add_tally :: "nat \<Rightarrow> nat \<Rightarrow> nat \<Rightarrow> poll_tally \<Rightarrow> poll_tally" where
  "add_tally o' r s t = \<lparr>pt_observed = pt_observed t + o', pt_recorded = pt_recorded t + r, pt_succeeded = pt_succeeded t + s\<rparr>"

definition no_tally :: poll_tally where
  "no_tally = \<lparr>pt_observed = 0, pt_recorded = 0, pt_succeeded = 0\<rparr>"

subsection \<open>One source\<close>

definition polled_newest :: "datetime \<Rightarrow> source_payload list \<Rightarrow> datetime" where
  "polled_newest initial payloads = foldl (\<lambda>newest p. if newest < sp_occurred p then sp_occurred p else newest) initial payloads"

text \<open>A generator that raises closes: the full chunks it filled are stored, the open one is lost.\<close>

definition flushed :: "source_payload list \<Rightarrow> exn option \<Rightarrow> source_payload list" where
  "flushed payloads err =
     (case err of None \<Rightarrow> payloads | Some _ \<Rightarrow> take (length payloads - length payloads mod RECORD_CHUNK) payloads)"

definition merge_dict :: "str_dict \<Rightarrow> str_dict \<Rightarrow> str_dict" where
  "merge_dict base over =
     map (\<lambda>(k, v). (k, case map_of over k of None \<Rightarrow> v | Some v' \<Rightarrow> v')) base @ filter (\<lambda>(k, _). k \<notin> fst ` set base) over"

definition dict_json :: "str_dict \<Rightarrow> json" where
  "dict_json m = JObj (map (\<lambda>(k, v). (k, JStr v)) m)"

definition poll_source ::
  "feeds_env \<Rightarrow> poll_world \<Rightarrow> feed \<Rightarrow> curated_config \<Rightarrow> source \<Rightarrow> source_spec \<Rightarrow> nat \<Rightarrow> db \<Rightarrow> db \<times> (nat \<times> nat) result" where
  "poll_source E P f c s spec k d =
     (if spec_kind spec \<notin> set (connector_kinds E) then (d, Inl KeyError)
      else case src_last_event s of
        None \<Rightarrow> (d, Inl AttributeError)
      | Some mark \<Rightarrow>
          (let field_map = merge_dict (cc_default_field_map c) (src_field_map s);
               (payloads, err) = pw_fetch P spec (Some mark) field_map;
               d1 = pw_others P k 0 d
           in case record_items (fe_gen E) (feed_account f) f (display (fe_pystr E) spec) (dict_json (src_meta s))
                     (flushed payloads err) d1 of
                Inl e \<Rightarrow> (d1, Inl e)
              | Inr (d2, recorded) \<Rightarrow>
                  (case err of
                     Some e \<Rightarrow> (d2, Inl e)
                   | None \<Rightarrow>
                       let newest = polled_newest mark payloads;
                           d3 = pw_others P k 1 d2
                       in (if newest \<noteq> mark then fst (advance_source_watermark (feed_account f) s newest d3) else d3,
                           Inr (length payloads, recorded)))))"

fun poll_rest ::
  "feeds_env \<Rightarrow> poll_world \<Rightarrow> feed \<Rightarrow> curated_config \<Rightarrow> source list \<Rightarrow> nat \<Rightarrow> db \<Rightarrow> poll_tally \<Rightarrow> db \<times> poll_tally result" where
  "poll_rest E P f c [] k d t = (d, Inr t)"
| "poll_rest E P f c (s # ss) k d t =
     (if \<not> pw_lease P k then (d, Inr t)
      else case parse_spec E (src_spec s) of
        None \<Rightarrow> poll_rest E P f c ss (Suc k) d t
      | Some spec \<Rightarrow>
          (case poll_source E P f c s spec k d of
             (d', Inr (o', r)) \<Rightarrow> poll_rest E P f c ss (Suc k) d' (add_tally o' r 1 t)
           | (d', Inl e) \<Rightarrow> if recoverable e then poll_rest E P f c ss (Suc k) d' t else (d', Inl e)))"

subsection \<open>The subreddits\<close>

type_synonym reddit_pair = "source \<times> string"

fun parse_reddit :: "feeds_env \<Rightarrow> string list \<Rightarrow> source list \<Rightarrow> reddit_pair list" where
  "parse_reddit E seen [] = []"
| "parse_reddit E seen (s # ss) =
     (case parse_spec E (src_spec s) of
        Some (RedditSubredditSourceSpec sub) \<Rightarrow>
          if lower sub \<in> set seen then parse_reddit E seen ss
          else (s, sub) # parse_reddit E (lower sub # seen) ss
      | _ \<Rightarrow> parse_reddit E seen ss)"

definition MAX_COMBINED_URL_BYTES :: nat where "MAX_COMBINED_URL_BYTES = 7500"
definition COMBINED_URL_OVERHEAD :: nat where "COMBINED_URL_OVERHEAD = 75"

fun budget_chunks :: "nat \<Rightarrow> reddit_pair list \<Rightarrow> nat \<Rightarrow> reddit_pair list \<Rightarrow> reddit_pair list list" where
  "budget_chunks budget cur used [] = (if cur = [] then [] else [cur])"
| "budget_chunks budget cur used ((s, sub) # pairs) =
     (let add = length sub + (if cur = [] then 0 else 1)
      in if cur \<noteq> [] \<and> budget < used + add then cur # budget_chunks budget [(s, sub)] add pairs
         else budget_chunks budget (cur @ [(s, sub)]) (used + add) pairs)"

definition iter_url_budget_chunks :: "reddit_pair list \<Rightarrow> reddit_pair list list" where
  "iter_url_budget_chunks pairs = budget_chunks (MAX_COMBINED_URL_BYTES - COMBINED_URL_OVERHEAD) [] 0 pairs"

text \<open>The entries of a combined answer that are a source's own: its subreddit, from its mark on.\<close>

definition own_entries :: "(string \<times> source_payload) list \<Rightarrow> reddit_pair \<Rightarrow> source_payload list" where
  "own_entries answer pair =
     filter (\<lambda>p. case src_last_event (fst pair) of None \<Rightarrow> True | Some mark \<Rightarrow> mark \<le> sp_occurred p)
       (map snd (filter (\<lambda>(tag, _). lower tag = lower (snd pair)) answer))"

definition newest_entry :: "source_payload list \<Rightarrow> datetime option" where
  "newest_entry items = (if items = [] then None else Some (Max (set (map sp_occurred items))))"

fun scatter_chunk ::
  "feeds_env \<Rightarrow> poll_world \<Rightarrow> feed \<Rightarrow> (string \<times> source_payload) list \<Rightarrow> reddit_pair list \<Rightarrow> nat \<Rightarrow> nat \<Rightarrow> db \<Rightarrow> nat \<Rightarrow> nat \<Rightarrow>
   db \<times> (nat \<times> nat) result" where
  "scatter_chunk E P f answer [] k j d observed recorded = (d, Inr (observed, recorded))"
| "scatter_chunk E P f answer ((s, sub) # pairs) k j d observed recorded =
     (let items = own_entries answer (s, sub);
          d1 = pw_others P k j d
      in case record_items (fe_gen E) (feed_account f) f (display (fe_pystr E) (RedditSubredditSourceSpec sub))
                (dict_json (src_meta s)) items d1 of
           Inl e \<Rightarrow> (d1, Inl e)
         | Inr (d2, n) \<Rightarrow>
             (let d3 = pw_others P k (Suc j) d2
              in scatter_chunk E P f answer pairs k (j + 2)
                   (case newest_entry items of
                      None \<Rightarrow> d3
                    | Some newest \<Rightarrow>
                        if (case src_last_event s of None \<Rightarrow> True | Some mark \<Rightarrow> mark < newest)
                        then fst (advance_source_watermark (feed_account f) s newest d3) else d3)
                   (observed + length items) (recorded + n)))"

definition earliest_mark :: "reddit_pair list \<Rightarrow> datetime option" where
  "earliest_mark chunk =
     (let present = concat (map (\<lambda>(s, _). case src_last_event s of None \<Rightarrow> [] | Some m \<Rightarrow> [m]) chunk)
      in if present = [] then None else Some (Min (set present)))"

definition poll_chunk ::
  "feeds_env \<Rightarrow> poll_world \<Rightarrow> feed \<Rightarrow> reddit_pair list \<Rightarrow> nat \<Rightarrow> db \<Rightarrow> db \<times> (nat \<times> nat \<times> nat) result" where
  "poll_chunk E P f chunk k d =
     (case pw_combined P (map snd chunk) (earliest_mark chunk) of
        (answer, Some e) \<Rightarrow> (d, if recoverable e then Inr (0, 0, 0) else Inl e)
      | (answer, None) \<Rightarrow>
          (case scatter_chunk E P f answer chunk k 0 d 0 0 of
             (d', Inl e) \<Rightarrow> (d', Inl e)
           | (d', Inr (observed, recorded)) \<Rightarrow> (d', Inr (observed, recorded, length chunk))))"

fun poll_chunks ::
  "feeds_env \<Rightarrow> poll_world \<Rightarrow> feed \<Rightarrow> reddit_pair list list \<Rightarrow> nat \<Rightarrow> db \<Rightarrow> poll_tally \<Rightarrow> nat \<times> db \<times> poll_tally result" where
  "poll_chunks E P f [] k d t = (k, d, Inr t)"
| "poll_chunks E P f (chunk # chunks) k d t =
     (if \<not> pw_lease P k then (Suc k, d, Inr t)
      else case poll_chunk E P f chunk k d of
        (d', Inl e) \<Rightarrow> (Suc k, d', Inl e)
      | (d', Inr (o', r, n)) \<Rightarrow> poll_chunks E P f chunks (Suc k) d' (add_tally o' r n t))"

definition poll_reddit_group ::
  "feeds_env \<Rightarrow> poll_world \<Rightarrow> feed \<Rightarrow> source list \<Rightarrow> db \<Rightarrow> nat \<times> db \<times> poll_tally result" where
  "poll_reddit_group E P f sources d =
     (if ''reddit_subreddit'' \<notin> set (connector_kinds E) then (0, d, Inl KeyError)
      else poll_chunks E P f (iter_url_budget_chunks (parse_reddit E [] sources)) 0 d no_tally)"

subsection \<open>The cycle\<close>

text \<open>The subreddits first, then the rest; a recoverable end of the group costs its tallies only.\<close>

definition poll_sources ::
  "feeds_env \<Rightarrow> poll_world \<Rightarrow> feed \<Rightarrow> curated_config \<Rightarrow> db \<Rightarrow> db \<times> poll_tally result" where
  "poll_sources E P f c d =
     (case iter_by_kind (pw_shuffle P) (feed_account f) f ''reddit_subreddit'' d of
        Inl e \<Rightarrow> (d, Inl e)
      | Inr subs \<Rightarrow>
          (let (k, d1, group) = poll_reddit_group E P f subs d;
               go = (\<lambda>t. case iter_for_poll (pw_shuffle P) (feed_account f) f [''reddit_subreddit''] d1 of
                        Inl e \<Rightarrow> (d1, Inl e)
                      | Inr rest \<Rightarrow> poll_rest E P f c rest k d1 t)
           in case group of
                Inl e \<Rightarrow> if recoverable e then go no_tally else (d1, Inl e)
              | Inr t \<Rightarrow> go t))"

definition poll_run ::
  "feeds_env \<Rightarrow> poll_world \<Rightarrow> feed \<Rightarrow> datetime \<Rightarrow> db \<Rightarrow> db \<times> poll_result result" where
  "poll_run E P f started_at d =
     (case load_feed_config E f of
        Inl e \<Rightarrow> (d, Inl e)
      | Inr c \<Rightarrow>
          (case count_sources (feed_account f) f d of
             Inl e \<Rightarrow> (d, Inl e)
           | Inr total_sources \<Rightarrow>
               (case poll_sources E P f c d of
                  (d1, Inl e) \<Rightarrow> (d1, Inl e)
                | (d1, Inr t) \<Rightarrow>
                    (case update_poll_state (feed_account f) f started_at d1 of
                       Inl e \<Rightarrow> (d1, Inl e)
                     | Inr d2 \<Rightarrow>
                         if 0 < total_sources \<and> pt_succeeded t = 0
                         then (d2, Inr \<lparr>fp_observed = pt_observed t, fp_recorded = pt_recorded t, fp_pruned = 0\<rparr>)
                         else (case prune_items (fe_encode_time E) (feed_account f) f (cc_retention_days c) started_at d2 of
                                 Inl e \<Rightarrow> (d2, Inl e)
                               | Inr (d3, pruned) \<Rightarrow>
                                   (d3, Inr \<lparr>fp_observed = pt_observed t, fp_recorded = pt_recorded t, fp_pruned = pruned\<rparr>))))))"

text \<open>The locked entry; \<open>held\<close> is what the try-lock answered.\<close>

definition poll_feed ::
  "feeds_env \<Rightarrow> poll_world \<Rightarrow> feed \<Rightarrow> bool \<Rightarrow> datetime \<Rightarrow> db \<Rightarrow> db \<times> poll_result option result" where
  "poll_feed E P f held started_at d =
     (if \<not> held then (d, Inr None)
      else case poll_run E P f started_at d of (d', r) \<Rightarrow> (d', map_sum id Some r))"

record due_summary =
  ds_feeds :: nat
  ds_observed :: nat
  ds_recorded :: nat
  ds_skipped :: nat
  ds_failed :: nat

text \<open>What the \<open>i\<close>-th feed of a pass meets: its world, the lock's answer, its starting time.\<close>

record pass_world =
  ps_world :: "nat \<Rightarrow> poll_world"
  ps_held :: "nat \<Rightarrow> bool"
  ps_clock :: "nat \<Rightarrow> datetime"

fun poll_pass :: "feeds_env \<Rightarrow> pass_world \<Rightarrow> feed list \<Rightarrow> nat \<Rightarrow> db \<Rightarrow> due_summary \<Rightarrow> db \<times> due_summary" where
  "poll_pass E W [] i d u = (d, u)"
| "poll_pass E W (f # fs) i d u =
     (case poll_feed E (ps_world W i) f (ps_held W i) (ps_clock W i) d of
        (d', Inl e) \<Rightarrow> poll_pass E W fs (Suc i) d' (u\<lparr>ds_failed := ds_failed u + 1\<rparr>)
      | (d', Inr None) \<Rightarrow> poll_pass E W fs (Suc i) d' (u\<lparr>ds_skipped := ds_skipped u + 1\<rparr>)
      | (d', Inr (Some r)) \<Rightarrow>
          poll_pass E W fs (Suc i) d'
            (u\<lparr>ds_feeds := ds_feeds u + 1, ds_observed := ds_observed u + fp_observed r,
               ds_recorded := ds_recorded u + fp_recorded r\<rparr>))"

definition poll_due_feeds :: "feeds_env \<Rightarrow> pass_world \<Rightarrow> datetime \<Rightarrow> db \<Rightarrow> db \<times> due_summary" where
  "poll_due_feeds E W now d =
     poll_pass E W (iter_due_for_poll now d) 0 d
       \<lparr>ds_feeds = 0, ds_observed = 0, ds_recorded = 0, ds_skipped = 0, ds_failed = 0\<rparr>"

text \<open>The manual command takes no lock.\<close>

definition poll_feed_command ::
  "feeds_env \<Rightarrow> poll_world \<Rightarrow> ulid \<Rightarrow> datetime \<Rightarrow> db \<Rightarrow> db \<times> poll_result option result" where
  "poll_feed_command E P i started_at d =
     (case get_feed_global i d of
        Inl e \<Rightarrow> (d, Inr None)
      | Inr f \<Rightarrow> (case poll_run E (P\<lparr>pw_lease := \<lambda>_. True\<rparr>) f started_at d of (d', r) \<Rightarrow> (d', map_sum id Some r)))"

end
