(* ===== verification/Polling_Laws.thy ===== *)
theory Polling_Laws
  imports Polling
begin

text \<open>
  What a poll cycle keeps and guarantees: invariants through every write of a cycle and whatever
  other processes write in between, marks that only move over recorded items, the combined request
  against one request per subreddit, and the budget of its URL.
\<close>

subsection \<open>The two writes of a poll\<close>

text \<open>An invariant both writes keep is kept by the sources' part of a cycle, if the other processes
  keep it too.\<close>

locale poll_writes =
  fixes gen :: "nat \<Rightarrow> ulid" and f :: feed and I :: "db \<Rightarrow> bool"
  assumes recording: "I d \<Longrightarrow> record_items gen (feed_account f) f label meta ps d = Inr (d', n) \<Longrightarrow> I d'"
    and advance: "I d \<Longrightarrow> I (fst (advance_source_watermark (feed_account f) s v d))"
begin

lemma poll_source_keeps:
  assumes "fe_gen E = gen" "\<And>k j d. I d \<Longrightarrow> I (pw_others P k j d)" "I d"
  shows "I (fst (poll_source E P f c s spec k d))"
proof -
  have stored: "I d2" if "record_items (fe_gen E) (feed_account f) f label meta ps (pw_others P k j d) = Inr (d2, n)" for label meta ps j d2 n
    using recording[OF assms(2)[OF assms(3)]] that assms(1) by blast
  show ?thesis
    using assms by (auto simp: poll_source_def Let_def split: option.splits sum.splits prod.splits dest!: stored intro: advance)
qed

lemma poll_rest_keeps:
  assumes E: "fe_gen E = gen" and o': "\<And>k j d. I d \<Longrightarrow> I (pw_others P k j d)" and "I d"
  shows "I (fst (poll_rest E P f c ss k d t))"
  using assms(3)
proof (induction ss arbitrary: k d t)
  case (Cons s ss)
  have I': "poll_source E P f c s spec k d = (d', r) \<Longrightarrow> I d'" for spec d' r
    using poll_source_keeps[OF E o' Cons.prems, of c s spec k] by simp
  show ?case using Cons by (auto split: option.splits sum.splits prod.splits dest: I')
qed simp

lemma scatter_chunk_keeps:
  assumes E: "fe_gen E = gen" and o': "\<And>k j d. I d \<Longrightarrow> I (pw_others P k j d)" and "I d"
  shows "I (fst (scatter_chunk E P f answer pairs k j d a b))"
  using assms(3)
proof (induction pairs arbitrary: j d a b)
  case (Cons pair pairs)
  obtain s sub where pair: "pair = (s, sub)" by (cases pair)
  show ?case
  proof (cases "record_items (fe_gen E) (feed_account f) f (display (fe_pystr E) (RedditSubredditSourceSpec sub))
      (dict_json (src_meta s)) (own_entries answer (s, sub)) (pw_others P k j d)")
    case (Inl e)
    then show ?thesis using Cons.prems o' by (simp add: pair)
  next
    case (Inr z)
    obtain d2 n where z: "z = (d2, n)" by (cases z)
    have "I (pw_others P k (Suc j) d2)" using recording[OF o'[OF Cons.prems]] Inr z E o' by blast
    then have "I (case newest_entry (own_entries answer (s, sub)) of None \<Rightarrow> pw_others P k (Suc j) d2
        | Some newest \<Rightarrow> if (case src_last_event s of None \<Rightarrow> True | Some mark \<Rightarrow> mark < newest)
            then fst (advance_source_watermark (feed_account f) s newest (pw_others P k (Suc j) d2)) else pw_others P k (Suc j) d2)"
      using advance by (simp split: option.split)
    from Cons.IH[OF this] Inr z show ?thesis by (simp add: pair Let_def)
  qed
qed simp

lemma poll_chunks_keeps:
  assumes E: "fe_gen E = gen" and o': "\<And>k j d. I d \<Longrightarrow> I (pw_others P k j d)" and "I d"
  shows "I (fst (snd (poll_chunks E P f chunks k d t)))"
  using assms(3)
proof (induction chunks arbitrary: k d t)
  case (Cons chunk chunks)
  have "I (fst (poll_chunk E P f chunk k d))"
    using scatter_chunk_keeps[OF E o' Cons.prems]
    by (auto simp: poll_chunk_def Cons.prems split: prod.splits option.splits sum.splits) (metis fst_conv)+
  then have I': "poll_chunk E P f chunk k d = (d', r) \<Longrightarrow> I d'" for d' r by simp
  show ?case using Cons by (auto split: option.splits sum.splits prod.splits dest: I')
qed simp

lemma poll_sources_keeps:
  assumes E: "fe_gen E = gen" and o': "\<And>k j d. I d \<Longrightarrow> I (pw_others P k j d)" and "I d"
  shows "I (fst (poll_sources E P f c d))"
proof -
  have g: "I (fst (snd (poll_reddit_group E P f subs d)))" for subs
    using poll_chunks_keeps[OF E o' assms(3)] assms(3) by (simp add: poll_reddit_group_def)
  show ?thesis
  proof (cases "iter_by_kind (pw_shuffle P) (feed_account f) f ''reddit_subreddit'' d")
    case (Inl e)
    then show ?thesis using assms(3) by (simp add: poll_sources_def)
  next
    case (Inr subs)
    obtain k d1 r where p: "poll_reddit_group E P f subs d = (k, d1, r)" by (cases "poll_reddit_group E P f subs d") auto
    then have "I d1" using g[of subs] by simp
    then have go: "I (fst (case iter_for_poll (pw_shuffle P) (feed_account f) f [''reddit_subreddit''] d1 of
        Inl e \<Rightarrow> (d1, Inl e) | Inr rest \<Rightarrow> poll_rest E P f c rest k d1 t))" for t
      using poll_rest_keeps[OF E o'] by (simp split: sum.split)
    show ?thesis using go \<open>I d1\<close> by (simp add: poll_sources_def Inr p split: sum.split)
  qed
qed

end


lemma record_chunk_frame:
  assumes "record_chunk gen a fid label meta chunk d = (d', n)"
  shows "\<exists>new k. d' = d\<lparr>t_items := t_items d @ new, next_id := next_id d + k\<rparr> \<and>
    (\<lambda>p. (fid, payload_key p)) ` set chunk \<subseteq> item_key ` set (t_items d @ new)"
proof -
  let ?fresh = "filter (\<lambda>p. payload_key p \<notin> existing_keys a fid chunk d) chunk"
  let ?rows = "map (\<lambda>(i, p). new_item a fid label meta i p) (zip (fresh_ids gen d (length ?fresh)) ?fresh)"
  from insert_items_ignore_spec[of ?rows "t_items d"] obtain new where
    n: "insert_items_ignore ?rows (t_items d) = t_items d @ new"
    "item_key ` set (t_items d @ new) = item_key ` set (t_items d) \<union> item_key ` set ?rows" by blast
  have km: "map item_key ?rows = map (\<lambda>p. (fid, payload_key p)) ?fresh" by (intro nth_equalityI) simp_all
  have rk: "item_key ` set ?rows = (\<lambda>p. (fid, payload_key p)) ` set ?fresh" using arg_cong[OF km, of set] by (simp only: set_map)
  have known: "(fid, payload_key p) \<in> item_key ` set (t_items d)" if "payload_key p \<in> existing_keys a fid chunk d" for p
    using that by (auto simp: existing_keys_def item_key_def image_iff)
  have keys: "(\<lambda>p. (fid, payload_key p)) ` set chunk \<subseteq> item_key ` set (t_items d @ new)"
    unfolding n(2) rk using known by auto
  define rows where "rows = ?rows"
  have "(if rows = [] then (d, 0) else (d\<lparr>t_items := insert_items_ignore rows (t_items d), next_id := next_id d + length rows\<rparr>,
      length rows)) = (d', n)"
    using assms unfolding record_chunk_def Let_def rows_def .
  then have d': "d' = (if rows = [] then d else d\<lparr>t_items := t_items d @ new, next_id := next_id d + length rows\<rparr>)"
    using n(1) unfolding rows_def[symmetric] by (auto split: if_splits)
  have none: "rows = [] \<Longrightarrow> new = []" using n(1) unfolding rows_def[symmetric] by simp
  have "d' = d\<lparr>t_items := t_items d @ new, next_id := next_id d + length rows\<rparr>"
    unfolding d' using none by (cases "rows = []") simp_all
  with keys show ?thesis by blast
qed

lemma record_chunks_frame:
  assumes "record_chunks gen a fid label meta cs d c = (d', n)"
  shows "\<exists>new k. d' = d\<lparr>t_items := t_items d @ new, next_id := next_id d + k\<rparr> \<and>
    (\<lambda>p. (fid, payload_key p)) ` set (concat cs) \<subseteq> item_key ` set (t_items d @ new)"
  using assms
proof (induction cs arbitrary: d c)
  case Nil
  then show ?case by (intro exI[of _ "[]"] exI[of _ 0]) simp
next
  case (Cons x cs)
  obtain d1 m where x: "record_chunk gen a fid label meta x d = (d1, m)" by fastforce
  from record_chunk_frame[OF this] obtain new1 k1 where 1: "d1 = d\<lparr>t_items := t_items d @ new1, next_id := next_id d + k1\<rparr>"
    "(\<lambda>p. (fid, payload_key p)) ` set x \<subseteq> item_key ` set (t_items d @ new1)" by blast
  have "record_chunks gen a fid label meta cs d1 (c + m) = (d', n)" using Cons.prems x by simp
  from Cons.IH[OF this] obtain new2 k2 where 2: "d' = d1\<lparr>t_items := t_items d1 @ new2, next_id := next_id d1 + k2\<rparr>"
    "(\<lambda>p. (fid, payload_key p)) ` set (concat cs) \<subseteq> item_key ` set (t_items d1 @ new2)" by blast
  from 1 2 show ?case by (intro exI[of _ "new1 @ new2"] exI[of _ "k1 + k2"]) (auto simp: image_Un)
qed

text \<open>Recording appends to the items log, where every payload then has its key, and nothing else.\<close>

lemma record_items_frame:
  assumes "record_items gen a f label meta ps d = Inr (d', n)"
  obtains new k where "d' = d\<lparr>t_items := t_items d @ new, next_id := next_id d + k\<rparr>" "poll_keys f ps \<subseteq> item_key ` set (t_items d')"
proof -
  from assms have "record_chunks gen a (feed_id f) label meta (batched RECORD_CHUNK ps) d 0 = (d', n)"
    by (auto simp: record_items_def split: if_splits)
  from record_chunks_frame[OF this] obtain new k where "d' = d\<lparr>t_items := t_items d @ new, next_id := next_id d + k\<rparr>"
    "poll_keys f ps \<subseteq> item_key ` set (t_items d @ new)" unfolding poll_keys_def concat_batched by blast
  with that show thesis by simp
qed

lemma record_items_total: "feed_account f = a \<Longrightarrow> \<exists>d' n. record_items gen a f label meta ps d = Inr (d', n)"
  by (simp add: record_items_def)

text \<open>The advance moves the mark of one row, and only if it is the mark that was read.\<close>

definition advance_hits :: "ulid \<Rightarrow> source \<Rightarrow> datetime \<Rightarrow> source \<Rightarrow> bool" where
  "advance_hits a s v x \<longleftrightarrow> src_account x = a \<and> src_id x = src_id s \<and> src_last_event x = src_last_event s \<and>
     (src_last_event s \<noteq> None \<longrightarrow> lt_col (src_last_event x) v)"

lemma advance_eq:
  "advance_source_watermark a s v d =
    (d\<lparr>t_sources := qupdate (advance_hits a s v) (\<lambda>x. x\<lparr>src_last_event := Some v\<rparr>) (t_sources d)\<rparr>,
     qcount (advance_hits a s v) (t_sources d))"
  by (cases "src_last_event s") (simp_all add: advance_source_watermark_def advance_hits_def[abs_def] Let_def)

subsection \<open>Invariants of a cycle\<close>

lemma feeds_ok_mono:
  assumes "feeds_ok E d"
  shows "feeds_ok E (d\<lparr>t_items := t, next_id := next_id d + k\<rparr>)"
proof -
  have "id_used (fe_gen E) (next_id d) i \<Longrightarrow> id_used (fe_gen E) (next_id d + k) i" for i
    by (erule id_used_mono) simp
  with assms show ?thesis by (auto simp: feeds_ok_def list_all_iff)
qed

interpretation typed: poll_writes "fe_gen E" f "feeds_ok E" for E f
proof
  fix d d' label meta ps n
  assume "feeds_ok E d" "record_items (fe_gen E) (feed_account f) f label meta ps d = Inr (d', n)"
  then show "feeds_ok E d'" by (elim record_items_frame) (simp add: feeds_ok_mono)
next
  fix d s v
  assume "feeds_ok E d"
  then show "feeds_ok E (fst (advance_source_watermark (feed_account f) s v d))"
    unfolding advance_eq fst_conv by (rule feeds_ok_update_sources) simp
qed

text \<open>No item leaves the log, and none loses its key.\<close>

interpretation growing: poll_writes gen f "\<lambda>d. set K \<subseteq> set (t_items d)" for gen f K
proof
  fix d d' label meta ps n
  assume "set K \<subseteq> set (t_items d)" "record_items gen (feed_account f) f label meta ps d = Inr (d', n)"
  then show "set K \<subseteq> set (t_items d')" by (elim record_items_frame) auto
qed (simp add: advance_eq)

text \<open>The feed rows are not written before the end of the cycle.\<close>

interpretation feed_rows: poll_writes gen f "\<lambda>d. g (t_feeds d)" for gen f g
proof
  fix d d' label meta ps n
  assume "g (t_feeds d)" "record_items gen (feed_account f) f label meta ps d = Inr (d', n)"
  then show "g (t_feeds d')" by (elim record_items_frame) simp
qed (simp add: advance_eq)


subsection \<open>Marks move over what was recorded\<close>

text \<open>No other process writes during the cycle.\<close>

definition quiet :: "poll_world \<Rightarrow> bool" where
  "quiet P \<longleftrightarrow> (\<forall>k j d. pw_others P k j d = d)"

text \<open>The entries a complete answer brought for a source: its own request, or its share of a combined one.\<close>

definition answered :: "feeds_env \<Rightarrow> poll_world \<Rightarrow> curated_config \<Rightarrow> source \<Rightarrow> source_payload list \<Rightarrow> bool" where
  "answered E P c s ps \<longleftrightarrow>
     (\<exists>spec. parse_spec E (src_spec s) = Some spec \<and>
        pw_fetch P spec (src_last_event s) (merge_dict (cc_default_field_map c) (src_field_map s)) = (ps, None)) \<or>
     (\<exists>sub chunk answer. parse_spec E (src_spec s) = Some (RedditSubredditSourceSpec sub) \<and> (s, sub) \<in> set chunk \<and>
        pw_combined P (map snd chunk) (earliest_mark chunk) = (answer, None) \<and> ps = own_entries answer (s, sub))"

definition moved ::
  "feeds_env \<Rightarrow> poll_world \<Rightarrow> feed \<Rightarrow> curated_config \<Rightarrow> (ulid \<times> string \<times> string) set \<Rightarrow> source \<Rightarrow> source \<Rightarrow> bool" where
  "moved E P f c K s s' \<longleftrightarrow> s' = s \<or>
     (\<exists>ps mark v. answered E P c s ps \<and> poll_keys f ps \<subseteq> K \<and> src_last_event s = Some mark \<and>
        s' = s\<lparr>src_last_event := Some v\<rparr> \<and> mark < v \<and> v = Max (sp_occurred ` set ps))"

definition moves ::
  "feeds_env \<Rightarrow> poll_world \<Rightarrow> feed \<Rightarrow> curated_config \<Rightarrow> ulid set \<Rightarrow> (ulid \<times> string \<times> string) set \<Rightarrow> source list \<Rightarrow> source list \<Rightarrow> bool" where
  "moves E P f c A K t t' \<longleftrightarrow> list_all2 (\<lambda>s s'. if src_id s \<in> A then moved E P f c K s s' else s' = s) t t'"

lemma moved_mono: "moved E P f c K s s' \<Longrightarrow> K \<subseteq> K' \<Longrightarrow> moved E P f c K' s s'"
  by (auto simp: moved_def)

lemma moved_id: "moved E P f c K s s' \<Longrightarrow> src_id s' = src_id s"
  by (auto simp: moved_def)

lemma moves_refl: "moves E P f c A K t t"
  by (simp add: moves_def moved_def list_all2_same)

lemma moves_mono:
  assumes "moves E P f c A K t t'" "A \<subseteq> A'" "K \<subseteq> K'"
  shows "moves E P f c A' K' t t'"
  using assms(1) unfolding moves_def
proof (rule list_all2_mono)
  fix s s'
  assume "if src_id s \<in> A then moved E P f c K s s' else s' = s"
  then show "if src_id s \<in> A' then moved E P f c K' s s' else s' = s"
    using assms(2,3) moved_mono[of E P f c K s s' K'] by (auto simp: moved_def split: if_splits)
qed

lemma moves_trans:
  assumes "moves E P f c A K t t1" "moves E P f c B K t1 t2" "A \<inter> B = {}"
  shows "moves E P f c (A \<union> B) K t t2"
  using assms(1,2) unfolding moves_def
proof (rule list_all2_trans[rotated])
  fix x y z
  assume 1: "if src_id x \<in> A then moved E P f c K x y else y = x" and 2: "if src_id y \<in> B then moved E P f c K y z else z = y"
  show "if src_id x \<in> A \<union> B then moved E P f c K x z else z = x"
  proof (cases "src_id x \<in> A")
    case True
    with 1 have m: "moved E P f c K x y" by simp
    have "src_id y \<notin> B" using moved_id[OF m] True assms(3) by auto
    with 2 m True show ?thesis by simp
  next
    case False
    with 1 2 show ?thesis by auto
  qed
qed

lemma moves_map:
  assumes "moves E P f c A K t t'" "\<And>s v. g (s\<lparr>src_last_event := v\<rparr>) = g s"
  shows "map g t' = map g t"
proof -
  have "list_all2 (\<lambda>s s'. g s' = g s) t t'"
    using assms(1) unfolding moves_def by (rule list_all2_mono) (auto simp: moved_def assms(2) split: if_splits)
  then show ?thesis by (induction t t' rule: list_all2_induct) simp_all
qed

text \<open>A row outside the set is still there.\<close>

lemma moves_keeps: "moves E P f c A K t t' \<Longrightarrow> s \<in> set t \<Longrightarrow> src_id s \<notin> A \<Longrightarrow> s \<in> set t'"
  unfolding moves_def by (induction t t' rule: list_all2_induct) auto

lemma rss_entries_filter:
  "rss_entries since ps = filter (\<lambda>p. case since of None \<Rightarrow> True | Some m \<Rightarrow> m \<le> sp_occurred p) ps"
  by (induction ps) (auto split: option.split)

lemma polled_newest_max: "polled_newest m ps = Max (insert m (sp_occurred ` set ps))"
proof (induction ps rule: rev_induct)
  case (snoc p ps)
  have "insert m (sp_occurred ` set (ps @ [p])) = insert (sp_occurred p) (insert m (sp_occurred ` set ps))" by auto
  then have "Max (insert m (sp_occurred ` set (ps @ [p]))) = max (sp_occurred p) (Max (insert m (sp_occurred ` set ps)))" by simp
  moreover have "polled_newest m (ps @ [p]) = max (sp_occurred p) (polled_newest m ps)" by (simp add: polled_newest_def max_def)
  ultimately show ?case using snoc by simp
qed (simp add: polled_newest_def)

lemma polled_newest_moved:
  assumes "polled_newest m ps \<noteq> m"
  shows "m < polled_newest m ps \<and> polled_newest m ps = Max (sp_occurred ` set ps)"
proof (cases "ps = []")
  case False
  then have "Max (insert m (sp_occurred ` set ps)) = max m (Max (sp_occurred ` set ps))" by simp
  with assms show ?thesis by (simp add: polled_newest_max max_def split: if_splits)
qed (use assms in \<open>simp add: polled_newest_def\<close>)

lemma advance_moves:
  assumes d: "distinct (map src_id t)" "s \<in> set t" and m: "moved E P f c K s (s\<lparr>src_last_event := Some v\<rparr>)"
  shows "moves E P f c {src_id s} K t (qupdate (advance_hits a s v) (\<lambda>x. x\<lparr>src_last_event := Some v\<rparr>) t)"
proof -
  have "if src_id x \<in> {src_id s} then moved E P f c K x (if advance_hits a s v x then x\<lparr>src_last_event := Some v\<rparr> else x)
      else (if advance_hits a s v x then x\<lparr>src_last_event := Some v\<rparr> else x) = x" if "x \<in> set t" for x
  proof (cases "src_id x = src_id s")
    case True
    then have "x = s" using distinct_key_unique[OF d(1) that d(2)] by blast
    with m show ?thesis by (simp add: moved_def)
  next
    case False
    then show ?thesis by (simp add: advance_hits_def)
  qed
  then show ?thesis unfolding moves_def qupdate_def list_all2_map2 by (simp add: list_all2_same)
qed

abbreviation log_keys :: "db \<Rightarrow> (ulid \<times> string \<times> string) set" where
  "log_keys d \<equiv> item_key ` set (t_items d)"

lemma poll_source_moves:
  assumes q: "quiet P" and d: "distinct (map src_id (t_sources d))" "s \<in> set (t_sources d)"
    and spec: "parse_spec E (src_spec s) = Some spec"
  shows "moves E P f c {src_id s} (log_keys (fst (poll_source E P f c s spec k d))) (t_sources d)
    (t_sources (fst (poll_source E P f c s spec k d)))"
proof (cases "spec_kind spec \<in> set (connector_kinds E) \<and> src_last_event s \<noteq> None")
  case True
  then obtain mark where mark: "src_last_event s = Some mark" by blast
  obtain ps err where ps: "pw_fetch P spec (Some mark) (merge_dict (cc_default_field_map c) (src_field_map s)) = (ps, err)" by fastforce
  obtain d2 n where r: "record_items (fe_gen E) (feed_account f) f (display (fe_pystr E) spec) (dict_json (src_meta s)) (flushed ps err) d = Inr (d2, n)"
    using record_items_total by blast
  from record_items_frame[OF r] obtain new i where d2: "d2 = d\<lparr>t_items := t_items d @ new, next_id := next_id d + i\<rparr>"
    and keys: "poll_keys f (flushed ps err) \<subseteq> log_keys d2" by blast
  have eq: "poll_source E P f c s spec k d =
      (case err of Some e \<Rightarrow> (d2, Inl e)
       | None \<Rightarrow> (if polled_newest mark ps \<noteq> mark then fst (advance_source_watermark (feed_account f) s (polled_newest mark ps) d2) else d2,
                  Inr (length ps, n)))"
    using q True mark ps r by (simp add: poll_source_def Let_def quiet_def split: option.split)
  show ?thesis
  proof (cases "err = None \<and> polled_newest mark ps \<noteq> mark")
    case True
    have "answered E P c s ps" using spec ps mark True by (auto simp: answered_def)
    then have m: "moved E P f c (log_keys d2) s (s\<lparr>src_last_event := Some (polled_newest mark ps)\<rparr>)"
      using keys True polled_newest_moved mark by (auto simp: moved_def flushed_def)
    have "t_sources d2 = t_sources d" by (simp add: d2)
    with advance_moves[OF d m, of "feed_account f"] True show ?thesis by (simp add: eq advance_eq)
  next
    case False
    then have "t_sources (fst (poll_source E P f c s spec k d)) = t_sources d" by (auto simp: eq d2 split: option.splits)
    then show ?thesis by (simp add: moves_refl)
  qed
next
  case False
  then have "t_sources (fst (poll_source E P f c s spec k d)) = t_sources d" by (auto simp: poll_source_def)
  then show ?thesis by (simp add: moves_refl)
qed


lemma keys_subset: "set (t_items d) \<subseteq> set (t_items d') \<Longrightarrow> log_keys d \<subseteq> log_keys d'"
  by (rule image_mono)

lemma quiet_growing: "quiet P \<Longrightarrow> set K \<subseteq> set (t_items d) \<Longrightarrow> set K \<subseteq> set (t_items (pw_others P k j d))"
  by (simp add: quiet_def)

lemma poll_rest_grows: "quiet P \<Longrightarrow> set (t_items d) \<subseteq> set (t_items (fst (poll_rest E P f c ss k d t)))"
  by (rule growing.poll_rest_keeps[OF refl quiet_growing]) simp_all

text \<open>The rows still to be polled are the rows the table holds.\<close>

lemma still_there:
  assumes "moves E P f c {src_id s} K t t'" "set ss \<subseteq> set t" "src_id s \<notin> src_id ` set ss"
  shows "set ss \<subseteq> set t'"
  using moves_keeps[OF assms(1)] assms(2,3) by (metis (no_types, lifting) image_eqI singletonD subset_iff)

lemma poll_rest_moves:
  assumes q: "quiet P" and "distinct (map src_id (t_sources d))" "set ss \<subseteq> set (t_sources d)" "distinct (map src_id ss)"
  shows "moves E P f c (src_id ` set ss) (log_keys (fst (poll_rest E P f c ss k d t))) (t_sources d)
    (t_sources (fst (poll_rest E P f c ss k d t)))"
  using assms(2-)
proof (induction ss arbitrary: k d t)
  case (Cons s ss)
  let ?fin = "fst (poll_rest E P f c (s # ss) k d t)"
  show ?case
  proof (cases "pw_lease P k")
    case lease: True
    show ?thesis
    proof (cases "parse_spec E (src_spec s)")
      case None
      have "moves E P f c (src_id ` set ss) (log_keys ?fin) (t_sources d) (t_sources ?fin)"
        using Cons.IH[of d "Suc k" t] Cons.prems lease None by simp
      then show ?thesis by (rule moves_mono) auto
    next
      case (Some spec)
      obtain d1 r where p: "poll_source E P f c s spec k d = (d1, r)" by fastforce
      have m1: "moves E P f c {src_id s} (log_keys d1) (t_sources d) (t_sources d1)"
        using poll_source_moves[OF q Cons.prems(1) _ Some, of f c k] Cons.prems(2) p by simp
      have ids: "map src_id (t_sources d1) = map src_id (t_sources d)" by (rule moves_map[OF m1]) simp
      have there: "set ss \<subseteq> set (t_sources d1)" by (rule still_there[OF m1]) (use Cons.prems(2,3) in auto)
      have go: "moves E P f c (src_id ` set (s # ss)) (log_keys ?fin) (t_sources d) (t_sources ?fin)"
        if e: "?fin = fst (poll_rest E P f c ss (Suc k) d1 t')" for t'
      proof -
        have "moves E P f c (src_id ` set ss) (log_keys ?fin) (t_sources d1) (t_sources ?fin)"
          unfolding e using Cons.prems(1,3) by (intro Cons.IH there) (simp_all add: ids)
        moreover have "moves E P f c {src_id s} (log_keys ?fin) (t_sources d) (t_sources d1)"
          unfolding e by (rule moves_mono[OF m1 subset_refl keys_subset[OF poll_rest_grows[OF q]]])
        ultimately have "moves E P f c ({src_id s} \<union> src_id ` set ss) (log_keys ?fin) (t_sources d) (t_sources ?fin)"
          using Cons.prems(3) by (intro moves_trans) auto
        then show ?thesis by simp
      qed
      show ?thesis
      proof (cases r)
        case (Inl e)
        show ?thesis
        proof (cases "recoverable e")
          case True
          show ?thesis by (rule go[of t]) (simp add: lease Some p Inl True)
        next
          case False
          then have "?fin = d1" by (simp add: lease Some p Inl)
          then show ?thesis using moves_mono[OF m1] by simp
        qed
      next
        case (Inr z)
        obtain a b where z: "z = (a, b)" by (cases z)
        show ?thesis by (rule go[of "add_tally a b 1 t"]) (simp add: lease Some p Inr z)
      qed
    qed
  qed (simp add: moves_refl)
qed (simp add: moves_refl)

text \<open>One step of the scattering of a combined answer.\<close>

lemma own_entries_from_mark: "src_last_event s = Some mark \<Longrightarrow> p \<in> set (own_entries answer (s, sub)) \<Longrightarrow> mark \<le> sp_occurred p"
  by (simp add: own_entries_def)

lemma scatter_chunk_moves:
  assumes q: "quiet P" and ans: "pw_combined P (map snd chunk) (earliest_mark chunk) = (answer, None)"
    and "distinct (map src_id (t_sources d))" "set (map fst pairs) \<subseteq> set (t_sources d)" "distinct (map (src_id \<circ> fst) pairs)"
    "set pairs \<subseteq> set chunk" "\<forall>(s, sub)\<in>set pairs. parse_spec E (src_spec s) = Some (RedditSubredditSourceSpec sub) \<and> src_last_event s \<noteq> None"
  shows "moves E P f c ((src_id \<circ> fst) ` set pairs) (log_keys (fst (scatter_chunk E P f answer pairs k j d a b))) (t_sources d)
    (t_sources (fst (scatter_chunk E P f answer pairs k j d a b)))"
  using assms(3-)
proof (induction pairs arbitrary: j d a b)
  case (Cons pair pairs)
  obtain s sub where pair: "pair = (s, sub)" by (cases pair)
  let ?items = "own_entries answer (s, sub)" and ?fin = "fst (scatter_chunk E P f answer (pair # pairs) k j d a b)"
  obtain d2 n where r: "record_items (fe_gen E) (feed_account f) f (display (fe_pystr E) (RedditSubredditSourceSpec sub))
      (dict_json (src_meta s)) ?items d = Inr (d2, n)"
    using record_items_total by blast
  from record_items_frame[OF r] obtain new i where d2: "d2 = d\<lparr>t_items := t_items d @ new, next_id := next_id d + i\<rparr>"
    and keys: "poll_keys f ?items \<subseteq> log_keys d2" by blast
  obtain mark where mark: "src_last_event s = Some mark" using Cons.prems(5) pair by auto
  define d3 where "d3 = (case newest_entry ?items of None \<Rightarrow> d2
      | Some newest \<Rightarrow> if (case src_last_event s of None \<Rightarrow> True | Some mark \<Rightarrow> mark < newest)
          then fst (advance_source_watermark (feed_account f) s newest d2) else d2)"
  have e: "?fin = fst (scatter_chunk E P f answer pairs k (j + 2) d3 (a + length ?items) (b + n))"
    using q r by (simp add: pair Let_def quiet_def d3_def)
  have same: "t_sources d2 = t_sources d" "log_keys d3 = log_keys d2" by (auto simp: d2 d3_def advance_eq split: option.splits)
  have s: "s \<in> set (t_sources d)" using Cons.prems(2) pair by simp
  have m1: "moves E P f c {src_id s} (log_keys d2) (t_sources d) (t_sources d3)"
  proof (cases "newest_entry ?items")
    case None
    then show ?thesis by (simp add: d3_def same moves_refl)
  next
    case (Some newest)
    show ?thesis
    proof (cases "mark < newest")
      case True
      have "answered E P c s ?items" using Cons.prems(4,5) pair ans by (auto simp: answered_def)
      then have "moved E P f c (log_keys d2) s (s\<lparr>src_last_event := Some newest\<rparr>)"
        using keys True mark Some by (auto simp: moved_def newest_entry_def split: if_splits)
      from advance_moves[OF Cons.prems(1) s this, of "feed_account f"] Some True same(1) show ?thesis
        by (simp add: d3_def advance_eq mark)
    next
      case False
      then show ?thesis by (simp add: d3_def Some mark same moves_refl)
    qed
  qed
  have ids: "map src_id (t_sources d3) = map src_id (t_sources d)" by (rule moves_map[OF m1]) simp
  have there: "set (map fst pairs) \<subseteq> set (t_sources d3)"
    by (rule still_there[OF m1]) (use Cons.prems(2,3) pair in \<open>auto simp: image_iff\<close>)
  have "moves E P f c ((src_id \<circ> fst) ` set pairs) (log_keys ?fin) (t_sources d3) (t_sources ?fin)"
    unfolding e by (intro Cons.IH there) (use Cons.prems(1,3-) in \<open>simp_all add: ids\<close>)
  moreover have "set (t_items d3) \<subseteq> set (t_items ?fin)"
    unfolding e by (rule growing.scatter_chunk_keeps[OF refl quiet_growing[OF q]]) simp_all
  then have "log_keys d2 \<subseteq> log_keys ?fin" unfolding same(2)[symmetric] by (rule keys_subset)
  then have "moves E P f c {src_id s} (log_keys ?fin) (t_sources d) (t_sources d3)"
    by (rule moves_mono[OF m1 subset_refl])
  ultimately have "moves E P f c ({src_id s} \<union> (src_id \<circ> fst) ` set pairs) (log_keys ?fin) (t_sources d) (t_sources ?fin)"
    using Cons.prems(3) pair by (intro moves_trans) auto
  then show ?case by (simp add: pair)
qed (simp add: moves_refl)


lemma poll_chunk_moves:
  assumes q: "quiet P" and a: "distinct (map src_id (t_sources d))" "set (map fst chunk) \<subseteq> set (t_sources d)"
    "distinct (map (src_id \<circ> fst) chunk)"
    "\<forall>(s, sub)\<in>set chunk. parse_spec E (src_spec s) = Some (RedditSubredditSourceSpec sub) \<and> src_last_event s \<noteq> None"
  shows "moves E P f c ((src_id \<circ> fst) ` set chunk) (log_keys (fst (poll_chunk E P f chunk k d))) (t_sources d)
    (t_sources (fst (poll_chunk E P f chunk k d)))"
proof -
  obtain answer err where p: "pw_combined P (map snd chunk) (earliest_mark chunk) = (answer, err)" by fastforce
  show ?thesis
  proof (cases err)
    case None
    have "fst (poll_chunk E P f chunk k d) = fst (scatter_chunk E P f answer chunk k 0 d 0 0)"
      using p None by (simp add: poll_chunk_def split: prod.split sum.split)
    moreover have "moves E P f c ((src_id \<circ> fst) ` set chunk) (log_keys (fst (scatter_chunk E P f answer chunk k 0 d 0 0))) (t_sources d)
        (t_sources (fst (scatter_chunk E P f answer chunk k 0 d 0 0)))"
      by (rule scatter_chunk_moves[OF q p[unfolded None] a(1-3) subset_refl a(4)])
    ultimately show ?thesis by simp
  qed (use p in \<open>simp add: poll_chunk_def moves_refl\<close>)
qed

lemma poll_chunks_grows: "quiet P \<Longrightarrow> set (t_items d) \<subseteq> set (t_items (fst (snd (poll_chunks E P f chunks k d t))))"
  by (rule growing.poll_chunks_keeps[OF refl quiet_growing]) simp_all

lemma poll_chunks_moves:
  assumes q: "quiet P" and "distinct (map src_id (t_sources d))" "set (map fst (concat chunks)) \<subseteq> set (t_sources d)"
    "distinct (map (src_id \<circ> fst) (concat chunks))"
    "\<forall>(s, sub)\<in>set (concat chunks). parse_spec E (src_spec s) = Some (RedditSubredditSourceSpec sub) \<and> src_last_event s \<noteq> None"
  shows "moves E P f c ((src_id \<circ> fst) ` set (concat chunks)) (log_keys (fst (snd (poll_chunks E P f chunks k d t)))) (t_sources d)
    (t_sources (fst (snd (poll_chunks E P f chunks k d t))))"
  using assms(2-)
proof (induction chunks arbitrary: k d t)
  case (Cons chunk chunks)
  let ?fin = "fst (snd (poll_chunks E P f (chunk # chunks) k d t))"
  show ?case
  proof (cases "pw_lease P k")
    case lease: True
    obtain d1 r where p: "poll_chunk E P f chunk k d = (d1, r)" by fastforce
    have c: "set (map fst chunk) \<subseteq> set (t_sources d)" "distinct (map (src_id \<circ> fst) chunk)"
      "\<forall>(s, sub)\<in>set chunk. parse_spec E (src_spec s) = Some (RedditSubredditSourceSpec sub) \<and> src_last_event s \<noteq> None"
      using Cons.prems(2-) by (simp_all add: comp_def)
    have m1: "moves E P f c ((src_id \<circ> fst) ` set chunk) (log_keys d1) (t_sources d) (t_sources d1)"
      using poll_chunk_moves[OF q Cons.prems(1) c, of f c k] p by simp
    show ?thesis
    proof (cases r)
      case (Inl e)
      then have "?fin = d1" using lease p by simp
      then show ?thesis using moves_mono[OF m1, of "(src_id \<circ> fst) ` set (concat (chunk # chunks))"] by auto
    next
      case (Inr z)
      obtain x y n where z: "z = (x, y, n)" by (cases z)
      let ?rest = "poll_chunks E P f chunks (Suc k) d1 (add_tally x y n t)"
      have e: "?fin = fst (snd ?rest)" using lease p Inr z by simp
      have ids: "map src_id (t_sources d1) = map src_id (t_sources d)" by (rule moves_map[OF m1]) simp
      have disj: "(src_id \<circ> fst) ` set chunk \<inter> (src_id \<circ> fst) ` set (concat chunks) = {}"
        using Cons.prems(3) by auto
      have there: "set (map fst (concat chunks)) \<subseteq> set (t_sources d1)"
      proof
        fix s assume s: "s \<in> set (map fst (concat chunks))"
        then have "src_id s \<in> (src_id \<circ> fst) ` set (concat chunks)" by auto
        with disj have "src_id s \<notin> (src_id \<circ> fst) ` set chunk" by blast
        moreover have "set (map fst (concat chunks)) \<subseteq> set (t_sources d)" using Cons.prems(2) by simp
        with s have "s \<in> set (t_sources d)" by blast
        ultimately show "s \<in> set (t_sources d1)" using moves_keeps[OF m1] by blast
      qed
      have "moves E P f c ((src_id \<circ> fst) ` set (concat chunks)) (log_keys ?fin) (t_sources d1) (t_sources ?fin)"
        unfolding e by (intro Cons.IH there) (use Cons.prems(1,3-) in \<open>simp_all add: ids\<close>)
      moreover have "log_keys d1 \<subseteq> log_keys ?fin" unfolding e by (intro keys_subset poll_chunks_grows q)
      then have "moves E P f c ((src_id \<circ> fst) ` set chunk) (log_keys ?fin) (t_sources d) (t_sources d1)"
        by (rule moves_mono[OF m1 subset_refl])
      ultimately show ?thesis using moves_trans[OF _ _ disj] by (auto simp: image_Un)
    qed
  qed (simp add: moves_refl)
qed (simp add: moves_refl)

lemma parse_reddit_spec:
  "set (map fst (parse_reddit E seen ss)) \<subseteq> set ss \<and>
   (distinct (map src_id ss) \<longrightarrow> distinct (map (src_id \<circ> fst) (parse_reddit E seen ss))) \<and>
   (\<forall>(s, sub)\<in>set (parse_reddit E seen ss). parse_spec E (src_spec s) = Some (RedditSubredditSourceSpec sub) \<and> lower sub \<notin> set seen) \<and>
   distinct (map (lower \<circ> snd) (parse_reddit E seen ss))"
proof (induction ss arbitrary: seen)
  case (Cons s ss)
  show ?case
  proof (cases "\<exists>sub. parse_spec E (src_spec s) = Some (RedditSubredditSourceSpec sub) \<and> lower sub \<notin> set seen")
    case True
    then obtain sub where sub: "parse_spec E (src_spec s) = Some (RedditSubredditSourceSpec sub)" "lower sub \<notin> set seen" by blast
    then have e: "parse_reddit E seen (s # ss) = (s, sub) # parse_reddit E (lower sub # seen) ss" by simp
    note IH = Cons.IH[of "lower sub # seen"]
    have "src_id s \<notin> (src_id \<circ> fst) ` set (parse_reddit E (lower sub # seen) ss)" if "src_id s \<notin> src_id ` set ss"
      using IH that by (auto simp: image_iff)
    moreover have "lower sub \<notin> (lower \<circ> snd) ` set (parse_reddit E (lower sub # seen) ss)" using IH by (auto simp: image_iff)
    ultimately show ?thesis unfolding e using IH sub by (auto simp: comp_def)
  next
    case False
    then have "parse_reddit E seen (s # ss) = parse_reddit E seen ss"
      by (auto split: option.splits source_spec.splits)
    with Cons.IH[of seen] show ?thesis by auto
  qed
qed simp

lemma concat_budget_chunks: "concat (budget_chunks b cur used pairs) = cur @ pairs"
  by (induction b cur used pairs rule: budget_chunks.induct) (auto simp: Let_def)

lemma concat_url_chunks: "concat (iter_url_budget_chunks pairs) = pairs"
  by (simp add: iter_url_budget_chunks_def concat_budget_chunks)


definition shuffles :: "poll_world \<Rightarrow> bool" where
  "shuffles P \<longleftrightarrow> (\<forall>ss. mset (pw_shuffle P ss) = mset ss)"

lemma shuffled:
  assumes "shuffles P"
  shows "set (pw_shuffle P ss) = set ss" "distinct (map src_id (pw_shuffle P ss)) = distinct (map src_id ss)"
proof -
  have m: "mset (pw_shuffle P ss) = mset ss" using assms by (simp add: shuffles_def)
  then show "set (pw_shuffle P ss) = set ss" by (rule mset_eq_setD)
  have "mset (map src_id (pw_shuffle P ss)) = mset (map src_id ss)" using m by simp
  then show "distinct (map src_id (pw_shuffle P ss)) = distinct (map src_id ss)" by (rule mset_eq_imp_distinct_iff)
qed

lemma subs_and_rest:
  assumes "shuffles P" "distinct (map src_id (t_sources d))"
  shows "iter_by_kind (pw_shuffle P) (feed_account f) f kind d = Inr ss \<Longrightarrow>
      set ss = {s \<in> set (t_sources d). in_feed (feed_account f) (feed_id f) s \<and> src_kind s = kind} \<and> distinct (map src_id ss)"
    and "iter_for_poll (pw_shuffle P) (feed_account f) f [kind] d = Inr ss \<Longrightarrow>
      set ss = {s \<in> set (t_sources d). in_feed (feed_account f) (feed_id f) s \<and> src_kind s \<noteq> kind} \<and> distinct (map src_id ss)"
  using assms by (auto simp: iter_by_kind_def iter_for_poll_def feed_sources_def shuffled distinct_map_filter)

lemma poll_reddit_group_moves:
  assumes q: "quiet P" and ok: "feeds_ok E d" and ss: "set ss \<subseteq> set (t_sources d)" "distinct (map src_id ss)"
    and g: "poll_reddit_group E P f ss d = (k, d1, r)"
  shows "moves E P f c (src_id ` set ss) (log_keys d1) (t_sources d) (t_sources d1)"
proof (cases "''reddit_subreddit'' \<in> set (connector_kinds E)")
  case True
  let ?pairs = "parse_reddit E [] ss"
  note p = parse_reddit_spec[of E "[]" ss]
  have there: "set (map fst ?pairs) \<subseteq> set (t_sources d)" using p ss(1) by blast
  have d1: "d1 = fst (snd (poll_chunks E P f (iter_url_budget_chunks ?pairs) 0 d no_tally))"
    using g True by (simp add: poll_reddit_group_def)
  have marks: "src_last_event s \<noteq> None" if "(s, sub) \<in> set ?pairs" for s sub
  proof -
    have "s \<in> set (map fst ?pairs)" using that by force
    with there feeds_okD(6)[OF ok] show ?thesis by (auto simp: source_typed_def)
  qed
  have "moves E P f c ((src_id \<circ> fst) ` set ?pairs) (log_keys d1) (t_sources d) (t_sources d1)"
    unfolding d1 using poll_chunks_moves[OF q feeds_okD(2)[OF ok], of "iter_url_budget_chunks ?pairs", unfolded concat_url_chunks] there p ss(2) marks
    by fastforce
  moreover have "(src_id \<circ> fst) ` set ?pairs \<subseteq> src_id ` set ss" using p by fastforce
  ultimately show ?thesis by (rule moves_mono) simp
qed (use g in \<open>simp add: poll_reddit_group_def moves_refl\<close>)

text \<open>Over the whole sources' part of a cycle.\<close>

lemma poll_sources_moves:
  assumes q: "quiet P" and sh: "shuffles P" and ok: "feeds_ok E d"
  shows "moves E P f c (src_id ` set (feed_sources (feed_account f) f d)) (log_keys (fst (poll_sources E P f c d)))
    (t_sources d) (t_sources (fst (poll_sources E P f c d)))"
proof -
  let ?fin = "fst (poll_sources E P f c d)" and ?A = "src_id ` set (feed_sources (feed_account f) f d)"
  note ids = feeds_okD(2)[OF ok]
  have "\<exists>subs. iter_by_kind (pw_shuffle P) (feed_account f) f ''reddit_subreddit'' d = Inr subs" by (simp add: iter_by_kind_def)
  then obtain subs where subs: "iter_by_kind (pw_shuffle P) (feed_account f) f ''reddit_subreddit'' d = Inr subs" by blast
  obtain k d1 r where g: "poll_reddit_group E P f subs d = (k, d1, r)" by (metis prod_cases3)
  note s = subs_and_rest(1)[OF sh ids subs]
  have m1: "moves E P f c (src_id ` set subs) (log_keys d1) (t_sources d) (t_sources d1)"
    by (rule poll_reddit_group_moves[OF q ok _ _ g]) (use s in auto)
  have "\<exists>rest. iter_for_poll (pw_shuffle P) (feed_account f) f [''reddit_subreddit''] d1 = Inr rest" by (simp add: iter_for_poll_def)
  then obtain rest where rest: "iter_for_poll (pw_shuffle P) (feed_account f) f [''reddit_subreddit''] d1 = Inr rest" by blast
  have ids1: "map src_id (t_sources d1) = map src_id (t_sources d)" by (rule moves_map[OF m1]) simp
  note s' = subs_and_rest(2)[OF sh _ rest, unfolded ids1, OF ids]
  have meta: "map (\<lambda>s. (src_id s, in_feed (feed_account f) (feed_id f) s, src_kind s)) (t_sources d1) =
      map (\<lambda>s. (src_id s, in_feed (feed_account f) (feed_id f) s, src_kind s)) (t_sources d)"
    by (rule moves_map[OF m1]) (simp add: in_feed_def)
  have old: "\<exists>y\<in>set (t_sources d). src_id y = src_id x \<and> in_feed (feed_account f) (feed_id f) y \<and> src_kind y = src_kind x"
    if "x \<in> set rest" for x
  proof -
    have "(src_id x, True, src_kind x) \<in> set (map (\<lambda>s. (src_id s, in_feed (feed_account f) (feed_id f) s, src_kind s)) (t_sources d1))"
      using that s' by force
    then show ?thesis unfolding meta by force
  qed
  have disj: "src_id ` set subs \<inter> src_id ` set rest = {}"
  proof -
    have False if x: "x \<in> set subs" and y: "y \<in> set rest" and e: "src_id x = src_id y" for x y
    proof -
      from old[OF y] obtain z where z: "z \<in> set (t_sources d)" "src_id z = src_id y" "src_kind z = src_kind y" by blast
      have "z = x" using distinct_key_unique[OF ids z(1), of x] x s z(2) e by simp
      with x y s s' z(3) show False by auto
    qed
    then show ?thesis by blast
  qed
  have A: "src_id ` set subs \<union> src_id ` set rest \<subseteq> ?A"
  proof -
    have "src_id x \<in> ?A" if "x \<in> set rest" for x
    proof -
      from old[OF that] obtain y where "y \<in> set (feed_sources (feed_account f) f d)" "src_id y = src_id x"
        by (auto simp: feed_sources_def)
      then show ?thesis by (metis imageI)
    qed
    moreover have "src_id x \<in> ?A" if "x \<in> set subs" for x using that s by (simp add: feed_sources_def)
    ultimately show ?thesis by blast
  qed
  have go: "moves E P f c ?A (log_keys ?fin) (t_sources d) (t_sources ?fin)"
    if e: "?fin = fst (poll_rest E P f c rest k d1 t)" for t
  proof -
    have "moves E P f c (src_id ` set rest) (log_keys ?fin) (t_sources d1) (t_sources ?fin)"
      unfolding e by (rule poll_rest_moves[OF q]) (use s' ids ids1 in auto)
    moreover have "moves E P f c (src_id ` set subs) (log_keys ?fin) (t_sources d) (t_sources d1)"
      unfolding e by (rule moves_mono[OF m1 subset_refl keys_subset[OF poll_rest_grows[OF q]]])
    ultimately have "moves E P f c (src_id ` set subs \<union> src_id ` set rest) (log_keys ?fin) (t_sources d) (t_sources ?fin)"
      using moves_trans disj by blast
    then show ?thesis by (rule moves_mono[OF _ A subset_refl])
  qed
  show ?thesis
  proof (cases r)
    case (Inl e)
    show ?thesis
    proof (cases "recoverable e")
      case True
      then show ?thesis by (intro go[of no_tally]) (simp add: poll_sources_def subs g rest Inl)
    next
      case False
      then have "?fin = d1" by (simp add: poll_sources_def subs g Inl)
      then show ?thesis using moves_mono[OF m1, of ?A] A by simp
    qed
  next
    case (Inr t)
    then show ?thesis by (intro go[of t]) (simp add: poll_sources_def subs g rest)
  qed
qed


subsection \<open>One request for many subreddits\<close>

text \<open>The reference: a request of its own for every pair, one after the other.\<close>

fun poll_each ::
  "feeds_env \<Rightarrow> poll_world \<Rightarrow> feed \<Rightarrow> curated_config \<Rightarrow> reddit_pair list \<Rightarrow> nat \<Rightarrow> db \<Rightarrow> nat \<Rightarrow> nat \<Rightarrow> db \<times> (nat \<times> nat) result" where
  "poll_each E P f c [] k d a b = (d, Inr (a, b))"
| "poll_each E P f c ((s, sub) # pairs) k d a b =
     (case poll_source E P f c s (RedditSubredditSourceSpec sub) k d of
        (d', Inl e) \<Rightarrow> (d', Inl e)
      | (d', Inr (o', r)) \<Rightarrow> poll_each E P f c pairs (Suc k) d' (a + o') (b + r))"

text \<open>The site holds \<open>posts\<close>, each under a subreddit, and answers either request from them.\<close>

definition reddit_site :: "poll_world \<Rightarrow> (string \<times> source_payload) list \<Rightarrow> bool" where
  "reddit_site P posts \<longleftrightarrow>
     (\<forall>subs since. pw_combined P subs since =
        (filter (\<lambda>(tag, p). lower tag \<in> lower ` set subs \<and> (case since of None \<Rightarrow> True | Some m \<Rightarrow> m \<le> sp_occurred p)) posts, None)) \<and>
     (\<forall>sub since fm. pw_fetch P (RedditSubredditSourceSpec sub) since fm =
        (map snd (filter (\<lambda>(tag, p). lower tag = lower sub \<and> (case since of None \<Rightarrow> True | Some m \<Rightarrow> m \<le> sp_occurred p)) posts), None))"

lemma earliest_mark_le:
  assumes "(s, sub) \<in> set chunk" "src_last_event s = Some mark"
  shows "\<exists>m. earliest_mark chunk = Some m \<and> m \<le> mark"
proof -
  let ?present = "concat (map (\<lambda>(s, _). case src_last_event s of None \<Rightarrow> [] | Some m \<Rightarrow> [m]) chunk)"
  have m: "mark \<in> set ?present" using assms by force
  have "?present \<noteq> []" using m by (metis length_pos_if_in_set less_numeral_extra(3) list.size(3))
  then have "earliest_mark chunk = Some (Min (set ?present))" unfolding earliest_mark_def Let_def by (simp only: if_False)
  moreover have "Min (set ?present) \<le> mark" by (rule Min_le[OF List.finite_set m])
  ultimately show ?thesis by blast
qed

lemma own_share:
  assumes site: "reddit_site P posts" and p: "(s, sub) \<in> set chunk" and m: "src_last_event s = Some mark"
  shows "pw_fetch P (RedditSubredditSourceSpec sub) (Some mark) fm =
    (own_entries (fst (pw_combined P (map snd chunk) (earliest_mark chunk))) (s, sub), None)"
proof -
  from earliest_mark_le[OF p m] obtain e where e: "earliest_mark chunk = Some e" "e \<le> mark" by blast
  have sub: "lower sub \<in> lower ` snd ` set chunk" using p by force
  have "own_entries (filter (\<lambda>(tag, p). lower tag \<in> lower ` set (map snd chunk) \<and> e \<le> sp_occurred p) posts) (s, sub) =
      map snd (filter (\<lambda>(tag, p). lower tag = lower sub \<and> mark \<le> sp_occurred p) posts)"
    unfolding own_entries_def filter_map filter_filter using e(2)
    by (intro arg_cong[of _ _ "map snd"] filter_cong) (auto simp: sub m)
  then show ?thesis using site by (simp add: reddit_site_def e(1))
qed

text \<open>Both paths advance to the same mark, on the same condition.\<close>

lemma newest_entry_polled:
  assumes "\<forall>p\<in>set items. mark \<le> sp_occurred p"
  shows "(case newest_entry items of None \<Rightarrow> d | Some newest \<Rightarrow> if mark < newest then g newest else d) =
    (if polled_newest mark items \<noteq> mark then g (polled_newest mark items) else d)"
proof (cases "items = []")
  case False
  then have "polled_newest mark items = max mark (Max (sp_occurred ` set items))" by (simp add: polled_newest_max)
  moreover have "Max (sp_occurred ` set items) \<in> sp_occurred ` set items" using False by (intro Max_in) auto
  then have "mark \<le> Max (sp_occurred ` set items)" using assms by auto
  ultimately show ?thesis using False by (auto simp: newest_entry_def max_def)
qed (simp add: newest_entry_def polled_newest_def)

lemma scatter_is_poll_each:
  assumes q: "quiet P" and reg: "''reddit_subreddit'' \<in> set (connector_kinds E)"
    and fetch: "\<forall>(s, sub)\<in>set pairs. \<exists>mark. src_last_event s = Some mark \<and>
      (\<forall>fm. pw_fetch P (RedditSubredditSourceSpec sub) (Some mark) fm = (own_entries answer (s, sub), None))"
  shows "scatter_chunk E P f answer pairs k j d a b = poll_each E P f c pairs k' d a b"
  using fetch
proof (induction pairs arbitrary: j k' d a b)
  case (Cons pair pairs)
  obtain s sub where pair: "pair = (s, sub)" by (cases pair)
  let ?items = "own_entries answer (s, sub)"
  obtain mark where mark: "src_last_event s = Some mark"
    and fe: "\<And>fm. pw_fetch P (RedditSubredditSourceSpec sub) (Some mark) fm = (?items, None)" using Cons.prems pair by auto
  obtain d2 n where r: "record_items (fe_gen E) (feed_account f) f (display (fe_pystr E) (RedditSubredditSourceSpec sub))
      (dict_json (src_meta s)) ?items d = Inr (d2, n)"
    using record_items_total by blast
  let ?g = "\<lambda>newest. fst (advance_source_watermark (feed_account f) s newest d2)"
  let ?d3 = "if polled_newest mark ?items \<noteq> mark then ?g (polled_newest mark ?items) else d2"
  have oth: "pw_others P k j d = d" for k j d using q by (simp add: quiet_def)
  have ps: "poll_source E P f c s (RedditSubredditSourceSpec sub) k' d = (?d3, Inr (length ?items, n))"
    using q reg r by (simp add: poll_source_def mark fe flushed_def Let_def quiet_def)
  have "\<forall>p\<in>set ?items. mark \<le> sp_occurred p" using own_entries_from_mark[OF mark] by blast
  from newest_entry_polled[OF this, of d2 ?g]
  have d3: "(case newest_entry ?items of None \<Rightarrow> d2 | Some newest \<Rightarrow>
      if (case src_last_event s of None \<Rightarrow> True | Some m \<Rightarrow> m < newest) then ?g newest else d2) = ?d3"
    unfolding mark option.case .
  have "scatter_chunk E P f answer (pair # pairs) k j d a b =
      scatter_chunk E P f answer pairs k (j + 2) ?d3 (a + length ?items) (b + n)"
    unfolding pair scatter_chunk.simps Let_def oth r sum.case prod.case d3 ..
  also have "\<dots> = poll_each E P f c pairs (Suc k') ?d3 (a + length ?items) (b + n)"
    using Cons.prems by (intro Cons.IH) simp
  also have "\<dots> = poll_each E P f c (pair # pairs) k' d a b" by (simp add: pair ps)
  finally show ?case .
qed simp

subsection \<open>The budget of the URL\<close>

fun join_plus :: "string list \<Rightarrow> string" where
  "join_plus [] = ''''"
| "join_plus [x] = x"
| "join_plus (x # y # xs) = x @ ''+'' @ join_plus (y # xs)"

lemma join_plus_snoc: "length (join_plus (xs @ [x])) = length (join_plus xs) + length x + (if xs = [] then 0 else 1)"
  by (induction xs rule: join_plus.induct) auto

lemma budget_chunks_fit:
  assumes "length (join_plus (map snd cur)) \<le> used" "used \<le> budget" "cur = [] \<longrightarrow> used = 0" "\<forall>(s, sub)\<in>set pairs. length sub < budget"
  shows "\<forall>chunk\<in>set (budget_chunks budget cur used pairs). chunk \<noteq> [] \<and> length (join_plus (map snd chunk)) \<le> budget"
  using assms
proof (induction budget cur used pairs rule: budget_chunks.induct)
  case (1 budget cur used)
  then show ?case by auto
next
  case (2 budget cur used s sub pairs)
  let ?add = "length sub + (if cur = [] then 0 else 1)"
  show ?case
  proof (cases "cur \<noteq> [] \<and> budget < used + ?add")
    case True
    then have "budget_chunks budget cur used ((s, sub) # pairs) = cur # budget_chunks budget [(s, sub)] ?add pairs" by (auto simp: Let_def)
    moreover have "\<forall>chunk\<in>set (budget_chunks budget [(s, sub)] ?add pairs). chunk \<noteq> [] \<and> length (join_plus (map snd chunk)) \<le> budget"
      using "2.IH"(1)[OF refl True] "2.prems" True by auto
    ultimately show ?thesis using "2.prems" True by auto
  next
    case False
    then have "budget_chunks budget cur used ((s, sub) # pairs) = budget_chunks budget (cur @ [(s, sub)]) (used + ?add) pairs"
      by (auto simp: Let_def)
    moreover have "\<forall>chunk\<in>set (budget_chunks budget (cur @ [(s, sub)]) (used + ?add) pairs).
        chunk \<noteq> [] \<and> length (join_plus (map snd chunk)) \<le> budget"
    proof (rule "2.IH"(2)[OF refl False])
      show "length (join_plus (map snd (cur @ [(s, sub)]))) \<le> used + ?add"
        unfolding map_append list.map snd_conv join_plus_snoc map_is_Nil_conv using "2.prems"(1) by (simp only: add.assoc add_le_cancel_right)
      have "length sub < budget" using "2.prems"(4) by simp
      then show "used + ?add \<le> budget" using False "2.prems"(3) by (cases "cur = []") simp_all
    qed (use "2.prems"(4) in simp_all)
    ultimately show ?thesis by (simp only:)
  qed
qed


subsection \<open>A cycle whose connectors fail cleanly returns\<close>

text \<open>Every answer ends well or with an error the poller recovers from.\<close>

definition clean_errors :: "poll_world \<Rightarrow> bool" where
  "clean_errors P \<longleftrightarrow>
     (\<forall>spec since fm e. snd (pw_fetch P spec since fm) = Some e \<longrightarrow> recoverable e) \<and>
     (\<forall>subs since e. snd (pw_combined P subs since) = Some e \<longrightarrow> recoverable e)"

definition marked :: "source list \<Rightarrow> bool" where
  "marked ss \<longleftrightarrow> list_all (\<lambda>s. src_last_event s \<noteq> None) ss"

lemma marked_subset: "feeds_ok E d \<Longrightarrow> set ss \<subseteq> set (t_sources d) \<Longrightarrow> marked ss"
  using feeds_okD(6) by (fastforce simp: marked_def list_all_iff source_typed_def)

lemma poll_source_returns:
  assumes "clean_errors P" "src_last_event s \<noteq> None"
  shows "case snd (poll_source E P f c s spec k d) of Inl e \<Rightarrow> recoverable e | Inr _ \<Rightarrow> True"
proof (cases "spec_kind spec \<in> set (connector_kinds E)")
  case True
  obtain mark where mark: "src_last_event s = Some mark" using assms(2) by blast
  obtain ps err where ps: "pw_fetch P spec (Some mark) (merge_dict (cc_default_field_map c) (src_field_map s)) = (ps, err)" by fastforce
  obtain d2 n where r: "record_items (fe_gen E) (feed_account f) f (display (fe_pystr E) spec) (dict_json (src_meta s)) (flushed ps err)
      (pw_others P k 0 d) = Inr (d2, n)"
    using record_items_total by blast
  have "err = Some e \<Longrightarrow> recoverable e" for e using assms(1) ps by (metis clean_errors_def snd_conv)
  then show ?thesis using True mark ps r by (cases err) (simp_all add: poll_source_def Let_def)
qed (simp add: poll_source_def recoverable_def RECOVERABLE_ERRORS_def)

lemma poll_rest_returns:
  assumes "clean_errors P" "marked ss"
  shows "\<exists>t'. snd (poll_rest E P f c ss k d t) = Inr t'"
  using assms(2)
proof (induction ss arbitrary: k d t)
  case (Cons s ss)
  have s: "src_last_event s \<noteq> None" "marked ss" using Cons.prems by (simp_all add: marked_def)
  show ?case
  proof (cases "parse_spec E (src_spec s)")
    case None
    then show ?thesis using Cons.IH[OF s(2)] by simp
  next
    case (Some spec)
    obtain d' r where p: "poll_source E P f c s spec k d = (d', r)" by fastforce
    show ?thesis
    proof (cases r)
      case (Inl e)
      with poll_source_returns[OF assms(1) s(1), of E f c spec k d] p have "recoverable e" by simp
      then show ?thesis using Cons.IH[OF s(2)] Some p Inl by simp
    next
      case (Inr z)
      then show ?thesis using Cons.IH[OF s(2)] Some p by (cases z) simp
    qed
  qed
qed simp

lemma scatter_chunk_returns: "\<exists>o' n. snd (scatter_chunk E P f answer pairs k j d a b) = Inr (o', n)"
proof (induction pairs arbitrary: j d a b)
  case (Cons pair pairs)
  obtain s sub where pair: "pair = (s, sub)" by (cases pair)
  obtain d2 n where r: "record_items (fe_gen E) (feed_account f) f (display (fe_pystr E) (RedditSubredditSourceSpec sub))
      (dict_json (src_meta s)) (own_entries answer (s, sub)) (pw_others P k j d) = Inr (d2, n)"
    using record_items_total by blast
  show ?case unfolding pair scatter_chunk.simps Let_def r sum.case prod.case by (rule Cons.IH)
qed simp

lemma poll_chunk_returns:
  assumes "clean_errors P"
  shows "\<exists>o' r n. snd (poll_chunk E P f chunk k d) = Inr (o', r, n)"
proof -
  obtain answer err where p: "pw_combined P (map snd chunk) (earliest_mark chunk) = (answer, err)" by fastforce
  show ?thesis
  proof (cases err)
    case None
    obtain d' r where s: "scatter_chunk E P f answer chunk k 0 d 0 0 = (d', r)" by fastforce
    with scatter_chunk_returns[of E P f answer chunk k 0 d 0 0] obtain x y where "r = Inr (x, y)" by auto
    then show ?thesis using p None s by (simp add: poll_chunk_def)
  next
    case (Some e)
    have "snd (pw_combined P (map snd chunk) (earliest_mark chunk)) = Some e" by (simp add: p Some)
    then have "recoverable e" using assms unfolding clean_errors_def by blast
    then show ?thesis using p Some by (simp add: poll_chunk_def)
  qed
qed

lemma poll_chunks_returns:
  assumes "clean_errors P"
  shows "\<exists>t'. snd (snd (poll_chunks E P f chunks k d t)) = Inr t'"
proof (induction chunks arbitrary: k d t)
  case (Cons chunk chunks)
  obtain d' r where p: "poll_chunk E P f chunk k d = (d', r)" by fastforce
  with poll_chunk_returns[OF assms, of E f chunk k d] obtain x y z where "r = Inr (x, y, z)" by auto
  with p Cons show ?case by simp
qed simp

lemma poll_sources_returns:
  assumes clean: "clean_errors P" and sh: "shuffles P" and ok: "feeds_ok E d"
    and o': "\<And>k j d. feeds_ok E d \<Longrightarrow> feeds_ok E (pw_others P k j d)"
  shows "\<exists>d' t. poll_sources E P f c d = (d', Inr t)"
proof -
  have "\<exists>subs. iter_by_kind (pw_shuffle P) (feed_account f) f ''reddit_subreddit'' d = Inr subs" by (simp add: iter_by_kind_def)
  then obtain subs where subs: "iter_by_kind (pw_shuffle P) (feed_account f) f ''reddit_subreddit'' d = Inr subs" by blast
  obtain k d1 r where g: "poll_reddit_group E P f subs d = (k, d1, r)" by (metis prod_cases3)
  have r: "case r of Inl e \<Rightarrow> recoverable e | Inr _ \<Rightarrow> True"
  proof (cases "''reddit_subreddit'' \<in> set (connector_kinds E)")
    case True
    with g poll_chunks_returns[OF clean, of E f "iter_url_budget_chunks (parse_reddit E [] subs)" 0 d no_tally]
    show ?thesis by (auto simp: poll_reddit_group_def)
  next
    case False
    with g show ?thesis by (auto simp: poll_reddit_group_def recoverable_def RECOVERABLE_ERRORS_def)
  qed
  have ok1: "feeds_ok E d1"
  proof -
    have "feeds_ok E (fst (snd (poll_reddit_group E P f subs d)))"
      using typed.poll_chunks_keeps[OF refl o' ok] ok by (simp add: poll_reddit_group_def)
    with g show ?thesis by simp
  qed
  have "\<exists>rest. iter_for_poll (pw_shuffle P) (feed_account f) f [''reddit_subreddit''] d1 = Inr rest" by (simp add: iter_for_poll_def)
  then obtain rest where rest: "iter_for_poll (pw_shuffle P) (feed_account f) f [''reddit_subreddit''] d1 = Inr rest" by blast
  have "marked rest"
    by (rule marked_subset[OF ok1]) (use subs_and_rest(2)[OF sh feeds_okD(2)[OF ok1] rest] in blast)
  then have go: "\<exists>d' t'. poll_rest E P f c rest k d1 t = (d', Inr t')" for t
    using poll_rest_returns[OF clean, of rest E f c k d1 t] by (metis prod.collapse)
  show ?thesis using r go by (cases r) (simp_all add: poll_sources_def subs g rest)
qed

lemma update_poll_state_spec:
  assumes "\<exists>g\<in>set (t_feeds d). feed_id g = feed_id f"
  shows "update_poll_state (feed_account f) f t d = Inr (d\<lparr>t_feeds := qupdate (\<lambda>x. feed_id x = feed_id f)
    (\<lambda>x. x\<lparr>feed_last_polled := Some t, feed_next_poll := Some (t + seconds (int (feed_interval f)))\<rparr>) (t_feeds d)\<rparr>)"
proof -
  have "qcount (\<lambda>x. feed_id x = feed_id f) (t_feeds d) \<noteq> 0" using assms unfolding qcount_0_iff by blast
  then show ?thesis by (simp add: update_poll_state_def save_row_def)
qed

text \<open>The cycle after its sources: the cadence, and the prune unless nothing succeeded.\<close>

lemma poll_run_end:
  assumes c: "load_feed_config E f = Inr c" and s: "poll_sources E P f c d = (d1, Inr t)"
    and g: "\<exists>g\<in>set (t_feeds d1). feed_id g = feed_id f"
  defines "outage \<equiv> feed_sources (feed_account f) f d \<noteq> [] \<and> pt_succeeded t = 0"
  shows "\<exists>pruned items. poll_run E P f now d =
      (d1\<lparr>t_feeds := qupdate (\<lambda>x. feed_id x = feed_id f)
         (\<lambda>x. x\<lparr>feed_last_polled := Some now, feed_next_poll := Some (now + seconds (int (feed_interval f)))\<rparr>) (t_feeds d1), t_items := items\<rparr>,
       Inr \<lparr>fp_observed = pt_observed t, fp_recorded = pt_recorded t, fp_pruned = pruned\<rparr>) \<and>
     (outage \<longrightarrow> pruned = 0 \<and> items = t_items d1) \<and> set items \<subseteq> set (t_items d1)"
proof -
  let ?d2 = "d1\<lparr>t_feeds := qupdate (\<lambda>x. feed_id x = feed_id f)
         (\<lambda>x. x\<lparr>feed_last_polled := Some now, feed_next_poll := Some (now + seconds (int (feed_interval f)))\<rparr>) (t_feeds d1)\<rparr>"
  have total: "count_sources (feed_account f) f d = Inr (length (feed_sources (feed_account f) f d))" by (simp add: count_sources_def)
  have o': "outage \<longleftrightarrow> 0 < length (feed_sources (feed_account f) f d) \<and> pt_succeeded t = 0" by (simp add: outage_def)
  obtain items pruned where pr: "prune_items (fe_encode_time E) (feed_account f) f (cc_retention_days c) now ?d2 = Inr (?d2\<lparr>t_items := items\<rparr>, pruned)"
    "set items \<subseteq> set (t_items d1)" by (auto simp: prune_items_def Let_def)
  have e: "poll_run E P f now d = (if outage then (?d2, Inr \<lparr>fp_observed = pt_observed t, fp_recorded = pt_recorded t, fp_pruned = 0\<rparr>)
      else (?d2\<lparr>t_items := items\<rparr>, Inr \<lparr>fp_observed = pt_observed t, fp_recorded = pt_recorded t, fp_pruned = pruned\<rparr>))"
    unfolding poll_run_def c total s sum.case prod.case update_poll_state_spec[OF g] o' pr(1) ..
  show ?thesis
  proof (cases outage)
    case True
    then show ?thesis unfolding e by (intro exI[of _ 0] exI[of _ "t_items d1"]) simp
  next
    case False
    then show ?thesis unfolding e using pr(2) by (intro exI[of _ pruned] exI[of _ items]) simp
  qed
qed


text \<open>A full outage: no answer ends well.\<close>

definition all_fail :: "poll_world \<Rightarrow> bool" where
  "all_fail P \<longleftrightarrow>
     (\<forall>spec since fm. \<exists>e. snd (pw_fetch P spec since fm) = Some e \<and> recoverable e) \<and>
     (\<forall>subs since. \<exists>e. snd (pw_combined P subs since) = Some e \<and> recoverable e)"

lemma all_fail_clean: "all_fail P \<Longrightarrow> clean_errors P"
  unfolding all_fail_def clean_errors_def by (metis option.inject)

lemma poll_source_fails:
  assumes "all_fail P" "src_last_event s \<noteq> None"
  shows "\<exists>e. snd (poll_source E P f c s spec k d) = Inl e \<and> recoverable e"
proof (cases "spec_kind spec \<in> set (connector_kinds E)")
  case True
  obtain mark where mark: "src_last_event s = Some mark" using assms(2) by blast
  obtain e where e: "snd (pw_fetch P spec (Some mark) (merge_dict (cc_default_field_map c) (src_field_map s))) = Some e" "recoverable e"
    using assms(1) unfolding all_fail_def by blast
  then obtain ps where ps: "pw_fetch P spec (Some mark) (merge_dict (cc_default_field_map c) (src_field_map s)) = (ps, Some e)"
    by (metis prod.collapse)
  obtain d2 n where r: "record_items (fe_gen E) (feed_account f) f (display (fe_pystr E) spec) (dict_json (src_meta s)) (flushed ps (Some e))
      (pw_others P k 0 d) = Inr (d2, n)"
    using record_items_total by blast
  then show ?thesis using True mark ps r e by (simp add: poll_source_def Let_def)
qed (simp add: poll_source_def recoverable_def RECOVERABLE_ERRORS_def)

lemma poll_rest_fails:
  assumes "all_fail P" "marked ss"
  shows "snd (poll_rest E P f c ss k d t) = Inr t"
  using assms(2)
proof (induction ss arbitrary: k d)
  case (Cons s ss)
  have s: "src_last_event s \<noteq> None" "marked ss" using Cons.prems by (simp_all add: marked_def)
  show ?case
  proof (cases "parse_spec E (src_spec s)")
    case None
    then show ?thesis using Cons.IH[OF s(2)] by simp
  next
    case (Some spec)
    obtain d' r where p: "poll_source E P f c s spec k d = (d', r)" by fastforce
    with poll_source_fails[OF assms(1) s(1), of E f c spec k d] obtain e where "r = Inl e" "recoverable e" by auto
    then show ?thesis using Cons.IH[OF s(2)] Some p by simp
  qed
qed simp

lemma poll_chunks_fail:
  assumes "all_fail P"
  shows "snd (snd (poll_chunks E P f chunks k d t)) = Inr t"
proof (induction chunks arbitrary: k d)
  case (Cons chunk chunks)
  obtain e where "snd (pw_combined P (map snd chunk) (earliest_mark chunk)) = Some e" "recoverable e"
    using assms unfolding all_fail_def by blast
  then have "poll_chunk E P f chunk k d = (d, Inr (0, 0, 0))"
    by (cases "pw_combined P (map snd chunk) (earliest_mark chunk)") (simp add: poll_chunk_def)
  moreover have "add_tally 0 0 0 t = t" by (cases t) (simp add: add_tally_def)
  ultimately show ?case using Cons by simp
qed simp

lemma poll_sources_fail:
  assumes fail: "all_fail P" and sh: "shuffles P" and ok: "feeds_ok E d"
    and o': "\<And>k j d. feeds_ok E d \<Longrightarrow> feeds_ok E (pw_others P k j d)"
  shows "\<exists>d'. poll_sources E P f c d = (d', Inr no_tally)"
proof -
  have "\<exists>subs. iter_by_kind (pw_shuffle P) (feed_account f) f ''reddit_subreddit'' d = Inr subs" by (simp add: iter_by_kind_def)
  then obtain subs where subs: "iter_by_kind (pw_shuffle P) (feed_account f) f ''reddit_subreddit'' d = Inr subs" by blast
  obtain k d1 r where g: "poll_reddit_group E P f subs d = (k, d1, r)" by (metis prod_cases3)
  have ok1: "feeds_ok E d1"
  proof -
    have "feeds_ok E (fst (snd (poll_reddit_group E P f subs d)))"
      using typed.poll_chunks_keeps[OF refl o' ok] ok by (simp add: poll_reddit_group_def)
    with g show ?thesis by simp
  qed
  have "\<exists>rest. iter_for_poll (pw_shuffle P) (feed_account f) f [''reddit_subreddit''] d1 = Inr rest" by (simp add: iter_for_poll_def)
  then obtain rest where rest: "iter_for_poll (pw_shuffle P) (feed_account f) f [''reddit_subreddit''] d1 = Inr rest" by blast
  have "marked rest"
    by (rule marked_subset[OF ok1]) (use subs_and_rest(2)[OF sh feeds_okD(2)[OF ok1] rest] in blast)
  then have go: "\<exists>d'. poll_rest E P f c rest k d1 no_tally = (d', Inr no_tally)"
    using poll_rest_fails[OF fail, of rest E f c k d1 no_tally] by (metis prod.collapse)
  have "r = Inr no_tally \<or> (\<exists>e. r = Inl e \<and> recoverable e)"
  proof (cases "''reddit_subreddit'' \<in> set (connector_kinds E)")
    case True
    with g poll_chunks_fail[OF fail, of E f "iter_url_budget_chunks (parse_reddit E [] subs)" 0 d no_tally]
    show ?thesis by (auto simp: poll_reddit_group_def)
  next
    case False
    with g show ?thesis by (auto simp: poll_reddit_group_def recoverable_def RECOVERABLE_ERRORS_def)
  qed
  then show ?thesis using go by (auto simp: poll_sources_def subs g rest)
qed

subsection \<open>Writes between a poll's read and its advance\<close>

text \<open>A row that no longer holds the mark the poll read is left alone by the rest of that poll.\<close>

lemma advance_misses: "src_last_event x \<noteq> src_last_event s \<Longrightarrow> \<not> advance_hits a s v x"
  by (simp add: advance_hits_def)

lemma poll_source_last_write:
  assumes p: "poll_source E P f c s spec k d = (d', Inr (o', n))"
    and x: "x \<in> set (t_sources d')" "src_id x = src_id s"
  shows "\<exists>d2. record_items (fe_gen E) (feed_account f) f (display (fe_pystr E) spec) (dict_json (src_meta s))
        (fst (pw_fetch P spec (src_last_event s) (merge_dict (cc_default_field_map c) (src_field_map s)))) (pw_others P k 0 d) = Inr (d2, n) \<and>
      (\<exists>y\<in>set (t_sources (pw_others P k 1 d2)). src_id y = src_id s \<and>
        (x = y \<or> src_last_event y = src_last_event s \<and> (\<exists>v. x = y\<lparr>src_last_event := v\<rparr>)))"
proof -
  obtain mark where mark: "src_last_event s = Some mark" using p by (auto simp: poll_source_def split: if_splits option.splits)
  have reg: "spec_kind spec \<in> set (connector_kinds E)" using p by (auto simp: poll_source_def split: if_splits)
  obtain ps err where ps: "pw_fetch P spec (Some mark) (merge_dict (cc_default_field_map c) (src_field_map s)) = (ps, err)" by fastforce
  obtain d2 m where r: "record_items (fe_gen E) (feed_account f) f (display (fe_pystr E) spec) (dict_json (src_meta s)) (flushed ps err)
      (pw_others P k 0 d) = Inr (d2, m)"
    using record_items_total by blast
  have err: "err = None" using p mark reg ps r by (cases err) (simp_all add: poll_source_def Let_def)
  let ?d3 = "pw_others P k 1 d2"
  have d': "d' = (if polled_newest mark ps \<noteq> mark then fst (advance_source_watermark (feed_account f) s (polled_newest mark ps) ?d3) else ?d3)"
    "m = n" using p mark reg ps r err by (auto simp: poll_source_def Let_def)
  have "\<exists>y\<in>set (t_sources ?d3). src_id y = src_id s \<and>
      (x = y \<or> src_last_event y = src_last_event s \<and> (\<exists>v. x = y\<lparr>src_last_event := v\<rparr>))"
  proof (cases "polled_newest mark ps \<noteq> mark")
    case True
    let ?h = "advance_hits (feed_account f) s (polled_newest mark ps)"
    have "x \<in> set (qupdate ?h (\<lambda>x. x\<lparr>src_last_event := Some (polled_newest mark ps)\<rparr>) (t_sources ?d3))"
      using x(1) d'(1) True by (simp add: advance_eq)
    then obtain y where y: "y \<in> set (t_sources ?d3)" "x = (if ?h y then y\<lparr>src_last_event := Some (polled_newest mark ps)\<rparr> else y)"
      by (auto simp: set_qupdate)
    then have "src_id y = src_id s" using x(2) by (simp split: if_splits)
    with y advance_misses[of y s] show ?thesis by (intro bexI[OF _ y(1)]) (auto split: if_splits)
  next
    case False
    then show ?thesis using x d'(1) by auto
  qed
  with r err ps d'(2) show ?thesis by (simp add: mark flushed_def)
qed

subsection \<open>A pass\<close>

lemma poll_run_feeds:
  assumes "quiet P" "x \<in> set (t_feeds d)" "feed_id x \<noteq> feed_id f"
  shows "x \<in> set (t_feeds (fst (poll_run E P f now d)))"
proof -
  have keep: "t_feeds (fst (poll_sources E P f c d)) = t_feeds d" for c
    by (rule feed_rows.poll_sources_keeps[OF refl, where g = "\<lambda>t. t = t_feeds d"]) (use assms(1) in \<open>simp_all add: quiet_def\<close>)
  have upd: "x \<in> set (t_feeds d2)" if "update_poll_state (feed_account f) f t d1 = Inr d2" "x \<in> set (t_feeds d1)" for t d1 d2
    using that assms(3) by (auto simp: update_poll_state_def res_bind_Inr_iff save_row_def set_qupdate image_iff split: if_splits)
  have pr: "t_feeds d2 = t_feeds d1" if "prune_items enc a f n t d1 = Inr (d2, m)" for enc a n t d1 d2 m
    using that by (auto simp: prune_items_def Let_def split: if_splits)
  show ?thesis
  proof (cases "load_feed_config E f")
    case (Inr c)
    obtain total where total: "count_sources (feed_account f) f d = Inr total" by (simp add: count_sources_def)
    obtain d1 r where s: "poll_sources E P f c d = (d1, r)" by fastforce
    have x1: "x \<in> set (t_feeds d1)" using keep[of c] s assms(2) by simp
    show ?thesis
    proof (cases r)
      case (Inr t)
      show ?thesis
      proof (cases "update_poll_state (feed_account f) f now d1")
        case (Inr d2)
        have "x \<in> set (t_feeds d2)" by (rule upd[OF Inr x1])
        then show ?thesis using \<open>r = Inr t\<close> Inr s total \<open>load_feed_config E f = Inr c\<close>
          by (auto simp: poll_run_def split: sum.split dest: pr)
      qed (use Inr s total x1 \<open>load_feed_config E f = Inr c\<close> in \<open>simp add: poll_run_def\<close>)
    qed (use s total x1 Inr in \<open>simp add: poll_run_def\<close>)
  qed (use assms(2) in \<open>simp add: poll_run_def\<close>)
qed

lemma poll_pass_step:
  "\<exists>d' u'. poll_pass E W (f # fs) i d u = poll_pass E W fs (Suc i) d' u' \<and>
     d' = fst (poll_feed E (ps_world W i) f (ps_held W i) (ps_clock W i) d) \<and>
     ds_feeds u' + ds_skipped u' + ds_failed u' = Suc (ds_feeds u + ds_skipped u + ds_failed u)"
proof -
  obtain d' r where p: "poll_feed E (ps_world W i) f (ps_held W i) (ps_clock W i) d = (d', r)" by fastforce
  consider (fail) e where "r = Inl e" | (skip) "r = Inr None" | (polled) res where "r = Inr (Some res)"
    by (cases r) (blast, metis not_None_eq)
  then show ?thesis
  proof cases
    case fail
    show ?thesis unfolding poll_pass.simps p prod.case fst_conv fail sum.case
      by (intro exI[of _ d'] exI[of _ "u\<lparr>ds_failed := ds_failed u + 1\<rparr>"]) simp
  next
    case skip
    show ?thesis unfolding poll_pass.simps p prod.case fst_conv skip sum.case option.case
      by (intro exI[of _ d'] exI[of _ "u\<lparr>ds_skipped := ds_skipped u + 1\<rparr>"]) simp
  next
    case polled
    show ?thesis unfolding poll_pass.simps p prod.case fst_conv polled sum.case option.case
      by (intro exI[of _ d'] exI[of _ "u\<lparr>ds_feeds := ds_feeds u + 1, ds_observed := ds_observed u + fp_observed res,
               ds_recorded := ds_recorded u + fp_recorded res\<rparr>"]) simp
  qed
qed

lemma poll_pass_spec:
  assumes "\<And>i. quiet (ps_world W i)"
  shows "ds_feeds (snd (poll_pass E W fs i d u)) + ds_skipped (snd (poll_pass E W fs i d u)) + ds_failed (snd (poll_pass E W fs i d u)) =
      ds_feeds u + ds_skipped u + ds_failed u + length fs \<and>
    {x \<in> set (t_feeds d). feed_id x \<notin> feed_id ` set fs} \<subseteq> set (t_feeds (fst (poll_pass E W fs i d u)))"
proof (induction fs arbitrary: i d u)
  case (Cons f fs)
  from poll_pass_step[of E W f fs i d u] obtain d' u' where s: "poll_pass E W (f # fs) i d u = poll_pass E W fs (Suc i) d' u'"
    "d' = fst (poll_feed E (ps_world W i) f (ps_held W i) (ps_clock W i) d)"
    "ds_feeds u' + ds_skipped u' + ds_failed u' = Suc (ds_feeds u + ds_skipped u + ds_failed u)" by blast
  have "x \<in> set (t_feeds d')" if "x \<in> set (t_feeds d)" "feed_id x \<noteq> feed_id f" for x
    using poll_run_feeds[OF assms that, of E i "ps_clock W i"] that
    unfolding s(2) poll_feed_def by (cases "poll_run E (ps_world W i) f (ps_clock W i) d") simp
  then have "{x \<in> set (t_feeds d). feed_id x \<notin> feed_id ` set (f # fs)} \<subseteq> {x \<in> set (t_feeds d'). feed_id x \<notin> feed_id ` set fs}"
    by auto
  with Cons.IH[of "Suc i" d' u'] s(3) show ?case unfolding s(1) by auto
qed simp

end
