(* ===== verification/Feed_Properties.thy ===== *)
theory Feed_Properties
  imports Source_Laws Samples
begin

text \<open>
  The properties of the feed and source services, and a concrete deployment of their parameters on
  which the witnesses are evaluated.
\<close>

subsection \<open>A deployment\<close>

definition sample_fields :: "json \<Rightarrow> str_dict" where
  "sample_fields j = (case j of JObj fs \<Rightarrow> map (\<lambda>(k, v). (k, sample_str v)) fs | _ \<Rightarrow> [])"

definition sample_curated :: "json \<Rightarrow> curated_config option" where
  "sample_curated j =
     (case jget ''retention_days'' j of
        JInt n \<Rightarrow> Some \<lparr>cc_retention_days = n, cc_default_field_map = sample_fields (jget ''default_field_map'' j)\<rparr>
      | _ \<Rightarrow> None)"

definition sample_curated_dump :: "curated_config \<Rightarrow> json" where
  "sample_curated_dump c =
     JObj [(''retention_days'', JInt (cc_retention_days c)),
           (''default_field_map'', JObj (map (\<lambda>(k, v). (k, JStr v)) (cc_default_field_map c)))]"

definition sample_spec_shape :: "json \<Rightarrow> source_spec option" where
  "sample_spec_shape j =
     (let kind = sample_str (jget ''kind'' j)
      in if kind = ''reddit_subreddit'' then Some (RedditSubredditSourceSpec (sample_str (jget ''subreddit'' j)))
         else if kind = ''rss'' then Some (RssSourceSpec (sample_str (jget ''url'' j)) (sample_str (jget ''name'' j)))
         else None)"

definition sample_feeds :: feeds_env where
  "sample_feeds =
     \<lparr>fe_gen = sample_gen, fe_encode_time = (\<lambda>ms. replicate (nat ms) (CHR ''0'')), fe_config_shape = sample_curated,
      fe_config_dump = sample_curated_dump, fe_spec_shape = sample_spec_shape, fe_ftext = (\<lambda>_. ''0.0''),
      fe_pystr = (\<lambda>_. ''x''), fe_sha256 = id, fe_set_order = id, fe_fromiso = (\<lambda>_. None),
      fe_plugin_connectors = [], fe_block_private_ips = True\<rparr>"

lemma sample_curated_dump_back: "sample_curated (sample_curated_dump c) = Some c"
proof -
  have "map ((\<lambda>(k, v). (k, sample_str v)) \<circ> (\<lambda>(k, v). (k, JStr v))) m = m" for m
    by (induction m) (auto simp: sample_str_def)
  then show ?thesis by (cases c) (simp add: sample_curated_def sample_curated_dump_def sample_fields_def)
qed

lemma sample_feeds_ok: "feeds_env_ok sample_feeds"
  by (simp add: feeds_env_ok_def sample_feeds_def inj_sample_gen sample_curated_dump_back)
     (simp add: sample_curated_dump_def json_truthy_def)

text \<open>A feed of two subreddits and a blog, created at time 0 with retention of a week.\<close>

definition sub_input :: "string \<Rightarrow> datetime option \<Rightarrow> source_input" where
  "sub_input name mark = \<lparr>in_spec = RedditSubredditSourceSpec name, in_last_event = mark, in_meta = [], in_field_map = []\<rparr>"

definition blog_input :: source_input where
  "blog_input = \<lparr>in_spec = RssSourceSpec ''https://blog.example/feed'' ''blog'', in_last_event = None, in_meta = [(''tag'', ''b'')],
     in_field_map = []\<rparr>"

definition sample_feed_op :: feed_op where
  "sample_feed_op = CreateFeed ''acc'' ''usr'' ''news'' FEED_KIND 600
     (sample_curated_dump \<lparr>cc_retention_days = 7, cc_default_field_map = []\<rparr>) True
     [sub_input ''python'' None, sub_input ''rust'' (Some (- 5)), blog_input] True 0"

definition sample_feed_db :: db where
  "sample_feed_db = after_feed_ops sample_feeds [sample_feed_op] empty_db"

definition sample_feed :: feed where
  "sample_feed = hd (t_feeds sample_feed_db)"

lemma sample_feed_db_ok: "feeds_ok sample_feeds sample_feed_db"
proof -
  have "list_all (\<lambda>p. list_all input_ok (op_inputs p)) [sample_feed_op]"
    unfolding input_ok_def sample_feed_op_def by code_simp
  then show ?thesis unfolding sample_feed_db_def by (rule feeds_ok_ops[OF sample_feeds_ok _ feeds_ok_empty])
qed

lemma sample_feed_got: "get_feed ''acc'' (sample_gen 0) sample_feed_db = Inr sample_feed"
  by code_simp

subsection \<open>Properties\<close>

text \<open>C19: whatever sequence of feed and source calls is made, refused ones included, every feed row
  keeps an id of its own and a config that loads with its retention inside policy, and every source
  row keeps an id of its own, a spec that is the dump of a validated one under its own kind and hash,
  at most one row per spec and feed, a watermark, and an owning feed of its account.\<close>

theorem feeds_stay_typed:
  assumes "feeds_env_ok E" "list_all (\<lambda>p. list_all input_ok (op_inputs p)) ops"
  shows "feeds_ok E (after_feed_ops E ops empty_db)"
  using assms feeds_ok_empty by (rule feeds_ok_ops)

theorem feeds_stay_typed_witness:
  "feeds_ok sample_feeds (after_feed_ops sample_feeds
     [sample_feed_op, SetSources ''acc'' (sample_gen 0) [sub_input ''rust'' None] False True 9,
      SeekFeed ''acc'' (sample_gen 0) ''oldest'' False 10 10, DeleteFeed ''acc'' (sample_gen 0)] empty_db)"
  by (rule feeds_stay_typed[OF sample_feeds_ok]) (unfold input_ok_def sample_feed_op_def, code_simp)

text \<open>C6: a reconcile leaves the feed with exactly the specs of the input, one row each. A row that
  persists keeps its id, spec and watermark and takes the tags of the first input with its spec; a
  row that is added has that input's tags and starts at its mark, or at the clock when it has
  none, never in the future; a row of another feed is not touched. Added, removed and persisted
  count the specs new, gone and kept, as the dry run on the database before it announces; and
  asking again, dry, finds nothing left to do.\<close>

theorem set_sources_reconciles:
  assumes env: "feeds_env_ok E" and ok: "feeds_ok E d" and items: "list_all input_ok items"
    and g: "get_feed a i d = Inr f" and r: "set_sources E a f items False True now d = Inr (d', r)"
  shows "src_hash ` set (feed_sources a f d') = input_hashes E items \<and> distinct (map src_hash (feed_sources a f d')) \<and>
    (\<forall>s\<in>set (feed_sources a f d). src_hash s \<in> input_hashes E items \<longrightarrow>
       (\<exists>s'\<in>set (feed_sources a f d'). src_id s' = src_id s \<and> src_spec s' = src_spec s \<and> src_last_event s' = src_last_event s \<and>
          dict_eq (src_meta s') (in_meta (the (List.find (\<lambda>it. hash_spec E (in_spec it) = src_hash s) items))) \<and>
          dict_eq (src_field_map s') (in_field_map (the (List.find (\<lambda>it. hash_spec E (in_spec it) = src_hash s) items))))) \<and>
    (\<forall>s'\<in>set (feed_sources a f d'). src_hash s' \<notin> src_hash ` set (feed_sources a f d) \<longrightarrow>
       (\<exists>it m. List.find (\<lambda>it. hash_spec E (in_spec it) = src_hash s') items = Some it \<and>
          src_last_event s' = Some m \<and> m = (case in_last_event it of None \<Rightarrow> now | Some e \<Rightarrow> e) \<and> m \<le> now \<and>
          src_meta s' = in_meta it \<and> src_field_map s' = in_field_map it)) \<and>
    filter (\<lambda>s. \<not> in_feed a (feed_id f) s) (t_sources d') = filter (\<lambda>s. \<not> in_feed a (feed_id f) s) (t_sources d) \<and>
    sr_count r = card (input_hashes E items) \<and>
    sr_added r = card (input_hashes E items - src_hash ` set (feed_sources a f d)) \<and>
    sr_removed r = card (src_hash ` set (feed_sources a f d) - input_hashes E items) \<and>
    sr_persisted r = card (input_hashes E items \<inter> src_hash ` set (feed_sources a f d)) \<and>
    set_sources E a f items True acquired now' d = Inr (d, r) \<and>
    set_sources E a f items True acquired now' d' =
      Inr (d', \<lparr>sr_added = 0, sr_removed = 0, sr_persisted = sr_count r, sr_count = sr_count r\<rparr>)"
proof -
  let ?new = "by_hash E items" and ?ref = "refreshed (by_hash E items) a (feed_id f)"
  let ?in = "in_feed a (feed_id f)" and ?H = "input_hashes E items" and ?old = "feed_sources a f d"
  from r have ap: "apply_sources E a f ?new now d = Inr (d', r)"
    and c: "assert_curated a f = Inr ()" "assert_connector_registered E (map in_spec items) = Inr ()"
      "enforce_source_spec_safety E (map in_spec items) = Inr ()"
    by (auto simp: set_sources_def res_bind_Inr_iff Let_def)
  obtain ins where t: "t_sources d' = map ?ref (qdelete (\<lambda>s. ?in s \<and> src_hash s \<notin> fst ` set ?new) (t_sources d)) @ ins"
    and hs: "set (map src_hash ins) = fst ` set ?new - src_hash ` set ?old"
    and row: "\<And>s. s \<in> set ins \<Longrightarrow> ?in s \<and> source_typed E s \<and>
       (\<exists>it\<in>set items. hash_spec E (in_spec it) = src_hash s \<and> it = the (map_of ?new (src_hash s)) \<and>
          src_meta s = in_meta it \<and> src_field_map s = in_field_map it \<and>
          src_last_event s = Some (case in_last_event it of None \<Rightarrow> now | Some m \<Rightarrow> m)) \<and>
       (case src_last_event s of None \<Rightarrow> False | Some m \<Rightarrow> m \<le> now)"
    and dh: "distinct (map src_hash ins)"
    and tally: "sr_added r = length ins" "sr_count r = length ?new" "sr_removed r = card (src_hash ` set ?old - fst ` set ?new)"
      "sr_persisted r = card (fst ` set ?new \<inter> src_hash ` set ?old)"
    by (rule apply_sources_rows[OF env ok items ap]) blast
  have fs: "feed_sources a f d' = map ?ref (filter (\<lambda>s. src_hash s \<in> ?H) ?old) @ ins"
    unfolding feed_sources_def t using row
    by (auto simp: by_hash_keys qdelete_def filter_map comp_def conj_commute intro!: arg_cong[of _ _ "map ?ref"] filter_cong)
  have hashes: "src_hash ` set (feed_sources a f d') = ?H"
  proof -
    have "src_hash ` set (feed_sources a f d') = (src_hash ` set ?old \<inter> ?H) \<union> (?H - src_hash ` set ?old)"
      using hs by (auto simp: fs by_hash_keys image_Un image_image)
    then show ?thesis by blast
  qed
  have ok': "feeds_ok E d'" by (rule feeds_ok_apply_sources[OF env ok items _ _ _ ap]) (use get_feedD[OF g] in blast)+
  have kept: "\<exists>s'\<in>set (feed_sources a f d'). src_id s' = src_id s \<and> src_spec s' = src_spec s \<and> src_last_event s' = src_last_event s \<and>
      dict_eq (src_meta s') (in_meta (the (List.find (\<lambda>it. hash_spec E (in_spec it) = src_hash s) items))) \<and>
      dict_eq (src_field_map s') (in_field_map (the (List.find (\<lambda>it. hash_spec E (in_spec it) = src_hash s) items)))"
    if s: "s \<in> set ?old" "src_hash s \<in> ?H" for s
  proof (rule bexI)
    show "?ref s \<in> set (feed_sources a f d')" using s by (simp add: fs)
    show "src_id (?ref s) = src_id s \<and> src_spec (?ref s) = src_spec s \<and> src_last_event (?ref s) = src_last_event s \<and>
      dict_eq (src_meta (?ref s)) (in_meta (the (List.find (\<lambda>it. hash_spec E (in_spec it) = src_hash s) items))) \<and>
      dict_eq (src_field_map (?ref s)) (in_field_map (the (List.find (\<lambda>it. hash_spec E (in_spec it) = src_hash s) items)))"
      using refreshed_tags[OF _ s(2), of a "feed_id f"] s(1) by (simp add: feed_sources_def)
  qed
  have added: "s \<in> set ins" if "s \<in> set (feed_sources a f d')" "src_hash s \<notin> src_hash ` set ?old" for s
    using that by (auto simp: fs)
  have others: "filter (\<lambda>s. \<not> ?in s) (t_sources d') = filter (\<lambda>s. \<not> ?in s) (t_sources d)"
    using row by (simp add: t refreshed_others filter_empty_conv)
  have counts: "sr_count r = card ?H" "sr_added r = card (?H - src_hash ` set ?old)"
    "sr_removed r = card (src_hash ` set ?old - ?H)" "sr_persisted r = card (?H \<inter> src_hash ` set ?old)"
  proof -
    show "sr_added r = card (?H - src_hash ` set ?old)" using tally(1) hs dh distinct_card[OF dh] by (simp add: by_hash_keys)
  qed (use tally(2-4) in \<open>simp_all add: by_hash_keys length_by_hash\<close>)
  have announced: "set_sources E a f items True acquired now' d = Inr (d, r)"
  proof -
    have dn: "distinct (map fst ?new)"
      by (rule card_distinct) (simp add: by_hash_keys length_by_hash)
    have "length (filter (\<lambda>h. h \<notin> set (remdups (map src_hash ?old))) (map fst ?new)) = sr_added r"
      "length (filter (\<lambda>h. h \<notin> set (map fst ?new)) (remdups (map src_hash ?old))) = sr_removed r"
      "length (filter (\<lambda>h. h \<in> set (remdups (map src_hash ?old))) (map fst ?new)) = sr_persisted r"
      unfolding counts distinct_length_filter[OF dn] distinct_length_filter[OF distinct_remdups]
      by (auto simp: by_hash_keys intro!: arg_cong[of _ _ card])
    moreover have "length (map fst ?new) = sr_count r" using tally(2) by simp
    ultimately show ?thesis unfolding set_sources_def c res_bind_simps Let_def by simp
  qed
  have fresh: "\<exists>it m. List.find (\<lambda>it. hash_spec E (in_spec it) = src_hash s) items = Some it \<and>
      src_last_event s = Some m \<and> m = (case in_last_event it of None \<Rightarrow> now | Some e \<Rightarrow> e) \<and> m \<le> now \<and>
      src_meta s = in_meta it \<and> src_field_map s = in_field_map it"
    if s: "s \<in> set (feed_sources a f d')" "src_hash s \<notin> src_hash ` set ?old" for s
  proof -
    from row[OF added[OF s]] obtain it where it: "it \<in> set items" "hash_spec E (in_spec it) = src_hash s"
      "it = the (map_of ?new (src_hash s))" "src_meta s = in_meta it" "src_field_map s = in_field_map it"
      "src_last_event s = Some (case in_last_event it of None \<Rightarrow> now | Some m \<Rightarrow> m)"
      and m: "case src_last_event s of None \<Rightarrow> False | Some m \<Rightarrow> m \<le> now" by blast
    have "List.find (\<lambda>it. hash_spec E (in_spec it) = src_hash s) items \<noteq> None"
      using it(1,2) by (auto simp: find_None_iff)
    then have "List.find (\<lambda>it. hash_spec E (in_spec it) = src_hash s) items = Some it"
      using it(3) by (auto simp: by_hash_find)
    with it(4-6) m show ?thesis by auto
  qed
  show ?thesis
    using hashes hashes_of_feed_distinct[OF feeds_okD(3)[OF ok'], of a f] others counts announced settled_dry_run[OF hashes c]
    by (intro conjI ballI impI kept fresh) (assumption | simp)+
qed

theorem set_sources_reconciles_witness:
  "\<exists>d' r. set_sources sample_feeds ''acc'' sample_feed [sub_input ''rust'' None, sub_input ''go'' None] False True 9 sample_feed_db = Inr (d', r) \<and>
     sr_added r = 1 \<and> sr_removed r = 2 \<and> sr_persisted r = 1 \<and>
     set_sources sample_feeds ''acc'' sample_feed [sub_input ''rust'' None, sub_input ''go'' None] True False 11 sample_feed_db =
       Inr (sample_feed_db, r) \<and>
     src_hash ` set (feed_sources ''acc'' sample_feed d') =
       input_hashes sample_feeds [sub_input ''rust'' None, sub_input ''go'' None]"
proof -
  let ?items = "[sub_input ''rust'' None, sub_input ''go'' None]"
  let ?run = "set_sources sample_feeds ''acc'' sample_feed ?items False True 9 sample_feed_db"
  have items: "list_all input_ok ?items" unfolding input_ok_def by code_simp
  have "case ?run of Inl e \<Rightarrow> False | Inr (d', r) \<Rightarrow> sr_added r = 1 \<and> sr_removed r = 2 \<and> sr_persisted r = 1" by code_simp
  then obtain d' r where r: "?run = Inr (d', r)" "sr_added r = 1" "sr_removed r = 2" "sr_persisted r = 1"
    by (auto split: sum.splits)
  from set_sources_reconciles[OF sample_feeds_ok sample_feed_db_ok items sample_feed_got r(1)] r show ?thesis by blast
qed


text \<open>C23: a seek that is accepted leaves every source of the feed at its target, in either direction
  and also where the mark was missing, and no source of another feed moved. The target is no later
  than the clock and no earlier than the floor of what the items log still holds; the tallies count
  every source once; and the dry run reports the same numbers without moving anything.\<close>

theorem seek_reaches_target:
  assumes "load_feed_config E f = Inr c" "seek_feed E a f raw False now now' d = Inr (d', r)"
  shows "(\<forall>s\<in>set (feed_sources a f d'). src_last_event s = Some (sk_to r)) \<and>
    map src_id (feed_sources a f d') = map src_id (feed_sources a f d) \<and>
    filter (\<lambda>s. \<not> in_feed a (feed_id f) s) (t_sources d') = filter (\<lambda>s. \<not> in_feed a (feed_id f) s) (t_sources d) \<and>
    seek_floor (cc_retention_days c) now \<le> sk_to r \<and> sk_to r \<le> now' \<and>
    sk_advanced r + sk_rewound r + sk_unchanged r = sk_count r \<and> sk_count r = int (length (feed_sources a f d)) \<and>
    seek_feed E a f raw True now now' d = Inr (d, r\<lparr>sk_dry_run := True\<rparr>)"
proof -
  let ?in = "in_feed a (feed_id f)" and ?m = "\<lambda>s. s\<lparr>src_last_event := Some (sk_to r)\<rparr>"
  have qs: "?in (s\<lparr>src_last_event := t\<rparr>) = ?in s" for s t by (simp add: in_feed_def)
  from assms(2) obtain to where to: "assert_curated a f = Inr ()" "resolve_target E f raw now now' = Inr to"
    "(d', r) = seek_rows ?in to False d" by (auto simp: seek_feed_def res_bind_Inr_iff)
  note eq = seek_rows_eq[where qs = ?in and to = to and d = d, OF qs]
  have r: "sk_to r = to" and d': "t_sources d' = qupdate ?in ?m (t_sources d)"
    using to(3) unfolding eq(1) by auto
  have fs: "feed_sources a f d' = map ?m (feed_sources a f d)"
    unfolding feed_sources_def d' by (induction "t_sources d" rule: list.induct) (auto simp: in_feed_def qupdate_def filter_map comp_def intro!: map_cong filter_cong)
  have others: "filter (\<lambda>s. \<not> ?in s) (t_sources d') = filter (\<lambda>s. \<not> ?in s) (t_sources d)"
  proof -
    have "filter (\<lambda>s. \<not> ?in s) (qupdate ?in ?m t) = filter (\<lambda>s. \<not> ?in s) t" for t
      by (induction t) (auto simp: qs)
    then show ?thesis by (simp add: d')
  qed
  have dry: "seek_feed E a f raw True now now' d = Inr (d, r\<lparr>sk_dry_run := True\<rparr>)"
    using to unfolding seek_feed_def to(1,2) res_bind_simps eq(1) by simp
  have "sk_advanced r + sk_rewound r + sk_unchanged r = sk_count r \<and> sk_count r = int (length (feed_sources a f d))"
    using to(3) eq(2) unfolding eq(1) by (simp add: feed_sources_def qcount_def)
  with resolve_target_bounds[OF to(2) assms(1)] others dry r show ?thesis by (simp add: fs comp_def)
qed

theorem seek_reaches_target_witness:
  "\<exists>d' r. seek_feed sample_feeds ''acc'' sample_feed ''1d'' False (days 3) (days 3) sample_feed_db = Inr (d', r) \<and>
     sk_to r = days 2 \<and> list_all (\<lambda>s. src_last_event s = Some (days 2)) (feed_sources ''acc'' sample_feed d') \<and> sk_count r = 3"
proof -
  let ?run = "seek_feed sample_feeds ''acc'' sample_feed ''1d'' False (days 3) (days 3) sample_feed_db"
  have c: "load_feed_config sample_feeds sample_feed = Inr \<lparr>cc_retention_days = 7, cc_default_field_map = []\<rparr>" by code_simp
  have "case ?run of Inl e \<Rightarrow> False | Inr (d', r) \<Rightarrow> sk_to r = days 2 \<and> sk_count r = 3" by code_simp
  then obtain d' r where r: "?run = Inr (d', r)" "sk_to r = days 2" "sk_count r = 3" by (auto split: sum.splits)
  from seek_reaches_target[OF c r(1)] r show ?thesis by (auto simp: list_all_iff)
qed

text \<open>C27: the deepest seek is always reachable by name: \<open>oldest\<close>, and the retention window spelled
  as a number of days, both land exactly on the floor and are accepted, although the floor and the
  future check read the clock separately.\<close>

theorem oldest_seek_lands_on_floor:
  assumes "feed_ok E f" "load_feed_config E f = Inr c" "now \<le> now'"
    and "DATETIME_MIN \<le> seek_floor (cc_retention_days c) now"
  shows "resolve_target E f ''oldest'' now now' = Inr (seek_floor (cc_retention_days c) now) \<and>
    resolve_target E f (show_nat (nat (cc_retention_days c)) @ ''d'') now now' = Inr (seek_floor (cc_retention_days c) now)"
  by (rule resolve_target_floor[OF assms(2) _ assms(3,4)])
     (use assms(1,2) in \<open>auto simp: feed_ok_def RETENTION_MIN_DAYS_def\<close>)

theorem oldest_seek_lands_on_floor_witness:
  "resolve_target sample_feeds sample_feed ''oldest'' (days 30) (days 30 + 1) = Inr (days 23)"
proof -
  let ?c = "\<lparr>cc_retention_days = 7, cc_default_field_map = []\<rparr>"
  have c: "load_feed_config sample_feeds sample_feed = Inr ?c" by code_simp
  have ok: "feed_ok sample_feeds sample_feed"
    using get_feedD[OF sample_feed_got] feeds_okD(4)[OF sample_feed_db_ok] by blast
  have fl: "seek_floor (cc_retention_days ?c) (days 30) = days 23" "DATETIME_MIN \<le> days 23" by code_simp+
  show ?thesis
    using oldest_seek_lands_on_floor[OF ok c, of "days 30" "days 30 + 1"] fl by simp
qed

end
