(* ===== verification/Polling_Properties.thy ===== *)
theory Polling_Properties
  imports Polling_Laws Feed_Properties
begin

text \<open>
  The properties of the poller, with the sites their witnesses poll.
\<close>

subsection \<open>Sites\<close>

definition sub_post :: "string \<Rightarrow> string \<Rightarrow> datetime \<Rightarrow> string \<times> source_payload" where
  "sub_post tag ext t = (tag, \<lparr>sp_source = ''reddit_subreddit'', sp_external = ext, sp_occurred = t, sp_dump = JNull\<rparr>)"

definition blog_entry :: "string \<Rightarrow> datetime \<Rightarrow> source_payload" where
  "blog_entry ext t = \<lparr>sp_source = ''rss'', sp_external = ext, sp_occurred = t, sp_dump = JNull\<rparr>"

text \<open>A blog and Reddit, answering from the entries they hold.\<close>

definition site_world :: "source_payload list \<Rightarrow> (string \<times> source_payload) list \<Rightarrow> poll_world" where
  "site_world entries posts =
     \<lparr>pw_fetch = (\<lambda>spec since fm. case spec of
          RedditSubredditSourceSpec sub \<Rightarrow>
            (map snd (filter (\<lambda>(tag, p). lower tag = lower sub \<and> (case since of None \<Rightarrow> True | Some m \<Rightarrow> m \<le> sp_occurred p)) posts), None)
        | _ \<Rightarrow> (rss_entries since entries, None)),
      pw_combined = (\<lambda>subs since.
        (filter (\<lambda>(tag, p). lower tag \<in> lower ` set subs \<and> (case since of None \<Rightarrow> True | Some m \<Rightarrow> m \<le> sp_occurred p)) posts, None)),
      pw_lease = (\<lambda>_. True), pw_shuffle = id, pw_others = (\<lambda>_ _ d. d)\<rparr>"

text \<open>Nothing answers.\<close>

definition dead_world :: poll_world where
  "dead_world = (site_world [] [])\<lparr>pw_fetch := \<lambda>spec since fm. ([], Some HTTPError), pw_combined := \<lambda>subs since. ([], Some ConnectionError)\<rparr>"

lemma site_world_ok: "quiet (site_world entries posts)" "shuffles (site_world entries posts)" "clean_errors (site_world entries posts)"
  "reddit_site (site_world entries posts) posts"
  by (auto simp: quiet_def shuffles_def clean_errors_def reddit_site_def site_world_def split: source_spec.splits)

lemma dead_world_ok: "quiet dead_world" "shuffles dead_world" "all_fail dead_world"
  by (auto simp: quiet_def shuffles_def all_fail_def dead_world_def site_world_def recoverable_def RECOVERABLE_ERRORS_def)

definition sample_config :: curated_config where
  "sample_config = \<lparr>cc_retention_days = 7, cc_default_field_map = []\<rparr>"

lemma sample_config_loads: "load_feed_config sample_feeds sample_feed = Inr sample_config"
  by code_simp

subsection \<open>Properties\<close>

text \<open>A cycle leaves the feed and source tables sound whatever its connectors answer, an error that
  aborts it included: every source still belongs to a feed, parses to the spec of its kind and hash and
  carries a mark, and every feed's config still loads inside policy.\<close>

theorem cycle_keeps_feeds_sound:
  assumes "feeds_ok E d" and "\<And>k j x. feeds_ok E x \<Longrightarrow> feeds_ok E (pw_others P k j x)"
  shows "feeds_ok E (fst (poll_run E P f now d))"
proof (cases "load_feed_config E f")
  case (Inr c)
  obtain total where total: "count_sources (feed_account f) f d = Inr total" by (simp add: count_sources_def)
  obtain d1 r where s: "poll_sources E P f c d = (d1, r)" by fastforce
  have ok1: "feeds_ok E d1" using typed.poll_sources_keeps[OF refl assms(2,1), where f = f and c = c] s by simp
  show ?thesis
  proof (cases r)
    case (Inr t)
    show ?thesis
    proof (cases "update_poll_state (feed_account f) f now d1")
      case (Inr d2)
      have ok2: "feeds_ok E d2" using Inr ok1
        by (auto simp: update_poll_state_def res_bind_Inr_iff save_row_def feed_ok_def load_feed_config_def
            intro!: feeds_ok_update_feeds split: if_splits)
      have "feeds_ok E d3" if "prune_items (fe_encode_time E) (feed_account f) f (cc_retention_days c) now d2 = Inr (d3, m)" for d3 m
        using that feeds_ok_mono[OF ok2, where k = 0] by (auto simp: prune_items_def Let_def split: if_splits)
      then show ?thesis using ok2 \<open>r = Inr t\<close> Inr s total \<open>load_feed_config E f = Inr c\<close>
        by (auto simp: poll_run_def split: sum.split)
    qed (use Inr s total ok1 \<open>load_feed_config E f = Inr c\<close> in \<open>simp add: poll_run_def\<close>)
  qed (use s total ok1 Inr in \<open>simp add: poll_run_def\<close>)
qed (use assms(1) in \<open>simp add: poll_run_def\<close>)

theorem cycle_keeps_feeds_sound_witness:
  "feeds_ok sample_feeds (fst (poll_run sample_feeds dead_world sample_feed 50 sample_feed_db))"
  using dead_world_ok(1) by (intro cycle_keeps_feeds_sound sample_feed_db_ok) (simp add: quiet_def)

text \<open>C4: over the sources' part of a cycle, however it ends, no source row appears, disappears or changes
  but for its mark, no row of another feed changes at all, and a mark that changed moved forward to the
  newest entry of an answer that ended well, all of whose entries are by then in the items log. So a mark
  never passes an entry that was fetched and not recorded, and a failed request moves no mark.\<close>

theorem marks_move_over_recorded:
  assumes "quiet P" "shuffles P" "feeds_ok E d" "poll_sources E P f c d = (d', r)"
  shows "moves E P f c (src_id ` set (feed_sources (feed_account f) f d)) (log_keys d') (t_sources d) (t_sources d')"
  using poll_sources_moves[OF assms(1-3), of f c] assms(4) by simp

theorem marks_move_over_recorded_witness:
  "\<exists>d' r. poll_sources sample_feeds (site_world [blog_entry ''b1'' 4] [sub_post ''Python'' ''p1'' 3, sub_post ''rust'' ''r1'' 2])
       sample_feed sample_config sample_feed_db = (d', r) \<and>
     map src_last_event (t_sources d') = [Some 3, Some 2, Some 4] \<and>
     moves sample_feeds (site_world [blog_entry ''b1'' 4] [sub_post ''Python'' ''p1'' 3, sub_post ''rust'' ''r1'' 2])
       sample_feed sample_config (src_id ` set (feed_sources (feed_account sample_feed) sample_feed sample_feed_db)) (log_keys d')
       (t_sources sample_feed_db) (t_sources d')"
proof -
  let ?P = "site_world [blog_entry ''b1'' 4] [sub_post ''Python'' ''p1'' 3, sub_post ''rust'' ''r1'' 2]"
  obtain d' r where p: "poll_sources sample_feeds ?P sample_feed sample_config sample_feed_db = (d', r)" by fastforce
  have "map src_last_event (t_sources (fst (poll_sources sample_feeds ?P sample_feed sample_config sample_feed_db))) = [Some 3, Some 2, Some 4]"
    by code_simp
  with marks_move_over_recorded[OF site_world_ok(1,2) sample_feed_db_ok p] p show ?thesis by auto
qed

text \<open>C20: a seek that lands while a poll of the source is in flight wins: the poll has read the row and
  recorded what it fetched, the seek moves the mark, and the poll's own advance finds the row changed and
  leaves it at the seek's target.\<close>

theorem seek_survives_poll:
  assumes "poll_source E P f c s spec k d = (d', Inr (o', n))"
    and "\<And>x. pw_others P k 1 x = fst (seek_rows qs to False x)" "\<And>x t. qs (x\<lparr>src_last_event := t\<rparr>) = qs x"
    and "src_last_event s \<noteq> Some to" "x \<in> set (t_sources d')" "src_id x = src_id s" "qs x"
  shows "src_last_event x = Some to"
proof -
  from poll_source_last_write[OF assms(1,5,6)] obtain d2 y where y: "y \<in> set (t_sources (pw_others P k 1 d2))"
    "x = y \<or> src_last_event y = src_last_event s \<and> (\<exists>v. x = y\<lparr>src_last_event := v\<rparr>)" by blast
  have "qs y" using y(2) assms(3,7) by auto
  have "t_sources (pw_others P k 1 d2) = qupdate qs (\<lambda>s. s\<lparr>src_last_event := Some to\<rparr>) (t_sources d2)"
    unfolding assms(2) seek_rows_eq(1)[OF assms(3)] by simp
  with y(1) have "y \<in> (\<lambda>z. if qs z then z\<lparr>src_last_event := Some to\<rparr> else z) ` set (t_sources d2)" by (simp only: set_qupdate)
  then obtain z where z: "y = (if qs z then z\<lparr>src_last_event := Some to\<rparr> else z)" by blast
  then have "src_last_event y = Some to" using \<open>qs y\<close> assms(3) by (auto split: if_splits)
  with y(2) assms(4) show ?thesis by auto
qed

text \<open>The source of the samples that is the blog.\<close>

definition blog_source :: source where
  "blog_source = the (List.find (\<lambda>s. src_kind s = ''rss'') (t_sources sample_feed_db))"

definition blog_spec :: source_spec where
  "blog_spec = RssSourceSpec ''https://blog.example/feed'' ''blog''"

definition seeking_world :: poll_world where
  "seeking_world = (site_world [blog_entry ''b1'' 4] [])\<lparr>pw_others := \<lambda>k j d.
     if j = 1 then fst (seek_rows (in_feed ''acc'' (sample_gen 0)) (- 9) False d) else d\<rparr>"

theorem seek_survives_poll_witness:
  "case poll_source sample_feeds seeking_world sample_feed sample_config blog_source (RssSourceSpec ''https://blog.example/feed'' ''blog'') 0
       sample_feed_db of (d', r) \<Rightarrow> r = Inr (1, 1) \<and> list_all (\<lambda>x. src_last_event x = Some (- 9)) (t_sources d')"
proof -
  let ?run = "poll_source sample_feeds seeking_world sample_feed sample_config blog_source (RssSourceSpec ''https://blog.example/feed'' ''blog'') 0 sample_feed_db"
  obtain d' r where p: "?run = (d', r)" by fastforce
  have 1: "snd ?run = Inr (1, 1)" by code_simp
  have 2: "list_all (\<lambda>x. src_id x \<noteq> src_id blog_source \<longrightarrow> src_last_event x = Some (- 9)) (t_sources (fst ?run))" by code_simp
  have 3: "list_all (in_feed ''acc'' (sample_gen 0)) (t_sources (fst ?run))" by code_simp
  have "src_last_event blog_source = Some 0" by code_simp
  with p 1 2 3 have r: "r = Inr (1, 1)" "\<And>x. x \<in> set (t_sources d') \<Longrightarrow> src_id x \<noteq> src_id blog_source \<Longrightarrow> src_last_event x = Some (- 9)"
    "\<And>x. x \<in> set (t_sources d') \<Longrightarrow> in_feed ''acc'' (sample_gen 0) x" and b: "src_last_event blog_source \<noteq> Some (- 9)"
    by (auto simp: list_all_iff)
  have seeks: "pw_others seeking_world 0 1 x = fst (seek_rows (in_feed ''acc'' (sample_gen 0)) (- 9) False x)" for x
    by (simp add: seeking_world_def)
  have frame: "in_feed ''acc'' (sample_gen 0) (x\<lparr>src_last_event := t\<rparr>) = in_feed ''acc'' (sample_gen 0) x" for x t
    by (simp add: in_feed_def)
  have "src_last_event x = Some (- 9)" if x: "x \<in> set (t_sources d')" for x
  proof (cases "src_id x = src_id blog_source")
    case True
    from seek_survives_poll[OF p[unfolded r(1)] seeks frame b x True r(3)[OF x]] show ?thesis .
  qed (use r(2) x in blast)
  with p r(1) show ?thesis by (simp add: list_all_iff)
qed


text \<open>C5: polling many subreddits through one combined request is polling each by itself: when the site
  answers both from the same posts, a chunk ends in the same database, with the same counts, as one request
  per source made in turn, each from its own mark, although the combined request reads from the earliest
  mark of the chunk.\<close>

theorem combined_poll_is_single_polls:
  assumes "quiet P" "reddit_site P posts" "\<forall>pair\<in>set chunk. src_last_event (fst pair) \<noteq> None"
  shows "poll_chunk E P f chunk k d =
    (case poll_each E P f c chunk k' d 0 0 of (d', r) \<Rightarrow> (d', map_sum id (\<lambda>(o', n). (o', n, length chunk)) r))"
proof -
  let ?answer = "fst (pw_combined P (map snd chunk) (earliest_mark chunk))"
  have reg: "''reddit_subreddit'' \<in> set (connector_kinds E)" by (simp add: connector_kinds_def BUILTIN_SOURCE_KINDS_def)
  have ans: "pw_combined P (map snd chunk) (earliest_mark chunk) = (?answer, None)"
    using assms(2) by (simp add: reddit_site_def)
  have "\<forall>(s, sub)\<in>set chunk. \<exists>mark. src_last_event s = Some mark \<and>
      (\<forall>fm. pw_fetch P (RedditSubredditSourceSpec sub) (Some mark) fm = (own_entries ?answer (s, sub), None))"
    using own_share[OF assms(2)] assms(3) by fastforce
  from scatter_is_poll_each[OF assms(1) reg this, of f k 0 d 0 0 c k']
  have "scatter_chunk E P f ?answer chunk k 0 d 0 0 = poll_each E P f c chunk k' d 0 0" .
  then show ?thesis by (subst poll_chunk_def, subst ans) (auto split: prod.split sum.split)
qed

theorem combined_poll_is_single_polls_witness:
  "let chunk = map (\<lambda>s. (s, if src_last_event s = Some 0 then ''python'' else ''rust''))
         (filter (\<lambda>s. src_kind s = ''reddit_subreddit'') (t_sources sample_feed_db));
       P = site_world [] [sub_post ''Python'' ''p1'' 3, sub_post ''Python'' ''p0'' (- 2), sub_post ''rust'' ''r1'' (- 3), sub_post ''go'' ''g'' 1]
   in earliest_mark chunk = Some (- 5) \<and> snd (poll_chunk sample_feeds P sample_feed chunk 0 sample_feed_db) = Inr (2, 2, 2) \<and>
      fst (poll_chunk sample_feeds P sample_feed chunk 0 sample_feed_db) =
      fst (poll_each sample_feeds P sample_feed sample_config chunk 0 sample_feed_db 0 0)"
proof -
  let ?chunk = "map (\<lambda>s. (s, if src_last_event s = Some 0 then ''python'' else ''rust''))
         (filter (\<lambda>s. src_kind s = ''reddit_subreddit'') (t_sources sample_feed_db))"
  let ?posts = "[sub_post ''Python'' ''p1'' 3, sub_post ''Python'' ''p0'' (- 2), sub_post ''rust'' ''r1'' (- 3), sub_post ''go'' ''g'' 1]"
  have m: "\<forall>pair\<in>set ?chunk. src_last_event (fst pair) \<noteq> None"
    using feeds_okD(6)[OF sample_feed_db_ok] by (auto simp: source_typed_def)
  have "earliest_mark ?chunk = Some (- 5)" by code_simp
  moreover have "snd (poll_chunk sample_feeds (site_world [] ?posts) sample_feed ?chunk 0 sample_feed_db) = Inr (2, 2, 2)" by code_simp
  moreover have "fst (poll_chunk sample_feeds (site_world [] ?posts) sample_feed ?chunk 0 sample_feed_db) =
      fst (poll_each sample_feeds (site_world [] ?posts) sample_feed sample_config ?chunk 0 sample_feed_db 0 0)"
    using combined_poll_is_single_polls[OF site_world_ok(1)[of "[]" ?posts] site_world_ok(4)[of "[]" ?posts] m,
        where E = sample_feeds and f = sample_feed and k = 0 and d = sample_feed_db and c = sample_config and k' = 0]
    by (simp split: prod.split)
  ultimately show ?thesis unfolding Let_def by blast
qed

lemma parsed_sub_short: "parse_spec E j = Some (RedditSubredditSourceSpec sub) \<Longrightarrow> length sub \<le> MAX_SUBREDDIT_LENGTH"
proof -
  assume "parse_spec E j = Some (RedditSubredditSourceSpec sub)"
  then obtain r where "validate_spec r = Some (RedditSubredditSourceSpec sub)" by (auto simp: parse_spec_def split: option.splits)
  then obtain a where "validate_subreddit a = Some sub" by (cases r) (auto split: if_splits)
  then show ?thesis by (auto simp: validate_subreddit_def Let_def lower_def split: if_splits)
qed

text \<open>C24: the subreddits of a feed are packed into requests without losing, repeating or reordering one:
  every request names at least one subreddit and its URL stays within the bytes Reddit accepts, and no
  subreddit is asked for twice, even when two rows spell it differently.\<close>

theorem combined_requests_fit:
  "concat (iter_url_budget_chunks (parse_reddit E [] ss)) = parse_reddit E [] ss \<and>
   list_all (\<lambda>chunk. chunk \<noteq> [] \<and> COMBINED_URL_OVERHEAD + length (join_plus (map snd chunk)) \<le> MAX_COMBINED_URL_BYTES)
     (iter_url_budget_chunks (parse_reddit E [] ss)) \<and>
   distinct (map (lower \<circ> snd) (parse_reddit E [] ss))"
proof -
  let ?b = "MAX_COMBINED_URL_BYTES - COMBINED_URL_OVERHEAD"
  note p = parse_reddit_spec[of E "[]" ss]
  have "length sub < ?b" if "(s, sub) \<in> set (parse_reddit E [] ss)" for s sub
  proof -
    have "length sub \<le> MAX_SUBREDDIT_LENGTH" using p that parsed_sub_short by blast
    then show ?thesis by (simp add: MAX_SUBREDDIT_LENGTH_def MAX_COMBINED_URL_BYTES_def COMBINED_URL_OVERHEAD_def)
  qed
  then have "\<forall>chunk\<in>set (iter_url_budget_chunks (parse_reddit E [] ss)). chunk \<noteq> [] \<and> length (join_plus (map snd chunk)) \<le> ?b"
    unfolding iter_url_budget_chunks_def by (intro budget_chunks_fit) auto
  then show ?thesis using p concat_url_chunks
    by (auto simp: list_all_iff MAX_COMBINED_URL_BYTES_def COMBINED_URL_OVERHEAD_def)
qed

text \<open>C22: a cycle returns whenever its connectors end well or with an error the poller recovers from, one
  bad source or all of them: the feed's next poll is then set to exactly one interval after the cycle
  started, so an active feed is due again from that time on and not before, whatever others write
  meanwhile, as long as they keep the feed and the table sound.\<close>

theorem poll_returns_and_reschedules:
  assumes "clean_errors P" "shuffles P" "feeds_ok E d" "f \<in> set (t_feeds d)"
    and "\<And>k j x. feeds_ok E x \<Longrightarrow> feeds_ok E (pw_others P k j x)"
    and "\<And>k j x. feed_id f \<in> feed_id ` set (t_feeds x) \<Longrightarrow> feed_id f \<in> feed_id ` set (t_feeds (pw_others P k j x))"
  shows "\<exists>d' res. poll_run E P f now d = (d', Inr res) \<and>
    (\<exists>g\<in>set (t_feeds d'). feed_id g = feed_id f) \<and>
    (\<forall>g\<in>set (t_feeds d'). feed_id g = feed_id f \<longrightarrow>
       feed_last_polled g = Some now \<and> feed_next_poll g = Some (now + seconds (int (feed_interval f))) \<and>
       (\<forall>t. due_for_poll t g \<longleftrightarrow> feed_active g \<and> now + seconds (int (feed_interval f)) \<le> t))"
proof -
  from feeds_okD(4)[OF assms(3,4)] obtain c where c: "load_feed_config E f = Inr c" by (auto simp: feed_ok_def)
  from poll_sources_returns[OF assms(1-3,5)] obtain d1 t where s: "poll_sources E P f c d = (d1, Inr t)" by blast
  have "feed_id f \<in> feed_id ` set (t_feeds (fst (poll_sources E P f c d)))"
    by (rule feed_rows.poll_sources_keeps[OF refl, where g = "\<lambda>t. feed_id f \<in> feed_id ` set t"]) (use assms(4,6) in auto)
  then have g: "\<exists>g\<in>set (t_feeds d1). feed_id g = feed_id f" using s by auto
  let ?hit = "\<lambda>x. feed_id x = feed_id f"
  let ?set = "\<lambda>x. x\<lparr>feed_last_polled := Some now, feed_next_poll := Some (now + seconds (int (feed_interval f)))\<rparr>"
  from poll_run_end[OF c s g, of now] obtain d' res where r: "poll_run E P f now d = (d', Inr res)"
    "t_feeds d' = qupdate ?hit ?set (t_feeds d1)" by fastforce
  have rows: "x \<in> set (t_feeds d') \<longleftrightarrow> (\<exists>y\<in>set (t_feeds d1). x = (if ?hit y then ?set y else y))" for x
    unfolding r(2) set_qupdate by blast
  from g obtain y where "y \<in> set (t_feeds d1)" "?hit y" by blast
  then have "?set y \<in> set (t_feeds d')" unfolding rows by (intro bexI[of _ y]) simp_all
  then have "\<exists>g\<in>set (t_feeds d'). ?hit g" using \<open>?hit y\<close> by (intro bexI[of _ "?set y"]) simp_all
  moreover have "feed_last_polled x = Some now \<and> feed_next_poll x = Some (now + seconds (int (feed_interval f))) \<and>
      (\<forall>t. due_for_poll t x \<longleftrightarrow> feed_active x \<and> now + seconds (int (feed_interval f)) \<le> t)"
    if "x \<in> set (t_feeds d')" "?hit x" for x
  proof -
    from that obtain z where "x = ?set z" unfolding rows by (auto split: if_splits)
    then show ?thesis by (simp add: due_for_poll_def)
  qed
  ultimately show ?thesis using r(1) by blast
qed

theorem poll_returns_and_reschedules_witness:
  "\<exists>d' res. poll_run sample_feeds dead_world sample_feed 50 sample_feed_db = (d', Inr res) \<and>
     list_all (\<lambda>g. feed_last_polled g = Some 50 \<and> \<not> due_for_poll (seconds 600) g \<and> due_for_poll (seconds 600 + 50) g) (t_feeds d')"
proof -
  have "sample_feed \<in> set (t_feeds sample_feed_db)" using get_feedD[OF sample_feed_got] by simp
  from poll_returns_and_reschedules[OF all_fail_clean[OF dead_world_ok(3)] dead_world_ok(2) sample_feed_db_ok this, of 50]
  obtain d' res where r: "poll_run sample_feeds dead_world sample_feed 50 sample_feed_db = (d', Inr res)"
    using dead_world_ok(1) by (auto simp: quiet_def)
  have "list_all (\<lambda>g. feed_last_polled g = Some 50 \<and> \<not> due_for_poll (seconds 600) g \<and> due_for_poll (seconds 600 + 50) g)
      (t_feeds (fst (poll_run sample_feeds dead_world sample_feed 50 sample_feed_db)))" by code_simp
  with r show ?thesis by auto
qed

text \<open>C21: a cycle in which every request of a feed with sources fails prunes nothing, so an outage longer
  than the retention does not empty the log under the watches: every item is still there, and the cycle
  reports that it saw, recorded and pruned nothing.\<close>

theorem outage_prunes_nothing:
  assumes "all_fail P" "shuffles P" "feeds_ok E d" "f \<in> set (t_feeds d)" "feed_sources (feed_account f) f d \<noteq> []"
    and "\<And>k j x. feeds_ok E x \<Longrightarrow> feeds_ok E (pw_others P k j x)"
    and "\<And>k j x. feed_id f \<in> feed_id ` set (t_feeds x) \<Longrightarrow> feed_id f \<in> feed_id ` set (t_feeds (pw_others P k j x))"
    and "\<And>k j x. set (t_items d) \<subseteq> set (t_items x) \<Longrightarrow> set (t_items d) \<subseteq> set (t_items (pw_others P k j x))"
  shows "\<exists>d'. poll_run E P f now d = (d', Inr \<lparr>fp_observed = 0, fp_recorded = 0, fp_pruned = 0\<rparr>) \<and>
    set (t_items d) \<subseteq> set (t_items d')"
proof -
  from feeds_okD(4)[OF assms(3,4)] obtain c where c: "load_feed_config E f = Inr c" by (auto simp: feed_ok_def)
  from poll_sources_fail[OF assms(1-3,6)] obtain d1 where s: "poll_sources E P f c d = (d1, Inr no_tally)" by blast
  have "feed_id f \<in> feed_id ` set (t_feeds (fst (poll_sources E P f c d)))"
    by (rule feed_rows.poll_sources_keeps[OF refl, where g = "\<lambda>t. feed_id f \<in> feed_id ` set t"]) (use assms(4,7) in auto)
  then have g: "\<exists>g\<in>set (t_feeds d1). feed_id g = feed_id f" using s by auto
  have "set (t_items d) \<subseteq> set (t_items (fst (poll_sources E P f c d)))"
    by (rule growing.poll_sources_keeps[OF refl, where K = "t_items d"]) (use assms(8) in auto)
  with poll_run_end[OF c s g, of now] assms(5) s show ?thesis by (auto simp: no_tally_def)
qed

theorem outage_prunes_nothing_witness:
  "\<exists>d'. poll_run sample_feeds dead_world sample_feed (days 400) sample_feed_db = (d', Inr \<lparr>fp_observed = 0, fp_recorded = 0, fp_pruned = 0\<rparr>)"
proof -
  have f: "sample_feed \<in> set (t_feeds sample_feed_db)" using get_feedD[OF sample_feed_got] by simp
  have "length (feed_sources (feed_account sample_feed) sample_feed sample_feed_db) = 3" by code_simp
  then have "feed_sources (feed_account sample_feed) sample_feed sample_feed_db \<noteq> []" by auto
  from outage_prunes_nothing[OF dead_world_ok(3,2) sample_feed_db_ok f this, of "days 400"] dead_world_ok(1)
  show ?thesis by (auto simp: quiet_def)
qed


text \<open>C25: a seek never asks again for what retention has deleted, as long as the retention has not been
  raised since the prune. An item whose id was minted no earlier than its event, and which a prune deletes,
  is older than every target a later seek is given, so an RSS fetch that starts from the seeked mark drops
  its entry. The two cases in which a pruned item can come back are outside of this: a retention raised
  between the prune and the seek, and a prune that runs after the seek and before the source's next
  successful fetch.\<close>

theorem pruned_item_stays_behind_the_floor:
  assumes "\<And>x y. x \<le> y \<Longrightarrow> min_ulid_at (fe_encode_time E) x \<le> min_ulid_at (fe_encode_time E) y"
    and "min_ulid_at (fe_encode_time E) created \<le> item_id i" "item_occurred i = Some t" "t \<le> created"
    and "prune_items (fe_encode_time E) (feed_account f) f retention started d = Inr (d', n)"
    and "i \<in> set (t_items d)" "i \<notin> set (t_items d')"
    and "load_feed_config E g = Inr c" "cc_retention_days c \<le> retention"
    and "resolve_target E g raw now now' = Inr to" "started \<le> now"
  shows "t < to \<and> list_all (\<lambda>p. sp_occurred p \<noteq> t) (rss_entries (Some to) entries)"
proof -
  let ?line = "started - days retention"
  have "item_id i < min_ulid_at (fe_encode_time E) ?line"
    using assms(5-7) by (auto simp: prune_items_def Let_def qdelete_def)
  with assms(2) have "min_ulid_at (fe_encode_time E) created < min_ulid_at (fe_encode_time E) ?line" by (rule le_less_trans)
  with assms(1)[of ?line created] have "created < ?line" by (meson not_le)
  moreover have "seek_floor (cc_retention_days c) now \<le> to" using resolve_target_bounds[OF assms(10,8)] by blast
  then have "?line \<le> to" using assms(9,11) by (simp add: seek_floor_def days_def seconds_def)
  ultimately have "t < to" using assms(4) by linarith
  then show ?thesis by (auto simp: list_all_iff rss_entries_filter)
qed

definition old_item :: item where
  "old_item = new_item ''acc'' (sample_gen 0) ''blog'' (JObj []) (min_ulid_at (fe_encode_time sample_feeds) 2000) (blog_entry ''b1'' 1500)"

theorem pruned_item_stays_behind_the_floor_witness:
  "t_items (fst (projr (prune_items (fe_encode_time sample_feeds) ''acc'' sample_feed 7 (days 7 + 5000) (sample_feed_db\<lparr>t_items := [old_item]\<rparr>)))) = [] \<and>
   item_occurred old_item = Some 1500 \<and>
   (\<exists>to. resolve_target sample_feeds sample_feed ''oldest'' (days 7 + 5000) (days 8) = Inr to \<and> 1500 < to \<and>
      list_all (\<lambda>p. sp_occurred p \<noteq> 1500) (rss_entries (Some to) [blog_entry ''b1'' 1500, blog_entry ''b2'' (days 2)]))"
proof -
  let ?d = "sample_feed_db\<lparr>t_items := [old_item]\<rparr>"
  let ?p = "prune_items (fe_encode_time sample_feeds) (feed_account sample_feed) sample_feed (cc_retention_days sample_config) (days 7 + 5000) ?d"
  have mono: "min_ulid_at (fe_encode_time sample_feeds) x \<le> min_ulid_at (fe_encode_time sample_feeds) y" if "x \<le> y" for x y
  proof -
    have "nat (x div 1000) \<le> nat (y div 1000)" using that by (intro nat_mono zdiv_mono1) simp_all
    moreover have "replicate a (CHR ''0'') \<le> replicate b (CHR ''0'')" if "a \<le> b" for a b
      using that by (induction a arbitrary: b) (simp, metis Suc_le_D Cons_le_Cons order_refl replicate_Suc Suc_le_mono)
    ultimately show ?thesis by (simp add: min_ulid_at_def sample_feeds_def replicate_add[symmetric])
  qed
  have id: "item_id old_item = min_ulid_at (fe_encode_time sample_feeds) 2000" "item_occurred old_item = Some 1500" by code_simp+
  have "case ?p of Inl e \<Rightarrow> False | Inr (d', n) \<Rightarrow> t_items d' = []" by code_simp
  then obtain d' n where p: "?p = Inr (d', n)" "t_items d' = []" by (auto split: sum.splits)
  have "case resolve_target sample_feeds sample_feed ''oldest'' (days 7 + 5000) (days 8) of Inl e \<Rightarrow> False | Inr to \<Rightarrow> True" by code_simp
  then obtain to where to: "resolve_target sample_feeds sample_feed ''oldest'' (days 7 + 5000) (days 8) = Inr to" by (auto split: sum.splits)
  have "1500 < to \<and> list_all (\<lambda>p. sp_occurred p \<noteq> 1500) (rss_entries (Some to) [blog_entry ''b1'' 1500, blog_entry ''b2'' (days 2)])"
    by (rule pruned_item_stays_behind_the_floor[OF mono _ id(2) _ p(1) _ _ sample_config_loads _ to, where created = 2000])
       (simp_all add: id(1) p(2))
  moreover have "feed_account sample_feed = ''acc''" "cc_retention_days sample_config = 7" by code_simp+
  ultimately show ?thesis using p to id(2) by simp
qed

text \<open>A site whose RSS fetches answer from the same entries, through the connector's own filter.\<close>

definition answers_rss :: "poll_world \<Rightarrow> source_spec \<Rightarrow> source_payload list \<Rightarrow> bool" where
  "answers_rss P spec entries \<longleftrightarrow> (\<forall>since fm. pw_fetch P spec since fm = (rss_entries since entries, None))"

text \<open>C26: an entry dated in the future silences its source. The poll that records it moves the mark past
  the clock, to a value no create, set or seek accepts; from then on the RSS fetch drops every entry of the
  present, so the next poll of the source, whatever present entries the feed has published beside those it
  had, records none of them and changes nothing.\<close>

theorem future_entry_silences_source:
  assumes q: "quiet P" "quiet P'"
    and s: "distinct (map src_id (t_sources d))" "s \<in> set (t_sources d)" "src_account s = feed_account f"
      "src_last_event s = Some mark" "mark \<le> now"
    and spec: "spec_kind spec \<in> set (connector_kinds E)"
    and own: "feed_owned (feed_account f) (feed_id f) (t_items d)"
    and site: "answers_rss P spec entries" "ahead \<in> set entries" "now < sp_occurred ahead"
    and after: "answers_rss P' spec later" "\<forall>x\<in>set later. sp_occurred x \<le> now \<or> x \<in> set entries"
    and run: "poll_source E P f c s spec k d = (d1, r)"
  shows "\<exists>s1 m n. r = Inr (length (rss_entries (Some mark) entries), n) \<and>
    s1 \<in> set (t_sources d1) \<and> src_id s1 = src_id s \<and> src_last_event s1 = Some m \<and>
    sp_occurred ahead \<le> m \<and> enforce_source_watermark m now = Inl SourceWatermarkError \<and>
    poll_source E P' f c s1 spec k' d1 = (d1, Inr (length (rss_entries (Some m) later), 0)) \<and>
    list_all (\<lambda>x. now < sp_occurred x) (rss_entries (Some m) later)"
proof -
  let ?a = "feed_account f" and ?ps = "rss_entries (Some mark) entries"
  let ?m = "polled_newest mark ?ps" and ?label = "display (fe_pystr E) spec"
  have fe: "pw_fetch P spec since fm = (rss_entries since entries, None)"
    "pw_fetch P' spec since fm = (rss_entries since later, None)" for since fm
    using site(1) after(1) by (simp_all add: answers_rss_def)
  obtain d2 n where rec: "record_items (fe_gen E) ?a f ?label (dict_json (src_meta s)) ?ps d = Inr (d2, n)"
    using record_items_total by blast
  obtain new i where d2: "d2 = d\<lparr>t_items := t_items d @ new, next_id := next_id d + i\<rparr>"
    and keys: "poll_keys f ?ps \<subseteq> item_key ` set (t_items d2)" by (rule record_items_frame[OF rec])
  have own2: "feed_owned ?a (feed_id f) (t_items d2)"
    using rec record_chunks_spec[OF own] by (fastforce simp: record_items_def)
  have ahead: "ahead \<in> set ?ps" using site(2,3) s(5) by (simp add: rss_entries_filter)
  have max: "sp_occurred x \<le> ?m" if "x \<in> set ?ps" for x
    unfolding polled_newest_max using that by (intro Max_ge) auto
  have mark: "mark \<le> ?m" unfolding polled_newest_max by (intro Max_ge) auto
  have m: "now < ?m" using max[OF ahead] site(3) by linarith
  have r: "d1 = fst (advance_source_watermark ?a s ?m d2)" "r = Inr (length ?ps, n)"
    using run q(1) spec s(4,5) fe(1) rec m by (simp_all add: poll_source_def Let_def quiet_def flushed_def)
  let ?s1 = "s\<lparr>src_last_event := Some ?m\<rparr>"
  have hit: "advance_hits ?a s ?m s" using s(3-5) m by (simp add: advance_hits_def lt_col_def)
  have src: "?s1 \<in> set (t_sources d1)" unfolding r(1) advance_eq using s(2) hit by (auto simp: d2 set_qupdate)
  have items: "t_items d1 = t_items d2" unfolding r(1) advance_eq by simp
  have late: "now < sp_occurred x \<and> x \<in> set ?ps \<and> sp_occurred x \<le> ?m" if x: "x \<in> set (rss_entries (Some ?m) later)" for x
  proof -
    have "x \<in> set later" "?m \<le> sp_occurred x" using x by (simp_all add: rss_entries_filter)
    then have "x \<in> set entries" using after(2) m by fastforce
    then have "x \<in> set ?ps" using \<open>?m \<le> sp_occurred x\<close> mark by (simp add: rss_entries_filter)
    then show ?thesis using max \<open>?m \<le> sp_occurred x\<close> m by force
  qed
  have again: "record_items (fe_gen E) ?a f ?label (dict_json (src_meta ?s1)) (rss_entries (Some ?m) later) d1 = Inr (d1, 0)"
    unfolding record_items_def
    using record_chunks_known[OF own2[folded items], where cs = "batched RECORD_CHUNK (rss_entries (Some ?m) later)"] keys late
    by (force simp: poll_keys_def items concat_batched)
  have "polled_newest ?m (rss_entries (Some ?m) later) = ?m"
    unfolding polled_newest_max[of ?m] using late by (intro Max_eqI) auto
  then have "poll_source E P' f c ?s1 spec k' d1 = (d1, Inr (length (rss_entries (Some ?m) later), 0))"
    using q(2) spec fe(2) again by (simp add: poll_source_def Let_def quiet_def flushed_def)
  moreover have "enforce_source_watermark ?m now = Inl SourceWatermarkError" using m by (simp add: enforce_source_watermark_def)
  ultimately show ?thesis
    using r(2) src max[OF ahead] late by (intro exI[of _ ?s1] exI[of _ ?m] exI[of _ n]) (simp add: list_all_iff)
qed

theorem future_entry_silences_source_witness:
  "\<exists>d1 s1 r. poll_source sample_feeds (site_world [blog_entry ''typo'' (days 30)] []) sample_feed sample_config blog_source blog_spec 0
       sample_feed_db = (d1, r) \<and> s1 \<in> set (t_sources d1) \<and>
     poll_source sample_feeds (site_world [blog_entry ''news'' (days 2), blog_entry ''typo'' (days 30)] []) sample_feed sample_config s1 blog_spec 0 d1 =
       (d1, Inr (1, 0))"
proof -
  let ?run = "poll_source sample_feeds (site_world [blog_entry ''typo'' (days 30)] []) sample_feed sample_config blog_source blog_spec 0 sample_feed_db"
  obtain d1 r where run: "?run = (d1, r)" by fastforce
  have 1: "distinct (map src_id (t_sources sample_feed_db))" "blog_source \<in> set (t_sources sample_feed_db)"
    "src_account blog_source = feed_account sample_feed" "src_last_event blog_source = Some 0" "0 \<le> days 2"
    "spec_kind blog_spec \<in> set (connector_kinds sample_feeds)"
    "feed_owned (feed_account sample_feed) (feed_id sample_feed) (t_items sample_feed_db)" by code_simp+
  have site: "answers_rss (site_world es []) blog_spec es" for es
    by (simp add: answers_rss_def site_world_def blog_spec_def)
  have ahead: "blog_entry ''typo'' (days 30) \<in> set [blog_entry ''typo'' (days 30)]" "days 2 < sp_occurred (blog_entry ''typo'' (days 30))"
    by (simp_all add: blog_entry_def days_def seconds_def)
  have later: "\<forall>x\<in>set [blog_entry ''news'' (days 2), blog_entry ''typo'' (days 30)].
      sp_occurred x \<le> days 2 \<or> x \<in> set [blog_entry ''typo'' (days 30)]" by (simp add: blog_entry_def)
  from future_entry_silences_source[OF site_world_ok(1) site_world_ok(1) 1 site ahead site later run, of 0]
  obtain s1 m where s1: "s1 \<in> set (t_sources d1)" "days 30 \<le> m"
    "poll_source sample_feeds (site_world [blog_entry ''news'' (days 2), blog_entry ''typo'' (days 30)] []) sample_feed sample_config s1 blog_spec 0 d1 =
     (d1, Inr (length (rss_entries (Some m) [blog_entry ''news'' (days 2), blog_entry ''typo'' (days 30)]), 0))"
    "src_last_event s1 = Some m" "src_id s1 = src_id blog_source"
    by (auto simp: blog_entry_def)
  have "list_all (\<lambda>x. src_id x = src_id blog_source \<longrightarrow> src_last_event x = Some (days 30)) (t_sources (fst ?run))" by code_simp
  then have "m = days 30" using s1 run by (auto simp: list_all_iff)
  then have "length (rss_entries (Some m) [blog_entry ''news'' (days 2), blog_entry ''typo'' (days 30)]) = 1"
    by (simp add: blog_entry_def days_def seconds_def)
  with run s1 show ?thesis by auto
qed

text \<open>A pass over the due feeds accounts for each of them, as polled, skipped under another holder's
  lock or failed, whatever happened to the feeds before it, and leaves the row of every feed that was not
  due as it was.\<close>

theorem poll_pass_accounts_for_every_due_feed:
  assumes "\<And>i. quiet (ps_world W i)" "distinct (map feed_id (t_feeds d))" "poll_due_feeds E W now d = (d', u)"
  shows "ds_feeds u + ds_skipped u + ds_failed u = length (iter_due_for_poll now d) \<and>
    set (filter (\<lambda>f. \<not> due_for_poll now f) (t_feeds d)) \<subseteq> set (t_feeds d')"
proof -
  let ?u0 = "\<lparr>ds_feeds = 0, ds_observed = 0, ds_recorded = 0, ds_skipped = 0, ds_failed = 0\<rparr>"
  have p: "poll_pass E W (iter_due_for_poll now d) 0 d ?u0 = (d', u)" using assms(3) by (simp add: poll_due_feeds_def)
  note spec = poll_pass_spec[OF assms(1), of E "iter_due_for_poll now d" 0 d ?u0, unfolded p fst_conv snd_conv]
  have "feed_id x \<notin> feed_id ` set (iter_due_for_poll now d)" if "x \<in> set (t_feeds d)" "\<not> due_for_poll now x" for x
    using that inj_onD[OF distinct_map[THEN iffD1, OF assms(2), THEN conjunct2]] by (auto simp: iter_due_for_poll_def)
  then have "set (filter (\<lambda>f. \<not> due_for_poll now f) (t_feeds d)) \<subseteq>
      {x \<in> set (t_feeds d). feed_id x \<notin> feed_id ` set (iter_due_for_poll now d)}" by auto
  with spec show ?thesis by auto
qed

text \<open>Four feeds: one polled, one whose config does not load, one whose lock is held, one paused.\<close>

definition feed_called :: "ulid \<Rightarrow> feed" where
  "feed_called i = sample_feed\<lparr>feed_id := i\<rparr>"

definition four_feeds :: db where
  "four_feeds = empty_db\<lparr>t_feeds :=
     [(feed_called ''b'')\<lparr>feed_kind := ''gone''\<rparr>, feed_called ''c'', (feed_called ''d'')\<lparr>feed_active := False\<rparr>, feed_called ''a'']\<rparr>"

theorem poll_pass_accounts_for_every_due_feed_witness:
  "\<exists>d' u. poll_due_feeds sample_feeds \<lparr>ps_world = \<lambda>_. site_world [blog_entry ''b1'' 4] [], ps_held = \<lambda>i. i \<noteq> 1, ps_clock = \<lambda>_. 10\<rparr> 10 four_feeds = (d', u) \<and>
     ds_feeds u = 1 \<and> ds_skipped u = 1 \<and> ds_failed u = 1 \<and>
     ds_feeds u + ds_skipped u + ds_failed u = length (iter_due_for_poll 10 four_feeds)"
proof -
  let ?W = "\<lparr>ps_world = \<lambda>_. site_world [blog_entry ''b1'' 4] [], ps_held = \<lambda>i. i \<noteq> 1, ps_clock = \<lambda>_. 10\<rparr>"
  obtain d' u where p: "poll_due_feeds sample_feeds ?W 10 four_feeds = (d', u)" by fastforce
  have q: "quiet (ps_world ?W i)" for i using site_world_ok(1) by simp
  have dn: "distinct (map feed_id (t_feeds four_feeds))" by code_simp
  have "case poll_due_feeds sample_feeds ?W 10 four_feeds of (d', u) \<Rightarrow> ds_feeds u = 1 \<and> ds_skipped u = 1 \<and> ds_failed u = 1"
    by code_simp
  with poll_pass_accounts_for_every_due_feed[OF q dn p] p show ?thesis by auto
qed

end
