(* ===== verification/Spec2Isabelle.thy ===== *)
theory Spec2Isabelle
  imports Backfill Config_Laws Mailer Device_Sessions Polling_Properties
begin

text \<open>
  OpenMagpie's feeds and watch pipeline: \<open>src/apps/core/feeds\<close>, \<open>src/apps/core/watches\<close>, the
  mailer, the device-flow handshake of \<open>src/apps/core/auth_api\<close>, and the parts of
  \<open>src/apps/core/common\<close> and \<open>src/packages/openmagpie-schema\<close> they rest on.

  How the program works. A feed owns sources (a subreddit, a blog, a search); a poll cycle asks each
  for what is newer than its mark, records every new entry as a row of the items log, moves the
  mark and prunes what retention no longer covers. An operator may seek marks back or forth. A
  watch subscribes to feeds and owns a path, an ordered chain of actions (filter, extract,
  webhook, log). The trigger pass queues one run of the chain's first action per new item and
  moves the subscription's watermark. The drain claims due runs, executes them and, on success,
  queues a run of the next action. An action whose delivery is digest has a window: its runs
  wait in it and the flush emits them in slices as one batch. A backfill job re-queues runs of
  an action over a window of the past, optionally deleting the old ones first.

  The tables are the fields of one record \<open>db\<close> (Tables): a row per model class, a list per
  table. An operation takes the database and returns it updated; a raise is \<open>Inl\<close> of the error,
  and where a raise does not roll back, the result carries the database next to it. A
  conditional UPDATE is \<open>qupdate\<close>, its row count \<open>qcount\<close>, a DELETE \<open>qdelete\<close>, a get
  \<open>qget\<close>. Times are integers in microseconds, ids strings under their own order, which is the
  order of the ULIDs. The clock, the id generator, the settings, DNS and the shape checks of
  the configuration library are parameters, gathered in \<open>env\<close>; the LLM engine, HTTP, page
  fetching and plugins answer through the record \<open>world\<close> (Actions).

  The theories, in the order of the code.

  Shared by all. Prelude: result monad, the queries on tables, \<open>batched\<close> and \<open>dedupe\<close> (itertools.batched,
  dict.fromkeys), stable ordering. Watch_Enums: \<open>watch_enums.py\<close>, \<open>run_messages.py\<close>, the settings
  with their defaults. Tables: the model classes. Samples: a concrete deployment for witnesses.

  Cas_Queue: the work queue as a locale, \<open>cas_queue\<close>. Its operations are claim, finish and
  the writes on busy rows (the reaper); its steps interleave any number of workers, crashes,
  reaps and deletions. Inside it: a success is committed at most once per row, claims are
  bounded by the cap, an older claim cannot commit. Runs interprets it on the run table
  (\<open>services/runs\<close>), Backfill on the job table (\<open>services/backfills.py\<close>).

  Runs: enqueue, claim, complete, reap and the audit reads of the run service, and the backfill
  selection. Digest: \<open>services/digest.py\<close> and \<open>_run_batches.py\<close>, windows and slices, and the
  invariant \<open>no_orphan\<close>: no pending run behind a closed window. Ssrf: \<open>common/ssrf.py\<close> with the
  URL and address parsing it uses. Configs and Config_Laws: the action configurations, masking,
  merging and policy. Chain: \<open>services/watches/_actions.py\<close>, the mutators of a chain with the
  rank constraint of the table and the two-pass renumbering that respects it. Actions: the
  executors and the delivery audit. Drain and Flush: \<open>operations/drain.py\<close>, \<open>advance.py\<close>,
  \<open>digest_flush.py\<close>. Feed_Items: \<open>feeds/services/feeds/_items.py\<close> and \<open>_backfill_select.py\<close>.
  Watches: \<open>services/watches/_service.py\<close> and \<open>_global.py\<close>. Trigger: \<open>operations/trigger.py\<close>
  and its command; a feed's writes are a list of commits, and \<open>trigger_states\<close> lists the databases
  a pass can be cut off at. Backfill: \<open>operations/backfill.py\<close>, its queue, command and endpoint.

  Source_Specs: the source union of \<open>configs.py\<close>, its validators and the canonical form sources are
  told apart by. Windows: \<open>run_windows.py\<close>. Sources: the feed service, \<open>services/sources.py\<close>,
  \<open>_sources_seek.py\<close> and \<open>feeds/policy.py\<close>; Source_Laws has the invariant \<open>feeds_ok\<close> and its
  preservation, Feed_Properties the properties and a deployment for their witnesses. Polling:
  \<open>services/polling.py\<close>, \<open>_reddit_batch.py\<close>, \<open>_poll_common.py\<close> and the two commands. Connectors, of
  which only the RSS fetch's filter on the mark is modelled (\<open>rss_entries\<close>), the
  lease and the shuffle are fields of \<open>poll_world\<close>, and so is \<open>pw_others\<close>, what other processes write
  to the database at the two points where a poll has let it go. Polling_Laws has the locale
  \<open>poll_writes\<close> (what both writes of a poll keep, a cycle keeps), interpreted for three invariants,
  and Polling_Properties the properties.

  Locks: \<open>common/locks.py\<close>, \<open>lease_renewer.py\<close> and the single-flight command, with the locale
  \<open>lease_lock\<close>; a renewal and a release are two cache calls each, interleaved as such. Mailer: \<open>mailer/services\<close> and its command, another interpretation of
  \<open>cas_queue\<close>. Device_Sessions: the views of the handshake over their cache store, as steps.

  What the lemmas show. Run and job tables: the interleaving results above, exactness and
  idempotence of enqueueing. Chain: every mutator keeps ranks dense and unique and stores what
  was submitted. Drain, Flush, Trigger: each run on its own keeps the pipeline invariant (\<open>pipeline_ok\<close>) and does
  what its docstring says, errors included; the flush returns. Watches: references hold after any
  sequence of operations, deletion is exact, edits keep watermarks. Backfill: a preview equals the
  execution, a replace regenerates exactly and deletes once. Configurations: policy, secrets, SSRF.
  Feeds: the tables stay typed under any sequence of operations, a reconcile stores what was
  submitted and keeps the marks of what stays, a seek reaches its target. Polling: marks move only
  over recorded entries, a concurrent seek wins, a combined request is one request per subreddit,
  an outage prunes nothing, a cycle with clean errors returns and is due again one interval later.
  Locks: no two holders inside their leases unless a window ended between the read and the write of
  its holder (the overlap \<open>locks.py\<close> accepts, of which a lemma runs one), a hung job lets go. Mailer and handshake: at most one send, tokens reach their own CLI.
  Six properties state defects, each for every database that meets its hypotheses and with a concrete
  run as its witness: a completion outlives a denial, an entry
  dated in the future silences its source, a broken successor undoes a delivered completion, a flush between two feeds of a trigger pass strands runs, a reorder between the
  request and the job makes a replace lose runs, a backfill of a digest action queues runs nobody
  picks up.

  Termination and fuel. Recursions over tables carry measures (\<open>keyset_pages\<close>, \<open>window_pages\<close>,
  \<open>chain_from\<close>). The flush loop (\<open>flush_run\<close>) takes fuel, one unit per slice, and \<open>flush_ends\<close>
  shows that one more than the number of runs pending behind the window suffices, when the
  executor never answers PENDING.

  Not modelled: HTTP parsing and rendering around the services, the connectors that talk to the
  external sites, the LLM engine, email rendering and SMTP, accounts and token authentication,
  short links, telemetry, plugin loading, the settings beyond the tunables read here and the
  command-line client: they are I/O over third-party libraries, or independent of the pipeline.
  The lookups and signals of the operator commands that clear locks are left out. Progress output and log lines are
  left out of every operation, as are the created and updated stamps, which no modelled branch
  reads.
\<close>

end
